(* ===== verification/Prelude.thy ===== *)
theory Prelude
  imports Main "HOL-Library.Word"
begin

unbundle bit_operations_syntax

text \<open>
  What every component of the model shares: results that may be a fault, machine shifts
  with their defined range, little-endian words in byte buffers, and the lemmas about them.

  A function of the code that can assert, read or write outside its buffer, or shift by a
  count the language leaves undefined returns a value of \<open>'a res\<close>: \<open>Inl\<close> a fault or
  \<open>Inr\<close> the value.  The collection \<open>res_simps\<close> evaluates the sequencing of such results;
  \<open>buf_simps\<close> moves statements about buffers to statements about their bits.
\<close>

named_theorems res_simps
named_theorems buf_simps

section \<open>Results with faults\<close>

datatype fault =
    Shift_Undefined      \<comment> \<open>shift count not below the (promoted) width\<close>
  | Out_Of_Bounds        \<comment> \<open>access outside an object\<close>
  | Assertion_Failed     \<comment> \<open>an \<^verbatim>\<open>assert\<close> of the code (NDEBUG is undefined throughout)\<close>
  | Signed_Overflow      \<comment> \<open>signed arithmetic outside its type\<close>
  | Division_By_Zero     \<comment> \<open>an integer division by zero\<close>
  | Process_Exit         \<comment> \<open>a failed check that prints its message and ends the process\<close>
  | Out_Of_Fuel          \<comment> \<open>the bound given for a loop was too small\<close>

type_synonym 'a res = "fault + 'a"
type_synonym byte = "8 word"
type_synonym u8 = "8 word"
type_synonym u16 = "16 word"
type_synonym u32 = "32 word"
type_synonym u64 = "64 word"
type_synonym u128 = "128 word"
type_synonym buffer = "8 word list"

definition and_then :: "'a res \<Rightarrow> ('a \<Rightarrow> 'b res) \<Rightarrow> 'b res" where
  "and_then r f = (case r of Inl e \<Rightarrow> Inl e | Inr x \<Rightarrow> f x)"

definition assert_that :: "bool \<Rightarrow> unit res" where
  "assert_that b = (if b then Inr () else Inl Assertion_Failed)"

primrec fold_res :: "('a \<Rightarrow> 's \<Rightarrow> 's res) \<Rightarrow> 'a list \<Rightarrow> 's \<Rightarrow> 's res" where
  "fold_res f [] s = Inr s"
| "fold_res f (x # xs) s = and_then (f x s) (fold_res f xs)"

primrec map_res :: "('a \<Rightarrow> 'b res) \<Rightarrow> 'a list \<Rightarrow> 'b list res" where
  "map_res f [] = Inr []"
| "map_res f (x # xs) = and_then (f x) (\<lambda>y. and_then (map_res f xs) (\<lambda>ys. Inr (y # ys)))"

lemma and_then_simps [simp, res_simps]:
  "and_then (Inl e) f = Inl e"
  "and_then (Inr x) f = f x"
  by (simp_all add: and_then_def)

lemma and_then_Inr_iff [res_simps]:
  "and_then r f = Inr y \<longleftrightarrow> (\<exists>x. r = Inr x \<and> f x = Inr y)"
  by (cases r) simp_all

lemma and_then_assoc: "and_then (and_then r f) g = and_then r (\<lambda>x. and_then (f x) g)"
  by (cases r) simp_all

lemma and_then_cong [fundef_cong]:
  "r = r' \<Longrightarrow> (\<And>x. r' = Inr x \<Longrightarrow> f x = g x) \<Longrightarrow> and_then r f = and_then r' g"
  by (cases r') simp_all

lemma assert_that_simps [simp, res_simps]:
  "assert_that True = Inr ()"
  "assert_that False = Inl Assertion_Failed"
  "assert_that b = Inr u \<longleftrightarrow> b"
  by (simp_all add: assert_that_def)

lemma fold_res_append [res_simps]:
  "fold_res f (xs @ ys) s = and_then (fold_res f xs s) (fold_res f ys)"
  by (induction xs arbitrary: s) (simp_all add: and_then_assoc and_then_def split: sum.splits)

text \<open>An invariant of a loop: kept by every step that succeeds.\<close>

lemma fold_res_invariant:
  assumes "fold_res f xs s = Inr t" and "P s"
    and "\<And>x s s'. x \<in> set xs \<Longrightarrow> P s \<Longrightarrow> f x s = Inr s' \<Longrightarrow> P s'"
  shows "P t"
  using assms by (induction xs arbitrary: s) (auto simp: res_simps)

lemma map_res_total:
  assumes "\<And>x. x \<in> set xs \<Longrightarrow> f x = Inr (g x)"
  shows "map_res f xs = Inr (map g xs)"
  using assms by (induction xs) simp_all

lemma map_res_InrD: "map_res f xs = Inr ys \<Longrightarrow> length ys = length xs \<and> (\<forall>i<length xs. f (xs ! i) = Inr (ys ! i))"
proof (induction xs arbitrary: ys)
  case Nil
  then show ?case by simp
next
  case (Cons x xs)
  then show ?case by (auto simp: res_simps less_Suc_eq_0_disj)
qed

section \<open>Shifts\<close>

text \<open>
  Operands narrower than \<^verbatim>\<open>int\<close> are promoted to 32 bits, so a shift count is defined
  below 32 even for them; the result is converted back to the operand's type by every
  caller, which is what shifting the unpromoted word computes.  A right shift of a signed
  operand is arithmetic.
\<close>

definition shl :: "'a::len word \<Rightarrow> nat \<Rightarrow> 'a word res" where
  "shl w n = (if n < max 32 LENGTH('a) then Inr (push_bit n w) else Inl Shift_Undefined)"

definition shr :: "bool \<Rightarrow> 'a::len word \<Rightarrow> nat \<Rightarrow> 'a word res" where
  "shr sg w n =
     (if n < max 32 LENGTH('a) then Inr (if sg then signed_drop_bit n w else drop_bit n w)
      else Inl Shift_Undefined)"

lemma shl_ok [simp]: "n < LENGTH('a) \<Longrightarrow> shl (w :: 'a::len word) n = Inr (push_bit n w)"
  by (simp add: shl_def)

lemma shr_ok [simp]:
  "n < LENGTH('a) \<Longrightarrow>
     shr sg (w :: 'a::len word) n = Inr (if sg then signed_drop_bit n w else drop_bit n w)"
  by (simp add: shr_def)

lemma unat_distance_less:
  assumes "(a :: 'a::len word) \<noteq> b"
  shows "unat (a - (b + 1)) < unat (a - b)"
proof -
  have nz: "a - b \<noteq> 0" using assms by simp
  then have "unat (a - b) \<noteq> 0" by (simp only: unat_eq_0 not_False_eq_True)
  with nz show ?thesis by (simp add: diff_diff_eq [symmetric] unat_minus_one)
qed

text \<open>Conversion between integer types: sign- or zero-extending by the source's signedness.\<close>

definition conv :: "bool \<Rightarrow> 'a::len word \<Rightarrow> 'b::len word" where
  "conv sg w = (if sg then scast w else ucast w)"

lemma conv_unsigned [simp]: "conv False w = ucast w"
  by (simp add: conv_def)

section \<open>Words in byte buffers (little endian)\<close>

primrec le_word :: "buffer \<Rightarrow> 'a::len word" where
  "le_word [] = 0"
| "le_word (b # bs) = ucast b OR push_bit 8 (le_word bs)"

definition le_bytes :: "nat \<Rightarrow> 'a::len word \<Rightarrow> buffer" where
  "le_bytes n w = map (\<lambda>i. ucast (drop_bit (8 * i) w)) [0..<n]"

abbreviation sizeof :: "'a::len itself \<Rightarrow> nat" where
  "sizeof T \<equiv> LENGTH('a) div 8"

definition load :: "buffer \<Rightarrow> nat \<Rightarrow> 'a::len word res" where
  "load buf off =
     (if off + LENGTH('a) div 8 \<le> length buf
      then Inr (le_word (take (LENGTH('a) div 8) (drop off buf)))
      else Inl Out_Of_Bounds)"

definition load_bytes :: "nat \<Rightarrow> buffer \<Rightarrow> nat \<Rightarrow> buffer res" where
  "load_bytes n buf off =
     (if off + n \<le> length buf then Inr (take n (drop off buf)) else Inl Out_Of_Bounds)"

definition store :: "buffer \<Rightarrow> nat \<Rightarrow> 'a::len word \<Rightarrow> buffer res" where
  "store buf off w =
     (if off + LENGTH('a) div 8 \<le> length buf
      then Inr (take off buf @ le_bytes (LENGTH('a) div 8) w @ drop (off + LENGTH('a) div 8) buf)
      else Inl Out_Of_Bounds)"

definition buf_bit :: "buffer \<Rightarrow> nat \<Rightarrow> bool" where
  "buf_bit buf p \<longleftrightarrow> p div 8 < length buf \<and> bit (buf ! (p div 8)) (p mod 8)"

text \<open>The \<open>n\<close> bits of a buffer from bit \<open>s\<close> on, as a number.\<close>

definition field :: "buffer \<Rightarrow> nat \<Rightarrow> nat \<Rightarrow> 'a::len word" where
  "field buf s n = horner_sum of_bool 2 (map (\<lambda>j. buf_bit buf (s + j)) [0..<n])"

lemma length_le_bytes [simp]: "length (le_bytes n w) = n"
  by (simp add: le_bytes_def)

lemma nth_le_bytes [simp]: "i < n \<Longrightarrow> le_bytes n w ! i = ucast (drop_bit (8 * i) w)"
  by (simp add: le_bytes_def)

lemma bit_le_word [bit_simps]:
  "bit (le_word bs :: 'a::len word) i \<longleftrightarrow>
     i < LENGTH('a) \<and> i div 8 < length bs \<and> bit (bs ! (i div 8)) (i mod 8)"
proof (induction bs arbitrary: i)
  case Nil
  then show ?case by simp
next
  case (Cons b bs)
  show ?case
  proof (cases "i < 8")
    case True
    then show ?thesis by (auto simp: bit_simps)
  next
    case False
    then obtain k where k: "i = k + 8" by (metis add.commute le_iff_add not_less)
    have "(k + 8) div 8 = Suc (k div 8)" by simp
    then show ?thesis
      by (auto simp: k bit_simps Cons.IH dest: bit_imp_le_length)
  qed
qed

lemma le_word_le_bytes:
  "n * 8 = LENGTH('a) \<Longrightarrow> le_word (le_bytes n (w :: 'a::len word)) = w"
  by (rule bit_word_eqI) (auto simp: bit_simps)

lemma le_bytes_le_word:
  "length bs * 8 = LENGTH('a) \<Longrightarrow> le_bytes (length bs) (le_word bs :: 'a::len word) = bs"
  by (rule nth_equalityI) (auto intro!: bit_word_eqI simp: bit_simps)

lemma bit_field [bit_simps]:
  "bit (field buf s n :: 'a::len word) j \<longleftrightarrow> j < LENGTH('a) \<and> j < n \<and> buf_bit buf (s + j)"
  by (auto simp: field_def bit_simps)

lemma buf_bit_eqI:
  assumes "length a = length b" and "\<And>p. p < 8 * length a \<Longrightarrow> buf_bit a p = buf_bit b p"
  shows "a = b"
proof (rule nth_equalityI)
  show "length a = length b" by (rule assms)
  fix i assume i: "i < length a"
  show "a ! i = b ! i"
  proof (rule bit_word_eqI)
    fix n :: nat assume "n < LENGTH(8)"
    then show "bit (a ! i) n = bit (b ! i) n"
      using assms(2) [of "8 * i + n"] i assms(1) by (simp add: buf_bit_def)
  qed
qed

lemma load_ok [simp]:
  "off + LENGTH('a) div 8 \<le> length buf \<Longrightarrow>
     (load buf off :: 'a::len word res) = Inr (le_word (take (LENGTH('a) div 8) (drop off buf)))"
  by (simp add: load_def)

lemma load_append_left:
  "off + LENGTH('a) div 8 \<le> length xs \<Longrightarrow> (load (xs @ ys) off :: 'a::len word res) = load xs off"
  by (simp add: load_def)

lemma load_append_right:
  "length xs \<le> off \<Longrightarrow> (load (xs @ ys) off :: 'a::len word res) = load ys (off - length xs)"
  by (auto simp: load_def)

lemma load_le_bytes:
  "LENGTH('a) div 8 * 8 = LENGTH('a) \<Longrightarrow>
     load (le_bytes (LENGTH('a) div 8) (w :: 'a::len word) @ ys) 0 = Inr w"
  by (simp add: load_def le_word_le_bytes)

lemma load_field [buf_simps]:
  assumes "8 dvd LENGTH('a)" and "off + LENGTH('a) div 8 \<le> length buf"
  shows "(load buf off :: 'a::len word res) = Inr (field buf (8 * off) LENGTH('a))"
proof -
  have "le_word (take (LENGTH('a) div 8) (drop off buf)) = (field buf (8 * off) LENGTH('a) :: 'a word)"
  proof (rule bit_word_eqI)
    fix n assume n: "n < LENGTH('a)"
    then have "n div 8 < LENGTH('a) div 8" using assms(1) by (auto elim!: dvdE)
    moreover have "(8 * off + n) div 8 = off + n div 8" by simp
    moreover have "(8 * off + n) mod 8 = n mod 8" by simp
    ultimately show "bit (le_word (take (LENGTH('a) div 8) (drop off buf)) :: 'a word) n
        = bit (field buf (8 * off) LENGTH('a) :: 'a word) n"
      using n assms(2) by (simp add: bit_simps buf_bit_def)
  qed
  with assms(2) show ?thesis by (simp add: load_def)
qed

lemma load_Inr_iff:
  "(load buf off :: 'a::len word res) = Inr w \<longleftrightarrow>
     off + LENGTH('a) div 8 \<le> length buf \<and> w = le_word (take (LENGTH('a) div 8) (drop off buf))"
  by (auto simp: load_def)

lemma store_Inr_iff:
  "store buf off (w :: 'a::len word) = Inr buf' \<longleftrightarrow>
     off + LENGTH('a) div 8 \<le> length buf \<and>
     buf' = take off buf @ le_bytes (LENGTH('a) div 8) w @ drop (off + LENGTH('a) div 8) buf"
  by (auto simp: store_def)

lemma store_length: "store buf off (w :: 'a::len word) = Inr buf' \<Longrightarrow> length buf' = length buf"
  by (auto simp: store_Inr_iff)

lemma store_exists:
  assumes "off + LENGTH('a) div 8 \<le> length buf"
  obtains buf' where "store buf off (w :: 'a::len word) = Inr buf'"
  using assms by (auto simp: store_def)

text \<open>Storing a word changes exactly the bits of its bytes.\<close>

lemma store_bit:
  assumes st: "store buf off (w :: 'a::len word) = Inr buf'" and dv: "8 dvd LENGTH('a)"
  shows "buf_bit buf' p \<longleftrightarrow>
    (if 8 * off \<le> p \<and> p < 8 * off + LENGTH('a) then bit w (p - 8 * off) else buf_bit buf p)"
proof -
  let ?n = "LENGTH('a) div 8"
  have n8: "8 * ?n = LENGTH('a)" using dv by simp
  from st have le: "off + ?n \<le> length buf"
    and b': "buf' = take off buf @ le_bytes ?n w @ drop (off + ?n) buf"
    by (auto simp: store_Inr_iff)
  have len: "length buf' = length buf" using le b' by simp
  consider (lo) "p div 8 < off" | (mid) "off \<le> p div 8" "p div 8 < off + ?n" | (hi) "off + ?n \<le> p div 8"
    by linarith
  then show ?thesis
  proof cases
    case lo
    then have "p < 8 * off" by linarith
    with lo show ?thesis using le by (simp add: buf_bit_def len) (simp add: b' nth_append)
  next
    case mid
    then have in_rng: "8 * off \<le> p" "p < 8 * off + LENGTH('a)" using n8 by linarith+
    then obtain k where k: "p = 8 * off + k" "k < LENGTH('a)" by (metis le_iff_add nat_add_left_cancel_less)
    have "p div 8 - off < ?n" using mid by linarith
    then have "buf' ! (p div 8) = ucast (drop_bit (8 * (p div 8 - off)) w)"
      using mid le by (simp add: b' nth_append)
    moreover have "p div 8 - off = k div 8" "p mod 8 = k mod 8" using k by simp_all
    ultimately show ?thesis
      using mid le in_rng k by (simp add: buf_bit_def len bit_simps)
  next
    case hi
    then have nr: "\<not> p < 8 * off + LENGTH('a)" using n8 by linarith
    have "\<not> p div 8 - off < ?n" using hi by linarith
    then have "buf' ! (p div 8) = buf ! (p div 8)"
      using hi le by (simp add: b' nth_append)
    with nr show ?thesis by (simp add: buf_bit_def len)
  qed
qed

lemma field_cong:
  "(\<And>j. j < n \<Longrightarrow> buf_bit a (s + j) = buf_bit b (t + j)) \<Longrightarrow> field a s n = field b t n"
  unfolding field_def by (rule arg_cong [where f = "horner_sum of_bool 2"]) (rule map_cong, simp_all)

section \<open>Byte strings at a place in memory\<close>

definition has_bytes :: "buffer \<Rightarrow> nat \<Rightarrow> buffer \<Rightarrow> bool" where
  "has_bytes mem p bs \<longleftrightarrow> p + length bs \<le> length mem \<and> take (length bs) (drop p mem) = bs"

lemma has_bytes_append:
  "has_bytes mem p (xs @ ys) \<longleftrightarrow> has_bytes mem p xs \<and> has_bytes mem (p + length xs) ys"
  by (auto simp: has_bytes_def take_add append_eq_append_conv add.commute)

lemma has_bytes_at: "has_bytes (pre @ bs @ post) (length pre) bs"
  by (simp add: has_bytes_def)

lemma has_bytes_Nil [simp]: "has_bytes mem p [] \<longleftrightarrow> p \<le> length mem"
  by (simp add: has_bytes_def)

lemma has_bytes_bound: "has_bytes mem p bs \<Longrightarrow> p + length bs \<le> length mem"
  by (simp add: has_bytes_def)

lemma has_bytes_extend: "has_bytes mem p bs \<Longrightarrow> has_bytes (mem @ more) p bs"
  by (auto simp: has_bytes_def)

lemma load_has_bytes [buf_simps]:
  assumes "has_bytes mem p (le_bytes n w)" and "8 * n = LENGTH('a)"
  shows "load mem p = Inr (w :: 'a::len word)"
proof -
  have "LENGTH('a) div 8 = n" using assms(2) by simp
  then show ?thesis
    using assms by (simp add: load_def has_bytes_def le_word_le_bytes mult.commute)
qed

lemma load_bytes_has_bytes [buf_simps]: "has_bytes mem p bs \<Longrightarrow> length bs = n \<Longrightarrow> load_bytes n mem p = Inr bs"
  by (auto simp: load_bytes_def has_bytes_def)

lemma length_concat_le_bytes [simp]: "length (concat (map (le_bytes n) xs)) = n * length xs"
  by (induction xs) auto

lemma has_bytes_words:
  "has_bytes mem p (concat (map (le_bytes n) xs)) \<Longrightarrow> i < length xs \<Longrightarrow> has_bytes mem (p + n * i) (le_bytes n (xs ! i))"
proof (induction xs arbitrary: p i)
  case Nil
  then show ?case by simp
next
  case (Cons x xs)
  then have "has_bytes mem p (le_bytes n x)" "has_bytes mem (p + n) (concat (map (le_bytes n) xs))"
    by (simp_all add: has_bytes_append)
  with Cons.IH [of "p + n"] Cons.prems(2) show ?case
    by (cases i) (simp_all add: add.assoc)
qed

lemma load_words:
  assumes "has_bytes mem p (concat (map (le_bytes n) xs))" and "8 * n = LENGTH('a)"
  shows "map_res (\<lambda>i. load mem (p + n * i)) [0..<length xs] = Inr (xs :: 'a::len word list)"
  using map_res_total [of "[0..<length xs]" "\<lambda>i. load mem (p + n * i)" "\<lambda>i. xs ! i"]
    load_has_bytes [OF has_bytes_words [OF assms(1)] assms(2)]
  by (simp add: map_nth)

lemma fold_res_upt:
  assumes "\<And>i s. i < length xs \<Longrightarrow> f i s = Inr (h (xs ! i) s)"
  shows "fold_res f [0..<length xs] s = Inr (fold h xs s)"
  using assms
proof (induction xs rule: rev_induct)
  case Nil
  then show ?case by simp
next
  case (snoc x xs)
  have "fold_res f [0..<length xs] s = Inr (fold h xs s)"
    by (rule snoc.IH) (use snoc.prems in \<open>simp add: nth_append\<close>)
  then show ?case using snoc.prems [of "length xs"] by (simp add: fold_res_append)
qed

end
