(* ===== verification/IntTypes.thy ===== *)
theory IntTypes
  imports Prelude
begin

text \<open>
  The integer-type arithmetic of \<^verbatim>\<open>include/xnu-trace/common.h\<close> and the power-of-two
  helpers of \<^verbatim>\<open>include/xnu-trace/utils.h\<close>: the width of \<^verbatim>\<open>int_n\<close>, the page
  constants, \<^verbatim>\<open>is_pow2\<close>, \<^verbatim>\<open>roundup_pow2_mul\<close> and \<^verbatim>\<open>rounddown_pow2_mul\<close>.
\<close>

section \<open>Widths of the sized integer types\<close>

text \<open>The width in bits of \<^verbatim>\<open>uint_n<NBits>\<close>; \<open>None\<close> where the alias is \<^verbatim>\<open>void\<close>.\<close>

definition uint_n :: "nat \<Rightarrow> nat option" where
  "uint_n nbits =
     (if 0 < nbits \<and> nbits \<le> 8 then Some 8
      else if 8 < nbits \<and> nbits \<le> 16 then Some 16
      else if 16 < nbits \<and> nbits \<le> 32 then Some 32
      else if 32 < nbits \<and> nbits \<le> 64 then Some 64
      else if 64 < nbits \<and> nbits \<le> 128 then Some 128
      else None)"

definition sint_n :: "nat \<Rightarrow> nat option" where
  "sint_n nbits =
     (if 0 < nbits \<and> nbits \<le> 8 then Some 8
      else if 8 < nbits \<and> nbits \<le> 16 then Some 16
      else if 16 < nbits \<and> nbits \<le> 32 then Some 32
      else if 32 < nbits \<and> nbits \<le> 64 then Some 64
      else if 64 < nbits \<and> nbits \<le> 128 then Some 128
      else None)"

definition int_n :: "nat \<Rightarrow> bool \<Rightarrow> nat option" where
  "int_n nbits sg = (if sg then sint_n nbits else uint_n nbits)"

lemma int_n_smallest:
  "int_n n sg = Some w \<longleftrightarrow>
     0 < n \<and> n \<le> w \<and> w \<in> {8, 16, 32, 64, 128} \<and> (w = 8 \<or> w div 2 < n)"
  by (auto simp: int_n_def uint_n_def sint_n_def)

section \<open>Pages\<close>

definition PAGE_SZ :: "u64" where "PAGE_SZ = 4 * 1024"
definition PAGE_SZ_LOG2 :: nat where "PAGE_SZ_LOG2 = 12"
definition PAGE_SZ_MASK :: "u64" where "PAGE_SZ_MASK = 0xfff"

section \<open>Powers of two\<close>

text \<open>\<^verbatim>\<open>std::popcount\<close>.\<close>

definition popcount :: "'a::len word \<Rightarrow> nat" where
  "popcount w = length (filter (bit w) [0..<LENGTH('a)])"

definition is_pow2 :: "'a::len word \<Rightarrow> bool" where
  "is_pow2 num \<longleftrightarrow> popcount num = 1"

definition roundup_pow2_mul :: "'u::len word \<Rightarrow> u64 \<Rightarrow> 'u word" where
  "roundup_pow2_mul num pow2_mul =
     (let mask = ucast pow2_mul - 1 in (num + mask) AND NOT mask)"

definition rounddown_pow2_mul :: "'u::len word \<Rightarrow> u64 \<Rightarrow> 'u word" where
  "rounddown_pow2_mul num pow2_mul =
     (let mask = ucast pow2_mul - 1 in num AND NOT mask)"

lemma popcount_eq_card: "popcount (w :: 'a::len word) = card {i. bit w i}"
proof -
  have "set (filter (bit w) [0..<LENGTH('a)]) = {i. bit w i}"
    by (auto dest: bit_imp_le_length)
  then show ?thesis
    unfolding popcount_def by (metis distinct_card distinct_filter distinct_upt)
qed

lemma is_pow2_iff: "is_pow2 (w :: 'a::len word) \<longleftrightarrow> (\<exists>k<LENGTH('a). w = push_bit k 1)"
proof
  assume "is_pow2 w"
  then obtain k where k: "{i. bit w i} = {k}"
    by (auto simp: is_pow2_def popcount_eq_card card_1_singleton_iff)
  then have "bit w k" by auto
  then have "k < LENGTH('a)" by (rule bit_imp_le_length)
  moreover have "w = push_bit k 1"
    by (rule bit_word_eqI) (use k in \<open>auto simp: bit_simps\<close>)
  ultimately show "\<exists>k<LENGTH('a). w = push_bit k 1" by blast
next
  assume "\<exists>k<LENGTH('a). w = push_bit k 1"
  then obtain k where "k < LENGTH('a)" "w = push_bit k 1" by blast
  then have "{i. bit w i} = {k}" by (auto simp: bit_simps)
  then show "is_pow2 w" by (simp add: is_pow2_def popcount_eq_card)
qed

lemma and_not_mask_eq:
  "num AND NOT (mask k) = push_bit k (drop_bit k (num :: 'u::len word))"
  by (rule bit_word_eqI) (auto simp: bit_simps)

lemma unat_and_not_mask:
  "unat (num AND NOT (mask k) :: 'u::len word) = unat num div 2 ^ k * 2 ^ k"
proof -
  have "unat (num AND NOT (mask k)) = push_bit k (drop_bit k (unat num))"
    by (rule bit_eqI) (auto simp: bit_simps dest: bit_imp_le_length)
  then show ?thesis by (simp add: push_bit_eq_mult drop_bit_eq_div)
qed

lemma pow2_mask:
  assumes "k < LENGTH('u)" and "k < 64"
  shows "(ucast (push_bit k 1 :: u64) :: 'u::len word) - 1 = mask k"
proof -
  have "(ucast (push_bit k 1 :: u64) :: 'u word) = push_bit k 1"
    by (rule bit_word_eqI) (use assms in \<open>auto simp: bit_simps\<close>)
  then show ?thesis by (simp add: mask_eq_decr_exp push_bit_eq_mult)
qed

lemma rounddown_pow2_mul_eq:
  assumes "k < LENGTH('u)" and "k < 64"
  shows "unat (rounddown_pow2_mul (num :: 'u::len word) (push_bit k 1)) = unat num div 2 ^ k * 2 ^ k"
  using pow2_mask [where 'u = 'u, OF assms] by (simp add: rounddown_pow2_mul_def unat_and_not_mask)

lemma roundup_pow2_mul_eq:
  assumes "k < LENGTH('u)" and "k < 64" and "unat num + (2 ^ k - 1) < 2 ^ LENGTH('u)"
  shows "unat (roundup_pow2_mul (num :: 'u::len word) (push_bit k 1)) =
    (unat num + (2 ^ k - 1)) div 2 ^ k * 2 ^ k"
proof -
  have "unat (mask k :: 'u word) = mask k"
    by (rule bit_eqI) (use assms(1) in \<open>auto simp: bit_simps\<close>)
  then have m: "unat (mask k :: 'u word) = 2 ^ k - 1" by (simp add: mask_eq_exp_minus_1)
  then have "unat (num + mask k) = unat num + (2 ^ k - 1)"
    using assms(3) by (simp add: unat_word_ariths)
  then show ?thesis
    using pow2_mask [where 'u = 'u, OF assms(1,2)]
    unfolding roundup_pow2_mul_def Let_def by (simp add: unat_and_not_mask)
qed

text \<open>Rounding up gives the least multiple that is not below the argument.\<close>

lemma roundup_div_bounds:
  fixes n m :: nat assumes "0 < m"
  shows "n \<le> (n + (m - 1)) div m * m" and "(n + (m - 1)) div m * m < n + m"
    and "m dvd (n + (m - 1)) div m * m"
proof -
  have "(n + (m - 1)) div m * m + (n + (m - 1)) mod m = n + (m - 1)" by simp
  moreover have "(n + (m - 1)) mod m < m" using assms by simp
  ultimately show "n \<le> (n + (m - 1)) div m * m" and "(n + (m - 1)) div m * m < n + m"
    using assms by linarith+
qed simp

end
