(* ===== verification/BitOps.thy ===== *)
theory BitOps
  imports IntTypes
begin

text \<open>
  The bit-field primitives at the top of \<^verbatim>\<open>include/xnu-trace/BitVector.h\<close>:
  \<^verbatim>\<open>bit_mask_unsafe\<close>, \<^verbatim>\<open>bit_mask_safe\<close>, \<^verbatim>\<open>bit_mask\<close>, \<^verbatim>\<open>extract_bits\<close>,
  \<^verbatim>\<open>insert_bits\<close>, \<^verbatim>\<open>insert_bits_into\<close>, \<^verbatim>\<open>insert_bits_atomic\<close> and
  \<^verbatim>\<open>sign_extend\<close>.  The shift counts the language leaves undefined are faults, so each
  lemma states the range in which the primitive is defined.  The word type is the template
  parameter \<^verbatim>\<open>T\<close>; where its signedness matters (right shifts) it is the argument
  \<open>sg\<close>.
\<close>

section \<open>Definitions\<close>

text \<open>
  \<^verbatim>\<open>sizeofbits<T>() - nbits\<close> is computed in \<^verbatim>\<open>size_t\<close>: a count above the width
  wraps to a huge number, which is out of range for the shift.
\<close>

definition bit_mask_unsafe :: "nat \<Rightarrow> 't::len word res" where
  "bit_mask_unsafe nbits =
     (if nbits \<le> LENGTH('t) then shr False (- 1 :: 't word) (LENGTH('t) - nbits)
      else Inl Shift_Undefined)"

definition bit_mask_safe :: "nat \<Rightarrow> 't::len word res" where
  "bit_mask_safe nbits = (if nbits \<noteq> 0 then bit_mask_unsafe nbits else Inr 0)"

definition bit_mask :: "nat \<Rightarrow> nat \<Rightarrow> 't::len word res" where
  "bit_mask sb nbits = and_then (bit_mask_unsafe nbits) (\<lambda>m. shl m sb)"

definition extract_bits :: "bool \<Rightarrow> 't::len word \<Rightarrow> nat \<Rightarrow> nat \<Rightarrow> 't word res" where
  "extract_bits sg val sb nbits =
     and_then (shr sg val sb) (\<lambda>v. and_then (bit_mask 0 nbits) (\<lambda>m. Inr (v AND m)))"

text \<open>The value is converted to \<^verbatim>\<open>T\<close> by the caller's \<open>conv\<close>; its high bits are not masked.\<close>

definition insert_bits :: "'t::len word \<Rightarrow> 't word \<Rightarrow> nat \<Rightarrow> nat \<Rightarrow> 't word res" where
  "insert_bits orig_val insert_val sb nbits =
     and_then (bit_mask sb nbits) (\<lambda>m.
       let orig_val_cleared = orig_val AND NOT m in
       and_then (shl insert_val sb) (\<lambda>v. Inr (orig_val_cleared OR v)))"

definition insert_bits_into ::
    "'t::len itself \<Rightarrow> bool \<Rightarrow> 'dt::len itself \<Rightarrow> buffer \<Rightarrow> 't word \<Rightarrow> nat \<Rightarrow> nat \<Rightarrow> buffer res" where
  "insert_bits_into T sg DT buf insert_val sb nbits =
     (let TBits = LENGTH('t); widx = sb div TBits; bidx = sb - widx * TBits;
          wptr = widx * sizeof TYPE('t)
      in and_then (load buf wptr) (\<lambda>w :: 'dt word.
         and_then (insert_bits w (conv sg insert_val) bidx nbits) (\<lambda>w'. store buf wptr w')))"

text \<open>The two read-modify-write operations of the atomic insertion, in order.\<close>

definition insert_bits_atomic :: "'t::len word \<Rightarrow> 't word \<Rightarrow> nat \<Rightarrow> nat \<Rightarrow> 't word res" where
  "insert_bits_atomic orig_val insert_val sb nbits =
     and_then (bit_mask sb nbits) (\<lambda>m.
       let after_and = orig_val AND NOT m in
       and_then (shl insert_val sb) (\<lambda>v. Inr (after_and OR v)))"

text \<open>
  \<^verbatim>\<open>const T msb = 1 << (nbits - 1)\<close> shifts an \<^verbatim>\<open>int\<close>: the count must be below 32
  whatever \<open>T\<close> is, and the 32-bit result is converted (sign-extending) to \<open>T\<close>.
\<close>

definition sign_extend :: "'t::len word \<Rightarrow> nat \<Rightarrow> 't word res" where
  "sign_extend val nbits =
     (if nbits = 0 then Inl Shift_Undefined
      else and_then (shl (1 :: u32) (nbits - 1)) (\<lambda>one.
        let msb = conv True one in Inr ((val XOR msb) - msb)))"

section \<open>Lemmas\<close>

lemma bit_mask_unsafe_eq:
  assumes "0 < nbits" "nbits \<le> LENGTH('t)"
  shows "bit_mask_unsafe nbits = Inr (mask nbits :: 't::len word)"
proof -
  have "drop_bit (LENGTH('t) - nbits) (- 1 :: 't word) = mask nbits"
    by (rule bit_word_eqI) (use assms in \<open>auto simp: bit_simps\<close>)
  with assms show ?thesis by (simp add: bit_mask_unsafe_def)
qed

lemma bit_mask_unsafe_zero:
  "bit_mask_unsafe 0 = (if LENGTH('t) < 32 then Inr (0 :: 't::len word) else Inl Shift_Undefined)"
  by (auto simp: bit_mask_unsafe_def shr_def max_def drop_bit_eq_div intro!: bit_word_eqI simp: bit_simps)

lemma bit_mask_safe_eq:
  "nbits \<le> LENGTH('t) \<Longrightarrow> bit_mask_safe nbits = Inr (mask nbits :: 't::len word)"
  by (simp add: bit_mask_safe_def bit_mask_unsafe_eq)

lemma bit_mask_eq:
  assumes "0 < nbits" "nbits \<le> LENGTH('t)" "sb < LENGTH('t)"
  shows "bit_mask sb nbits = Inr (push_bit sb (mask nbits) :: 't::len word)"
  using assms by (simp add: bit_mask_def bit_mask_unsafe_eq)

lemma extract_bits_eq:
  assumes "0 < nbits" "sb + nbits \<le> LENGTH('t)"
  shows "extract_bits sg (val :: 't::len word) sb nbits = Inr (take_bit nbits (drop_bit sb val))"
proof -
  have "sb < LENGTH('t)" using assms by linarith
  then have "extract_bits sg val sb nbits =
      Inr ((if sg then signed_drop_bit sb val else drop_bit sb val) AND mask nbits)"
    using assms by (simp add: extract_bits_def bit_mask_eq)
  also have "(if sg then signed_drop_bit sb val else drop_bit sb val) AND mask nbits
      = take_bit nbits (drop_bit sb val)"
    by (rule bit_word_eqI) (use assms in \<open>auto simp: bit_simps\<close>)
  finally show ?thesis .
qed

lemma insert_bits_eq:
  assumes "0 < nbits" "sb + nbits \<le> LENGTH('t)"
  shows "insert_bits (w :: 't::len word) v sb nbits =
    Inr ((w AND NOT (push_bit sb (mask nbits))) OR push_bit sb v)"
  using assms by (simp add: insert_bits_def bit_mask_eq)

text \<open>
  Insertion of a value that fits replaces exactly the bits of the field; a value with bits
  beyond the field also sets those above it.
\<close>

lemma insert_bits_bit:
  assumes "0 < nbits" "sb + nbits \<le> LENGTH('t)"
    and "insert_bits (w :: 't::len word) v sb nbits = Inr w'" and "i < LENGTH('t)"
  shows "bit w' i \<longleftrightarrow>
    (if i < sb then bit w i
     else if i < sb + nbits then bit v (i - sb)
     else bit w i \<or> bit v (i - sb))"
  using assms(3,4) unfolding insert_bits_eq [OF assms(1,2)]
  by (auto simp: bit_simps)

lemma insert_bits_atomic_eq: "insert_bits_atomic w v sb nbits = insert_bits w v sb nbits"
  by (simp add: insert_bits_atomic_def insert_bits_def)

lemma sign_extend_undefined:
  "32 < nbits \<Longrightarrow> sign_extend (val :: 't::len word) nbits = Inl Shift_Undefined"
  by (auto simp: sign_extend_def shl_def)

lemma xor_minus_msb:
  fixes val :: "'t::len word"
  assumes n: "n < LENGTH('t)" and small: "take_bit (Suc n) val = val"
  shows "(val XOR push_bit n 1) - push_bit n 1 = signed_take_bit n val"
proof -
  have hi: "\<not> bit val i" if "n < i" for i
    using small that by (metis bit_take_bit_iff not_less_eq)
  show ?thesis
  proof (cases "bit val n")
    case True
    let ?r = "val XOR push_bit n 1"
    have top: "i = n" if "n \<le> i" "bit val i" for i
      using hi that by (metis le_neq_implies_less)
    have "?r AND NOT (mask n) = 0"
      by (rule bit_word_eqI) (use top True in \<open>auto simp: bit_simps\<close>)
    then have "?r + NOT (mask n) = ?r OR NOT (mask n)" by (rule disjunctive_add_eq_or)
    moreover have "?r - push_bit n 1 = ?r + NOT (mask n)"
      by (simp add: push_bit_eq_mult flip: minus_exp_eq_not_mask)
    moreover have "?r OR NOT (mask n) = signed_take_bit n val"
      by (rule bit_word_eqI) (use True n in \<open>auto simp: bit_simps min_def\<close>)
    ultimately show ?thesis by simp
  next
    case False
    have none: "\<not> bit val i" if "n \<le> i" for i
      using hi that False by (metis le_neq_implies_less)
    have "val AND push_bit n 1 = 0"
      by (rule bit_word_eqI) (use False in \<open>auto simp: bit_simps\<close>)
    then have "val + push_bit n 1 = val OR push_bit n 1" by (rule disjunctive_add_eq_or)
    moreover have "val XOR push_bit n 1 = val OR push_bit n 1"
      by (rule bit_word_eqI) (use False in \<open>auto simp: bit_simps\<close>)
    moreover have "val = signed_take_bit n val"
      by (rule bit_word_eqI) (use False none n in \<open>auto simp: bit_simps min_def\<close>)
    ultimately show ?thesis by (metis add_diff_cancel_right')
  qed
qed

lemma sign_extend_eq:
  fixes val :: "'t::len word"
  assumes "0 < nbits" "nbits < 32" "nbits \<le> LENGTH('t)" and "take_bit nbits val = val"
  shows "sign_extend val nbits = Inr (signed_take_bit (nbits - 1) val)"
proof -
  have "(conv True (push_bit (nbits - 1) 1 :: u32) :: 't word) = push_bit (nbits - 1) 1"
    by (rule bit_word_eqI) (use assms(1-3) in \<open>auto simp: conv_def bit_simps min_def\<close>)
  then show ?thesis
    using assms xor_minus_msb [of "nbits - 1" val] by (simp add: sign_extend_def Let_def)
qed

end
