(* ===== verification/BitVector.thy ===== *)
theory BitVector
  imports BitOps
begin

text \<open>
  The packed integer vectors of \<^verbatim>\<open>include/xnu-trace/BitVector.h\<close>.  A vector object is a
  \<open>bitvec\<close>: its dynamic class, its signedness, its byte buffer, the width of an element and
  the number of elements.  Each class's \<^verbatim>\<open>get\<close>, \<^verbatim>\<open>set\<close> and \<^verbatim>\<open>byte_sz\<close> is a
  definition of its own, with the template parameters (the storage word \<open>T\<close>, the double
  word \<open>DT\<close>, \<open>NBits\<close>, signedness) as arguments; \<open>bv_get\<close> and \<open>bv_set\<close> are the virtual
  calls.  The word type \<open>'r\<close> of the values is \<^verbatim>\<open>RT\<close>.

  Sizes and indices (\<^verbatim>\<open>size_t\<close>) are natural numbers: a vector's bit count is below
  \<open>2 ^ 64\<close> in every statement, because its buffer fits in memory.
\<close>

section \<open>Objects\<close>

datatype bv_class =
    ExactBitVectorImpl | NonAtomicSingleBitVectorImpl | AtomicSingleBitVectorImpl
  | NonAtomicBitVectorImpl | NonAtomicSplitBitVectorImpl | AtomicBitVectorImpl

record bitvec =
  bv_class :: bv_class
  bv_signed :: bool
  m_buf :: buffer
  m_nbits :: nat
  m_sz :: nat

definition BitVectorBase :: "bv_class \<Rightarrow> bool \<Rightarrow> nat \<Rightarrow> nat \<Rightarrow> nat \<Rightarrow> bitvec" where
  "BitVectorBase c sg nbits sz byte_sz =
     \<lparr>bv_class = c, bv_signed = sg,
      m_buf = replicate (unat (roundup_pow2_mul (of_nat byte_sz :: u64) 16)) 0,
      m_nbits = nbits, m_sz = sz\<rparr>"

definition bit_sz :: "bitvec \<Rightarrow> nat" where
  "bit_sz v = m_nbits v * m_sz v"

section \<open>ExactBitVectorImpl\<close>

definition exact_byte_sz :: "nat \<Rightarrow> nat \<Rightarrow> nat" where
  "exact_byte_sz NBits sz = sz * NBits div 8"

definition exact_get :: "'t::len itself \<Rightarrow> bitvec \<Rightarrow> nat \<Rightarrow> 'r::len word res" where
  "exact_get T v idx =
     and_then (load (m_buf v) (idx * sizeof T)) (\<lambda>w :: 't word. Inr (conv (bv_signed v) w))"

definition exact_set :: "'t::len itself \<Rightarrow> bitvec \<Rightarrow> nat \<Rightarrow> 'r::len word \<Rightarrow> bitvec res" where
  "exact_set T v idx val =
     and_then (store (m_buf v) (idx * sizeof T) (ucast val :: 't word)) (\<lambda>b. Inr (v\<lparr>m_buf := b\<rparr>))"

section \<open>NonAtomicSingleBitVectorImpl and AtomicSingleBitVectorImpl\<close>

definition single_word_idx :: "nat \<Rightarrow> nat" where
  "single_word_idx idx = idx div 8"

definition single_inner_bit_idx :: "nat \<Rightarrow> nat" where
  "single_inner_bit_idx idx = idx mod 8"

definition single_byte_sz :: "nat \<Rightarrow> nat" where
  "single_byte_sz sz = unat (roundup_pow2_mul (of_nat sz :: u64) 8) div 8"

definition single_get :: "bitvec \<Rightarrow> nat \<Rightarrow> 'r::len word res" where
  "single_get v idx =
     (let widx = single_word_idx idx; bidx = single_inner_bit_idx idx in
      and_then (load (m_buf v) widx) (\<lambda>w :: u8.
      and_then (extract_bits False w bidx 1) (\<lambda>x. Inr (ucast x))))"

definition single_set :: "bitvec \<Rightarrow> nat \<Rightarrow> 'r::len word \<Rightarrow> bitvec res" where
  "single_set v idx val =
     (let widx = single_word_idx idx; bidx = single_inner_bit_idx idx in
      and_then (load (m_buf v) widx) (\<lambda>w :: u8.
      and_then (insert_bits w (ucast val) bidx 1) (\<lambda>w'.
      and_then (store (m_buf v) widx w') (\<lambda>b. Inr (v\<lparr>m_buf := b\<rparr>)))))"

text \<open>One thread's atomic set: compare the stored bit, flip it when it differs.\<close>

definition atomic_single_set :: "bitvec \<Rightarrow> nat \<Rightarrow> 'r::len word \<Rightarrow> bitvec res" where
  "atomic_single_set v idx val =
     (let widx = single_word_idx idx; bidx = single_inner_bit_idx idx in
      and_then (single_get v idx) (\<lambda>old :: 'r word.
      if old \<noteq> val then
        and_then (bit_mask bidx 1) (\<lambda>m :: u8.
        and_then (load (m_buf v) widx) (\<lambda>w.
        and_then (store (m_buf v) widx (w XOR m)) (\<lambda>b. Inr (v\<lparr>m_buf := b\<rparr>))))
      else Inr v))"

section \<open>NonAtomicBitVectorImpl\<close>

text \<open>The element is read and written through an unaligned double word.\<close>

definition nab_bit_idx :: "nat \<Rightarrow> nat \<Rightarrow> nat" where
  "nab_bit_idx NBits idx = NBits * idx"

definition nab_word_idx :: "nat \<Rightarrow> nat \<Rightarrow> nat \<Rightarrow> nat" where
  "nab_word_idx TBits NBits idx = nab_bit_idx NBits idx div TBits"

definition nab_inner_bit_idx :: "nat \<Rightarrow> nat \<Rightarrow> nat \<Rightarrow> nat" where
  "nab_inner_bit_idx TBits NBits idx =
     nab_bit_idx NBits idx - nab_word_idx TBits NBits idx * TBits"

definition nab_byte_sz :: "nat \<Rightarrow> nat \<Rightarrow> nat \<Rightarrow> nat \<Rightarrow> nat" where
  "nab_byte_sz TBits DTBits NBits sz =
     (let total_packed_bits = NBits * sz;
          write_total_bit_sz = (total_packed_bits + TBits + DTBits - 1) div DTBits * DTBits
      in write_total_bit_sz div 8)"

definition nab_get ::
    "'t::len itself \<Rightarrow> 'dt::len itself \<Rightarrow> nat \<Rightarrow> bitvec \<Rightarrow> nat \<Rightarrow> 'r::len word res" where
  "nab_get T DT NBits v idx =
     (let widx = nab_word_idx LENGTH('t) NBits idx;
          bidx = nab_inner_bit_idx LENGTH('t) NBits idx;
          wptr = widx * sizeof T
      in and_then (load (m_buf v) wptr) (\<lambda>mixed_dword :: 'dt word.
         and_then (extract_bits False mixed_dword bidx NBits) (\<lambda>x.
         let extracted_val = ucast x :: 't word in
         if \<not> bv_signed v then Inr (ucast extracted_val)
         else and_then (sign_extend extracted_val NBits) (\<lambda>res. Inr (conv True res)))))"

definition nab_set ::
    "'t::len itself \<Rightarrow> 'dt::len itself \<Rightarrow> nat \<Rightarrow> bitvec \<Rightarrow> nat \<Rightarrow> 'r::len word \<Rightarrow> bitvec res" where
  "nab_set T DT NBits v idx val =
     (let widx = nab_word_idx LENGTH('t) NBits idx;
          bidx = nab_inner_bit_idx LENGTH('t) NBits idx;
          wptr = widx * sizeof T
      in and_then (load (m_buf v) wptr) (\<lambda>mixed_dword :: 'dt word.
         and_then (insert_bits mixed_dword (conv (bv_signed v) (ucast val :: 't word)) bidx NBits)
           (\<lambda>new_mixed_dword.
         and_then (store (m_buf v) wptr new_mixed_dword) (\<lambda>b. Inr (v\<lparr>m_buf := b\<rparr>)))))"

section \<open>NonAtomicSplitBitVectorImpl\<close>

text \<open>The element is read and written through one or two storage words.\<close>

definition split_lo_bit_idx :: "nat \<Rightarrow> nat \<Rightarrow> nat" where
  "split_lo_bit_idx NBits idx = NBits * idx"

definition split_hi_bit_idx :: "nat \<Rightarrow> nat \<Rightarrow> nat" where
  "split_hi_bit_idx NBits idx = NBits * (idx + 1)"

definition split_lo_word_idx :: "nat \<Rightarrow> nat \<Rightarrow> nat \<Rightarrow> nat" where
  "split_lo_word_idx TBits NBits idx = split_lo_bit_idx NBits idx div TBits"

definition split_hi_word_idx :: "nat \<Rightarrow> nat \<Rightarrow> nat \<Rightarrow> nat" where
  "split_hi_word_idx TBits NBits idx = split_hi_bit_idx NBits idx div TBits"

definition split_lo_inner_bit_idx :: "nat \<Rightarrow> nat \<Rightarrow> nat \<Rightarrow> nat" where
  "split_lo_inner_bit_idx TBits NBits idx =
     split_lo_bit_idx NBits idx - split_lo_word_idx TBits NBits idx * TBits"

definition split_byte_sz :: "nat \<Rightarrow> nat \<Rightarrow> nat \<Rightarrow> nat" where
  "split_byte_sz TBits NBits sz =
     (let total_packed_bits = NBits * sz;
          write_total_bit_sz = (total_packed_bits + TBits - 1) div TBits * TBits
      in write_total_bit_sz div 8)"

definition split_get :: "'t::len itself \<Rightarrow> nat \<Rightarrow> bitvec \<Rightarrow> nat \<Rightarrow> 'r::len word res" where
  "split_get T NBits v idx =
     (let sg = bv_signed v; TBits = LENGTH('t);
          lwidx = split_lo_word_idx TBits NBits idx;
          hwidx = split_hi_word_idx TBits NBits idx;
          lbidx = split_lo_inner_bit_idx TBits NBits idx;
          lwptr = lwidx * sizeof T; hwptr = hwidx * sizeof T
      in and_then
          (if lwidx = hwidx then
             and_then (load (m_buf v) lwptr) (\<lambda>lw :: 't word. extract_bits sg lw lbidx NBits)
           else
             let num_lo_bits = TBits - lbidx; num_hi_bits = NBits - num_lo_bits in
             and_then (load (m_buf v) lwptr) (\<lambda>lw :: 't word.
             and_then (shr sg lw lbidx) (\<lambda>extracted_val_lo.
             and_then (load (m_buf v) hwptr) (\<lambda>hw.
             and_then (extract_bits sg hw 0 num_hi_bits) (\<lambda>extracted_val_hi.
             and_then (shl extracted_val_hi num_lo_bits) (\<lambda>hi.
             Inr (hi OR extracted_val_lo)))))))
          (\<lambda>extracted_val.
             if \<not> sg then Inr (ucast extracted_val)
             else and_then (sign_extend extracted_val NBits) (\<lambda>res. Inr (conv True res))))"

definition split_set ::
    "'t::len itself \<Rightarrow> nat \<Rightarrow> bitvec \<Rightarrow> nat \<Rightarrow> 'r::len word \<Rightarrow> bitvec res" where
  "split_set T NBits v idx val =
     (let sg = bv_signed v; TBits = LENGTH('t); tval = ucast val :: 't word;
          lwidx = split_lo_word_idx TBits NBits idx;
          hwidx = split_hi_word_idx TBits NBits idx;
          lbidx = split_lo_inner_bit_idx TBits NBits idx;
          lwptr = lwidx * sizeof T; hwptr = hwidx * sizeof T
      in if lwidx = hwidx then
           and_then (load (m_buf v) lwptr) (\<lambda>lw :: 't word.
           and_then (insert_bits lw tval lbidx NBits) (\<lambda>lw'.
           and_then (store (m_buf v) lwptr lw') (\<lambda>b. Inr (v\<lparr>m_buf := b\<rparr>))))
         else
           let num_lo_bits = TBits - lbidx; num_hi_bits = NBits - num_lo_bits in
           and_then (bit_mask 0 num_lo_bits) (\<lambda>m.
           let val_lo = tval AND m in
           and_then (shr sg tval num_lo_bits) (\<lambda>val_hi.
           and_then (load (m_buf v) lwptr) (\<lambda>lw.
           and_then (insert_bits lw val_lo lbidx num_lo_bits) (\<lambda>lw'.
           and_then (store (m_buf v) lwptr lw') (\<lambda>b1.
           and_then (load b1 hwptr) (\<lambda>hw.
           and_then (insert_bits hw val_hi 0 num_hi_bits) (\<lambda>hw'.
           and_then (store b1 hwptr hw') (\<lambda>b2. Inr (v\<lparr>m_buf := b2\<rparr>))))))))))"

section \<open>AtomicBitVectorImpl\<close>

definition atomic_get :: "bitvec \<Rightarrow> nat \<Rightarrow> 'r::len word res" where
  "atomic_get v idx = and_then (assert_that False) (\<lambda>_. Inr 0)"

definition atomic_set :: "bitvec \<Rightarrow> nat \<Rightarrow> 'r::len word \<Rightarrow> bitvec res" where
  "atomic_set v idx val = and_then (assert_that False) (\<lambda>_. Inr v)"

definition atomic_byte_sz :: "nat \<Rightarrow> nat \<Rightarrow> nat \<Rightarrow> nat \<Rightarrow> nat" where
  "atomic_byte_sz TBits DTBits NBits sz =
     (let total_packed_bits = NBits * sz;
          write_total_bit_sz = (total_packed_bits + TBits + DTBits - 1) div DTBits * DTBits
      in write_total_bit_sz div 8)"

section \<open>Virtual calls and the factory\<close>

text \<open>The storage word is \<^verbatim>\<open>int_n<NBits>\<close>, so the class and the width select it.\<close>

definition bv_get :: "bitvec \<Rightarrow> nat \<Rightarrow> 'r::len word res" where
  "bv_get v idx =
     (let n = m_nbits v in
      case bv_class v of
        ExactBitVectorImpl \<Rightarrow>
          (if n = 8 then exact_get TYPE(8) v idx
           else if n = 16 then exact_get TYPE(16) v idx
           else if n = 32 then exact_get TYPE(32) v idx
           else exact_get TYPE(64) v idx)
      | NonAtomicSingleBitVectorImpl \<Rightarrow> single_get v idx
      | AtomicSingleBitVectorImpl \<Rightarrow> single_get v idx
      | NonAtomicBitVectorImpl \<Rightarrow>
          (if n \<le> 8 then nab_get TYPE(8) TYPE(16) n v idx
           else if n \<le> 16 then nab_get TYPE(16) TYPE(32) n v idx
           else if n \<le> 32 then nab_get TYPE(32) TYPE(64) n v idx
           else nab_get TYPE(64) TYPE(128) n v idx)
      | NonAtomicSplitBitVectorImpl \<Rightarrow>
          (if n \<le> 8 then split_get TYPE(8) n v idx
           else if n \<le> 16 then split_get TYPE(16) n v idx
           else if n \<le> 32 then split_get TYPE(32) n v idx
           else split_get TYPE(64) n v idx)
      | AtomicBitVectorImpl \<Rightarrow> atomic_get v idx)"

definition bv_set :: "bitvec \<Rightarrow> nat \<Rightarrow> 'r::len word \<Rightarrow> bitvec res" where
  "bv_set v idx val =
     (let n = m_nbits v in
      case bv_class v of
        ExactBitVectorImpl \<Rightarrow>
          (if n = 8 then exact_set TYPE(8) v idx val
           else if n = 16 then exact_set TYPE(16) v idx val
           else if n = 32 then exact_set TYPE(32) v idx val
           else exact_set TYPE(64) v idx val)
      | NonAtomicSingleBitVectorImpl \<Rightarrow> single_set v idx val
      | AtomicSingleBitVectorImpl \<Rightarrow> atomic_single_set v idx val
      | NonAtomicBitVectorImpl \<Rightarrow>
          (if n \<le> 8 then nab_set TYPE(8) TYPE(16) n v idx val
           else if n \<le> 16 then nab_set TYPE(16) TYPE(32) n v idx val
           else if n \<le> 32 then nab_set TYPE(32) TYPE(64) n v idx val
           else nab_set TYPE(64) TYPE(128) n v idx val)
      | NonAtomicSplitBitVectorImpl \<Rightarrow>
          (if n \<le> 8 then split_set TYPE(8) n v idx val
           else if n \<le> 16 then split_set TYPE(16) n v idx val
           else if n \<le> 32 then split_set TYPE(32) n v idx val
           else split_set TYPE(64) n v idx val)
      | AtomicBitVectorImpl \<Rightarrow> atomic_set v idx val)"

text \<open>
  \<^verbatim>\<open>BitVectorFactory<Signed, AtomicWrite, NBitsMax>(nbits, sz)\<close>; \<open>None\<close> is the null
  pointer.  The \<^verbatim>\<open>hana\<close> loop instantiates the classes for the widths 2 to 63.
\<close>

definition storage_bits :: "nat \<Rightarrow> nat" where
  "storage_bits n = (case int_n n False of Some w \<Rightarrow> w | None \<Rightarrow> 0)"

definition BitVectorFactory ::
    "bool \<Rightarrow> bool \<Rightarrow> nat \<Rightarrow> nat \<Rightarrow> nat \<Rightarrow> bitvec option res" where
  "BitVectorFactory sg atomic_write nbits_max nbits sz =
     and_then (assert_that (0 < nbits \<and> nbits \<le> nbits_max)) (\<lambda>_.
       Inr (if nbits = 1 then
              (if \<not> atomic_write
               then Some (BitVectorBase NonAtomicSingleBitVectorImpl sg 1 sz (single_byte_sz sz))
               else Some (BitVectorBase AtomicSingleBitVectorImpl sg 1 sz (single_byte_sz sz)))
            else if 8 \<le> nbits \<and> nbits \<le> 64 \<and> is_pow2 (of_nat nbits :: u8) then
              (if nbits = 8 then
                 (if 8 \<le> nbits_max then Some (BitVectorBase ExactBitVectorImpl sg 8 sz (exact_byte_sz 8 sz))
                  else None)
               else if nbits = 16 then
                 (if 16 \<le> nbits_max then Some (BitVectorBase ExactBitVectorImpl sg 16 sz (exact_byte_sz 16 sz))
                  else None)
               else if nbits = 32 then
                 (if 32 \<le> nbits_max then Some (BitVectorBase ExactBitVectorImpl sg 32 sz (exact_byte_sz 32 sz))
                  else None)
               else if nbits = 64 then
                 (if 64 \<le> nbits_max then Some (BitVectorBase ExactBitVectorImpl sg 64 sz (exact_byte_sz 64 sz))
                  else None)
               else None)
            else if 2 \<le> nbits \<and> nbits < 64 \<and> nbits \<le> nbits_max
                \<and> \<not> (8 \<le> nbits \<and> nbits \<le> 64 \<and> is_pow2 (of_nat nbits :: u8)) then
              (let TBits = storage_bits nbits in
               if \<not> atomic_write then
                 (if nbits \<le> 32
                  then Some (BitVectorBase NonAtomicBitVectorImpl sg nbits sz
                               (nab_byte_sz TBits (TBits * 2) nbits sz))
                  else Some (BitVectorBase NonAtomicSplitBitVectorImpl sg nbits sz
                               (split_byte_sz TBits nbits sz)))
               else Some (BitVectorBase AtomicBitVectorImpl sg nbits sz
                            (atomic_byte_sz TBits (TBits * 2) nbits sz)))
            else None))"

section \<open>Element accesses through cursors\<close>

text \<open>
  \<^verbatim>\<open>GetSetIdxBase::cursor\<close>: a table and an index.  The table is named by an address, so
  that two cursors can be compared; the vector itself is passed along.
\<close>

record cursor =
  m_tbl :: nat
  m_idx :: u64

definition cursor_read :: "bitvec \<Rightarrow> cursor \<Rightarrow> 'r::len word res" where
  "cursor_read v c = bv_get v (unat (m_idx c))"

definition cursor_write :: "bitvec \<Rightarrow> cursor \<Rightarrow> 'r::len word \<Rightarrow> bitvec res" where
  "cursor_write v c val = bv_set v (unat (m_idx c)) val"

definition cursor_equal :: "cursor \<Rightarrow> cursor \<Rightarrow> bool res" where
  "cursor_equal c other =
     and_then (assert_that (m_tbl c = m_tbl other)) (\<lambda>_. Inr (m_idx c = m_idx other))"

definition cursor_next :: "cursor \<Rightarrow> cursor" where
  "cursor_next c = c\<lparr>m_idx := m_idx c + 1\<rparr>"

definition cursor_prev :: "cursor \<Rightarrow> cursor" where
  "cursor_prev c = c\<lparr>m_idx := m_idx c - 1\<rparr>"

definition cursor_advance :: "cursor \<Rightarrow> u64 \<Rightarrow> cursor" where
  "cursor_advance c i = c\<lparr>m_idx := m_idx c + i\<rparr>"

definition cursor_distance_to :: "cursor \<Rightarrow> cursor \<Rightarrow> int" where
  "cursor_distance_to c other = sint (m_idx other - m_idx c)"

definition bv_begin :: "nat \<Rightarrow> cursor" where
  "bv_begin tbl = \<lparr>m_tbl = tbl, m_idx = 0\<rparr>"

definition bv_end :: "nat \<Rightarrow> bitvec \<Rightarrow> cursor" where
  "bv_end tbl v = \<lparr>m_tbl = tbl, m_idx = of_nat (m_sz v)\<rparr>"

text \<open>A range-based \<^verbatim>\<open>for\<close> over a vector, reading each element.\<close>

function cursor_collect :: "bitvec \<Rightarrow> cursor \<Rightarrow> cursor \<Rightarrow> 'r::len word list res" where
  "cursor_collect v c e =
     and_then (cursor_equal c e) (\<lambda>at_end.
       if at_end then Inr []
       else and_then (cursor_read v c) (\<lambda>x.
            and_then (cursor_collect v (cursor_next c) e) (\<lambda>xs. Inr (x # xs))))"
  by pat_completeness auto
termination
  by (relation "measure (\<lambda>(v, c, e). unat (m_idx e - m_idx c))") 
    (auto simp: cursor_equal_def cursor_next_def res_simps intro!: unat_distance_less)

declare cursor_collect.simps [simp del]

end
