(* ===== verification/BitVectorCorrect.thy ===== *)
theory BitVectorCorrect
  imports BitVector
begin

text \<open>
  Correctness of the packed vectors.  \<open>writes_field\<close> says that a store changed exactly the
  bits of one field of a buffer; each class's \<^verbatim>\<open>get\<close> reads a field and each class's
  \<^verbatim>\<open>set\<close> writes one, under the bounds its \<^verbatim>\<open>byte_sz\<close> guarantees.  The interface
  \<open>int_vector\<close> states what a client of \<^verbatim>\<open>GetSetIdxBase\<close> relies on and is interpreted on
  the virtual calls.
\<close>

section \<open>Fields of a buffer\<close>

definition writes_field :: "buffer \<Rightarrow> buffer \<Rightarrow> nat \<Rightarrow> nat \<Rightarrow> 'r::len word \<Rightarrow> bool" where
  "writes_field a b s n x \<longleftrightarrow> length b = length a \<and>
     (\<forall>p. buf_bit b p = (if s \<le> p \<and> p < s + n then bit x (p - s) else buf_bit a p))"

definition fits :: "nat \<Rightarrow> 'r::len word \<Rightarrow> bool" where
  "fits n x \<longleftrightarrow> take_bit n x = x"

lemma fits_bit: "fits n x \<Longrightarrow> bit x i \<Longrightarrow> i < n"
  by (metis bit_take_bit_iff fits_def)

lemma fitsI: "(\<And>i. bit x i \<Longrightarrow> i < n) \<Longrightarrow> fits n (x :: 'r::len word)"
  unfolding fits_def by (rule bit_word_eqI) (auto simp: bit_simps)

lemma fits_iff_unat: "fits n (x :: 'r::len word) \<longleftrightarrow> unat x < 2 ^ n"
proof -
  have "fits n x \<longleftrightarrow> unat (take_bit n x) = unat x" by (simp only: fits_def word_unat_eq_iff)
  also have "\<dots> \<longleftrightarrow> take_bit n (unat x) = unat x" by (simp add: unsigned_take_bit_eq)
  also have "\<dots> \<longleftrightarrow> unat x < 2 ^ n" by (simp add: take_bit_nat_eq_self_iff)
  finally show ?thesis .
qed

lemma writes_field_same:
  assumes "writes_field a b s n x" and "fits n (x :: 'r::len word)"
  shows "field b s n = x"
  by (rule bit_word_eqI)
    (use assms in \<open>auto simp: writes_field_def bit_simps dest: fits_bit\<close>)

lemma writes_field_other:
  assumes "writes_field a b s n x" and "t + m \<le> s \<or> s + n \<le> t"
  shows "field b t m = (field a t m :: 'q::len word)"
  by (rule field_cong) (use assms in \<open>auto simp: writes_field_def\<close>)

lemma writes_field_trans:
  assumes "writes_field a b s n (take_bit n x)" and "writes_field b c (s + n) m (drop_bit n x)"
  shows "writes_field a c s (n + m) (x :: 'r::len word)"
  using assms unfolding writes_field_def by (auto simp: bit_simps)

lemma ucast_take_drop_field:
  assumes "s + n \<le> m" "m \<le> LENGTH('w)"
  shows "ucast (take_bit n (drop_bit s (field b t m :: 'w::len word))) = (field b (t + s) n :: 'r::len word)"
  by (rule bit_word_eqI) (use assms in \<open>auto simp: bit_simps ac_simps\<close>)

lemma mult_sizeof: "8 dvd (t :: nat) \<Longrightarrow> 8 * (q * (t div 8)) = t * q"
  by auto

lemma div_mod_offset: "(q :: nat) div t * t + (q - q div t * t) = q"
  by (simp add: minus_mod_eq_div_mult [symmetric])

lemma mod_as_minus: "(q :: nat) - q div t * t = q mod t"
  by (simp add: minus_div_mult_eq_mod)

lemma insert_store_field:
  fixes w :: "'t::len word" and v :: "'t word"
  assumes ld: "load buf off = Inr w" and ins: "insert_bits w v sb nb = Inr w'"
    and st: "store buf off w' = Inr buf'"
    and nb: "0 < nb" "sb + nb \<le> LENGTH('t)" and dv: "8 dvd LENGTH('t)" and fit: "fits nb v"
  shows "writes_field buf buf' (8 * off + sb) nb v"
proof -
  have w: "w = field buf (8 * off) LENGTH('t)"
    using ld load_field [OF dv] by (auto simp: load_Inr_iff)
  have "buf_bit buf' p = (if 8 * off + sb \<le> p \<and> p < 8 * off + sb + nb
      then bit v (p - (8 * off + sb)) else buf_bit buf p)" for p
  proof (cases "8 * off \<le> p \<and> p < 8 * off + LENGTH('t)")
    case True
    then obtain i where i: "p = 8 * off + i" "i < LENGTH('t)" by (metis le_iff_add nat_add_left_cancel_less)
    have "buf_bit buf' p = bit w' i" using store_bit [OF st dv] i by simp
    also have "\<dots> = (if i < sb then bit w i else if i < sb + nb then bit v (i - sb)
        else bit w i \<or> bit v (i - sb))"
      by (rule insert_bits_bit [OF nb ins i(2)])
    also have "\<dots> = (if sb \<le> i \<and> i < sb + nb then bit v (i - sb) else bit w i)"
      using fits_bit [OF fit, of "i - sb"] by auto
    finally show ?thesis using i by (auto simp: w bit_simps)
  next
    case False
    then show ?thesis using store_bit [OF st dv, of p] nb by auto
  qed
  then show ?thesis using store_length [OF st] by (simp add: writes_field_def)
qed

lemma load_insert_store:
  fixes v :: "'t::len word"
  assumes "off + LENGTH('t) div 8 \<le> length buf"
    and nb: "0 < nb" "sb + nb \<le> LENGTH('t)" and dv: "8 dvd LENGTH('t)" and fit: "fits nb v"
  obtains w w' buf' where "load buf off = Inr (w :: 't word)" "insert_bits w v sb nb = Inr w'"
    "store buf off w' = Inr buf'" "writes_field buf buf' (8 * off + sb) nb v"
proof -
  obtain w :: "'t word" where w: "load buf off = Inr w" using assms(1) by (simp add: load_def)
  obtain w' where w': "insert_bits w v sb nb = Inr w'" using nb by (simp add: insert_bits_eq)
  obtain buf' where b: "store buf off w' = Inr buf'" using store_exists [OF assms(1)] by blast
  from that [OF w w' b insert_store_field [OF w w' b nb dv fit]] show ?thesis .
qed

section \<open>Exact vectors\<close>

lemma exact_get_field:
  assumes "8 dvd LENGTH('t)" "LENGTH('t) \<le> LENGTH('r)" "\<not> bv_signed v"
    and "LENGTH('t) div 8 * (i + 1) \<le> length (m_buf v)"
  shows "exact_get TYPE('t::len) v i = Inr (field (m_buf v) (LENGTH('t) * i) LENGTH('t) :: 'r::len word)"
proof -
  have "i * (LENGTH('t) div 8) + LENGTH('t) div 8 \<le> length (m_buf v)"
    using assms(4) by (simp add: mult.commute)
  from load_field [OF assms(1) this]
  have "(load (m_buf v) (i * (LENGTH('t) div 8)) :: 't word res)
      = Inr (field (m_buf v) (LENGTH('t) * i) LENGTH('t))"
    unfolding mult_sizeof [OF assms(1)] .
  moreover have "(ucast (field (m_buf v) (LENGTH('t) * i) LENGTH('t) :: 't word) :: 'r word)
      = field (m_buf v) (LENGTH('t) * i) LENGTH('t)"
    by (rule bit_word_eqI) (use assms(2) in \<open>auto simp: bit_simps\<close>)
  ultimately show ?thesis using assms(3) by (simp add: exact_get_def)
qed

lemma exact_set_field:
  assumes "8 dvd LENGTH('t)"
    and "LENGTH('t) div 8 * (i + 1) \<le> length (m_buf v)"
  shows "\<exists>b. exact_set TYPE('t::len) v i (x :: 'r::len word) = Inr (v\<lparr>m_buf := b\<rparr>) \<and>
    writes_field (m_buf v) b (LENGTH('t) * i) LENGTH('t) x"
proof -
  have "i * (LENGTH('t) div 8) + LENGTH('t) div 8 \<le> length (m_buf v)"
    using assms(2) by (simp add: mult.commute)
  then obtain b where b: "store (m_buf v) (i * (LENGTH('t) div 8)) (ucast x :: 't word) = Inr b"
    by (rule store_exists)
  have "writes_field (m_buf v) b (LENGTH('t) * i) LENGTH('t) x"
    unfolding writes_field_def
  proof (intro conjI allI)
    show "length b = length (m_buf v)" by (rule store_length [OF b])
    fix p
    show "buf_bit b p = (if LENGTH('t) * i \<le> p \<and> p < LENGTH('t) * i + LENGTH('t)
        then bit x (p - LENGTH('t) * i) else buf_bit (m_buf v) p)"
      using store_bit [OF b assms(1), of p] unfolding mult_sizeof [OF assms(1)]
      by (auto simp: bit_simps)
  qed
  with b show ?thesis by (auto simp: exact_set_def)
qed

section \<open>Single-bit vectors\<close>

lemma single_get_field:
  assumes "i div 8 < length (m_buf v)"
  shows "single_get v i = Inr (field (m_buf v) i 1 :: 'r::len word)"
proof -
  have ld: "(load (m_buf v) (i div 8) :: u8 res) = Inr (field (m_buf v) (8 * (i div 8)) 8)"
    using load_field [where 'a = 8, of "i div 8" "m_buf v"] assms by simp
  have "ucast (take_bit 1 (drop_bit (i mod 8) (field (m_buf v) (8 * (i div 8)) 8 :: u8)))
      = (field (m_buf v) i 1 :: 'r word)"
    by (subst ucast_take_drop_field) auto
  then show ?thesis
    by (simp add: single_get_def Let_def single_word_idx_def single_inner_bit_idx_def ld extract_bits_eq
        del: load_ok)
qed

lemma single_set_field:
  assumes "i div 8 < length (m_buf v)" and fit: "fits 1 (x :: 'r::len word)"
  shows "\<exists>b. single_set v i x = Inr (v\<lparr>m_buf := b\<rparr>) \<and> writes_field (m_buf v) b i 1 x"
proof -
  have fitu: "fits 1 (ucast x :: u8)"
    by (rule fitsI) (use fit in \<open>auto simp: bit_simps dest: fits_bit\<close>)
  obtain w w' b where wb: "load (m_buf v) (i div 8) = Inr (w :: u8)"
    "insert_bits w (ucast x) (i mod 8) 1 = Inr w'" "store (m_buf v) (i div 8) w' = Inr b"
    "writes_field (m_buf v) b (8 * (i div 8) + i mod 8) 1 (ucast x :: u8)"
    by (rule load_insert_store [OF _ _ _ _ fitu, of "i div 8" "m_buf v" "i mod 8"]) (use assms in auto)
  from wb(4) have "writes_field (m_buf v) b i 1 x" by (simp add: writes_field_def bit_simps)
  with wb(1-3) show ?thesis
    by (auto simp: single_set_def single_word_idx_def single_inner_bit_idx_def simp del: load_ok)
qed

lemma fits_one_cases: "fits 1 (x :: 'r::len word) \<Longrightarrow> x = 0 \<or> x = 1"
proof -
  assume "fits 1 x"
  then have "unat x < 2" by (simp add: fits_iff_unat)
  then show ?thesis by (metis One_nat_def less_2_cases unsigned_0 unsigned_1 word_unat_eq_iff)
qed

lemma field_one_fits: "fits 1 (field b s 1)"
  by (rule fitsI) (simp add: bit_simps)

text \<open>Flipping a bit that differs from the (one-bit) value stores the value.\<close>

lemma atomic_single_set_field:
  assumes len: "i div 8 < length (m_buf v)" and fit: "fits 1 (x :: 'r::len word)"
  shows "\<exists>b. atomic_single_set v i x = Inr (v\<lparr>m_buf := b\<rparr>) \<and> writes_field (m_buf v) b i 1 x"
proof (cases "field (m_buf v) i 1 = x")
  case True
  have one: "(i \<le> p \<and> p < i + 1) = (p = i)" for p by auto
  have "writes_field (m_buf v) (m_buf v) i 1 x"
    unfolding writes_field_def one by (auto simp: True [symmetric] bit_simps)
  moreover have "atomic_single_set v i x = Inr (v\<lparr>m_buf := m_buf v\<rparr>)"
    using True by (simp add: atomic_single_set_def single_get_field [OF len])
  ultimately show ?thesis by blast
next
  case False
  let ?off = "i div 8" and ?m = "push_bit (i mod 8) (mask 1) :: u8"
  obtain w :: u8 where w: "load (m_buf v) ?off = Inr w" using len by (simp add: load_def)
  have wf: "w = field (m_buf v) (8 * ?off) 8"
    using w load_field [where 'a = 8, of ?off "m_buf v"] len by simp
  obtain b where b: "store (m_buf v) ?off (w XOR ?m) = Inr b"
    using store_exists [where 'a = 8, of ?off "m_buf v"] len by auto
  have run: "atomic_single_set v i x = Inr (v\<lparr>m_buf := b\<rparr>)"
    using False w b
    by (simp add: atomic_single_set_def single_get_field [OF len] single_word_idx_def
        single_inner_bit_idx_def bit_mask_eq del: load_ok)
  have flip: "bit x 0 \<longleftrightarrow> \<not> buf_bit (m_buf v) i"
  proof -
    have "bit (field (m_buf v) i 1 :: 'r word) 0 \<longleftrightarrow> buf_bit (m_buf v) i" by (simp add: bit_simps)
    with False fits_one_cases [OF fit] fits_one_cases [OF field_one_fits, of "m_buf v" i]
    show ?thesis by auto
  qed
  have "buf_bit b p = (if i \<le> p \<and> p < i + 1 then bit x (p - i) else buf_bit (m_buf v) p)" for p
  proof (cases "p = i")
    case True
    moreover have "i - 8 * ?off = i mod 8" and "i < 8 * ?off + 8" by presburger+
    ultimately show ?thesis using store_bit [OF b, of p] flip by (simp add: wf bit_simps)
  next
    case False
    show ?thesis
    proof (cases "8 * ?off \<le> p \<and> p < 8 * ?off + 8")
      case True
      then have "p - 8 * ?off \<noteq> i mod 8" using False by presburger
      then show ?thesis using store_bit [OF b, of p] True False by (auto simp: wf bit_simps)
    qed (use store_bit [OF b, of p] False in auto)
  qed
  then have "writes_field (m_buf v) b i 1 x" using store_length [OF b] by (simp add: writes_field_def)
  with run show ?thesis by blast
qed

section \<open>Vectors read through a double word\<close>

lemma nab_off:
  assumes "8 dvd (t :: nat)"
  shows "8 * (nab_word_idx t n i * (t div 8)) + nab_inner_bit_idx t n i = n * i"
  unfolding mult_sizeof [OF assms] nab_word_idx_def nab_inner_bit_idx_def nab_bit_idx_def
  using div_mod_offset [of "n * i" t] by (simp add: mult.commute)

lemma nab_inner_bit_idx_less: "0 < t \<Longrightarrow> nab_inner_bit_idx t n i < t"
  by (simp add: nab_inner_bit_idx_def nab_word_idx_def mod_as_minus)

lemma nab_get_field:
  assumes dt: "LENGTH('dt) = 2 * LENGTH('t)" and dv: "8 dvd LENGTH('t)"
    and nb: "0 < nb" "nb \<le> LENGTH('t)" "LENGTH('t) \<le> LENGTH('r)" and us: "\<not> bv_signed v"
    and len: "nab_word_idx LENGTH('t) nb i * (LENGTH('t) div 8) + LENGTH('dt) div 8 \<le> length (m_buf v)"
  shows "nab_get TYPE('t::len) TYPE('dt::len) nb v i = Inr (field (m_buf v) (nb * i) nb :: 'r::len word)"
proof -
  let ?off = "nab_word_idx LENGTH('t) nb i * (LENGTH('t) div 8)" and ?b = "nab_inner_bit_idx LENGTH('t) nb i"
  have b: "?b < LENGTH('t)" by (rule nab_inner_bit_idx_less) simp
  have "8 dvd LENGTH('dt)" using dt dv by simp
  from load_field [OF this len]
  have ld: "(load (m_buf v) ?off :: 'dt word res) = Inr (field (m_buf v) (8 * ?off) LENGTH('dt))" .
  have "(ucast (ucast (take_bit nb (drop_bit ?b (field (m_buf v) (8 * ?off) LENGTH('dt) :: 'dt word))) :: 't word) :: 'r word)
      = ucast (field (m_buf v) (nb * i) nb :: 't word)"
    using b nb dt by (subst ucast_take_drop_field) (auto simp: nab_off [OF dv])
  also have "\<dots> = field (m_buf v) (nb * i) nb"
    by (rule bit_word_eqI) (use nb in \<open>auto simp: bit_simps\<close>)
  finally show ?thesis
    using b nb dt us by (simp add: nab_get_def Let_def ld extract_bits_eq del: load_ok)
qed

lemma nab_set_field:
  assumes dt: "LENGTH('dt) = 2 * LENGTH('t)" and dv: "8 dvd LENGTH('t)"
    and nb: "0 < nb" "nb \<le> LENGTH('t)" and us: "\<not> bv_signed v" and fit: "fits nb (x :: 'r::len word)"
    and len: "nab_word_idx LENGTH('t) nb i * (LENGTH('t) div 8) + LENGTH('dt) div 8 \<le> length (m_buf v)"
  shows "\<exists>b. nab_set TYPE('t::len) TYPE('dt::len) nb v i x = Inr (v\<lparr>m_buf := b\<rparr>) \<and>
    writes_field (m_buf v) b (nb * i) nb x"
proof -
  let ?off = "nab_word_idx LENGTH('t) nb i * (LENGTH('t) div 8)" and ?b = "nab_inner_bit_idx LENGTH('t) nb i"
  let ?x = "ucast (ucast x :: 't word) :: 'dt word"
  have b: "?b < LENGTH('t)" by (rule nab_inner_bit_idx_less) simp
  have fitu: "fits nb ?x"
    by (rule fitsI) (use fit in \<open>auto simp: bit_simps dest: fits_bit\<close>)
  obtain w w' c where wc: "load (m_buf v) ?off = Inr (w :: 'dt word)"
    "insert_bits w ?x ?b nb = Inr w'" "store (m_buf v) ?off w' = Inr c"
    "writes_field (m_buf v) c (8 * ?off + ?b) nb ?x"
    by (rule load_insert_store [OF len _ _ _ fitu, of ?b]) (use b nb dt dv in auto)
  have "writes_field (m_buf v) c (nb * i) nb x"
    using wc(4) nb dt unfolding nab_off [OF dv] by (auto simp: writes_field_def bit_simps)
  with wc(1-3) us show ?thesis by (auto simp: nab_set_def simp del: load_ok)
qed

text \<open>The buffer that the constructor allocates covers every double word that is touched.\<close>

lemma nab_byte_sz_covers:
  assumes dt: "dt = 2 * t" and dv: "8 dvd t" "0 < t" and nb: "0 < nb" "nb \<le> t" and i: "i < sz"
  shows "nab_word_idx t nb i * (t div 8) + dt div 8 \<le> nab_byte_sz t dt nb sz"
proof -
  obtain k where k: "t = 8 * k" "0 < k" using dv by auto
  let ?w = "nab_word_idx t nb i" and ?q = "(nb * sz + t + dt - 1) div dt"
  have "?w * t \<le> nb * i" by (simp add: nab_word_idx_def nab_bit_idx_def)
  also have "nb * i < nb * sz" using nb i by simp
  finally have lo: "(?w + 1) * t < nb * sz + t" by (simp add: algebra_simps)
  have "nb * sz + t \<le> ?q * dt"
    using roundup_div_bounds(1) [of dt "nb * sz + t"] dt dv by (simp add: add.assoc)
  with lo have "(?w + 1) * t < 2 * ?q * t" using dt by (simp add: algebra_simps)
  then have "?w + 1 < 2 * ?q" using mult_less_cancel2 by blast
  then have "(?w + 2) * t \<le> 2 * ?q * t" by (intro mult_le_mono1) simp
  then have "(?w + 2) * k \<le> 2 * ?q * k" using k by simp
  moreover have "nab_byte_sz t dt nb sz = 2 * ?q * k"
    using dt k by (simp add: nab_byte_sz_def Let_def)
  ultimately show ?thesis using dt k by (simp add: algebra_simps)
qed

section \<open>Vectors read through two storage words\<close>

text \<open>
  An element is \<open>off_boundary\<close> when it does not end exactly on a storage word: then its last
  bit lies in the word that the code calls the high one, and the two branches are right.
\<close>

definition off_boundary :: "nat \<Rightarrow> nat \<Rightarrow> nat \<Rightarrow> bool" where
  "off_boundary TBits NBits idx \<longleftrightarrow> NBits * (idx + 1) mod TBits \<noteq> 0"

lemma split_geometry:
  assumes nb: "0 < nb" "nb < t" and ob: "off_boundary t nb i"
  defines "lw \<equiv> split_lo_word_idx t nb i" and "hw \<equiv> split_hi_word_idx t nb i"
    and "lb \<equiv> split_lo_inner_bit_idx t nb i"
  shows "lb < t" and "lw * t + lb = nb * i"
    and "lw = hw \<Longrightarrow> lb + nb \<le> t"
    and "lw \<noteq> hw \<Longrightarrow> hw = lw + 1" and "lw \<noteq> hw \<Longrightarrow> t < lb + nb"
proof -
  show lbt: "lb < t"
    using nb by (simp add: lb_def split_lo_inner_bit_idx_def split_lo_word_idx_def mod_as_minus)
  show base: "lw * t + lb = nb * i"
    unfolding lw_def lb_def split_lo_inner_bit_idx_def split_lo_word_idx_def split_lo_bit_idx_def
    by (rule div_mod_offset)
  have e: "nb * (i + 1) = lw * t + (lb + nb)" using base by simp
  have hw_eq: "hw = lw + (lb + nb) div t"
    using nb unfolding hw_def split_hi_word_idx_def split_hi_bit_idx_def e by simp
  have nz: "(lb + nb) mod t \<noteq> 0" using ob unfolding off_boundary_def e by simp
  show "lw = hw \<Longrightarrow> lb + nb \<le> t"
    using hw_eq nb by (metis add_cancel_right_right div_eq_0_iff less_imp_le not_less_zero)
  assume "lw \<noteq> hw"
  then have "t \<le> lb + nb" using hw_eq by (metis add.right_neutral div_less linorder_not_less)
  moreover have "lb + nb < 2 * t" using lbt nb by simp
  moreover have "lb + nb \<noteq> t" using nz by auto
  ultimately show "t < lb + nb" and "hw = lw + 1"
    using hw_eq by (auto simp: div_if [of "lb + nb" t])
qed

lemma join_words:
  assumes t: "LENGTH('t) = lb + lo" and lo: "0 < lb" "lo < nb" "nb \<le> LENGTH('t)"
  shows "push_bit lo (take_bit (nb - lo) (field buf (p + lb + lo) LENGTH('t) :: 't::len word))
    OR drop_bit lb (field buf p LENGTH('t)) = field buf (p + lb) nb" (is "?L = ?R")
proof (rule bit_word_eqI)
  fix j assume j: "j < LENGTH('t)"
  show "bit ?L j = bit ?R j"
  proof (cases "j < lo")
    case True
    then show ?thesis using j t lo by (simp add: bit_simps ac_simps)
  next
    case False
    then obtain d where "j = lo + d" using le_Suc_ex linorder_not_less by blast
    then show ?thesis using j t lo by (auto simp: bit_simps ac_simps)
  qed
qed

lemma word_in_buf:
  fixes k :: nat assumes "(h + 1) * k \<le> n" and "w \<le> h"
  shows "w * k + k \<le> n"
proof -
  have "(w + 1) * k \<le> (h + 1) * k" using assms(2) by (intro mult_le_mono1) simp
  also have "\<dots> \<le> n" by (rule assms(1))
  finally show ?thesis by simp
qed

lemma split_get_field:
  assumes dv: "8 dvd LENGTH('t)" and nb: "0 < nb" "nb < LENGTH('t)" "LENGTH('t) \<le> LENGTH('r)"
    and us: "\<not> bv_signed v" and ob: "off_boundary LENGTH('t) nb i"
    and len: "(split_hi_word_idx LENGTH('t) nb i + 1) * (LENGTH('t) div 8) \<le> length (m_buf v)"
  shows "split_get TYPE('t::len) nb v i = Inr (field (m_buf v) (nb * i) nb :: 'r::len word)"
proof -
  let ?t = "LENGTH('t)" and ?k = "LENGTH('t) div 8"
  let ?lw = "split_lo_word_idx ?t nb i" and ?hw = "split_hi_word_idx ?t nb i"
  let ?lb = "split_lo_inner_bit_idx ?t nb i" and ?buf = "m_buf v"
  note geo = split_geometry [OF nb(1,2) ob]
  have ld: "(load ?buf (w * ?k) :: 't word res) = Inr (field ?buf (?t * w) ?t)" if "w \<le> ?hw" for w
    using load_field [OF dv word_in_buf [OF len that]] unfolding mult_sizeof [OF dv] .
  have narrow: "(ucast (field ?buf s nb :: 't word) :: 'r word) = field ?buf s nb" for s
    by (rule bit_word_eqI) (use nb in \<open>auto simp: bit_simps\<close>)
  show ?thesis
  proof (cases "?lw = ?hw")
    case True
    have "take_bit nb (drop_bit ?lb (field ?buf (?t * ?lw) ?t :: 't word)) = field ?buf (nb * i) nb"
      using ucast_take_drop_field [of ?lb nb ?t ?buf "?t * ?lw", where 'w = 't and 'r = 't]
        geo(3) [OF True] geo(2) by (simp add: mult.commute)
    then show ?thesis
      using True geo(3) nb us ld [of ?lw]
      by (simp add: split_get_def Let_def extract_bits_eq narrow del: load_ok)
  next
    case False
    let ?lo = "?t - ?lb"
    have lb: "0 < ?lb" "?lb < ?t" "?lo < nb" using geo(1) geo(5) [OF False] nb by auto
    have hw: "?hw = ?lw + 1" by (rule geo(4) [OF False])
    have "?t * ?hw = ?t * ?lw + ?lb + ?lo" and "nb * i = ?t * ?lw + ?lb"
      using lb hw geo(2) by (simp_all add: algebra_simps)
    then have "push_bit ?lo (take_bit (nb - ?lo) (field ?buf (?t * ?hw) ?t :: 't word))
          OR drop_bit ?lb (field ?buf (?t * ?lw) ?t) = field ?buf (nb * i) nb"
      using join_words [of ?lb ?lo nb ?buf "?t * ?lw", where 't = 't] lb nb by simp
    then show ?thesis
      using False lb nb us ld [of ?lw] ld [of ?hw] hw
      by (simp add: split_get_def Let_def extract_bits_eq narrow del: load_ok)
  qed
qed

lemma split_set_field:
  assumes dv: "8 dvd LENGTH('t)" and nb: "0 < nb" "nb < LENGTH('t)"
    and us: "\<not> bv_signed v" and ob: "off_boundary LENGTH('t) nb i" and fit: "fits nb (x :: 'r::len word)"
    and len: "(split_hi_word_idx LENGTH('t) nb i + 1) * (LENGTH('t) div 8) \<le> length (m_buf v)"
  shows "\<exists>b. split_set TYPE('t::len) nb v i x = Inr (v\<lparr>m_buf := b\<rparr>) \<and>
    writes_field (m_buf v) b (nb * i) nb x"
proof -
  let ?t = "LENGTH('t)" and ?k = "LENGTH('t) div 8" and ?x = "ucast x :: 't word"
  let ?lw = "split_lo_word_idx ?t nb i" and ?hw = "split_hi_word_idx ?t nb i"
  let ?lb = "split_lo_inner_bit_idx ?t nb i" and ?buf = "m_buf v"
  note geo = split_geometry [OF nb ob]
  have base: "8 * (?lw * ?k) + ?lb = nb * i" unfolding mult_sizeof [OF dv]
    using geo(2) by (simp add: mult.commute)
  have in_buf: "w * ?k + ?k \<le> length ?buf" if "w \<le> ?hw" for w
    by (rule word_in_buf [OF len that])
  have fx: "fits nb ?x"
    by (rule fitsI) (use fit in \<open>auto simp: bit_simps dest: fits_bit\<close>)
  have same: "writes_field a b s nb x" if "writes_field a b s nb ?x" for a b s
    using that nb by (auto simp: writes_field_def bit_simps)
  show ?thesis
  proof (cases "?lw = ?hw")
    case True
    obtain w w' c where wc: "load ?buf (?lw * ?k) = Inr (w :: 't word)" "insert_bits w ?x ?lb nb = Inr w'"
      "store ?buf (?lw * ?k) w' = Inr c" "writes_field ?buf c (8 * (?lw * ?k) + ?lb) nb ?x"
      by (rule load_insert_store [OF in_buf _ _ _ fx, of ?lw ?lb]) (use True geo(3) nb dv in auto)
    with same [of ?buf c] True us show ?thesis
      unfolding base by (auto simp: split_set_def Let_def simp del: load_ok)
  next
    case False
    let ?lo = "?t - ?lb"
    have lb: "0 < ?lb" "?lb < ?t" "?lo < nb" "0 < ?lo" using geo(1) geo(5) [OF False] nb by auto
    have hw: "?hw = ?lw + 1" by (rule geo(4) [OF False])
    have vlo: "?x AND mask ?lo = take_bit ?lo ?x" by (simp add: take_bit_eq_mask)
    have f1: "fits ?lo (take_bit ?lo ?x)" by (simp add: fits_def)
    have f2: "fits (nb - ?lo) (drop_bit ?lo ?x)"
      by (rule fitsI) (use fx in \<open>auto simp: bit_simps dest!: fits_bit\<close>)
    obtain w w' c where wc: "load ?buf (?lw * ?k) = Inr (w :: 't word)"
      "insert_bits w (take_bit ?lo ?x) ?lb ?lo = Inr w'" "store ?buf (?lw * ?k) w' = Inr c"
      "writes_field ?buf c (8 * (?lw * ?k) + ?lb) ?lo (take_bit ?lo ?x)"
      by (rule load_insert_store [OF in_buf _ _ _ f1, of ?lw ?lb]) (use lb hw dv in auto)
    have lc: "length c = length ?buf" by (rule store_length [OF wc(3)])
    obtain u u' d where ud: "load c (?hw * ?k) = Inr (u :: 't word)"
      "insert_bits u (drop_bit ?lo ?x) 0 (nb - ?lo) = Inr u'" "store c (?hw * ?k) u' = Inr d"
      "writes_field c d (8 * (?hw * ?k) + 0) (nb - ?lo) (drop_bit ?lo ?x)"
      by (rule load_insert_store [OF _ _ _ _ f2, of "?hw * ?k" c 0])
        (use lb nb dv in_buf [of ?hw] lc in auto)
    have next_word: "8 * (?hw * ?k) + 0 = nb * i + ?lo"
      using lb unfolding mult_sizeof [OF dv] hw geo(2) [symmetric] by (simp add: algebra_simps)
    from writes_field_trans [OF wc(4) [unfolded base] ud(4) [unfolded next_word]]
    have "writes_field ?buf d (nb * i) nb x" using lb by (intro same) simp
    moreover have "split_set TYPE('t) nb v i x = Inr (v\<lparr>m_buf := d\<rparr>)"
      using False us wc(1-3) ud(1-3) lb
      by (simp add: split_set_def Let_def bit_mask_eq vlo del: load_ok)
    ultimately show ?thesis by blast
  qed
qed

lemma split_byte_sz_covers:
  assumes dv: "8 dvd t" "0 < t" and nb: "0 < nb" "nb < t" and i: "i < sz" and ob: "off_boundary t nb i"
  shows "(split_hi_word_idx t nb i + 1) * (t div 8) \<le> split_byte_sz t nb sz"
proof -
  obtain k where k: "t = 8 * k" "0 < k" using dv by auto
  let ?w = "split_hi_word_idx t nb i" and ?q = "(nb * sz + t - 1) div t"
  have "?w * t + nb * (i + 1) mod t = nb * (i + 1)"
    by (simp add: split_hi_word_idx_def split_hi_bit_idx_def)
  then have "?w * t < nb * (i + 1)" using ob unfolding off_boundary_def by linarith
  also have "nb * (i + 1) \<le> nb * sz" using i by (intro mult_le_mono2) simp
  also have "nb * sz \<le> ?q * t" using roundup_div_bounds(1) [of t "nb * sz"] dv by simp
  finally have "?w < ?q" using mult_less_cancel2 by blast
  then have "(?w + 1) * k \<le> ?q * k" by (intro mult_le_mono1) simp
  then show ?thesis using k by (simp add: split_byte_sz_def Let_def)
qed

section \<open>Vectors as lists of numbers\<close>

definition bv_list :: "bitvec \<Rightarrow> 'r::len word list" where
  "bv_list v = map (\<lambda>i. field (m_buf v) (m_nbits v * i) (m_nbits v)) [0..<m_sz v]"

text \<open>
  The invariant of an unsigned vector that can be read and written: the width belongs to the
  class, its storage word is no wider than the \<open>rt\<close>-bit value type, the buffer has the size
  the class asks for, and no element of a split vector ends on a storage word.
\<close>

definition bv_inv :: "nat \<Rightarrow> bitvec \<Rightarrow> bool" where
  "bv_inv rt v \<longleftrightarrow>
     (let n = m_nbits v; sz = m_sz v; len = length (m_buf v); t = storage_bits n in
      \<not> bv_signed v \<and> t \<le> rt \<and>
      (case bv_class v of
         ExactBitVectorImpl \<Rightarrow> n \<in> {8, 16, 32, 64} \<and> exact_byte_sz n sz \<le> len
       | NonAtomicSingleBitVectorImpl \<Rightarrow> n = 1 \<and> sz \<le> 8 * len
       | AtomicSingleBitVectorImpl \<Rightarrow> n = 1 \<and> sz \<le> 8 * len
       | NonAtomicBitVectorImpl \<Rightarrow> 0 < n \<and> n < 64 \<and> nab_byte_sz t (t * 2) n sz \<le> len
       | NonAtomicSplitBitVectorImpl \<Rightarrow> 32 < n \<and> n < 64 \<and> split_byte_sz t n sz \<le> len \<and>
           (\<forall>i < sz. off_boundary t n i)
       | AtomicBitVectorImpl \<Rightarrow> False))"

lemma storage_bits_cases:
  "0 < n \<Longrightarrow> n \<le> 8 \<Longrightarrow> storage_bits n = 8"
  "8 < n \<Longrightarrow> n \<le> 16 \<Longrightarrow> storage_bits n = 16"
  "16 < n \<Longrightarrow> n \<le> 32 \<Longrightarrow> storage_bits n = 32"
  "32 < n \<Longrightarrow> n \<le> 64 \<Longrightarrow> storage_bits n = 64"
  by (simp_all add: storage_bits_def int_n_def uint_n_def)

lemma exact_in_buf:
  assumes "exact_byte_sz n sz \<le> len" and "8 dvd n" and "i < sz"
  shows "n div 8 * (i + 1) \<le> len"
proof -
  obtain k where k: "n = 8 * k" using assms(2) by auto
  have "k * (i + 1) \<le> k * sz" using assms(3) by (intro mult_le_mono2) simp
  also have "\<dots> = exact_byte_sz n sz" using k by (simp add: exact_byte_sz_def)
  finally show ?thesis using assms(1) k by simp
qed

lemma nab_in_buf:
  assumes "nab_byte_sz t (t * 2) n sz \<le> len" and "0 < n" "n \<le> t" "8 dvd t" "i < sz"
  shows "nab_word_idx t n i * (t div 8) + t * 2 div 8 \<le> len"
  using nab_byte_sz_covers [of "t * 2" t n i sz] assms by linarith

lemma split_in_buf:
  assumes "split_byte_sz t n sz \<le> len" and "0 < n" "n < t" "8 dvd t" "i < sz" "off_boundary t n i"
  shows "(split_hi_word_idx t n i + 1) * (t div 8) \<le> len"
  using split_byte_sz_covers [of t n i sz] assms by linarith

lemma bv_get_field:
  assumes inv: "bv_inv LENGTH('r) v" and i: "i < m_sz v"
  shows "bv_get v i = Inr (field (m_buf v) (m_nbits v * i) (m_nbits v) :: 'r::len word)"
proof (cases "bv_class v")
  case ExactBitVectorImpl
  with inv i show ?thesis
    by (auto simp: bv_inv_def Let_def bv_get_def storage_bits_cases
        intro!: exact_get_field [where 't = 8, simplified] exact_get_field [where 't = 16, simplified]
          exact_get_field [where 't = 32, simplified] exact_get_field [where 't = 64, simplified]
        dest: exact_in_buf)
next
  case NonAtomicSingleBitVectorImpl
  with inv i have "i div 8 < length (m_buf v)" "m_nbits v = 1" by (auto simp: bv_inv_def Let_def)
  then show ?thesis
    using NonAtomicSingleBitVectorImpl single_get_field [of i v] by (simp add: bv_get_def)
next
  case AtomicSingleBitVectorImpl
  with inv i have "i div 8 < length (m_buf v)" "m_nbits v = 1" by (auto simp: bv_inv_def Let_def)
  then show ?thesis
    using AtomicSingleBitVectorImpl single_get_field [of i v] by (simp add: bv_get_def)
next
  case NonAtomicBitVectorImpl
  with inv have n: "0 < m_nbits v" "m_nbits v < 64" by (auto simp: bv_inv_def Let_def)
  consider "m_nbits v \<le> 8" | "8 < m_nbits v" "m_nbits v \<le> 16" | "16 < m_nbits v" "m_nbits v \<le> 32"
    | "32 < m_nbits v" by linarith
  then show ?thesis
  proof cases
    case 1
    then show ?thesis
      using NonAtomicBitVectorImpl inv i n nab_in_buf [of 8 "m_nbits v" "m_sz v" "length (m_buf v)" i]
        nab_get_field [where 't = 8 and 'dt = 16 and 'r = 'r, of "m_nbits v" v i]
      by (simp add: bv_inv_def Let_def bv_get_def storage_bits_cases)
  next
    case 2
    then show ?thesis
      using NonAtomicBitVectorImpl inv i n nab_in_buf [of 16 "m_nbits v" "m_sz v" "length (m_buf v)" i]
        nab_get_field [where 't = 16 and 'dt = 32 and 'r = 'r, of "m_nbits v" v i]
      by (simp add: bv_inv_def Let_def bv_get_def storage_bits_cases)
  next
    case 3
    then show ?thesis
      using NonAtomicBitVectorImpl inv i n nab_in_buf [of 32 "m_nbits v" "m_sz v" "length (m_buf v)" i]
        nab_get_field [where 't = 32 and 'dt = 64 and 'r = 'r, of "m_nbits v" v i]
      by (simp add: bv_inv_def Let_def bv_get_def storage_bits_cases)
  next
    case 4
    then show ?thesis
      using NonAtomicBitVectorImpl inv i n nab_in_buf [of 64 "m_nbits v" "m_sz v" "length (m_buf v)" i]
        nab_get_field [where 't = 64 and 'dt = 128 and 'r = 'r, of "m_nbits v" v i]
      by (simp add: bv_inv_def Let_def bv_get_def storage_bits_cases)
  qed
next
  case NonAtomicSplitBitVectorImpl
  then show ?thesis
    using inv i split_in_buf [of 64 "m_nbits v" "m_sz v" "length (m_buf v)" i]
      split_get_field [where 't = 64 and 'r = 'r, of "m_nbits v" v i]
    by (auto simp: bv_inv_def Let_def bv_get_def storage_bits_cases)
next
  case AtomicBitVectorImpl
  with inv show ?thesis by (simp add: bv_inv_def Let_def)
qed

lemma bv_set_field:
  assumes inv: "bv_inv LENGTH('r) v" and i: "i < m_sz v" and fit: "fits (m_nbits v) (x :: 'r::len word)"
  shows "\<exists>b. bv_set v i x = Inr (v\<lparr>m_buf := b\<rparr>) \<and>
    writes_field (m_buf v) b (m_nbits v * i) (m_nbits v) x"
proof (cases "bv_class v")
  case ExactBitVectorImpl
  with inv have "m_nbits v \<in> {8, 16, 32, 64}" and sz: "exact_byte_sz (m_nbits v) (m_sz v) \<le> length (m_buf v)"
    by (auto simp: bv_inv_def Let_def)
  then show ?thesis
    using ExactBitVectorImpl exact_in_buf [OF sz _ i]
      exact_set_field [where 't = 8, of i v x] exact_set_field [where 't = 16, of i v x]
      exact_set_field [where 't = 32, of i v x] exact_set_field [where 't = 64, of i v x]
    by (auto simp: bv_set_def)
next
  case NonAtomicSingleBitVectorImpl
  with inv i have "i div 8 < length (m_buf v)" "m_nbits v = 1" by (auto simp: bv_inv_def Let_def)
  then show ?thesis
    using NonAtomicSingleBitVectorImpl fit single_set_field [of i v x] by (simp add: bv_set_def)
next
  case AtomicSingleBitVectorImpl
  with inv i have "i div 8 < length (m_buf v)" "m_nbits v = 1" by (auto simp: bv_inv_def Let_def)
  then show ?thesis
    using AtomicSingleBitVectorImpl fit atomic_single_set_field [of i v x] by (simp add: bv_set_def)
next
  case NonAtomicBitVectorImpl
  with inv have n: "0 < m_nbits v" "m_nbits v < 64" by (auto simp: bv_inv_def Let_def)
  consider "m_nbits v \<le> 8" | "8 < m_nbits v" "m_nbits v \<le> 16" | "16 < m_nbits v" "m_nbits v \<le> 32"
    | "32 < m_nbits v" by linarith
  then show ?thesis
  proof cases
    case 1
    then show ?thesis
      using NonAtomicBitVectorImpl inv i n fit nab_in_buf [of 8 "m_nbits v" "m_sz v" "length (m_buf v)" i]
        nab_set_field [where 't = 8 and 'dt = 16, of "m_nbits v" v x i]
      by (simp add: bv_inv_def Let_def bv_set_def storage_bits_cases)
  next
    case 2
    then show ?thesis
      using NonAtomicBitVectorImpl inv i n fit nab_in_buf [of 16 "m_nbits v" "m_sz v" "length (m_buf v)" i]
        nab_set_field [where 't = 16 and 'dt = 32, of "m_nbits v" v x i]
      by (simp add: bv_inv_def Let_def bv_set_def storage_bits_cases)
  next
    case 3
    then show ?thesis
      using NonAtomicBitVectorImpl inv i n fit nab_in_buf [of 32 "m_nbits v" "m_sz v" "length (m_buf v)" i]
        nab_set_field [where 't = 32 and 'dt = 64, of "m_nbits v" v x i]
      by (simp add: bv_inv_def Let_def bv_set_def storage_bits_cases)
  next
    case 4
    then show ?thesis
      using NonAtomicBitVectorImpl inv i n fit nab_in_buf [of 64 "m_nbits v" "m_sz v" "length (m_buf v)" i]
        nab_set_field [where 't = 64 and 'dt = 128, of "m_nbits v" v x i]
      by (simp add: bv_inv_def Let_def bv_set_def storage_bits_cases)
  qed
next
  case NonAtomicSplitBitVectorImpl
  then show ?thesis
    using inv i fit split_in_buf [of 64 "m_nbits v" "m_sz v" "length (m_buf v)" i]
      split_set_field [where 't = 64, of "m_nbits v" v i x]
    by (auto simp: bv_inv_def Let_def bv_set_def storage_bits_cases)
next
  case AtomicBitVectorImpl
  with inv show ?thesis by (simp add: bv_inv_def Let_def)
qed

lemma bv_inv_update: "length b = length (m_buf v) \<Longrightarrow> bv_inv rt (v\<lparr>m_buf := b\<rparr>) = bv_inv rt v"
  by (simp add: bv_inv_def cong: bv_class.case_cong)

lemma bv_list_update:
  assumes "writes_field (m_buf v) b (m_nbits v * i) (m_nbits v) x" and "fits (m_nbits v) (x :: 'r::len word)"
  shows "bv_list (v\<lparr>m_buf := b\<rparr>) = (bv_list v)[i := x]"
proof (rule nth_equalityI)
  fix j assume "j < length (bv_list (v\<lparr>m_buf := b\<rparr>) :: 'r word list)"
  then have j: "j < m_sz v" by (simp add: bv_list_def)
  show "bv_list (v\<lparr>m_buf := b\<rparr>) ! j = (bv_list v)[i := x] ! j"
  proof (cases "j = i")
    case True
    then show ?thesis using j writes_field_same [OF assms] by (simp add: bv_list_def)
  next
    case False
    let ?n = "m_nbits v"
    have "?n * j + ?n \<le> ?n * i \<or> ?n * i + ?n \<le> ?n * j"
    proof (cases "j < i")
      case True
      then have "?n * Suc j \<le> ?n * i" by (intro mult_le_mono2) simp
      then show ?thesis by simp
    next
      case False
      with \<open>j \<noteq> i\<close> have "?n * Suc i \<le> ?n * j" by (intro mult_le_mono2) simp
      then show ?thesis by simp
    qed
    from writes_field_other [OF assms(1) this] show ?thesis using j False by (simp add: bv_list_def)
  qed
qed (simp add: bv_list_def)

section \<open>The interface of an integer vector\<close>

text \<open>
  What the users of \<^verbatim>\<open>GetSetIdxBase\<close> rely on: within bounds a read returns the element, and
  a write of a value of the vector's width replaces that element and nothing else.
\<close>

locale int_vector =
  fixes vget :: "'v \<Rightarrow> nat \<Rightarrow> 'r::len word res"
    and vset :: "'v \<Rightarrow> nat \<Rightarrow> 'r word \<Rightarrow> 'v res"
    and vlist :: "'v \<Rightarrow> 'r word list"
    and width :: "'v \<Rightarrow> nat"
    and vinv :: "'v \<Rightarrow> bool"
  assumes vget: "vinv v \<Longrightarrow> i < length (vlist v) \<Longrightarrow> vget v i = Inr (vlist v ! i)"
    and vset: "vinv v \<Longrightarrow> i < length (vlist v) \<Longrightarrow> fits (width v) x \<Longrightarrow>
      \<exists>v'. vset v i x = Inr v' \<and> vinv v' \<and> vlist v' = (vlist v)[i := x] \<and> width v' = width v"
begin

lemma vset_many:
  assumes "vinv v" and "\<forall>(i, x) \<in> set ups. i < length (vlist v) \<and> fits (width v) x"
  shows "\<exists>v'. fold_res (\<lambda>(i, x) v. vset v i x) ups v = Inr v' \<and> vinv v' \<and> width v' = width v \<and>
    vlist v' = fold (\<lambda>(i, x) l. l[i := x]) ups (vlist v)"
  using assms
proof (induction ups arbitrary: v)
  case Nil
  then show ?case by simp
next
  case (Cons u ups)
  obtain i x where u: "u = (i, x)" by force
  from Cons.prems obtain v1 where v1: "vset v i x = Inr v1" "vinv v1"
    "vlist v1 = (vlist v)[i := x]" "width v1 = width v"
    using vset [of v i x] by (auto simp: u)
  have "\<forall>(i, x) \<in> set ups. i < length (vlist v1) \<and> fits (width v1) x"
    using Cons.prems(2) v1 by auto
  from Cons.IH [OF v1(2) this] show ?case using v1 by (auto simp: u)
qed

lemma vget_all: "vinv v \<Longrightarrow> map_res (vget v) [0..<length (vlist v)] = Inr (vlist v)"
  using map_res_total [of "[0..<length (vlist v)]" "vget v" "\<lambda>i. vlist v ! i"] vget
  by (simp add: map_nth)

end

interpretation bv: int_vector "bv_get :: bitvec \<Rightarrow> nat \<Rightarrow> 'r::len word res" bv_set bv_list m_nbits "bv_inv LENGTH('r)"
proof unfold_locales
  fix v i assume "bv_inv LENGTH('r) v" "i < length (bv_list v :: 'r word list)"
  then show "bv_get v i = Inr ((bv_list v :: 'r word list) ! i)"
    by (simp add: bv_get_field bv_list_def)
next
  fix v i and x :: "'r word"
  assume a: "bv_inv LENGTH('r) v" "i < length (bv_list v :: 'r word list)" "fits (m_nbits v) x"
  then obtain b where b: "bv_set v i x = Inr (v\<lparr>m_buf := b\<rparr>)"
    "writes_field (m_buf v) b (m_nbits v * i) (m_nbits v) x"
    using bv_set_field [of v i x] by (auto simp: bv_list_def)
  then show "\<exists>v'. bv_set v i x = Inr v' \<and> bv_inv LENGTH('r) v' \<and>
      bv_list v' = (bv_list v)[i := x] \<and> m_nbits v' = m_nbits v"
    using a bv_inv_update [of b v] bv_list_update [OF b(2) a(3)] by (simp add: writes_field_def)
qed

section \<open>What the factory builds\<close>

lemma is_pow2_u8:
  assumes "n < 256"
  shows "is_pow2 (of_nat n :: u8) \<longleftrightarrow> n \<in> {1, 2, 4, 8, 16, 32, 64, 128}"
proof -
  have eq: "(of_nat n :: u8) = push_bit k 1 \<longleftrightarrow> n = 2 ^ k" if "k < 8" for k
  proof -
    have "unat (push_bit k 1 :: u8) = push_bit k 1"
      by (rule bit_eqI) (use that in \<open>auto simp: bit_simps\<close>)
    then have "unat (push_bit k 1 :: u8) = 2 ^ k" by (simp add: push_bit_eq_mult)
    moreover have "unat (of_nat n :: u8) = n" using assms by (simp add: unat_of_nat)
    ultimately show ?thesis by (simp only: word_unat_eq_iff)
  qed
  have "is_pow2 (of_nat n :: u8) \<longleftrightarrow> (\<exists>k\<in>{..<8}. n = 2 ^ k)"
    unfolding is_pow2_iff using eq by auto
  also have "\<dots> \<longleftrightarrow> n \<in> {1, 2, 4, 8, 16, 32, 64, 128}"
    by (simp add: lessThan_nat_numeral lessThan_Suc) auto
  finally show ?thesis .
qed

lemma alloc_covers:
  assumes "n \<le> 2 ^ 63"
  shows "n \<le> unat (roundup_pow2_mul (of_nat n :: u64) 16)"
proof -
  have u: "unat (of_nat n :: u64) = n" using assms by (simp add: unat_of_nat)
  have "unat (roundup_pow2_mul (of_nat n :: u64) (push_bit 4 1)) = (n + (2 ^ 4 - 1)) div 2 ^ 4 * 2 ^ 4"
    using roundup_pow2_mul_eq [of 4 "of_nat n :: u64"] assms u by simp
  moreover have "(push_bit 4 1 :: u64) = 16" by simp
  ultimately show ?thesis using roundup_div_bounds(1) [of 16 n] by simp
qed

lemma single_byte_sz_covers:
  assumes "sz \<le> 2 ^ 63"
  shows "sz \<le> 8 * single_byte_sz sz" and "single_byte_sz sz \<le> sz + 8"
proof -
  have u: "unat (of_nat sz :: u64) = sz" using assms by (simp add: unat_of_nat)
  have "unat (roundup_pow2_mul (of_nat sz :: u64) (push_bit 3 1)) = (sz + (2 ^ 3 - 1)) div 2 ^ 3 * 2 ^ 3"
    using roundup_pow2_mul_eq [of 3 "of_nat sz :: u64"] assms u by simp
  moreover have "(push_bit 3 1 :: u64) = 8" by simp
  ultimately have "single_byte_sz sz = (sz + 7) div 8" by (simp add: single_byte_sz_def)
  then show "sz \<le> 8 * single_byte_sz sz" and "single_byte_sz sz \<le> sz + 8" by linarith+
qed

text \<open>Every width the assertion admits gives a vector, never the null pointer.\<close>

lemma factory_total:
  assumes "0 < nbits" "nbits \<le> nbits_max" "nbits_max \<le> 64"
  shows "\<exists>v. BitVectorFactory sg aw nbits_max nbits sz = Inr (Some v) \<and>
    m_nbits v = nbits \<and> m_sz v = sz \<and> bv_signed v = sg"
  using assms is_pow2_u8 [of nbits]
  by (auto simp: BitVectorFactory_def Let_def BitVectorBase_def)

lemma BitVectorBase_simps [simp]:
  "bv_class (BitVectorBase c sg n sz b) = c" "bv_signed (BitVectorBase c sg n sz b) = sg"
  "m_nbits (BitVectorBase c sg n sz b) = n" "m_sz (BitVectorBase c sg n sz b) = sz"
  "length (m_buf (BitVectorBase c sg n sz b)) = unat (roundup_pow2_mul (of_nat b :: u64) 16)"
  by (simp_all add: BitVectorBase_def)

lemma bv_list_zero: "bv_list (BitVectorBase c sg n sz b) = replicate sz (0 :: 'r::len word)"
proof (rule nth_equalityI)
  fix i assume "i < length (bv_list (BitVectorBase c sg n sz b) :: 'r word list)"
  then show "bv_list (BitVectorBase c sg n sz b) ! i = replicate sz (0 :: 'r word) ! i"
    by (auto simp: bv_list_def BitVectorBase_def buf_bit_def bit_simps intro!: bit_word_eqI)
qed (simp add: bv_list_def)

lemma nab_byte_sz_bound:
  assumes t: "t \<le> 64" "8 \<le> t" and bits: "n * sz \<le> 64 * 2 ^ 56"
  shows "nab_byte_sz t (t * 2) n sz \<le> 2 ^ 63"
proof -
  have "(n * sz + t + t * 2 - 1) div (t * 2) * (t * 2) < n * sz + t + t * 2"
    using roundup_div_bounds(2) [of "t * 2" "n * sz + t"] t by (simp add: add.assoc)
  moreover have "nab_byte_sz t (t * 2) n sz \<le> (n * sz + t + t * 2 - 1) div (t * 2) * (t * 2)"
    by (simp only: nab_byte_sz_def Let_def div_le_dividend)
  moreover have "n * sz + t + t * 2 \<le> 2 ^ 63" using t bits by simp
  ultimately show ?thesis by (meson less_imp_le order.trans)
qed

lemma factory_inv:
  assumes "BitVectorFactory False aw nbits_max nbits sz = Inr (Some v)" and "nbits_max \<le> 64"
    and "\<not> aw \<or> nbits \<in> {1, 8, 16, 32, 64}"
    and "nbits \<in> {33..63} \<Longrightarrow> \<forall>i < sz. off_boundary 64 nbits i"
    and "storage_bits nbits \<le> rt" and "sz < 2 ^ 56"
  shows "bv_inv rt v \<and> m_nbits v = nbits \<and> (bv_list v :: 'r::len word list) = replicate sz 0"
proof -
  have n: "0 < nbits" "nbits \<le> 64"
    using assms(1,2) by (auto simp: BitVectorFactory_def res_simps)
  have bits: "nbits * sz \<le> 64 * 2 ^ 56" using n assms(6) by (intro mult_le_mono) auto
  note pow = is_pow2_u8 [of nbits]
  have small: "x \<le> 2 ^ 63 \<Longrightarrow> x \<le> unat (roundup_pow2_mul (of_nat x :: u64) 16)" for x
    by (rule alloc_covers)
  consider "nbits = 1" | "nbits \<in> {8, 16, 32, 64}" | "2 \<le> nbits" "nbits \<le> 31" "nbits \<notin> {8, 16}"
    | "nbits \<in> {33..63}" using n by fastforce
  then show ?thesis
  proof cases
    case 1
    then have "sz \<le> 8 * unat (roundup_pow2_mul (of_nat (single_byte_sz sz) :: u64) 16)"
      using single_byte_sz_covers [of sz] small [of "single_byte_sz sz"] assms(6) by simp
    then show ?thesis
      using 1 assms(1,5) by (auto simp: BitVectorFactory_def bv_inv_def Let_def bv_list_zero res_simps split: if_splits)
  next
    case 2
    have "exact_byte_sz nbits sz \<le> 2 ^ 63" using bits by (simp add: exact_byte_sz_def mult.commute)
    from small [OF this] show ?thesis
      using 2 assms(1,5) pow by (auto simp: BitVectorFactory_def bv_inv_def Let_def bv_list_zero res_simps split: if_splits)
  next
    case 3
    then have t: "storage_bits nbits \<le> 64" "8 \<le> storage_bits nbits"
      by (auto simp: storage_bits_def int_n_def uint_n_def)
    let ?T = "storage_bits nbits"
    have "nab_byte_sz ?T (?T * 2) nbits sz \<le> 2 ^ 63" using nab_byte_sz_bound [OF t bits] .
    from small [OF this] show ?thesis
      using 3 assms(1,3,5) pow
      by (auto simp: BitVectorFactory_def bv_inv_def Let_def bv_list_zero res_simps split: if_splits)
  next
    case 4
    then have t: "storage_bits nbits = 64" by (simp add: storage_bits_cases)
    have "split_byte_sz 64 nbits sz \<le> 2 ^ 63"
      using roundup_div_bounds(2) [of 64 "nbits * sz"] bits
      by (simp add: split_byte_sz_def Let_def)
    from small [OF this] show ?thesis
      using 4 assms(1,3,4,5) pow t
      by (auto simp: BitVectorFactory_def bv_inv_def Let_def bv_list_zero res_simps split: if_splits)
  qed
qed

end
