(* ===== verification/BitVectorProps.thy ===== *)
theory BitVectorProps
  imports BitVectorCorrect
begin

text \<open>
  The properties of the packed integer vectors: what a sequence of writes leaves in a vector
  built by the factory, iteration through cursors, the signed variant and its limits, and
  the elements of split vectors that end on a storage word.
\<close>

section \<open>Unsigned vectors\<close>

lemma factory_updates:
  assumes f: "BitVectorFactory False aw nbits_max nbits sz = Inr (Some v)" "nbits_max \<le> 64"
    "\<not> aw \<or> nbits \<in> {1, 8, 16, 32, 64}" "nbits \<in> {33..63} \<Longrightarrow> \<forall>i < sz. off_boundary 64 nbits i"
    "storage_bits nbits \<le> LENGTH('r)" "sz < 2 ^ 56"
    and ups: "\<forall>(i, x) \<in> set ups. i < sz \<and> fits nbits (x :: 'r::len word)"
  shows "\<exists>v'. fold_res (\<lambda>(i, x) v. bv_set v i x) ups v = Inr v' \<and>
    map_res (bv_get v') [0..<sz] = Inr (fold (\<lambda>(i, x) l. l[i := x]) ups (replicate sz 0))"
proof -
  have inv: "bv_inv LENGTH('r) v" "m_nbits v = nbits" "bv_list v = replicate sz (0 :: 'r word)"
    using factory_inv [OF f] by blast+
  have "\<forall>(i, x) \<in> set ups. i < length (bv_list v :: 'r word list) \<and> fits (m_nbits v) x"
    using ups inv by auto
  from bv.vset_many [OF inv(1) this] obtain v' where v': "fold_res (\<lambda>(i, x) v. bv_set v i x) ups v = Inr v'"
    "bv_inv LENGTH('r) v'" "bv_list v' = fold (\<lambda>(i, x) l. l[i := x]) ups (bv_list v :: 'r word list)"
    by auto
  have "length (fold (\<lambda>(i, x) l. l[i := x]) ups l) = length l" for l :: "'r word list"
    by (induction ups arbitrary: l) auto
  with v'(3) inv(3) have "length (bv_list v' :: 'r word list) = sz" by simp
  with bv.vget_all [OF v'(2)] v' inv(3) show ?thesis by auto
qed

section \<open>Cursors\<close>

lemma cursor_collect_list:
  assumes inv: "bv_inv LENGTH('r) v" and sz: "m_sz v < 2 ^ 64" and i: "i \<le> m_sz v"
  shows "cursor_collect v \<lparr>m_tbl = t, m_idx = of_nat i\<rparr> (bv_end t v) = Inr (drop i (bv_list v :: 'r::len word list))"
  using i
proof (induction "m_sz v - i" arbitrary: i)
  case 0
  then show ?case
    by (subst cursor_collect.simps) (simp add: cursor_equal_def bv_end_def bv_list_def)
next
  case (Suc k)
  then have lt: "i < m_sz v" by simp
  have u: "unat (of_nat i :: u64) = i" "unat (of_nat (m_sz v) :: u64) = m_sz v"
    using lt sz by (simp_all add: unat_of_nat)
  then have ne: "(of_nat i :: u64) \<noteq> of_nat (m_sz v)" using lt by (metis less_irrefl)
  have rd: "cursor_read v \<lparr>m_tbl = t, m_idx = of_nat i\<rparr> = Inr ((bv_list v :: 'r word list) ! i)"
    using bv.vget [OF inv, of i] lt u by (simp add: cursor_read_def bv_list_def)
  have nx: "cursor_next \<lparr>m_tbl = t, m_idx = of_nat i\<rparr> = \<lparr>m_tbl = t, m_idx = of_nat (Suc i)\<rparr>"
    by (simp add: cursor_next_def add.commute)
  have "(bv_list v :: 'r word list) ! i # drop (Suc i) (bv_list v) = drop i (bv_list v)"
    using lt by (intro Cons_nth_drop_Suc) (simp add: bv_list_def)
  moreover have "cursor_collect v \<lparr>m_tbl = t, m_idx = of_nat (Suc i)\<rparr> (bv_end t v)
      = Inr (drop (Suc i) (bv_list v :: 'r word list))"
    using Suc.hyps(1) [of "Suc i"] Suc.hyps(2) lt by simp
  ultimately show ?case
    using ne rd by (subst cursor_collect.simps) (simp add: cursor_equal_def bv_end_def nx)
qed

section \<open>Signed vectors\<close>

lemma insert_store_signed:
  fixes w :: "'t::len word"
  assumes ld: "load buf off = Inr w" and ins: "insert_bits w v sb nb = Inr w'"
    and st: "store buf off w' = Inr buf'"
    and nb: "0 < nb" "sb + nb \<le> LENGTH('t)" and dv: "8 dvd LENGTH('t)"
  shows "length buf' = length buf"
    and "j < nb \<Longrightarrow> buf_bit buf' (8 * off + sb + j) = bit v j"
    and "p < 8 * off + sb \<Longrightarrow> buf_bit buf' p = buf_bit buf p"
proof -
  have w: "w = field buf (8 * off) LENGTH('t)"
    using ld load_field [OF dv] by (auto simp: load_Inr_iff)
  show "length buf' = length buf" by (rule store_length [OF st])
  show "buf_bit buf' (8 * off + sb + j) = bit v j" if "j < nb"
    using store_bit [OF st dv, of "8 * off + sb + j"] insert_bits_bit [OF nb ins, of "sb + j"] that nb
    by simp
  show "buf_bit buf' p = buf_bit buf p" if p: "p < 8 * off + sb"
  proof (cases "8 * off \<le> p")
    case True
    then obtain i where "p = 8 * off + i" by (metis le_iff_add)
    then show ?thesis
      using store_bit [OF st dv, of p] insert_bits_bit [OF nb ins, of i] p nb by (simp add: w bit_simps)
  next
    case False
    then show ?thesis using store_bit [OF st dv, of p] by simp
  qed
qed

lemma nab_get_signed:
  assumes dt: "LENGTH('dt) = 2 * LENGTH('t)" and dv: "8 dvd LENGTH('t)"
    and nb: "0 < nb" "nb \<le> LENGTH('t)" "nb < 32" and sg: "bv_signed v"
    and len: "nab_word_idx LENGTH('t) nb i * (LENGTH('t) div 8) + LENGTH('dt) div 8 \<le> length (m_buf v)"
  shows "nab_get TYPE('t::len) TYPE('dt::len) nb v i =
    Inr (scast (signed_take_bit (nb - 1) (field (m_buf v) (nb * i) nb :: 't word)) :: 'r::len word)"
proof -
  let ?off = "nab_word_idx LENGTH('t) nb i * (LENGTH('t) div 8)" and ?b = "nab_inner_bit_idx LENGTH('t) nb i"
  have b: "?b < LENGTH('t)" by (rule nab_inner_bit_idx_less) simp
  have "8 dvd LENGTH('dt)" and in_w: "?b + nb \<le> LENGTH('dt)" using dt dv b nb by simp_all
  from load_field [OF this(1) len]
  have ld: "(load (m_buf v) ?off :: 'dt word res) = Inr (field (m_buf v) (8 * ?off) LENGTH('dt))" .
  have fld: "(ucast (take_bit nb (drop_bit ?b (field (m_buf v) (8 * ?off) LENGTH('dt) :: 'dt word))) :: 't word)
      = field (m_buf v) (nb * i) nb"
    using b nb dt by (subst ucast_take_drop_field) (auto simp: nab_off [OF dv])
  have "take_bit nb (field (m_buf v) (nb * i) nb :: 't word) = field (m_buf v) (nb * i) nb"
    by (rule bit_word_eqI) (auto simp: bit_simps)
  then show ?thesis
    using in_w nb sg sign_extend_eq [of nb "field (m_buf v) (nb * i) nb :: 't word"]
    by (simp add: nab_get_def Let_def ld extract_bits_eq fld conv_def del: load_ok)
qed

lemma nab_set_signed:
  assumes dt: "LENGTH('dt) = 2 * LENGTH('t)" and dv: "8 dvd LENGTH('t)"
    and nb: "0 < nb" "nb \<le> LENGTH('t)" and sg: "bv_signed v"
    and len: "nab_word_idx LENGTH('t) nb i * (LENGTH('t) div 8) + LENGTH('dt) div 8 \<le> length (m_buf v)"
  shows "\<exists>b. nab_set TYPE('t::len) TYPE('dt::len) nb v i (x :: 'r::len word) = Inr (v\<lparr>m_buf := b\<rparr>) \<and>
    length b = length (m_buf v) \<and>
    (field b (nb * i) nb :: 't word) = take_bit nb (ucast x) \<and>
    (\<forall>p < nb * i. buf_bit b p = buf_bit (m_buf v) p)"
proof -
  let ?off = "nab_word_idx LENGTH('t) nb i * (LENGTH('t) div 8)" and ?b = "nab_inner_bit_idx LENGTH('t) nb i"
  let ?x = "conv True (ucast x :: 't word) :: 'dt word"
  have b: "?b < LENGTH('t)" by (rule nab_inner_bit_idx_less) simp
  have dv2: "8 dvd LENGTH('dt)" and in_w: "?b + nb \<le> LENGTH('dt)" using dt dv b nb by simp_all
  obtain w :: "'dt word" where w: "load (m_buf v) ?off = Inr w" using len by (simp add: load_def)
  obtain w' where w': "insert_bits w ?x ?b nb = Inr w'" using in_w nb by (simp add: insert_bits_eq)
  obtain c where c: "store (m_buf v) ?off w' = Inr c" using store_exists [OF len] by blast
  note eff = insert_store_signed [OF w w' c nb(1) in_w dv2, unfolded nab_off [OF dv]]
  have low: "bit ?x n = bit x n" if "n < nb" for n
  proof -
    have "min (LENGTH('t) - Suc 0) n = n" using that nb by simp
    with that nb dt show ?thesis by (simp add: conv_def bit_simps)
  qed
  have "field c (nb * i) nb = take_bit nb (ucast x :: 't word)"
    by (rule bit_word_eqI) (use eff(2) low nb dt in \<open>auto simp: bit_simps\<close>)
  moreover have "nab_set TYPE('t) TYPE('dt) nb v i x = Inr (v\<lparr>m_buf := c\<rparr>)"
    using w w' c sg by (simp add: nab_set_def Let_def del: load_ok)
  ultimately show ?thesis using eff by auto
qed

text \<open>A signed vector of the double-word class: width below 32 and a buffer of the class's size.\<close>

definition signed_inv :: "bitvec \<Rightarrow> bool" where
  "signed_inv v \<longleftrightarrow>
     (let n = m_nbits v; t = storage_bits n in
      bv_class v = NonAtomicBitVectorImpl \<and> bv_signed v \<and> 0 < n \<and> n < 32 \<and>
      nab_byte_sz t (t * 2) n (m_sz v) \<le> length (m_buf v))"

text \<open>The value a field holds in two's complement.\<close>

definition signed_elem :: "bitvec \<Rightarrow> nat \<Rightarrow> 'r::len word" where
  "signed_elem v i =
     (let n = m_nbits v in
      signed_take_bit (n - 1) (field (m_buf v) (n * i) n))"

lemma scast_signed_field:
  assumes "0 < n" "n \<le> LENGTH('t)" "LENGTH('t) \<le> LENGTH('r)"
  shows "(scast (signed_take_bit (n - 1) (field b s n :: 't::len word)) :: 'r::len word)
    = signed_take_bit (n - 1) (field b s n)"
proof (rule bit_word_eqI)
  fix j assume j: "j < LENGTH('r)"
  have "min (n - Suc 0) (min (LENGTH('t) - Suc 0) j) = min (n - Suc 0) j" using assms by linarith
  then show "bit (scast (signed_take_bit (n - 1) (field b s n :: 't word)) :: 'r word) j
      = bit (signed_take_bit (n - 1) (field b s n :: 'r word)) j"
    using j assms by (auto simp: bit_simps min.commute min.left_commute)
qed

lemma signed_get:
  assumes inv: "signed_inv v" and i: "i < m_sz v" and rt: "storage_bits (m_nbits v) \<le> LENGTH('r)"
  shows "bv_get v i = Inr (signed_elem v i :: 'r::len word)"
proof -
  have n: "0 < m_nbits v" "m_nbits v < 32" using inv by (auto simp: signed_inv_def Let_def)
  consider "m_nbits v \<le> 8" | "8 < m_nbits v" "m_nbits v \<le> 16" | "16 < m_nbits v"
    by linarith
  then show ?thesis
  proof cases
    case 1
    then show ?thesis
      using inv i n rt nab_in_buf [of 8 "m_nbits v" "m_sz v" "length (m_buf v)" i]
        nab_get_signed [where 't = 8 and 'dt = 16 and 'r = 'r, of "m_nbits v" v i]
      by (simp add: signed_inv_def signed_elem_def Let_def bv_get_def storage_bits_cases scast_signed_field [where 't = 8, simplified])
  next
    case 2
    then show ?thesis
      using inv i n rt nab_in_buf [of 16 "m_nbits v" "m_sz v" "length (m_buf v)" i]
        nab_get_signed [where 't = 16 and 'dt = 32 and 'r = 'r, of "m_nbits v" v i]
      by (simp add: signed_inv_def signed_elem_def Let_def bv_get_def storage_bits_cases scast_signed_field [where 't = 16, simplified])
  next
    case 3
    then show ?thesis
      using inv i n rt nab_in_buf [of 32 "m_nbits v" "m_sz v" "length (m_buf v)" i]
        nab_get_signed [where 't = 32 and 'dt = 64 and 'r = 'r, of "m_nbits v" v i]
      by (simp add: signed_inv_def signed_elem_def Let_def bv_get_def storage_bits_cases scast_signed_field [where 't = 32, simplified])
  qed
qed

lemma field_take_bits:
  assumes "(field b s n :: 't::len word) = take_bit n (ucast (x :: 'r::len word))" and "n \<le> LENGTH('t)" and "j < n"
  shows "buf_bit b (s + j) = bit x j"
proof -
  have "bit (field b s n :: 't word) j = bit (take_bit n (ucast x :: 't word)) j"
    using assms(1) by simp
  then show ?thesis using assms(2,3) by (simp add: bit_simps)
qed

lemma signed_set:
  assumes inv: "signed_inv v" and i: "i < m_sz v"
  shows "\<exists>b. bv_set v i (x :: 'r::len word) = Inr (v\<lparr>m_buf := b\<rparr>) \<and> length b = length (m_buf v) \<and>
    (\<forall>j < m_nbits v. buf_bit b (m_nbits v * i + j) = bit x j) \<and>
    (\<forall>p < m_nbits v * i. buf_bit b p = buf_bit (m_buf v) p)"
proof -
  have n: "0 < m_nbits v" "m_nbits v < 32" and c: "bv_class v = NonAtomicBitVectorImpl" "bv_signed v"
    using inv by (auto simp: signed_inv_def Let_def)
  consider "m_nbits v \<le> 8" | "8 < m_nbits v" "m_nbits v \<le> 16" | "16 < m_nbits v"
    by linarith
  then show ?thesis
  proof cases
    case 1
    then have "nab_word_idx 8 (m_nbits v) i * (8 div 8) + 16 div 8 \<le> length (m_buf v)"
      using inv i n nab_in_buf [of 8 "m_nbits v" "m_sz v" "length (m_buf v)" i]
      by (simp add: signed_inv_def Let_def storage_bits_cases)
    then obtain b where b: "bv_set v i x = Inr (v\<lparr>m_buf := b\<rparr>)" "length b = length (m_buf v)"
      "(field b (m_nbits v * i) (m_nbits v) :: 8 word) = take_bit (m_nbits v) (ucast x)"
      "\<forall>p < m_nbits v * i. buf_bit b p = buf_bit (m_buf v) p"
      using 1 n c nab_set_signed [where 't = 8 and 'dt = 16, of "m_nbits v" v i x]
      by (auto simp: bv_set_def)
    then show ?thesis using field_take_bits [OF b(3)] 1 n by (intro exI [of _ b]) simp
  next
    case 2
    then have "nab_word_idx 16 (m_nbits v) i * (16 div 8) + 32 div 8 \<le> length (m_buf v)"
      using inv i n nab_in_buf [of 16 "m_nbits v" "m_sz v" "length (m_buf v)" i]
      by (simp add: signed_inv_def Let_def storage_bits_cases)
    then obtain b where b: "bv_set v i x = Inr (v\<lparr>m_buf := b\<rparr>)" "length b = length (m_buf v)"
      "(field b (m_nbits v * i) (m_nbits v) :: 16 word) = take_bit (m_nbits v) (ucast x)"
      "\<forall>p < m_nbits v * i. buf_bit b p = buf_bit (m_buf v) p"
      using 2 n c nab_set_signed [where 't = 16 and 'dt = 32, of "m_nbits v" v i x]
      by (auto simp: bv_set_def)
    then show ?thesis using field_take_bits [OF b(3)] 2 n by (intro exI [of _ b]) simp
  next
    case 3
    then have "nab_word_idx 32 (m_nbits v) i * (32 div 8) + 64 div 8 \<le> length (m_buf v)"
      using inv i n nab_in_buf [of 32 "m_nbits v" "m_sz v" "length (m_buf v)" i]
      by (simp add: signed_inv_def Let_def storage_bits_cases)
    then obtain b where b: "bv_set v i x = Inr (v\<lparr>m_buf := b\<rparr>)" "length b = length (m_buf v)"
      "(field b (m_nbits v * i) (m_nbits v) :: 32 word) = take_bit (m_nbits v) (ucast x)"
      "\<forall>p < m_nbits v * i. buf_bit b p = buf_bit (m_buf v) p"
      using 3 n c nab_set_signed [where 't = 32 and 'dt = 64, of "m_nbits v" v i x]
      by (auto simp: bv_set_def)
    then show ?thesis using field_take_bits [OF b(3)] 3 n by (intro exI [of _ b]) simp
  qed
qed

lemma signed_elem_bits:
  assumes "0 < m_nbits v" and "\<And>j. j < m_nbits v \<Longrightarrow> buf_bit (m_buf v) (m_nbits v * i + j) = bit (x :: 'r::len word) j"
    and "m_nbits v \<le> LENGTH('r)"
  shows "signed_elem v i = signed_take_bit (m_nbits v - 1) x"
proof (rule bit_word_eqI)
  fix j assume j: "j < LENGTH('r)"
  have "min (m_nbits v - 1) j < m_nbits v" using assms(1) by linarith
  from assms(2) [OF this] this j assms(1,3)
  show "bit (signed_elem v i :: 'r word) j = bit (signed_take_bit (m_nbits v - 1) x) j"
    by (simp add: signed_elem_def Let_def bit_simps min.commute)
qed

lemma signed_elem_cong:
  assumes "m_nbits w = m_nbits v" and "\<And>p. p < m_nbits v * Suc i \<Longrightarrow> buf_bit (m_buf w) p = buf_bit (m_buf v) p"
  shows "signed_elem w i = (signed_elem v i :: 'r::len word)"
proof -
  have "field (m_buf w) (m_nbits v * i) (m_nbits v) = (field (m_buf v) (m_nbits v * i) (m_nbits v) :: 'r word)"
    by (rule field_cong) (use assms(2) in auto)
  then show ?thesis by (simp add: signed_elem_def Let_def assms(1))
qed

lemma signed_fill:
  assumes "signed_inv v" and "k + length xs \<le> m_sz v" and w: "m_nbits v \<le> LENGTH('r)"
  shows "\<exists>v'. fold_res (\<lambda>(i, x) v. bv_set v i x) (zip [k..<k + length xs] xs) v = Inr v' \<and>
    signed_inv v' \<and> m_nbits v' = m_nbits v \<and> m_sz v' = m_sz v \<and>
    (\<forall>i < k. signed_elem v' i = (signed_elem v i :: 'r::len word)) \<and>
    (\<forall>i < length xs. signed_elem v' (k + i) = (signed_take_bit (m_nbits v - 1) (xs ! i) :: 'r word))"
  using assms
proof (induction xs arbitrary: k v)
  case Nil
  then show ?case by simp
next
  case (Cons x xs)
  let ?n = "m_nbits v"
  from Cons.prems have "k < m_sz v" by simp
  from signed_set [OF Cons.prems(1) this] obtain b where b: "bv_set v k x = Inr (v\<lparr>m_buf := b\<rparr>)"
    "length b = length (m_buf v)" "\<And>j. j < ?n \<Longrightarrow> buf_bit b (?n * k + j) = bit x j"
    "\<And>p. p < ?n * k \<Longrightarrow> buf_bit b p = buf_bit (m_buf v) p" by blast
  let ?v = "v\<lparr>m_buf := b\<rparr>"
  have "signed_inv ?v" using Cons.prems(1) b(2) by (simp add: signed_inv_def Let_def)
  from Cons.IH [OF this, of "Suc k"] Cons.prems obtain v' where v':
    "fold_res (\<lambda>(i, x) v. bv_set v i x) (zip [Suc k..<Suc k + length xs] xs) ?v = Inr v'" "signed_inv v'"
    "m_nbits v' = ?n" "m_sz v' = m_sz v" "\<forall>i < Suc k. signed_elem v' i = (signed_elem ?v i :: 'r word)"
    "\<forall>i < length xs. signed_elem v' (Suc k + i) = (signed_take_bit (?n - 1) (xs ! i) :: 'r word)"
    by auto
  have n: "0 < ?n" using Cons.prems(1) by (auto simp: signed_inv_def Let_def)
  have new: "signed_elem ?v k = signed_take_bit (?n - 1) x"
    using signed_elem_bits [of ?v k x] b(3) n Cons.prems(3) by simp
  have keep: "signed_elem ?v i = (signed_elem v i :: 'r word)" if "i < k" for i
  proof (rule signed_elem_cong)
    have "?n * Suc i \<le> ?n * k" using that by (intro mult_le_mono2) simp
    then show "buf_bit (m_buf ?v) p = buf_bit (m_buf v) p" if "p < ?n * Suc i" for p
      using b(4) [of p] less_le_trans [OF that] by simp
  qed simp
  have "[k..<k + length (x # xs)] = k # [Suc k..<Suc k + length xs]" by (simp add: upt_rec)
  moreover have "signed_elem v' (k + i) = (signed_take_bit (?n - 1) ((x # xs) ! i) :: 'r word)"
    if "i < length (x # xs)" for i
    using that v'(5,6) new by (cases i) auto
  ultimately show ?case using v' b(1) keep by (intro exI [of _ v']) auto
qed

lemma factory_signed_inv:
  assumes "BitVectorFactory True False nbits_max nbits sz = Inr (Some v)" and "nbits_max \<le> 64"
    and "2 \<le> nbits" "nbits < 32" "nbits \<notin> {8, 16}" and "sz < 2 ^ 56"
  shows "signed_inv v \<and> m_nbits v = nbits \<and> m_sz v = sz"
proof -
  let ?T = "storage_bits nbits"
  have t: "?T \<le> 64" "8 \<le> ?T" using assms(3,4) by (auto simp: storage_bits_def int_n_def uint_n_def)
  have "nbits * sz \<le> 64 * 2 ^ 56" using assms(4,6) by (intro mult_le_mono) auto
  from nab_byte_sz_bound [OF t this] have "nab_byte_sz ?T (?T * 2) nbits sz \<le> 2 ^ 63" .
  from alloc_covers [OF this] show ?thesis
    using assms is_pow2_u8 [of nbits]
    by (auto simp: BitVectorFactory_def signed_inv_def Let_def res_simps split: if_splits)
qed

section \<open>Elements the code cannot reach\<close>

lemma extract_zero_bits: "extract_bits sg (w :: u64) 0 0 = Inl Shift_Undefined"
  by (simp add: extract_bits_def bit_mask_def bit_mask_unsafe_zero)

lemma split_boundary_idx:
  assumes nb: "0 < nb" "nb < 64" and ob: "\<not> off_boundary 64 nb i"
  shows "split_lo_inner_bit_idx 64 nb i = 64 - nb"
    and "split_lo_word_idx 64 nb i \<noteq> split_hi_word_idx 64 nb i"
proof -
  from ob obtain q where q: "nb * (i + 1) = 64 * q" by (auto simp: off_boundary_def)
  then obtain k where k: "q = Suc k" using nb by (cases q) auto
  have i: "nb * i = 64 * k + (64 - nb)" using q nb k by auto
  have lo: "split_lo_word_idx 64 nb i = k"
    unfolding split_lo_word_idx_def split_lo_bit_idx_def i using nb by simp
  then show "split_lo_inner_bit_idx 64 nb i = 64 - nb"
    unfolding split_lo_inner_bit_idx_def split_lo_bit_idx_def i by simp
  have "split_hi_word_idx 64 nb i = q" using q by (simp add: split_hi_word_idx_def split_hi_bit_idx_def)
  with lo k show "split_lo_word_idx 64 nb i \<noteq> split_hi_word_idx 64 nb i" by simp
qed

lemma split_get_boundary:
  assumes nb: "0 < nb" "nb < 64" and ob: "\<not> off_boundary 64 nb i"
  shows "\<exists>e. split_get TYPE(64) nb v i = (Inl e :: 'r::len word res)"
  using split_boundary_idx [OF assms] nb
  by (auto simp: split_get_def Let_def load_def extract_zero_bits)

lemma bit_mask_zero_bits: "bit_mask sb 0 = (Inl Shift_Undefined :: u64 res)"
  by (simp add: bit_mask_def bit_mask_unsafe_zero)

lemma split_set_boundary:
  assumes nb: "0 < nb" "nb < 64" and ob: "\<not> off_boundary 64 nb i"
  shows "\<exists>e. split_set TYPE(64) nb v i (x :: 'r::len word) = Inl e"
proof -
  have "insert_bits (w :: u64) u 0 0 = Inl Shift_Undefined" for w u
    by (simp add: insert_bits_def bit_mask_zero_bits)
  then show ?thesis
    using split_boundary_idx [OF assms] nb
    by (auto simp: split_set_def Let_def load_def store_def and_then_def split: sum.split)
qed

section \<open>Properties\<close>

text \<open>C1: A vector the factory builds behaves as an array of integers of its width: after
  any sequence of in-range writes of fitting values, reading every index returns exactly what
  the same writes leave in a list of zeros, and no access faults.  The vector is unsigned and
  has fewer than \<open>2 ^ 56\<close> elements; an atomic one has a width of a machine integer (1, 8, 16, 32
  or 64), and one of 33 to 63 bits has no element that ends on a boundary of its storage words.
  Outside these bounds the code is not an array of integers.\<close>

theorem vector_updates_read_back:
  assumes "BitVectorFactory False aw nbits_max nbits sz = Inr (Some v)" and "nbits_max \<le> 64"
    and "\<not> aw \<or> nbits \<in> {1, 8, 16, 32, 64}"
    and "nbits \<in> {33..63} \<Longrightarrow> \<forall>i < sz. off_boundary 64 nbits i"
    and "storage_bits nbits \<le> LENGTH('r)" and "sz < 2 ^ 56"
    and "\<forall>(i, x) \<in> set ups. i < sz \<and> fits nbits (x :: 'r::len word)"
  shows "\<exists>v'. fold_res (\<lambda>(i, x) v. bv_set v i x) ups v = Inr v' \<and>
    map_res (bv_get v') [0..<sz] = Inr (fold (\<lambda>(i, x) l. l[i := x]) ups (replicate sz 0))"
  using assms by (rule factory_updates)

theorem vector_updates_read_back_witness:
  "\<exists>v v'. BitVectorFactory False False 64 12 4 = Inr (Some v) \<and>
     fold_res (\<lambda>(i, x) v. bv_set v i x) [(2, 0xabc), (3, 7), (2, 1 :: u64)] v = Inr v' \<and>
     map_res (bv_get v') [0..<4] = Inr [0, 0, 1, 7 :: u64]"
proof -
  obtain v where v: "BitVectorFactory False False 64 12 4 = Inr (Some v)"
    using factory_total [of 12 64 False False 4] by auto
  have b: "storage_bits 12 \<le> LENGTH(64)" by (simp add: storage_bits_cases)
  have u: "\<forall>(i, x) \<in> set [(2 :: nat, 0xabc), (3, 7), (2, 1 :: u64)]. i < 4 \<and> fits 12 x"
    by (simp add: fits_iff_unat)
  have l: "fold (\<lambda>(i, x) l. l[i := x]) [(2, 0xabc), (3, 7), (2, 1 :: u64)] (replicate 4 0) = [0, 0, 1, 7]"
    by (simp add: numeral_eq_Suc)
  from vector_updates_read_back [OF v _ _ _ b _ u] have
    "\<exists>v'. fold_res (\<lambda>(i, x) v. bv_set v i x) [(2, 0xabc), (3, 7), (2, 1 :: u64)] v = Inr v' \<and>
      map_res (bv_get v') [0..<4] = Inr [0, 0, 1, 7 :: u64]" unfolding l by simp
  with v show ?thesis by blast
qed

text \<open>C25: Iterating over a readable vector with its begin and end cursors visits exactly the
  elements that indexed reads return, in index order, and terminates.\<close>

theorem cursor_iteration:
  assumes "bv_inv LENGTH('r) v" and "m_sz v < 2 ^ 64"
  shows "\<exists>xs. cursor_collect v (bv_begin t) (bv_end t v) = Inr (xs :: 'r::len word list) \<and>
    map_res (bv_get v) [0..<m_sz v] = Inr xs \<and> length xs = m_sz v"
proof -
  have len: "length (bv_list v :: 'r word list) = m_sz v" by (simp add: bv_list_def)
  then show ?thesis
    using cursor_collect_list [where 'r = 'r, OF assms, of 0 t] bv.vget_all [where 'r = 'r, OF assms(1)]
    by (simp add: bv_begin_def)
qed

theorem cursor_iteration_witness:
  "\<exists>v. BitVectorFactory False False 32 20 3 = Inr (Some v) \<and>
     (\<exists>xs. cursor_collect v (bv_begin 7) (bv_end 7 v) = Inr (xs :: u32 list) \<and>
       map_res (bv_get v) [0..<m_sz v] = Inr xs \<and> length xs = m_sz v)"
proof -
  obtain v where v: "BitVectorFactory False False 32 20 3 = Inr (Some v)" "m_sz v = 3"
    using factory_total [of 20 32 False False 3] by auto
  have "storage_bits 20 \<le> 32" by (simp add: storage_bits_cases)
  then have "bv_inv 32 v" using factory_inv [where 'r = 32, OF v(1), of 32] by simp
  then show ?thesis using cursor_iteration [where 'r = 32 and v = v and t = 7] v by auto
qed

text \<open>A signed vector of the double-word class (width 2 to 31, not 8 or 16) filled in
  ascending index order holds, at every index, the low bits of the written value sign-extended
  from the vector's width.\<close>

lemma signed_fill_reads_back:
  assumes "BitVectorFactory True False nbits_max nbits (length xs) = Inr (Some v)" "nbits_max \<le> 64"
    and "2 \<le> nbits" "nbits < 32" "nbits \<notin> {8, 16}" and "length xs < 2 ^ 56"
    and "storage_bits nbits \<le> LENGTH('r)"
  shows "\<exists>v'. fold_res (\<lambda>(i, x) v. bv_set v i x) (enumerate 0 xs) v = Inr v' \<and>
    map_res (bv_get v') [0..<length xs] = Inr (map (signed_take_bit (nbits - 1)) (xs :: 'r::len word list))"
proof -
  have v: "signed_inv v" "m_nbits v = nbits" "m_sz v = length xs"
    using factory_signed_inv [OF assms(1-6)] by auto
  have "nbits \<le> LENGTH('r)" using assms(3,4,7) by (auto simp: storage_bits_def int_n_def uint_n_def split: if_splits)
  with signed_fill [OF v(1), of 0 xs] v obtain v' where v': "signed_inv v'" "m_nbits v' = nbits"
    "m_sz v' = length xs" "fold_res (\<lambda>(i, x) v. bv_set v i x) (enumerate 0 xs) v = Inr v'"
    "\<forall>i < length xs. signed_elem v' i = (signed_take_bit (nbits - 1) (xs ! i) :: 'r word)"
    by (auto simp: enumerate_eq_zip)
  have "map_res (bv_get v') [0..<length xs] = Inr (map (\<lambda>i. signed_take_bit (nbits - 1) (xs ! i)) [0..<length xs])"
    by (rule map_res_total) (use signed_get [where 'r = 'r, OF v'(1)] v' assms(7) in auto)
  also have "map (\<lambda>i. signed_take_bit (nbits - 1) (xs ! i)) [0..<length xs] = map (signed_take_bit (nbits - 1)) xs"
    by (rule nth_equalityI) auto
  finally show ?thesis using v' by blast
qed

lemma signed_fill_reads_back_witness:
  "\<exists>v v'. BitVectorFactory True False 64 12 3 = Inr (Some v) \<and>
     fold_res (\<lambda>(i, x) v. bv_set v i x) (enumerate 0 [- 5, 7, - 2048 :: u32]) v = Inr v' \<and>
     map_res (bv_get v') [0..<3] = Inr [- 5, 7, - 2048 :: u32]"
proof -
  obtain v where v: "BitVectorFactory True False 64 12 (length [- 5, 7, - 2048 :: u32]) = Inr (Some v)"
    using factory_total [of 12 64 True False "length [- 5, 7, - 2048 :: u32]"] by auto
  have "storage_bits 12 \<le> LENGTH(32)" by (simp add: storage_bits_cases)
  moreover have "map (signed_take_bit (12 - 1)) [- 5, 7, - 2048 :: u32] = [- 5, 7, - 2048]" by simp
  ultimately have "\<exists>v'. fold_res (\<lambda>(i, x) v. bv_set v i x) (enumerate 0 [- 5, 7, - 2048 :: u32]) v = Inr v' \<and>
      map_res (bv_get v') [0..<length [- 5, 7, - 2048 :: u32]] = Inr [- 5, 7, - 2048 :: u32]"
    using signed_fill_reads_back [OF v] by simp
  moreover have "length [- 5, 7, - 2048 :: u32] = 3" by simp
  ultimately show ?thesis using v by metis
qed

text \<open>A write of a negative value to a signed vector does not stay inside its element:
  after writing 1 at index 1 and then -1 at index 0 of a 12-bit vector, index 1 reads -1.\<close>

lemma signed_set_clobbers_next:
  "(case BitVectorFactory True False 64 12 2 of
      Inr (Some v) \<Rightarrow>
        and_then (bv_set v 1 (1 :: u32)) (\<lambda>v. and_then (bv_set v 0 (- 1 :: u32)) (\<lambda>v.
        and_then (bv_get v 0) (\<lambda>a. and_then (bv_get v 1) (\<lambda>b. Inr (a :: u32, b :: u32)))))
    | _ \<Rightarrow> Inl Assertion_Failed) = Inr (- 1, - 1)"
  by code_simp

text \<open>In a non-atomic vector wider than 32 bits, an element whose last bit is the last bit of
  a storage word can be neither read nor written: both calls fault for every buffer.\<close>

lemma split_boundary_faults:
  assumes "BitVectorFactory sg False nbits_max nbits sz = Inr (Some v)" and "nbits_max \<le> 64"
    and "32 < nbits" "nbits < 64" and "\<not> off_boundary 64 nbits i"
  shows "(\<exists>e. bv_get v i = (Inl e :: 'r::len word res)) \<and> (\<exists>e. bv_set v i (x :: 'r word) = Inl e)"
proof -
  have "bv_class v = NonAtomicSplitBitVectorImpl" "m_nbits v = nbits"
    using assms(1-4) is_pow2_u8 [of nbits]
    by (auto simp: BitVectorFactory_def Let_def res_simps split: if_splits)
  then show ?thesis
    using assms(3,4) split_get_boundary [OF _ assms(4,5), where v = v and 'r = 'r]
      split_set_boundary [OF _ assms(4,5), of v x]
    by (simp add: bv_get_def bv_set_def Let_def)
qed

lemma split_boundary_faults_witness:
  "\<exists>v. BitVectorFactory False False 64 48 8 = Inr (Some v) \<and>
     (\<exists>e. bv_get v 3 = (Inl e :: u64 res)) \<and> (\<exists>e. bv_set v 3 (0 :: u64) = Inl e)"
proof -
  obtain v where v: "BitVectorFactory False False 64 48 8 = Inr (Some v)"
    using factory_total [of 48 64 False False 8] by auto
  have "\<not> off_boundary 64 48 3" by (simp add: off_boundary_def)
  from split_boundary_faults [OF v _ _ _ this, where 'r = 64 and x = 0] show ?thesis using v by auto
qed

text \<open>A signed non-atomic vector of a width between 33 and 63 bits cannot be read at all: the
  sign extension shifts a 32-bit constant by the width.\<close>

lemma signed_wide_get_faults:
  assumes "BitVectorFactory True False nbits_max nbits sz = Inr (Some v)" and "nbits_max \<le> 64"
    and "32 < nbits" "nbits < 64"
  shows "\<exists>e. bv_get v i = (Inl e :: 'r::len word res)"
proof -
  have "bv_class v = NonAtomicSplitBitVectorImpl" "m_nbits v = nbits" "bv_signed v"
    using assms is_pow2_u8 [of nbits]
    by (auto simp: BitVectorFactory_def Let_def res_simps split: if_splits)
  then show ?thesis
    using assms(3) by (auto simp: bv_get_def split_get_def Let_def sign_extend_undefined and_then_def split: sum.split)
qed

lemma signed_wide_get_faults_witness:
  "\<exists>v. BitVectorFactory True False 64 40 8 = Inr (Some v) \<and> (\<exists>e. bv_get v 0 = (Inl e :: u64 res))"
proof -
  obtain v where v: "BitVectorFactory True False 64 40 8 = Inr (Some v)"
    using factory_total [of 40 64 True False 8] by auto
  from signed_wide_get_faults [OF v, where 'r = 64 and i = 0] show ?thesis using v by auto
qed

end
