(* ===== verification/LogStructs.thy ===== *)
theory LogStructs
  imports Prelude
begin

text \<open>
  The binary records of a trace, \<^verbatim>\<open>include/xnu-trace/log_structs.h\<close> and
  \<^verbatim>\<open>lib/xnu-trace/log_structs.cpp\<close>: the CPU context, the packed change words of a log
  message and their accessors, the message accessors on a byte buffer, sync frames, the
  update of a context by a message, and the packed headers of the log files.

  A pointer to a \<^verbatim>\<open>log_msg\<close> is an offset into the memory \<open>mem\<close> it points into; an access
  outside that memory is a fault.
\<close>

section \<open>CPU contexts\<close>

text \<open>\<open>ctx_x\<close> holds \<^verbatim>\<open>x[0..28]\<close>, \<^verbatim>\<open>fp\<close> and \<^verbatim>\<open>lr\<close>, which are contiguous.\<close>

record log_arm64_cpu_context =
  ctx_pc :: u64
  ctx_sp :: u64
  ctx_nzcv :: u64
  ctx_x :: "u64 list"
  ctx_v :: "u128 list"

definition wf_ctx :: "log_arm64_cpu_context \<Rightarrow> bool" where
  "wf_ctx c \<longleftrightarrow> length (ctx_x c) = 31 \<and> length (ctx_v c) = 32"

definition sizeof_ctx :: nat where "sizeof_ctx = 0x310"

definition ctx_bytes :: "log_arm64_cpu_context \<Rightarrow> buffer" where
  "ctx_bytes c = le_bytes 8 (ctx_pc c) @ le_bytes 8 (ctx_sp c) @ le_bytes 8 (ctx_nzcv c) @
     concat (map (le_bytes 8) (ctx_x c)) @ concat (map (le_bytes 16) (ctx_v c))"

definition load_ctx :: "buffer \<Rightarrow> nat \<Rightarrow> log_arm64_cpu_context res" where
  "load_ctx mem p =
     and_then (load mem p) (\<lambda>pc. and_then (load mem (p + 0x8)) (\<lambda>sp. and_then (load mem (p + 0x10)) (\<lambda>nzcv.
     and_then (map_res (\<lambda>i. load mem (p + 0x18 + 8 * i)) [0..<31]) (\<lambda>x.
     and_then (map_res (\<lambda>i. load mem (p + 0x110 + 16 * i)) [0..<32]) (\<lambda>v.
     Inr \<lparr>ctx_pc = pc, ctx_sp = sp, ctx_nzcv = nzcv, ctx_x = x, ctx_v = v\<rparr>)))))"

section \<open>Packed change words\<close>

definition rpc_num_changed_max :: nat where "rpc_num_changed_max = 5"
definition mpc_num_changed_max :: nat where "mpc_num_changed_max = 5"

definition rpc_num_changed :: "u32 \<Rightarrow> u32" where
  "rpc_num_changed g = drop_bit 29 g"

definition mpc_num_changed :: "u32 \<Rightarrow> u32" where
  "mpc_num_changed m = drop_bit 29 m"

definition rpc_num_fixed_changed :: "u32 \<Rightarrow> u32" where
  "rpc_num_fixed_changed g = (drop_bit 25 g AND 1) + (drop_bit 26 g AND 1)"

definition rpc_pc_branched :: "u32 \<Rightarrow> bool" where
  "rpc_pc_branched g \<longleftrightarrow> g AND push_bit 25 1 \<noteq> 0"

definition rpc_sp_changed :: "u32 \<Rightarrow> bool" where
  "rpc_sp_changed g \<longleftrightarrow> g AND push_bit 26 1 \<noteq> 0"

definition rpc_sync :: "u32 \<Rightarrow> bool" where
  "rpc_sync g \<longleftrightarrow> g AND push_bit 27 1 \<noteq> 0"

definition mpc_read :: "u32 \<Rightarrow> u32 \<Rightarrow> bool res" where
  "mpc_read m i = and_then (shl 1 (unat (i + 15))) (\<lambda>b. Inr (m AND b \<noteq> 0))"

definition mpc_write :: "u32 \<Rightarrow> u32 \<Rightarrow> bool res" where
  "mpc_write m i = and_then (shl 1 (unat (i + 20))) (\<lambda>b. Inr (m AND b \<noteq> 0))"

definition rpc_reg_idx :: "u32 \<Rightarrow> u32 \<Rightarrow> u32 res" where
  "rpc_reg_idx g i = and_then (shr False g (unat (5 * i))) (\<lambda>w. Inr (w AND 0x1F))"

definition mpc_mem_access_sz :: "u32 \<Rightarrow> u32 \<Rightarrow> u32 res" where
  "mpc_mem_access_sz m i = and_then (shr False m (unat (3 * i))) (\<lambda>w. shl 1 (unat (w AND 7)))"

definition rpc_set_reg_idx :: "u32 \<Rightarrow> u32 \<Rightarrow> u32 \<Rightarrow> u32 res" where
  "rpc_set_reg_idx g i reg_idx = and_then (shl reg_idx (unat (5 * i))) (\<lambda>w. Inr (g OR w))"

text \<open>\<^verbatim>\<open>__builtin_ctz\<close> is undefined for zero.\<close>

definition builtin_ctz :: "u32 \<Rightarrow> nat res" where
  "builtin_ctz w = (case find (bit w) [0..<32] of Some n \<Rightarrow> Inr n | None \<Rightarrow> Inl Shift_Undefined)"

definition mpc_set_mem_access_sz :: "u32 \<Rightarrow> u32 \<Rightarrow> u32 \<Rightarrow> u32 res" where
  "mpc_set_mem_access_sz m i sz =
     and_then (builtin_ctz sz) (\<lambda>log2.
     and_then (shl (of_nat log2 :: u32) (unat (3 * i))) (\<lambda>w. Inr (m OR w)))"

definition rpc_set_num_changed :: "u32 \<Rightarrow> u32 \<Rightarrow> u32" where
  "rpc_set_num_changed g n = g OR push_bit 29 n"

definition mpc_set_num_mem_accesses :: "u32 \<Rightarrow> u32 \<Rightarrow> u32" where
  "mpc_set_num_mem_accesses m n = m OR push_bit 29 n"

definition mpc_set_read :: "u32 \<Rightarrow> u32 \<Rightarrow> u32 res" where
  "mpc_set_read m i = and_then (shl 1 (unat (i + 15))) (\<lambda>b. Inr (m OR b))"

definition mpc_set_write :: "u32 \<Rightarrow> u32 \<Rightarrow> u32 res" where
  "mpc_set_write m i = and_then (shl 1 (unat (i + 20))) (\<lambda>b. Inr (m OR b))"

definition rpc_set_pc_branched :: "u32 \<Rightarrow> u32" where
  "rpc_set_pc_branched g = g OR push_bit 25 1"

definition rpc_set_sp_changed :: "u32 \<Rightarrow> u32" where
  "rpc_set_sp_changed g = g OR push_bit 26 1"

definition rpc_set_sync :: "u32 \<Rightarrow> u32" where
  "rpc_set_sync g = g OR push_bit 27 1"

section \<open>Log messages\<close>

definition sizeof_log_msg :: nat where "sizeof_log_msg = 8"

definition sync_frame_words :: "u64 list" where
  "sync_frame_words =
     [ucast (rpc_set_sync 0), 0x1b30aabd434e5953, 0x769904304a1b4410, 0x9c62598963b97672,
      0x43d53630a5eaedd9, 0x6dc3de5945535e98, 0x6089461ffc1fb52b, 0xa4e0a6f12861b739,
      0x34043c2d70ca6e6f, 0xd6e1dba5098cd02a, 0xf2e6b5524519bacc, 0xfd91ff9de3763e78,
      0x77f0f68159e4e2e8, 0x3d5d2cff136df711, 0xfee4c6786443d6b8, 0xf46d78ebe3ae77dd,
      0xb1354b20367b48a2]"

definition sync_frame_buf_hdr :: buffer where
  "sync_frame_buf_hdr = concat (map (le_bytes 8) sync_frame_words)"

definition sync_frame_sz :: nat where
  "sync_frame_sz = length sync_frame_buf_hdr + 8"

definition size_full_ctx :: nat where
  "size_full_ctx = sync_frame_sz + sizeof_ctx"

definition size_max :: nat where
  "size_max = 2 * 4 + 2 * 8 + rpc_num_changed_max * 8 + rpc_num_changed_max * 16"

definition msg_gpr_changed :: "buffer \<Rightarrow> nat \<Rightarrow> u32 res" where
  "msg_gpr_changed mem p = load mem p"

definition msg_vec_changed :: "buffer \<Rightarrow> nat \<Rightarrow> u32 res" where
  "msg_vec_changed mem p = load mem (p + 4)"

definition msg_is_sync_frame :: "buffer \<Rightarrow> nat \<Rightarrow> bool res" where
  "msg_is_sync_frame mem p =
     and_then (msg_gpr_changed mem p) (\<lambda>g.
       if \<not> rpc_sync g then Inr False
       else and_then (load_bytes (length sync_frame_buf_hdr) mem p) (\<lambda>b. Inr (b = sync_frame_buf_hdr)))"

definition msg_num_fixed :: "buffer \<Rightarrow> nat \<Rightarrow> nat res" where
  "msg_num_fixed mem p = and_then (msg_gpr_changed mem p) (\<lambda>g. Inr (unat (rpc_num_fixed_changed g)))"

definition msg_num_gpr :: "buffer \<Rightarrow> nat \<Rightarrow> nat res" where
  "msg_num_gpr mem p = and_then (msg_gpr_changed mem p) (\<lambda>g. Inr (unat (rpc_num_changed g)))"

definition msg_num_vec :: "buffer \<Rightarrow> nat \<Rightarrow> nat res" where
  "msg_num_vec mem p = and_then (msg_vec_changed mem p) (\<lambda>v. Inr (unat (rpc_num_changed v)))"

definition msg_size :: "buffer \<Rightarrow> nat \<Rightarrow> nat res" where
  "msg_size mem p =
     and_then (msg_is_sync_frame mem p) (\<lambda>sync.
       if sync then Inr size_full_ctx
       else and_then (msg_num_fixed mem p) (\<lambda>nf. and_then (msg_num_gpr mem p) (\<lambda>ng.
            and_then (msg_num_vec mem p) (\<lambda>nv. Inr (sizeof_log_msg + nf * 8 + ng * 8 + nv * 16)))))"

definition msg_pc_branched :: "buffer \<Rightarrow> nat \<Rightarrow> bool res" where
  "msg_pc_branched mem p = and_then (msg_gpr_changed mem p) (\<lambda>g. Inr (rpc_pc_branched g))"

definition msg_sp_changed :: "buffer \<Rightarrow> nat \<Rightarrow> bool res" where
  "msg_sp_changed mem p = and_then (msg_gpr_changed mem p) (\<lambda>g. Inr (rpc_sp_changed g))"

definition msg_pc :: "buffer \<Rightarrow> nat \<Rightarrow> u64 res" where
  "msg_pc mem p = load mem (p + sizeof_log_msg)"

definition msg_sp :: "buffer \<Rightarrow> nat \<Rightarrow> u64 res" where
  "msg_sp mem p =
     and_then (msg_pc_branched mem p) (\<lambda>b. load mem (p + (sizeof_log_msg + of_bool b * 8)))"

definition msg_gpr_idx :: "buffer \<Rightarrow> nat \<Rightarrow> nat \<Rightarrow> u32 res" where
  "msg_gpr_idx mem p i = and_then (msg_gpr_changed mem p) (\<lambda>g. rpc_reg_idx g (of_nat i))"

definition msg_gpr :: "buffer \<Rightarrow> nat \<Rightarrow> nat \<Rightarrow> u64 res" where
  "msg_gpr mem p i =
     and_then (msg_num_fixed mem p) (\<lambda>nf. load mem (p + (sizeof_log_msg + nf * 8) + 8 * i))"

definition msg_vec_idx :: "buffer \<Rightarrow> nat \<Rightarrow> nat \<Rightarrow> u32 res" where
  "msg_vec_idx mem p i = and_then (msg_vec_changed mem p) (\<lambda>v. rpc_reg_idx v (of_nat i))"

definition msg_vec :: "buffer \<Rightarrow> nat \<Rightarrow> nat \<Rightarrow> u128 res" where
  "msg_vec mem p i =
     and_then (msg_num_fixed mem p) (\<lambda>nf. and_then (msg_num_gpr mem p) (\<lambda>ng.
       load mem (p + (sizeof_log_msg + nf * 8 + ng * 8) + 16 * i)))"

text \<open>The fixed-capacity vectors hold \<open>rpc_num_changed_max\<close> entries.\<close>

definition msg_changed_gpr :: "buffer \<Rightarrow> nat \<Rightarrow> (u32 \<times> u64) list res" where
  "msg_changed_gpr mem p =
     and_then (msg_num_gpr mem p) (\<lambda>n. map_res (\<lambda>i.
       and_then (msg_gpr_idx mem p i) (\<lambda>r. and_then (msg_gpr mem p i) (\<lambda>x.
         if i < rpc_num_changed_max then Inr (r, x) else Inl Out_Of_Bounds))) [0..<n])"

definition msg_changed_vec :: "buffer \<Rightarrow> nat \<Rightarrow> (u32 \<times> u128) list res" where
  "msg_changed_vec mem p =
     and_then (msg_num_vec mem p) (\<lambda>n. map_res (\<lambda>i.
       and_then (msg_vec_idx mem p i) (\<lambda>r. and_then (msg_vec mem p i) (\<lambda>x.
         if i < rpc_num_changed_max then Inr (r, x) else Inl Out_Of_Bounds))) [0..<n])"

definition msg_sync_ctx :: "buffer \<Rightarrow> nat \<Rightarrow> nat option res" where
  "msg_sync_ctx mem p =
     and_then (msg_is_sync_frame mem p) (\<lambda>s. Inr (if s then Some (p + sync_frame_sz) else None))"

definition msg_sync_num_inst :: "buffer \<Rightarrow> nat \<Rightarrow> u64 res" where
  "msg_sync_num_inst mem p =
     and_then (msg_is_sync_frame mem p) (\<lambda>s.
       if s then load mem (p + length sync_frame_buf_hdr) else Inr 0xFFFFFFFFFFFFFFFF)"

section \<open>Updating a context\<close>

text \<open>Register index 31 of the \<^verbatim>\<open>x\<close> array is the low half of \<^verbatim>\<open>v[0]\<close>.\<close>

definition set_gpr :: "u32 \<Rightarrow> u64 \<Rightarrow> log_arm64_cpu_context \<Rightarrow> log_arm64_cpu_context" where
  "set_gpr r x c =
     (if unat r < 31 then c\<lparr>ctx_x := (ctx_x c)[unat r := x]\<rparr>
      else c\<lparr>ctx_v := (ctx_v c)[0 := push_bit 64 (drop_bit 64 (ctx_v c ! 0)) OR ucast x]\<rparr>)"

definition set_vec :: "u32 \<Rightarrow> u128 \<Rightarrow> log_arm64_cpu_context \<Rightarrow> log_arm64_cpu_context" where
  "set_vec r x c = c\<lparr>ctx_v := (ctx_v c)[unat r := x]\<rparr>"

definition ctx_update :: "buffer \<Rightarrow> nat \<Rightarrow> log_arm64_cpu_context \<Rightarrow> log_arm64_cpu_context res" where
  "ctx_update mem p c =
     and_then (msg_sync_ctx mem p) (\<lambda>sync. case sync of
       Some q \<Rightarrow> load_ctx mem q
     | None \<Rightarrow>
         and_then (msg_pc_branched mem p) (\<lambda>b.
         and_then (if b then and_then (msg_pc mem p) (\<lambda>x. Inr (c\<lparr>ctx_pc := x\<rparr>)) else Inr c) (\<lambda>c.
         and_then (msg_sp_changed mem p) (\<lambda>b.
         and_then (if b then and_then (msg_sp mem p) (\<lambda>x. Inr (c\<lparr>ctx_sp := x\<rparr>)) else Inr c) (\<lambda>c.
         and_then (msg_num_gpr mem p) (\<lambda>n.
         and_then (fold_res (\<lambda>i c. and_then (msg_gpr_idx mem p i) (\<lambda>r.
                     and_then (msg_gpr mem p i) (\<lambda>x. Inr (set_gpr r x c)))) [0..<n] c) (\<lambda>c.
         and_then (msg_num_vec mem p) (\<lambda>n.
         fold_res (\<lambda>i c. and_then (msg_vec_idx mem p i) (\<lambda>r.
                     and_then (msg_vec mem p i) (\<lambda>x. Inr (set_vec r x c)))) [0..<n] c))))))))"

end
