(* ===== verification/TraceWriter.thy ===== *)
theory TraceWriter
  imports LogStructs IntTypes
begin

text \<open>
  The writing half of \<^verbatim>\<open>lib/xnu-trace/TraceLog.cpp\<close>: the change detection on vector
  lanes, the encoding of one instruction's changes into a log message, and sync frames.

  A thread's output is the buffer \<open>log_buf\<close> or, when streaming, the bytes handed to the
  stream's \<^verbatim>\<open>write\<close> so far (\<open>log_stream\<close>).
\<close>

section \<open>Thread contexts\<close>

definition sync_every :: u32 where "sync_every = 1024 * 1024"

record thread_ctx =
  log_buf :: buffer
  log_stream :: "buffer option"
  last_cpu_ctx :: log_arm64_cpu_context
  num_inst :: u64
  sz_since_last_sync :: u32

definition zero_ctx :: log_arm64_cpu_context where
  "zero_ctx = \<lparr>ctx_pc = 0, ctx_sp = 0, ctx_nzcv = 0, ctx_x = replicate 31 0, ctx_v = replicate 32 0\<rparr>"

definition new_thread_ctx :: "bool \<Rightarrow> thread_ctx" where
  "new_thread_ctx stream =
     \<lparr>log_buf = [], log_stream = (if stream then Some [] else None), last_cpu_ctx = zero_ctx,
      num_inst = 0, sz_since_last_sync = sync_every + 1\<rparr>"

definition emit :: "buffer \<Rightarrow> thread_ctx \<Rightarrow> thread_ctx" where
  "emit bs t =
     (case log_stream t of
        None \<Rightarrow> t\<lparr>log_buf := log_buf t @ bs\<rparr>
      | Some s \<Rightarrow> t\<lparr>log_stream := Some (s @ bs)\<rparr>)"

definition written :: "thread_ctx \<Rightarrow> buffer" where
  "written t = (case log_stream t of None \<Rightarrow> log_buf t | Some s \<Rightarrow> s)"

definition write_sync :: "thread_ctx \<Rightarrow> thread_ctx" where
  "write_sync t =
     (let t = emit sync_frame_buf_hdr t;
          t = emit (le_bytes 8 (num_inst t)) t;
          t = emit (ctx_bytes (last_cpu_ctx t)) t
      in t\<lparr>sz_since_last_sync := 0\<rparr>)"

section \<open>Finding the changed registers\<close>

text \<open>One lane of \<^verbatim>\<open>interleave_uint64x2_with_zeros_16bit\<close>.\<close>

definition interleave_uint64x2_with_zeros_16bit :: "u64 \<Rightarrow> u64" where
  "interleave_uint64x2_with_zeros_16bit input =
     (let word = input;
          word = (word XOR push_bit 8 word) AND 0x00FF00FF;
          word = (word XOR push_bit 4 word) AND 0x0F0F0F0F;
          word = (word XOR push_bit 2 word) AND 0x33333333;
          word = (word XOR push_bit 1 word) AND 0x55555555
      in word)"

text \<open>Lane \<open>k\<close> of the comparison loop: bit \<open>i\<close> is set when element \<open>k\<close> of pair \<open>i\<close> differs.\<close>

definition lane_diff :: "nat \<Rightarrow> u64 list \<Rightarrow> u64 list \<Rightarrow> u64" where
  "lane_diff k x2 last_x2 =
     fold (\<lambda>i vx2_diff.
       let diff_mask = (if x2 ! (2 * i + k) \<noteq> last_x2 ! (2 * i + k) then - 1 else 0);
           diff_mask = diff_mask AND 1;
           diff_mask = push_bit i diff_mask
       in vx2_diff OR diff_mask) [0..<16] 0"

text \<open>The array of 16 pairs that starts at \<^verbatim>\<open>x[0]\<close>: its prev element is the low half of \<^verbatim>\<open>v[0]\<close>.\<close>

definition x2_view :: "log_arm64_cpu_context \<Rightarrow> u64 list" where
  "x2_view c = ctx_x c @ [ucast (ctx_v c ! 0)]"

definition x_diff :: "log_arm64_cpu_context \<Rightarrow> log_arm64_cpu_context \<Rightarrow> u32" where
  "x_diff c prev =
     (let lane0 = interleave_uint64x2_with_zeros_16bit (lane_diff 0 (x2_view c) (x2_view prev));
          lane1 = interleave_uint64x2_with_zeros_16bit (lane_diff 1 (x2_view c) (x2_view prev))
      in ucast (lane0 OR push_bit 1 lane1) AND NOT (push_bit 31 1))"

definition v_diff :: "log_arm64_cpu_context \<Rightarrow> log_arm64_cpu_context \<Rightarrow> u32" where
  "v_diff c prev =
     fold (\<lambda>i d.
       let a = ctx_v c ! i; b = ctx_v prev ! i;
           vneq0 = (if (ucast a :: u64) \<noteq> ucast b then - 1 else 0) :: u64;
           vneq1 = (if (ucast (drop_bit 64 a) :: u64) \<noteq> ucast (drop_bit 64 b) then - 1 else 0) :: u64
       in d OR ucast (push_bit i ((vneq0 OR vneq1) AND 1))) [0..<32] 0"

section \<open>Encoding\<close>

text \<open>One iteration of the register loops: the payload, the change word and the next index.\<close>

definition put_gpr ::
    "u32 \<Rightarrow> u64 list \<Rightarrow> nat \<Rightarrow> buffer \<times> u32 \<times> u8 \<Rightarrow> (buffer \<times> u32 \<times> u8) res" where
  "put_gpr xd xs i st =
     (case st of (buf, gpr_changed, gpr_idx) \<Rightarrow>
      if bit xd i then
        and_then (rpc_set_reg_idx gpr_changed (ucast gpr_idx) (of_nat i)) (\<lambda>g.
          Inr (buf @ le_bytes 8 (xs ! i), g, gpr_idx + 1))
      else Inr st)"

definition put_vec ::
    "u32 \<Rightarrow> u128 list \<Rightarrow> nat \<Rightarrow> buffer \<times> u32 \<times> u8 \<Rightarrow> (buffer \<times> u32 \<times> u8) res" where
  "put_vec vd vs i st =
     (case st of (buf, vec_changed, vec_idx) \<Rightarrow>
      if bit vd i then
        and_then (rpc_set_reg_idx vec_changed (ucast vec_idx) (of_nat i)) (\<lambda>g.
          Inr (buf @ le_bytes 16 (vs ! i), g, vec_idx + 1))
      else Inr st)"

text \<open>The bytes of the message for \<open>ctx\<close> after \<open>prev\<close>.\<close>

definition encode_msg :: "log_arm64_cpu_context \<Rightarrow> log_arm64_cpu_context \<Rightarrow> buffer res" where
  "encode_msg prev c =
     (let pc_diff = ctx_pc c - ctx_pc prev; sp_diff = ctx_sp c - ctx_sp prev;
          (buf, g) = (if pc_diff \<noteq> 4 then (le_bytes 8 (ctx_pc c), rpc_set_pc_branched 0) else ([], 0));
          (buf, g) = (if sp_diff \<noteq> 0 then (buf @ le_bytes 8 (ctx_sp c), rpc_set_sp_changed g) else (buf, g));
          xd = x_diff c prev; vd = v_diff c prev;
          num_gpr_changed = popcount xd; num_vec_changed = popcount vd
      in and_then (assert_that (num_gpr_changed \<le> rpc_num_changed_max)) (\<lambda>_.
         and_then (fold_res (put_gpr xd (ctx_x c)) [0..<31]
                     (buf, rpc_set_num_changed g (of_nat num_gpr_changed), 0)) (\<lambda>(buf, gpr_changed, _).
         and_then (assert_that (num_vec_changed \<le> rpc_num_changed_max)) (\<lambda>_.
         and_then (fold_res (put_vec vd (ctx_v c)) [0..<32]
                     (buf, rpc_set_num_changed 0 (of_nat num_vec_changed), 0)) (\<lambda>(buf, vec_changed, _).
         Inr (le_bytes 4 gpr_changed @ le_bytes 4 vec_changed @ buf))))))"

definition write_log_msg :: "log_arm64_cpu_context \<Rightarrow> thread_ctx \<Rightarrow> thread_ctx res" where
  "write_log_msg c t =
     (let t = (if sz_since_last_sync t \<ge> sync_every then write_sync t else t) in
      and_then (encode_msg (last_cpu_ctx t) c) (\<lambda>msg.
        let t = emit msg t;
            t = t\<lparr>sz_since_last_sync := sz_since_last_sync t + of_nat (length msg)\<rparr>
        in Inr (t\<lparr>last_cpu_ctx := c, num_inst := num_inst t + 1\<rparr>)))"

definition write_log_msg_pc :: "u64 \<Rightarrow> thread_ctx \<Rightarrow> thread_ctx" where
  "write_log_msg_pc pc t =
     (let (buf, gpr_changed) =
        (if ctx_pc (last_cpu_ctx t) + 4 \<noteq> pc then (le_bytes 8 pc, rpc_set_pc_branched 0) else ([], 0));
          t = emit (le_bytes 4 gpr_changed @ le_bytes 4 (0 :: u32) @ buf) t
      in t\<lparr>last_cpu_ctx := (last_cpu_ctx t)\<lparr>ctx_pc := pc\<rparr>, num_inst := num_inst t + 1\<rparr>)"

section \<open>The changed registers are found\<close>

lemma upt_64: "[0..<64] = [0, 1, 2, 3, 4, 5, 6, 7, 8, 9, 10, 11, 12, 13, 14, 15, 16, 17, 18, 19, 20, 21, 22,
    23, 24, 25, 26, 27, 28, 29, 30, 31, 32, 33, 34, 35, 36, 37, 38, 39, 40, 41, 42, 43, 44, 45, 46,
    47, 48, 49, 50, 51, 52, 53, 54, 55, 56, 57, 58, 59, 60, 61, 62, 63]"
  by code_simp

lemma interleave_bit:
  assumes "\<And>i. bit w i \<Longrightarrow> i < 16"
  shows "bit (interleave_uint64x2_with_zeros_16bit w) n \<longleftrightarrow> even n \<and> bit w (n div 2)"
proof (cases "n < 64")
  case True
  have hi: "\<not> bit w k" if "16 \<le> k" for k using assms that by fastforce
  have stage: "bit ((x XOR push_bit k x) AND m) n \<longleftrightarrow>
      (bit x n \<noteq> (k \<le> n \<and> n < 64 \<and> bit x (n - k))) \<and> bit m n" for x m :: u64 and k n
    by (auto simp: bit_simps dest: bit_imp_le_length)
  have "\<forall>n \<in> set [0..<64]. bit (interleave_uint64x2_with_zeros_16bit w) n \<longleftrightarrow> even n \<and> bit w (n div 2)"
    unfolding upt_64 interleave_uint64x2_with_zeros_16bit_def Let_def stage by (simp add: hi)
  then show ?thesis using True by simp
next
  case False
  then show ?thesis using assms [of "n div 2"] by (auto dest: bit_imp_le_length)
qed

lemma lane_diff_bit:
  "bit (lane_diff k xs ys) i \<longleftrightarrow> i < 16 \<and> xs ! (2 * i + k) \<noteq> ys ! (2 * i + k)"
proof -
  have "bit (fold (\<lambda>i vx2_diff. vx2_diff OR push_bit i ((if xs ! (2 * i + k) \<noteq> ys ! (2 * i + k) then - 1 else 0) AND 1))
      [0..<m] (0 :: u64)) i \<longleftrightarrow> i < m \<and> i < 64 \<and> xs ! (2 * i + k) \<noteq> ys ! (2 * i + k)" for m
    by (induction m) (auto simp: bit_simps less_Suc_eq)
  from this [of 16] show ?thesis by (auto simp: lane_diff_def Let_def)
qed

lemma x_diff_bit:
  assumes "wf_ctx c" "wf_ctx prev"
  shows "bit (x_diff c prev) i \<longleftrightarrow> i < 31 \<and> ctx_x c ! i \<noteq> ctx_x prev ! i"
proof -
  have il: "bit (interleave_uint64x2_with_zeros_16bit (lane_diff k xs ys)) n
      \<longleftrightarrow> even n \<and> n div 2 < 16 \<and> xs ! (2 * (n div 2) + k) \<noteq> ys ! (2 * (n div 2) + k)" for k n xs ys
    by (subst interleave_bit) (auto simp: lane_diff_bit)
  have view: "x2_view d ! i = ctx_x d ! i" if "wf_ctx d" "i < 31" for d
    using that by (simp add: x2_view_def wf_ctx_def nth_append)
  have parity: "2 * (i div 2) = i" if "even i" using that by simp
  have odd: "2 * ((i - 1) div 2) + 1 = i" if "odd i" using that by simp
  have join: "bit (ucast ((a :: u64) OR push_bit k b) AND NOT (push_bit m (1 :: u32))) i \<longleftrightarrow>
      i < 32 \<and> i \<noteq> m \<and> (bit a i \<or> (k \<le> i \<and> bit b (i - k)))" for a b k m
    by (auto simp: bit_simps)
  have "bit (x_diff c prev) i \<longleftrightarrow> i < 31 \<and> x2_view c ! i \<noteq> x2_view prev ! i"
    unfolding x_diff_def Let_def join il
    by (cases "even i") (use parity odd in \<open>auto simp: less_mult_imp_div_less Suc_le_eq odd_pos\<close>)
  then show ?thesis using view [OF assms(1)] view [OF assms(2)] by auto
qed

end
