(* ===== verification/LogMessages.thy ===== *)
theory LogMessages
  imports LogStructs
begin

text \<open>
  What the accessors of \<open>LogStructs\<close> read from a well-formed message or sync frame in memory,
  and the encoding of change words: the packed register indices and counts read back.
\<close>

section \<open>Contexts in memory\<close>

lemma length_ctx_bytes: "wf_ctx c \<Longrightarrow> length (ctx_bytes c) = sizeof_ctx"
  by (simp add: ctx_bytes_def wf_ctx_def sizeof_ctx_def)

lemma load_ctx_bytes:
  assumes "has_bytes mem p (ctx_bytes c)" and "wf_ctx c"
  shows "load_ctx mem p = Inr c"
proof -
  have h: "has_bytes mem p (le_bytes 8 (ctx_pc c))" "has_bytes mem (p + 8) (le_bytes 8 (ctx_sp c))"
    "has_bytes mem (p + 16) (le_bytes 8 (ctx_nzcv c))"
    "has_bytes mem (p + 24) (concat (map (le_bytes 8) (ctx_x c)))"
    "has_bytes mem (p + 272) (concat (map (le_bytes 16) (ctx_v c)))"
    using assms by (auto simp: ctx_bytes_def has_bytes_append wf_ctx_def ac_simps)
  then show ?thesis
    using load_words [OF h(4)] load_words [OF h(5)] assms(2)
    by (simp add: load_ctx_def load_has_bytes wf_ctx_def del: load_ok)
qed

section \<open>Change words\<close>

text \<open>The register indices a sequence of \<^verbatim>\<open>rpc_set_reg_idx\<close> calls from index \<open>k\<close> adds.\<close>

primrec packed :: "nat \<Rightarrow> nat list \<Rightarrow> u32" where
  "packed k [] = 0"
| "packed k (i # is) = push_bit (5 * k) (of_nat i) OR packed (Suc k) is"

lemma bit_packed:
  assumes "\<forall>i \<in> set is. i < 32"
  shows "bit (packed k is) n \<longleftrightarrow>
    n < 32 \<and> k \<le> n div 5 \<and> n div 5 < k + length is \<and> bit (is ! (n div 5 - k)) (n mod 5)"
  using assms
proof (induction "is" arbitrary: k)
  case Nil
  then show ?case by simp
next
  case (Cons i "is")
  have i5: "bit i m \<Longrightarrow> m < 5" for m
    using Cons.prems bit_take_bit_iff [of 5 i m] by (simp add: take_bit_nat_eq_self)
  have hd: "bit (push_bit (5 * k) (of_nat i) :: u32) n \<longleftrightarrow> n < 32 \<and> n div 5 = k \<and> bit i (n mod 5)"
  proof
    assume "bit (push_bit (5 * k) (of_nat i) :: u32) n"
    then have "5 * k \<le> n" "n < 32" "bit i (n - 5 * k)" by (auto simp: bit_simps)
    moreover from i5 [OF this(3)] this(1) have "n div 5 = k" by linarith
    moreover from this have "n mod 5 = n - 5 * k" by (simp add: minus_mult_div_eq_mod [symmetric])
    ultimately show "n < 32 \<and> n div 5 = k \<and> bit i (n mod 5)" by simp
  next
    assume a: "n < 32 \<and> n div 5 = k \<and> bit i (n mod 5)"
    then have "n mod 5 = n - 5 * k" "5 * k \<le> n" by (auto simp: minus_mult_div_eq_mod [symmetric])
    with a show "bit (push_bit (5 * k) (of_nat i) :: u32) n" by (auto simp: bit_simps)
  qed
  show ?case
    using Cons.IH [of "Suc k"] Cons.prems hd
    by (cases "n div 5 = k") (auto simp: bit_simps nth_Cons' Suc_le_eq)
qed

text \<open>A change word: flags, a count and the indices.\<close>

definition change_word :: "bool \<Rightarrow> bool \<Rightarrow> nat list \<Rightarrow> u32" where
  "change_word b s is =
     (if b then push_bit 25 1 else 0) OR (if s then push_bit 26 1 else 0) OR
     push_bit 29 (of_nat (length is)) OR packed 0 is"

lemma bit_change_word:
  assumes "\<forall>i \<in> set is. i < 32" and "length is \<le> 5"
  shows "bit (change_word b s is) n \<longleftrightarrow>
    (if n < 25 then n div 5 < length is \<and> bit (is ! (n div 5)) (n mod 5)
     else if n = 25 then b else if n = 26 then s
     else 29 \<le> n \<and> n < 32 \<and> bit (length is) (n - 29))"
proof -
  have "\<not> (n div 5 < length is)" if "25 \<le> n" using that assms(2) by linarith
  moreover have "bit (if f then push_bit k (1 :: u32) else 0) n \<longleftrightarrow> f \<and> n = k \<and> n < 32" for f k
    by (auto simp: bit_simps)
  moreover have "bit (push_bit k (of_nat l) :: u32) n \<longleftrightarrow> k \<le> n \<and> n < 32 \<and> bit l (n - k)" for k l
    by (auto simp: bit_simps)
  ultimately show ?thesis
    using bit_packed [OF assms(1), of 0 n] unfolding change_word_def bit_or_iff by auto
qed

lemma change_word_num:
  assumes "\<forall>i \<in> set is. i < 32" and "length is \<le> 5"
  shows "unat (rpc_num_changed (change_word b s is)) = length is"
proof -
  have l3: "take_bit 3 (length is) = length is" using assms(2) by (simp add: take_bit_nat_eq_self)
  have "rpc_num_changed (change_word b s is) = of_nat (length is)"
  proof (rule bit_word_eqI)
    fix n assume "n < LENGTH(32)"
    have "bit (length is) n \<Longrightarrow> n < 3" using l3 by (metis bit_take_bit_iff)
    then show "bit (rpc_num_changed (change_word b s is)) n = bit (of_nat (length is) :: u32) n"
      by (auto simp: rpc_num_changed_def bit_drop_bit_eq bit_change_word [OF assms] bit_simps)
  qed
  then show ?thesis using assms(2) by (simp add: unat_of_nat)
qed

lemma change_word_idx:
  assumes "\<forall>i \<in> set is. i < 32" and "length is \<le> 5" and "j < length is"
  shows "rpc_reg_idx (change_word b s is) (of_nat j) = Inr (of_nat (is ! j))"
proof -
  have "unat (5 * of_nat j :: u32) = 5 * j"
    using assms(2,3) by (simp add: unat_word_ariths unat_of_nat)
  moreover have "drop_bit (5 * j) (change_word b s is) AND 0x1F = of_nat (is ! j)"
  proof (rule bit_word_eqI)
    fix n assume n: "n < LENGTH(32)"
    have x1f: "(0x1F :: u32) = mask 5" by (simp add: mask_eq_exp_minus_1)
    have lt: "is ! j < 32" using assms(1,3) by simp
    have small: "bit (is ! j) m \<Longrightarrow> m < 5" for m
      using lt bit_take_bit_iff [of 5 "is ! j" m] by (simp add: take_bit_nat_eq_self)
    have "(5 * j + n) div 5 = j" "(5 * j + n) mod 5 = n" "5 * j + n < 25" if "n < 5"
      using that assms(2,3) by auto
    then show "bit (drop_bit (5 * j) (change_word b s is) AND 0x1F) n = bit (of_nat (is ! j) :: u32) n"
      using n small assms(3)
      by (auto simp: x1f bit_drop_bit_eq bit_change_word [OF assms(1,2)] bit_simps)
  qed
  moreover have "5 * j < 32" using assms(2,3) by linarith
  ultimately show ?thesis by (simp add: rpc_reg_idx_def)
qed

lemma and_push_bit_one: "(w :: u32) AND push_bit k 1 \<noteq> 0 \<longleftrightarrow> bit w k"
proof -
  have "w AND push_bit k 1 = (if bit w k then push_bit k 1 else 0)"
    by (rule bit_word_eqI) (auto simp: bit_simps dest: bit_imp_le_length)
  moreover have "bit w k \<Longrightarrow> push_bit k (1 :: u32) \<noteq> 0"
    by (auto simp: push_bit_eq_mult exp_eq_zero_iff dest: bit_imp_le_length)
  ultimately show ?thesis by simp
qed

lemma change_word_flags:
  assumes "\<forall>i \<in> set is. i < 32" and "length is \<le> 5"
  shows "rpc_pc_branched (change_word b s is) = b" "rpc_sp_changed (change_word b s is) = s"
    "\<not> rpc_sync (change_word b s is)"
    "unat (rpc_num_fixed_changed (change_word b s is)) = of_bool b + of_bool s"
proof -
  show "rpc_pc_branched (change_word b s is) = b" "rpc_sp_changed (change_word b s is) = s"
    "\<not> rpc_sync (change_word b s is)"
    unfolding rpc_pc_branched_def rpc_sp_changed_def rpc_sync_def and_push_bit_one
    by (simp_all add: bit_change_word [OF assms])
  have "drop_bit k w AND 1 = of_bool (bit w k)" for k and w :: u32
    by (rule bit_word_eqI) (auto simp: bit_simps)
  then have "rpc_num_fixed_changed (change_word b s is) = of_bool b + of_bool s"
    by (simp add: rpc_num_fixed_changed_def bit_change_word [OF assms])
  then show "unat (rpc_num_fixed_changed (change_word b s is)) = of_bool b + of_bool s"
    by (cases b; cases s) simp_all
qed

section \<open>Messages in memory\<close>

text \<open>A message: pc and sp where they changed, and the changed registers with their indices.\<close>

record message =
  msg_branch :: "u64 option"
  msg_new_sp :: "u64 option"
  msg_gprs :: "(nat \<times> u64) list"
  msg_vecs :: "(nat \<times> u128) list"

definition wf_message :: "message \<Rightarrow> bool" where
  "wf_message m \<longleftrightarrow> length (msg_gprs m) \<le> 5 \<and> length (msg_vecs m) \<le> 5 \<and>
     (\<forall>i \<in> set (map fst (msg_gprs m)). i < 32) \<and> (\<forall>i \<in> set (map fst (msg_vecs m)). i < 32)"

definition opt_list :: "'a option \<Rightarrow> 'a list" where
  "opt_list x = (case x of None \<Rightarrow> [] | Some y \<Rightarrow> [y])"

definition message_bytes :: "message \<Rightarrow> buffer" where
  "message_bytes m =
     le_bytes 4 (change_word (msg_branch m \<noteq> None) (msg_new_sp m \<noteq> None) (map fst (msg_gprs m))) @
     le_bytes 4 (change_word False False (map fst (msg_vecs m))) @
     concat (map (le_bytes 8) (opt_list (msg_branch m) @ opt_list (msg_new_sp m))) @
     concat (map (le_bytes 8) (map snd (msg_gprs m))) @
     concat (map (le_bytes 16) (map snd (msg_vecs m)))"

lemma opt_list_simps [simp]:
  "opt_list None = []" "opt_list (Some x) = [x]" "length (opt_list y) = of_bool (y \<noteq> None)"
  by (simp_all add: opt_list_def split: option.split)

lemma length_message_bytes:
  "length (message_bytes m) = 8 + 8 * (of_bool (msg_branch m \<noteq> None) + of_bool (msg_new_sp m \<noteq> None)) +
     8 * length (msg_gprs m) + 16 * length (msg_vecs m)"
  by (simp add: message_bytes_def del: map_map)

lemma message_size_max: "wf_message m \<Longrightarrow> length (message_bytes m) \<le> size_max"
  by (auto simp: length_message_bytes wf_message_def size_max_def rpc_num_changed_max_def)

text \<open>Every accessor on a message that is in memory.\<close>

lemma message_accessors:
  assumes m: "has_bytes mem p (message_bytes m)" and wf: "wf_message m"
  shows "msg_is_sync_frame mem p = Inr False"
    and "msg_size mem p = Inr (length (message_bytes m))"
    and "msg_pc_branched mem p = Inr (msg_branch m \<noteq> None)"
    and "msg_sp_changed mem p = Inr (msg_new_sp m \<noteq> None)"
    and "msg_branch m = Some x \<Longrightarrow> msg_pc mem p = Inr x"
    and "msg_new_sp m = Some y \<Longrightarrow> msg_sp mem p = Inr y"
    and "msg_num_gpr mem p = Inr (length (msg_gprs m))"
    and "msg_num_vec mem p = Inr (length (msg_vecs m))"
    and "i < length (msg_gprs m) \<Longrightarrow> msg_gpr_idx mem p i = Inr (of_nat (fst (msg_gprs m ! i)))"
    and "i < length (msg_gprs m) \<Longrightarrow> msg_gpr mem p i = Inr (snd (msg_gprs m ! i))"
    and "i < length (msg_vecs m) \<Longrightarrow> msg_vec_idx mem p i = Inr (of_nat (fst (msg_vecs m ! i)))"
    and "i < length (msg_vecs m) \<Longrightarrow> msg_vec mem p i = Inr (snd (msg_vecs m ! i))"
proof -
  let ?b = "msg_branch m \<noteq> None" and ?s = "msg_new_sp m \<noteq> None"
  let ?g = "change_word ?b ?s (map fst (msg_gprs m))" and ?v = "change_word False False (map fst (msg_vecs m))"
  let ?nf = "of_bool ?b + of_bool ?s :: nat"
  have wg: "\<forall>i \<in> set (map fst (msg_gprs m)). i < 32" "length (map fst (msg_gprs m)) \<le> 5"
    and wv: "\<forall>i \<in> set (map fst (msg_vecs m)). i < 32" "length (map fst (msg_vecs m)) \<le> 5"
    using wf by (auto simp: wf_message_def)
  have h: "has_bytes mem p (le_bytes 4 ?g)" "has_bytes mem (p + 4) (le_bytes 4 ?v)"
    "has_bytes mem (p + 8) (concat (map (le_bytes 8) (opt_list (msg_branch m) @ opt_list (msg_new_sp m))))"
    "has_bytes mem (p + (8 + 8 * ?nf)) (concat (map (le_bytes 8) (map snd (msg_gprs m))))"
    "has_bytes mem (p + (8 + 8 * ?nf + 8 * length (msg_gprs m))) (concat (map (le_bytes 16) (map snd (msg_vecs m))))"
    using m by (auto simp: message_bytes_def has_bytes_append add.assoc distrib_left simp del: map_map)
  have g: "msg_gpr_changed mem p = Inr ?g" and v: "msg_vec_changed mem p = Inr ?v"
    using h(1,2) by (simp_all add: msg_gpr_changed_def msg_vec_changed_def load_has_bytes del: load_ok)
  note num = change_word_num [OF wg, of ?b ?s] change_word_num [OF wv, of False False]
  note flags = change_word_flags [OF wg, of ?b ?s]
  show sync: "msg_is_sync_frame mem p = Inr False" using flags by (simp add: msg_is_sync_frame_def g)
  have nf: "msg_num_fixed mem p = Inr ?nf" using flags by (simp add: msg_num_fixed_def g)
  show ng: "msg_num_gpr mem p = Inr (length (msg_gprs m))" and nv: "msg_num_vec mem p = Inr (length (msg_vecs m))"
    using num by (simp_all add: msg_num_gpr_def msg_num_vec_def g v)
  show "msg_size mem p = Inr (length (message_bytes m))"
    by (simp add: msg_size_def sync nf ng nv length_message_bytes sizeof_log_msg_def)
  show pb: "msg_pc_branched mem p = Inr ?b" and "msg_sp_changed mem p = Inr ?s"
    using flags by (simp_all add: msg_pc_branched_def msg_sp_changed_def g)
  show "msg_pc mem p = Inr x" if "msg_branch m = Some x"
  proof -
    have "has_bytes mem (p + 8) (le_bytes 8 x)" using h(3) unfolding that by (simp add: has_bytes_append)
    then show ?thesis by (simp add: msg_pc_def sizeof_log_msg_def load_has_bytes del: load_ok)
  qed
  show "msg_sp mem p = Inr y" if y: "msg_new_sp m = Some y"
  proof -
    have "has_bytes mem (p + (8 + of_bool ?b * 8)) (le_bytes 8 y)"
      using h(3) unfolding y by (cases "msg_branch m") (simp_all add: has_bytes_append ac_simps)
    then show ?thesis by (simp add: msg_sp_def pb sizeof_log_msg_def load_has_bytes del: load_ok)
  qed
  show "i < length (msg_gprs m) \<Longrightarrow> msg_gpr_idx mem p i = Inr (of_nat (fst (msg_gprs m ! i)))"
    using change_word_idx [OF wg, of i ?b ?s] by (simp add: msg_gpr_idx_def g)
  show "i < length (msg_vecs m) \<Longrightarrow> msg_vec_idx mem p i = Inr (of_nat (fst (msg_vecs m ! i)))"
    using change_word_idx [OF wv, of i False False] by (simp add: msg_vec_idx_def v)
  show "i < length (msg_gprs m) \<Longrightarrow> msg_gpr mem p i = Inr (snd (msg_gprs m ! i))"
    using has_bytes_words [OF h(4), of i]
    by (simp add: msg_gpr_def nf sizeof_log_msg_def load_has_bytes add.assoc mult.commute del: load_ok)
  show "i < length (msg_vecs m) \<Longrightarrow> msg_vec mem p i = Inr (snd (msg_vecs m ! i))"
    using has_bytes_words [OF h(5), of i]
    by (simp add: msg_vec_def nf ng sizeof_log_msg_def load_has_bytes add.assoc mult.commute del: load_ok)
qed

section \<open>Sync frames in memory\<close>

definition sync_bytes :: "u64 \<Rightarrow> log_arm64_cpu_context \<Rightarrow> buffer" where
  "sync_bytes n c = sync_frame_buf_hdr @ le_bytes 8 n @ ctx_bytes c"

lemma length_sync_hdr: "length sync_frame_buf_hdr = 136"
  by (simp add: sync_frame_buf_hdr_def sync_frame_words_def)

lemma length_sync_bytes: "wf_ctx c \<Longrightarrow> length (sync_bytes n c) = size_full_ctx"
  by (simp add: sync_bytes_def length_ctx_bytes size_full_ctx_def sync_frame_sz_def)

lemma sync_accessors:
  assumes s: "has_bytes mem p (sync_bytes n c)" and wf: "wf_ctx c"
  shows "msg_is_sync_frame mem p = Inr True"
    and "msg_size mem p = Inr (length (sync_bytes n c))"
    and "msg_sync_ctx mem p = Inr (Some (p + sync_frame_sz))"
    and "load_ctx mem (p + sync_frame_sz) = Inr c"
    and "msg_sync_num_inst mem p = Inr n"
    and "load mem (p + sync_frame_sz) = Inr (ctx_pc c)"
proof -
  have h: "has_bytes mem p sync_frame_buf_hdr" "has_bytes mem (p + 136) (le_bytes 8 n)"
    "has_bytes mem (p + 144) (ctx_bytes c)"
    using s by (auto simp: sync_bytes_def has_bytes_append length_sync_hdr ac_simps)
  have w: "has_bytes mem p (le_bytes 8 (sync_frame_words ! 0))"
    using has_bytes_words [OF h(1) [unfolded sync_frame_buf_hdr_def], of 0] by (simp add: sync_frame_words_def)
  have "le_bytes 8 (ucast (rpc_set_sync 0) :: u64) = le_bytes 4 (rpc_set_sync 0) @ le_bytes 4 (0 :: u32)"
    by code_simp
  then have "has_bytes mem p (le_bytes 4 (rpc_set_sync 0))"
    using w by (simp add: sync_frame_words_def has_bytes_append)
  then have g: "msg_gpr_changed mem p = Inr (rpc_set_sync 0)"
    by (simp add: msg_gpr_changed_def load_has_bytes del: load_ok)
  have "rpc_sync (rpc_set_sync 0)" by code_simp
  then show sync: "msg_is_sync_frame mem p = Inr True"
    using h(1) by (simp add: msg_is_sync_frame_def g load_bytes_has_bytes)
  show "msg_size mem p = Inr (length (sync_bytes n c))"
    by (simp add: msg_size_def sync length_sync_bytes [OF wf])
  show "msg_sync_ctx mem p = Inr (Some (p + sync_frame_sz))" by (simp add: msg_sync_ctx_def sync)
  have f: "sync_frame_sz = 144" by (simp add: sync_frame_sz_def length_sync_hdr)
  show "load_ctx mem (p + sync_frame_sz) = Inr c" using load_ctx_bytes [OF h(3) wf] by (simp add: f)
  show "msg_sync_num_inst mem p = Inr n"
    using h(2) by (simp add: msg_sync_num_inst_def sync length_sync_hdr load_has_bytes del: load_ok)
  show "load mem (p + sync_frame_sz) = Inr (ctx_pc c)"
  proof -
    have "has_bytes mem (p + 144) (le_bytes 8 (ctx_pc c))" using h(3) by (simp add: ctx_bytes_def has_bytes_append)
    then show ?thesis by (simp add: f load_has_bytes del: load_ok)
  qed
qed

section \<open>Applying a message\<close>

definition apply_message :: "message \<Rightarrow> log_arm64_cpu_context \<Rightarrow> log_arm64_cpu_context" where
  "apply_message m c =
     \<lparr>ctx_pc = (case msg_branch m of Some x \<Rightarrow> x | None \<Rightarrow> ctx_pc c),
      ctx_sp = (case msg_new_sp m of Some x \<Rightarrow> x | None \<Rightarrow> ctx_sp c),
      ctx_nzcv = ctx_nzcv c,
      ctx_x = fold (\<lambda>(i, x) xs. xs[i := x]) (msg_gprs m) (ctx_x c),
      ctx_v = fold (\<lambda>(i, x) xs. xs[i := x]) (msg_vecs m) (ctx_v c)\<rparr>"

lemma fold_set_gpr:
  assumes "\<forall>i \<in> set (map fst gs). i < 31"
  shows "fold (\<lambda>(i, x) c. set_gpr (of_nat i) x c) gs c = c\<lparr>ctx_x := fold (\<lambda>(i, x) xs. xs[i := x]) gs (ctx_x c)\<rparr>"
  using assms by (induction gs arbitrary: c) (auto simp: set_gpr_def unat_of_nat)

lemma fold_set_vec:
  assumes "\<forall>i \<in> set (map fst vs). i < 32"
  shows "fold (\<lambda>(i, x) c. set_vec (of_nat i) x c) vs c = c\<lparr>ctx_v := fold (\<lambda>(i, x) xs. xs[i := x]) vs (ctx_v c)\<rparr>"
  using assms by (induction vs arbitrary: c) (auto simp: set_vec_def unat_of_nat)

lemma ctx_update_message:
  assumes m: "has_bytes mem p (message_bytes m)" and wf: "wf_message m"
    and idx: "\<forall>i \<in> set (map fst (msg_gprs m)). i < 31"
  shows "ctx_update mem p c = Inr (apply_message m c)"
proof -
  note acc = message_accessors [OF m wf]
  have g: "fold_res (\<lambda>i c. and_then (msg_gpr_idx mem p i) (\<lambda>r. and_then (msg_gpr mem p i) (\<lambda>x. Inr (set_gpr r x c))))
      [0..<length (msg_gprs m)] d = Inr (fold (\<lambda>(i, x) c. set_gpr (of_nat i) x c) (msg_gprs m) d)" for d
    by (rule fold_res_upt) (simp add: acc split_beta)
  have v: "fold_res (\<lambda>i c. and_then (msg_vec_idx mem p i) (\<lambda>r. and_then (msg_vec mem p i) (\<lambda>x. Inr (set_vec r x c))))
      [0..<length (msg_vecs m)] d = Inr (fold (\<lambda>(i, x) c. set_vec (of_nat i) x c) (msg_vecs m) d)" for d
    by (rule fold_res_upt) (simp add: acc split_beta)
  have v32: "\<forall>i \<in> set (map fst (msg_vecs m)). i < 32" using wf by (simp add: wf_message_def)
  have "msg_sync_ctx mem p = Inr None" by (simp add: msg_sync_ctx_def acc)
  then show ?thesis
    by (cases "msg_branch m"; cases "msg_new_sp m")
      (simp_all add: ctx_update_def acc g v fold_set_gpr [OF idx] fold_set_vec [OF v32] apply_message_def)
qed

lemma ctx_update_sync:
  assumes "has_bytes mem p (sync_bytes n c)" and "wf_ctx c"
  shows "ctx_update mem p d = Inr c"
  using sync_accessors [OF assms] by (simp add: ctx_update_def)

end
