(* ===== verification/TraceWriterCorrect.thy ===== *)
theory TraceWriterCorrect
  imports TraceWriter LogMessages
begin

text \<open>
  The writer emits well-formed messages: \<open>encode_msg\<close> is the encoding of the registers that
  changed, or an assertion failure when more than five of a kind did; what \<open>write_log_msg\<close>
  adds to a thread's output; and the distance between sync frames.
\<close>

lemma fold_or_bit: "bit (fold (\<lambda>i d. d OR F i) [0..<m] (0 :: 'a::len word)) n \<longleftrightarrow> (\<exists>j < m. bit (F j) n)"
  by (induction m) (auto simp: bit_or_iff less_Suc_eq)

lemma v_diff_bit: "bit (v_diff c prev) i \<longleftrightarrow> i < 32 \<and> ctx_v c ! i \<noteq> ctx_v prev ! i"
proof -
  have halves: "(ucast a :: u64) \<noteq> ucast b \<or> (ucast (drop_bit 64 a) :: u64) \<noteq> ucast (drop_bit 64 b) \<longleftrightarrow> a \<noteq> b"
    for a b :: u128
  proof
    assume "a \<noteq> b"
    then obtain n where n: "n < 128" "bit a n \<noteq> bit b n" using bit_word_eqI [of a b] by auto
    show "(ucast a :: u64) \<noteq> ucast b \<or> (ucast (drop_bit 64 a) :: u64) \<noteq> ucast (drop_bit 64 b)"
    proof (cases "n < 64")
      case True
      then have "bit (ucast a :: u64) n \<noteq> bit (ucast b :: u64) n" using n by (simp add: bit_simps)
      then show ?thesis by metis
    next
      case False
      then have "bit (ucast (drop_bit 64 a) :: u64) (n - 64) \<noteq> bit (ucast (drop_bit 64 b) :: u64) (n - 64)"
        using n False by (auto simp: bit_simps)
      then show ?thesis by metis
    qed
  qed auto
  have lane: "bit (ucast (push_bit i (((if P then - 1 else 0) OR (if Q then - 1 else 0)) AND 1 :: u64)) :: u32) n
      \<longleftrightarrow> n = i \<and> n < 32 \<and> (P \<or> Q)" for i n P Q
    by (auto simp: bit_simps)
  show ?thesis
    unfolding v_diff_def Let_def fold_or_bit lane using halves by auto
qed

lemma nat_less_5_cases: "k < 5 \<Longrightarrow> k = 0 \<or> k = 1 \<or> k = 2 \<or> k = 3 \<or> k = (4 :: nat)"
  by linarith

text \<open>Both register loops: payload and indices of the changed registers, in ascending order.\<close>

lemma put_loop:
  assumes step: "\<And>i buf g k. put i (buf, g, k) =
      (if bit d i then and_then (rpc_set_reg_idx g (ucast (k :: u8)) (of_nat i)) (\<lambda>g. Inr (buf @ f i, g, k + 1))
       else Inr (buf, g, k))"
    and "k + length (filter (bit d) is) \<le> 5"
  shows "fold_res put is (buf, g, of_nat k) =
    Inr (buf @ concat (map f (filter (bit d) is)), g OR packed k (filter (bit d) is),
         of_nat (k + length (filter (bit d) is)))"
  using assms(2)
proof (induction "is" arbitrary: buf g k)
  case Nil
  then show ?case by simp
next
  case (Cons i "is")
  show ?case
  proof (cases "bit d i")
    case True
    then have k: "k < 5" using Cons.prems by simp
    have "unat (5 * ucast (of_nat k :: u8) :: u32) = 5 * k"
      using nat_less_5_cases [OF k] by auto
    moreover have "5 * k < 32" using k by simp
    ultimately have "rpc_set_reg_idx g (ucast (of_nat k :: u8)) (of_nat i) = Inr (g OR push_bit (5 * k) (of_nat i))"
      by (simp add: rpc_set_reg_idx_def)
    moreover have "of_nat k + 1 = (of_nat (Suc k) :: u8)" by simp
    ultimately show ?thesis
      using Cons.IH [of "Suc k" "buf @ f i" "g OR push_bit (5 * k) (of_nat i)"] Cons.prems True
      by (simp add: step or.assoc del: of_nat_Suc)
  next
    case False
    then show ?thesis using Cons by (simp add: step)
  qed
qed

text \<open>The message of the registers in which two contexts differ.\<close>

definition changed_gprs :: "log_arm64_cpu_context \<Rightarrow> log_arm64_cpu_context \<Rightarrow> nat list" where
  "changed_gprs prev c = filter (\<lambda>i. ctx_x c ! i \<noteq> ctx_x prev ! i) [0..<31]"

definition changed_vecs :: "log_arm64_cpu_context \<Rightarrow> log_arm64_cpu_context \<Rightarrow> nat list" where
  "changed_vecs prev c = filter (\<lambda>i. ctx_v c ! i \<noteq> ctx_v prev ! i) [0..<32]"

definition diff_message :: "log_arm64_cpu_context \<Rightarrow> log_arm64_cpu_context \<Rightarrow> message" where
  "diff_message prev c =
     \<lparr>msg_branch = (if ctx_pc c \<noteq> ctx_pc prev + 4 then Some (ctx_pc c) else None),
      msg_new_sp = (if ctx_sp c \<noteq> ctx_sp prev then Some (ctx_sp c) else None),
      msg_gprs = map (\<lambda>i. (i, ctx_x c ! i)) (changed_gprs prev c),
      msg_vecs = map (\<lambda>i. (i, ctx_v c ! i)) (changed_vecs prev c)\<rparr>"

definition encodable :: "log_arm64_cpu_context \<Rightarrow> log_arm64_cpu_context \<Rightarrow> bool" where
  "encodable prev c \<longleftrightarrow> length (changed_gprs prev c) \<le> 5 \<and> length (changed_vecs prev c) \<le> 5"

lemma diff_message_wf: "encodable prev c \<Longrightarrow> wf_message (diff_message prev c)"
  by (auto simp: wf_message_def diff_message_def encodable_def changed_gprs_def changed_vecs_def comp_def)

lemma encode_msg_eq:
  assumes "wf_ctx prev" "wf_ctx c"
  shows "encode_msg prev c =
    (if encodable prev c then Inr (message_bytes (diff_message prev c)) else Inl Assertion_Failed)"
proof -
  let ?xd = "x_diff c prev" and ?vd = "v_diff c prev"
  have bx: "bit ?xd = (\<lambda>i. i < 31 \<and> ctx_x c ! i \<noteq> ctx_x prev ! i)"
    by (rule ext) (rule x_diff_bit [OF assms(2,1)])
  have bv: "bit ?vd = (\<lambda>i. i < 32 \<and> ctx_v c ! i \<noteq> ctx_v prev ! i)" by (rule ext) (rule v_diff_bit)
  have fx: "filter (bit ?xd) [0..<31] = changed_gprs prev c" and fv: "filter (bit ?vd) [0..<32] = changed_vecs prev c"
    unfolding bx bv changed_gprs_def changed_vecs_def by (auto intro: filter_cong)
  have "[0..<32] = [0..<31] @ [31 :: nat]" using upt_Suc_append [of 0 31] by simp
  then have "filter (bit ?xd) [0..<32] = changed_gprs prev c" using fx by (simp add: bx)
  then have px: "popcount ?xd = length (changed_gprs prev c)" by (simp add: popcount_def)
  have pv: "popcount ?vd = length (changed_vecs prev c)" using fv by (simp add: popcount_def)
  have e4: "ctx_pc c - ctx_pc prev \<noteq> 4 \<longleftrightarrow> ctx_pc c \<noteq> ctx_pc prev + 4"
    by (metis add.commute add_diff_cancel diff_add_cancel)
  note lx = put_loop [of "put_gpr ?xd (ctx_x c)" ?xd "\<lambda>i. le_bytes 8 (ctx_x c ! i)" 0 "[0..<31]", unfolded fx]
  note lv = put_loop [of "put_vec ?vd (ctx_v c)" ?vd "\<lambda>i. le_bytes 16 (ctx_v c ! i)" 0 "[0..<32]", unfolded fv]
  show ?thesis
    using lx lv unfolding encode_msg_def Let_def px pv e4
    by (cases "length (changed_gprs prev c) \<le> 5"; cases "length (changed_vecs prev c) \<le> 5")
      (auto simp: put_gpr_def put_vec_def encodable_def rpc_num_changed_max_def message_bytes_def diff_message_def
        change_word_def rpc_set_num_changed_def rpc_set_pc_branched_def rpc_set_sp_changed_def comp_def ac_simps)
qed

lemma fold_upd_filter:
  assumes "length xs = length ys" and "length xs \<le> n"
  shows "fold (\<lambda>(i, x) zs. zs[i := x]) (map (\<lambda>i. (i, xs ! i)) (filter (\<lambda>i. xs ! i \<noteq> ys ! i) [0..<n])) ys = xs"
proof -
  have step: "fold (\<lambda>(i, x) zs. zs[i := x]) (map (\<lambda>i. (i, xs ! i)) (filter (\<lambda>i. xs ! i \<noteq> ys ! i) [0..<m])) ys
      = take m xs @ drop m ys" if "m \<le> length xs" for m
    using that
  proof (induction m)
    case (Suc m)
    then have "take m xs @ drop m ys = take m xs @ (ys ! m) # drop (Suc m) ys"
      using assms(1) by (simp add: Cons_nth_drop_Suc)
    with Suc show ?case
      using assms(1) by (auto simp: take_Suc_conv_app_nth list_update_append)
  qed simp
  have beyond: "fold (\<lambda>(i, x) zs. zs[i := x]) (map (\<lambda>i. (i, f i)) (filter P is)) zs = zs"
    if "\<forall>i \<in> set is. length zs \<le> i" for f :: "nat \<Rightarrow> 'b" and P "is" and zs :: "'b list"
    using that by (induction "is" arbitrary: zs) (auto simp: list_update_beyond)
  have "[0..<n] = [0..<length xs] @ [length xs..<n]"
    using upt_add_eq_append [of 0 "length xs" "n - length xs"] assms(2) by simp
  then show ?thesis using step [of "length xs"] beyond [of "[length xs..<n]" xs] assms(1) by simp
qed

text \<open>
  Applying the message of \<open>c\<close> after \<open>prev\<close> to \<open>prev\<close> gives \<open>c\<close>, except that an unbranched pc
  is not advanced and the flags are not logged.
\<close>

lemma apply_diff_message:
  assumes "wf_ctx prev" "wf_ctx c"
  shows "apply_message (diff_message prev c) prev =
    c\<lparr>ctx_pc := (if ctx_pc c = ctx_pc prev + 4 then ctx_pc prev else ctx_pc c), ctx_nzcv := ctx_nzcv prev\<rparr>"
proof -
  have "fold (\<lambda>(i, x) zs. zs[i := x]) (map (\<lambda>i. (i, ctx_x c ! i)) (changed_gprs prev c)) (ctx_x prev) = ctx_x c"
    "fold (\<lambda>(i, x) zs. zs[i := x]) (map (\<lambda>i. (i, ctx_v c ! i)) (changed_vecs prev c)) (ctx_v prev) = ctx_v c"
    using assms by (auto simp: wf_ctx_def changed_gprs_def changed_vecs_def intro: fold_upd_filter)
  then show ?thesis by (simp add: apply_message_def diff_message_def)
qed

section \<open>A thread's output\<close>

lemma written_emit [simp]: "written (emit bs t) = written t @ bs"
  by (simp add: written_def emit_def split: option.split)

lemma emit_simps [simp]:
  "last_cpu_ctx (emit bs t) = last_cpu_ctx t" "num_inst (emit bs t) = num_inst t"
  "sz_since_last_sync (emit bs t) = sz_since_last_sync t"
  by (simp_all add: emit_def split: option.split)

lemma written_update [simp]:
  "written (t\<lparr>last_cpu_ctx := c\<rparr>) = written t" "written (t\<lparr>num_inst := n\<rparr>) = written t"
  "written (t\<lparr>sz_since_last_sync := z\<rparr>) = written t"
  by (simp_all add: written_def split: option.split)

lemma write_sync_simps [simp]:
  "written (write_sync t) = written t @ sync_bytes (num_inst t) (last_cpu_ctx t)"
  "last_cpu_ctx (write_sync t) = last_cpu_ctx t" "num_inst (write_sync t) = num_inst t"
  "sz_since_last_sync (write_sync t) = 0"
  by (simp_all add: write_sync_def Let_def sync_bytes_def)

definition sync_due :: "thread_ctx \<Rightarrow> bool" where
  "sync_due t \<longleftrightarrow> sz_since_last_sync t \<ge> sync_every"

lemma write_log_msg_eq:
  assumes "wf_ctx (last_cpu_ctx t)" "wf_ctx c"
  shows "\<exists>t'. write_log_msg c t = (if encodable (last_cpu_ctx t) c then Inr t' else Inl Assertion_Failed) \<and>
    written t' = written t @ (if sync_due t then sync_bytes (num_inst t) (last_cpu_ctx t) else []) @
      message_bytes (diff_message (last_cpu_ctx t) c) \<and>
    last_cpu_ctx t' = c \<and> num_inst t' = num_inst t + 1 \<and>
    sz_since_last_sync t' = (if sync_due t then 0 else sz_since_last_sync t) +
      of_nat (length (message_bytes (diff_message (last_cpu_ctx t) c)))"
proof -
  let ?t = "if sync_due t then write_sync t else t"
  let ?m = "message_bytes (diff_message (last_cpu_ctx t) c)"
  let ?t' = "(emit ?m ?t)\<lparr>sz_since_last_sync := sz_since_last_sync ?t + of_nat (length ?m),
      last_cpu_ctx := c, num_inst := num_inst ?t + 1\<rparr>"
  have "write_log_msg c t = (if encodable (last_cpu_ctx t) c then Inr ?t' else Inl Assertion_Failed)"
    using encode_msg_eq [OF assms] by (simp add: write_log_msg_def Let_def sync_due_def)
  then show ?thesis by (intro exI [of _ ?t']) (simp split del: if_split, simp)
qed

text \<open>The bytes a sequence of contexts adds, from the state of the thread.\<close>

primrec trace_bytes :: "u64 \<Rightarrow> u32 \<Rightarrow> log_arm64_cpu_context \<Rightarrow> log_arm64_cpu_context list \<Rightarrow> buffer" where
  "trace_bytes n z prev [] = []"
| "trace_bytes n z prev (c # cs) =
     (let m = message_bytes (diff_message prev c); due = z \<ge> sync_every in
      (if due then sync_bytes n prev else []) @ m @
      trace_bytes (n + 1) ((if due then 0 else z) + of_nat (length m)) c cs)"

primrec encodable_run :: "log_arm64_cpu_context \<Rightarrow> log_arm64_cpu_context list \<Rightarrow> bool" where
  "encodable_run prev [] = True"
| "encodable_run prev (c # cs) = (wf_ctx c \<and> encodable prev c \<and> encodable_run c cs)"

lemma write_run:
  assumes "wf_ctx (last_cpu_ctx t)" and "encodable_run (last_cpu_ctx t) cs"
  shows "\<exists>t'. fold_res write_log_msg cs t = Inr t' \<and> num_inst t' = num_inst t + of_nat (length cs) \<and>
    written t' = written t @ trace_bytes (num_inst t) (sz_since_last_sync t) (last_cpu_ctx t) cs"
  using assms
proof (induction cs arbitrary: t)
  case Nil
  then show ?case by simp
next
  case (Cons c cs)
  then have c: "wf_ctx c" "encodable (last_cpu_ctx t) c" "encodable_run c cs" by simp_all
  from write_log_msg_eq [OF Cons.prems(1) c(1)] c(2) obtain t1 where t1: "write_log_msg c t = Inr t1"
    "written t1 = written t @ (if sync_due t then sync_bytes (num_inst t) (last_cpu_ctx t) else []) @
      message_bytes (diff_message (last_cpu_ctx t) c)" "last_cpu_ctx t1 = c" "num_inst t1 = num_inst t + 1"
    "sz_since_last_sync t1 = (if sync_due t then 0 else sz_since_last_sync t) +
      of_nat (length (message_bytes (diff_message (last_cpu_ctx t) c)))" by auto
  from Cons.IH [of t1] t1(3) c obtain t2 where "fold_res write_log_msg cs t1 = Inr t2"
    "num_inst t2 = num_inst t1 + of_nat (length cs)"
    "written t2 = written t1 @ trace_bytes (num_inst t1) (sz_since_last_sync t1) c cs" by auto
  then show ?case using t1 by (auto simp: Let_def sync_due_def)
qed

end
