(* ===== verification/PerfectHash.thy ===== *)
theory PerfectHash
  imports Prelude "HOL-Library.Multiset"
begin

text \<open>
  \<^verbatim>\<open>MinimalPerfectHash\<close> of \<^verbatim>\<open>include/xnu-trace/MinimalPerfectHash.h\<close> and
  \<^verbatim>\<open>lib/xnu-trace/MinimalPerfectHash.cpp\<close>: the hash functions, the construction (bucket
  filling, salt search, slot assignment) and the lookup, with the proof that a construction
  that succeeds yields a bijection between the keys and the slots.

  Keys of every instantiated type (8 to 64 bits) are the 64-bit values the hash functions
  receive.  What is not under \<^verbatim>\<open>src/\<close> is a field of the record \<open>hash_lib\<close>: the constants
  and rotations of xxHash, \<^verbatim>\<open>fastmod\<close>, and the order \<^verbatim>\<open>std::sort\<close> leaves buckets of
  equal size in.
\<close>

section \<open>What the code takes from elsewhere\<close>

record bucket =
  hmod :: u32
  bkeys :: "u64 list"

record hash_lib =
  XXH_PRIME32_2 :: u32
  XXH_PRIME64_2 :: u64
  XXH_rotl32 :: "u32 \<Rightarrow> nat \<Rightarrow> u32"
  XXH_rotl64 :: "u64 \<Rightarrow> nat \<Rightarrow> u64"
  XXH64 :: "u64 \<Rightarrow> u64 \<Rightarrow> u64"
  XXH3_64bits_withSeed :: "u64 \<Rightarrow> u64 \<Rightarrow> u64"
  computeM_u32 :: "u32 \<Rightarrow> u64"
  fastmod_u32 :: "u32 \<Rightarrow> u64 \<Rightarrow> u32 \<Rightarrow> u32"
  sort_buckets :: "bucket list \<Rightarrow> bucket list"

text \<open>Their documented behaviour.\<close>

definition fastmod_ok :: "hash_lib \<Rightarrow> bool" where
  "fastmod_ok e \<longleftrightarrow> (\<forall>a d. 0 < d \<longrightarrow> fastmod_u32 e a (computeM_u32 e d) d = a mod d)"

definition sort_ok :: "hash_lib \<Rightarrow> bool" where
  "sort_ok e \<longleftrightarrow> (\<forall>bs. mset (sort_buckets e bs) = mset bs \<and>
     sorted_wrt (\<lambda>a b. length (bkeys a) \<ge> length (bkeys b)) (sort_buckets e bs))"

definition rotl_ok :: "hash_lib \<Rightarrow> bool" where
  "rotl_ok e \<longleftrightarrow> (\<forall>x r. 0 < r \<and> r < 32 \<longrightarrow> XXH_rotl32 e x r = push_bit r x OR drop_bit (32 - r) x)
     \<and> (\<forall>x r. 0 < r \<and> r < 64 \<longrightarrow> XXH_rotl64 e x r = push_bit r x OR drop_bit (64 - r) x)"

section \<open>Hash functions\<close>

definition xxhash_64 :: "hash_lib \<Rightarrow> u64 \<Rightarrow> u64 \<Rightarrow> u64" where
  "xxhash_64 e val seed = XXH64 e val seed"

definition xxhash_32 :: "hash_lib \<Rightarrow> u64 \<Rightarrow> u64 \<Rightarrow> u32" where
  "xxhash_32 e val seed = ucast (XXH64 e val seed)"

definition xxhash3_64 :: "hash_lib \<Rightarrow> u64 \<Rightarrow> u64 \<Rightarrow> u64" where
  "xxhash3_64 e val seed = XXH3_64bits_withSeed e val seed"

definition xxhash3_32 :: "hash_lib \<Rightarrow> u64 \<Rightarrow> u64 \<Rightarrow> u32" where
  "xxhash3_32 e val seed = ucast (XXH3_64bits_withSeed e val seed)"

definition jevhash_64 :: "hash_lib \<Rightarrow> u64 \<Rightarrow> u64 \<Rightarrow> u64" where
  "jevhash_64 e val seed =
     (let acc = seed + 1; acc = acc * XXH_PRIME64_2 e; acc = acc XOR val; acc = acc + seed
      in XXH_rotl64 e acc 13)"

definition jevhash_32 :: "hash_lib \<Rightarrow> u64 \<Rightarrow> u64 \<Rightarrow> u32" where
  "jevhash_32 e val seed =
     (let acc = ucast (seed + 1) :: u32;
          acc = acc * XXH_PRIME32_2 e;
          acc = ucast (ucast acc XOR drop_bit 32 val) :: u32;
          acc = ucast (ucast acc + seed) :: u32;
          acc = ucast (ucast acc XOR (val AND 0xFFFFFFFF)) :: u32
      in XXH_rotl32 e acc 13)"

section \<open>The hash object\<close>

record mph =
  m_salts :: "32 word list"
  m_fastmod_u32_M :: u64
  m_nkeys :: u32

definition mph_empty :: mph where
  "mph_empty = \<lparr>m_salts = [], m_fastmod_u32_M = 0, m_nkeys = 0\<rparr>"

definition mph_mod :: "hash_lib \<Rightarrow> mph \<Rightarrow> u32 \<Rightarrow> u32" where
  "mph_mod e m n = fastmod_u32 e n (m_fastmod_u32_M m) (m_nkeys m)"

definition at :: "'a list \<Rightarrow> nat \<Rightarrow> 'a res" where
  "at xs i = (if i < length xs then Inr (xs ! i) else Inl Out_Of_Bounds)"

lemma at_ok [simp]: "i < length xs \<Longrightarrow> at xs i = Inr (xs ! i)"
  by (simp add: at_def)

definition resize :: "nat \<Rightarrow> 'a \<Rightarrow> 'a list \<Rightarrow> 'a list" where
  "resize n x xs = take n xs @ replicate (n - length xs) x"

lemma length_resize [simp]: "length (resize n x xs) = n"
  by (simp add: resize_def)

text \<open>
  Filling the buckets.  A salt is the \<^verbatim>\<open>int32_t\<close> passed to the hash as its 64-bit seed, so
  it is sign-extended.
\<close>

definition fill_bucket :: "hash_lib \<Rightarrow> mph \<Rightarrow> u64 \<Rightarrow> bucket list \<Rightarrow> bucket list res" where
  "fill_bucket e m key buckets =
     (let h = mph_mod e m (jevhash_32 e key 0) in
      and_then (at buckets (unat h)) (\<lambda>b.
        Inr (buckets[unat h := b\<lparr>hmod := h, bkeys := bkeys b @ [key]\<rparr>])))"

text \<open>One attempt with salt \<open>d\<close>: the array of salted hashes, or \<open>None\<close> when a slot is taken.\<close>

primrec try_salt ::
    "hash_lib \<Rightarrow> mph \<Rightarrow> bool list \<Rightarrow> 32 word \<Rightarrow> u64 list \<Rightarrow> nat \<Rightarrow> u32 list \<Rightarrow> u32 list option res" where
  "try_salt e m slot_used d [] j salted_hashes = Inr (Some salted_hashes)"
| "try_salt e m slot_used d (key # keys) j salted_hashes =
     (let shmod = mph_mod e m (jevhash_32 e key (scast d)) in
      if shmod \<in> set salted_hashes then Inr None
      else let salted_hashes = salted_hashes[j := shmod] in
        and_then (at slot_used (unat shmod)) (\<lambda>taken.
          if taken then Inr None
          else try_salt e m slot_used d keys (Suc j) salted_hashes))"

text \<open>
  The search for a salt.  The code bounds it by a timer that is checked after every failed
  attempt and asserts; the timer is the number of checks it lets pass, over all buckets.
\<close>

primrec find_salt ::
    "nat \<Rightarrow> hash_lib \<Rightarrow> mph \<Rightarrow> bool list \<Rightarrow> u64 list \<Rightarrow> 32 word \<Rightarrow> (32 word \<times> u32 list \<times> nat) res" where
  "find_salt 0 e m slot_used keys d =
     and_then (try_salt e m slot_used d keys 0 (replicate (length keys) (- 1))) (\<lambda>r. case r of
       Some salted_hashes \<Rightarrow> Inr (d, salted_hashes, 0)
     | None \<Rightarrow> if d = 0x7FFFFFFF then Inl Signed_Overflow else Inl Assertion_Failed)"
| "find_salt (Suc timer) e m slot_used keys d =
     and_then (try_salt e m slot_used d keys 0 (replicate (length keys) (- 1))) (\<lambda>r. case r of
       Some salted_hashes \<Rightarrow> Inr (d, salted_hashes, Suc timer)
     | None \<Rightarrow> if d = 0x7FFFFFFF then Inl Signed_Overflow
              else find_salt timer e m slot_used keys (d + 1))"

definition first_free :: "bool list \<Rightarrow> nat option" where
  "first_free slot_used = find (\<lambda>i. \<not> slot_used ! i) [0..<length slot_used]"

definition place_bucket ::
    "hash_lib \<Rightarrow> mph \<Rightarrow> bucket \<Rightarrow> 32 word list \<times> bool list \<times> nat \<Rightarrow> (32 word list \<times> bool list \<times> nat) res" where
  "place_bucket e m b st =
     (case st of (salts, slot_used, timer) \<Rightarrow>
      if 1 < length (bkeys b) then
        and_then (find_salt timer e m slot_used (bkeys b) 1) (\<lambda>(d, salted_hashes, timer).
          Inr (salts[unat (hmod b) := d],
               fold (\<lambda>s u. u[unat s := True]) salted_hashes slot_used, timer))
      else if length (bkeys b) = 1 then
        (case first_free slot_used of
           None \<Rightarrow> Inl Assertion_Failed
         | Some i \<Rightarrow> Inr (salts[unat (hmod b) := - of_nat i - 1], slot_used[i := True], timer))
      else Inr (salts, slot_used, timer))"

text \<open>\<^verbatim>\<open>computeM_u32\<close> divides by the number of keys.\<close>

definition mph_build :: "hash_lib \<Rightarrow> nat \<Rightarrow> mph \<Rightarrow> u64 list \<Rightarrow> mph res" where
  "mph_build e timer m keys =
     and_then (assert_that (int (length keys) \<le> 0xFFFFFFFF)) (\<lambda>_.
     and_then (if keys = [] then Inl Division_By_Zero else Inr ()) (\<lambda>_.
     let nkeys = of_nat (length keys);
         m = m\<lparr>m_nkeys := nkeys, m_fastmod_u32_M := computeM_u32 e nkeys\<rparr>;
         vkeys = remdups_adj (sort keys)
     in and_then (assert_that (length vkeys = unat nkeys)) (\<lambda>_.
        and_then (fold_res (fill_bucket e m) keys (replicate (unat nkeys) \<lparr>hmod = 0, bkeys = []\<rparr>)) (\<lambda>buckets.
        and_then (fold_res (place_bucket e m) (sort_buckets e buckets)
                   (resize (unat nkeys) 0 (m_salts m), replicate (unat nkeys) False, timer)) (\<lambda>(salts, _, _).
        Inr (m\<lparr>m_salts := salts\<rparr>))))))"

definition mph_lookup :: "hash_lib \<Rightarrow> mph \<Rightarrow> u64 \<Rightarrow> u32 res" where
  "mph_lookup e m key =
     and_then (at (m_salts m) (unat (mph_mod e m (jevhash_32 e key 0)))) (\<lambda>salt_val.
       if salt_val <s 0 then
         (if salt_val = 0x80000000 then Inl Signed_Overflow else Inr (- salt_val - 1))
       else Inr (mph_mod e m (jevhash_32 e key (scast salt_val))))"

section \<open>Filling\<close>

text \<open>The bucket of a key, as an index.\<close>

definition home :: "hash_lib \<Rightarrow> mph \<Rightarrow> u64 \<Rightarrow> nat" where
  "home e m key = unat (mph_mod e m (jevhash_32 e key 0))"

definition mph_mod_ok :: "hash_lib \<Rightarrow> mph \<Rightarrow> bool" where
  "mph_mod_ok e m \<longleftrightarrow> (\<forall>x. unat (mph_mod e m x) < unat (m_nkeys m))"

lemma mph_mod_bound:
  assumes "fastmod_ok e" and "m_fastmod_u32_M m = computeM_u32 e (m_nkeys m)" and "0 < m_nkeys m"
  shows "mph_mod_ok e m"
proof -
  have "unat (x mod m_nkeys m) < unat (m_nkeys m)" for x
    using assms(3) by (simp add: unat_mod word_less_nat_alt)
  then show ?thesis
    using assms by (auto simp: mph_mod_ok_def mph_mod_def fastmod_ok_def)
qed

text \<open>What a filled bucket array satisfies, in a form that does not depend on the order.\<close>

definition buckets_of :: "hash_lib \<Rightarrow> mph \<Rightarrow> u64 list \<Rightarrow> bucket list \<Rightarrow> bool" where
  "buckets_of e m keys bs \<longleftrightarrow> mset (concat (map bkeys bs)) = mset keys \<and>
     (\<forall>b \<in> set bs. \<forall>k \<in> set keys. bkeys b \<noteq> [] \<longrightarrow> (k \<in> set (bkeys b) \<longleftrightarrow> home e m k = unat (hmod b)))"

lemma mset_concat_update:
  "i < length xs \<Longrightarrow> mset (f y) = mset (f (xs ! i)) + mset zs \<Longrightarrow>
     mset (concat (map f (xs[i := y]))) = mset (concat (map f xs)) + mset zs"
  by (induction xs arbitrary: i) (auto split: nat.split)

lemma fill_buckets:
  assumes ok: "mph_mod_ok e m" and n: "n = unat (m_nkeys m)"
  shows "\<exists>bs. fold_res (fill_bucket e m) keys (replicate n \<lparr>hmod = 0, bkeys = []\<rparr>) = Inr bs \<and>
    length bs = n \<and> mset (concat (map bkeys bs)) = mset keys \<and>
    (\<forall>h < n. bkeys (bs ! h) = filter (\<lambda>k. home e m k = h) keys \<and>
       (bkeys (bs ! h) \<noteq> [] \<longrightarrow> unat (hmod (bs ! h)) = h))"
proof (induction keys rule: rev_induct)
  case Nil
  show ?case by (simp add: map_replicate_const)
next
  case (snoc k keys)
  then obtain bs where bs: "fold_res (fill_bucket e m) keys (replicate n \<lparr>hmod = 0, bkeys = []\<rparr>) = Inr bs"
    "length bs = n" "mset (concat (map bkeys bs)) = mset keys"
    "\<forall>h < n. bkeys (bs ! h) = filter (\<lambda>k. home e m k = h) keys \<and>
       (bkeys (bs ! h) \<noteq> [] \<longrightarrow> unat (hmod (bs ! h)) = h)" by blast
  let ?h = "mph_mod e m (jevhash_32 e k 0)"
  let ?b = "(bs ! unat ?h)\<lparr>hmod := ?h, bkeys := bkeys (bs ! unat ?h) @ [k]\<rparr>"
  have h: "unat ?h < n" using ok n by (simp add: mph_mod_ok_def)
  have st: "fill_bucket e m k bs = Inr (bs[unat ?h := ?b])"
    using h bs(2) by (simp add: fill_bucket_def Let_def)
  have "mset (concat (map bkeys (bs[unat ?h := ?b]))) = mset (concat (map bkeys bs)) + mset [k]"
    by (rule mset_concat_update) (use h bs(2) in auto)
  then show ?case
    using bs h st by (auto simp: fold_res_append home_def nth_list_update)
qed

lemma fill_buckets_of:
  assumes "mph_mod_ok e m" and "n = unat (m_nkeys m)"
  shows "\<exists>bs. fold_res (fill_bucket e m) keys (replicate n \<lparr>hmod = 0, bkeys = []\<rparr>) = Inr bs \<and> buckets_of e m keys bs"
proof -
  obtain bs where bs: "fold_res (fill_bucket e m) keys (replicate n \<lparr>hmod = 0, bkeys = []\<rparr>) = Inr bs"
    "length bs = n" "mset (concat (map bkeys bs)) = mset keys"
    "\<forall>h < n. bkeys (bs ! h) = filter (\<lambda>k. home e m k = h) keys \<and>
       (bkeys (bs ! h) \<noteq> [] \<longrightarrow> unat (hmod (bs ! h)) = h)"
    using fill_buckets [OF assms] by blast
  then have "buckets_of e m keys bs"
    by (auto simp: buckets_of_def in_set_conv_nth [of _ bs])
  with bs(1) show ?thesis by blast
qed

lemma buckets_of_permute: "buckets_of e m keys bs \<Longrightarrow> mset bs' = mset bs \<Longrightarrow> buckets_of e m keys bs'"
  unfolding buckets_of_def
  by (metis mset_concat mset_map sum_mset_sum_list set_mset_mset)

section \<open>Placing\<close>

lemma try_salt_Some:
  assumes "try_salt e m used d ks j sh = Inr (Some sh')" and "length sh = j + length ks"
    and "distinct (take j sh)"
  shows "sh' = take j sh @ map (\<lambda>k. mph_mod e m (jevhash_32 e k (scast d))) ks \<and> distinct sh' \<and>
    (\<forall>k \<in> set ks. unat (mph_mod e m (jevhash_32 e k (scast d))) < length used \<and>
       \<not> used ! unat (mph_mod e m (jevhash_32 e k (scast d))))"
  using assms
proof (induction ks arbitrary: j sh)
  case Nil
  then show ?case by simp
next
  case (Cons k ks)
  let ?f = "\<lambda>k. mph_mod e m (jevhash_32 e k (scast d))"
  from Cons.prems(1) have new: "?f k \<notin> set sh" and free: "unat (?f k) < length used" "\<not> used ! unat (?f k)"
    and rec: "try_salt e m used d ks (Suc j) (sh[j := ?f k]) = Inr (Some sh')"
    by (auto simp: Let_def at_def split: if_splits)
  have tk: "take (Suc j) (sh[j := ?f k]) = take j sh @ [?f k]"
    using Cons.prems(2) by (simp add: take_Suc_conv_app_nth)
  moreover have "?f k \<notin> set (take j sh)" using new by (meson in_set_takeD)
  ultimately have "distinct (take (Suc j) (sh[j := ?f k]))" using Cons.prems(3) by simp
  moreover have "length (sh[j := ?f k]) = Suc j + length ks" using Cons.prems(2) by simp
  ultimately have "sh' = take (Suc j) (sh[j := ?f k]) @ map ?f ks" "distinct sh'"
    "\<forall>k \<in> set ks. unat (?f k) < length used \<and> \<not> used ! unat (?f k)"
    using Cons.IH [OF rec] by blast+
  note ih = this
  have "sh' = take j sh @ map ?f (k # ks)" using ih(1) tk by simp
  moreover have "\<forall>x \<in> set (k # ks). unat (?f x) < length used \<and> \<not> used ! unat (?f x)"
    using ih(3) free by simp
  ultimately show ?case using ih(2) by blast
qed

lemma salt_successor:
  assumes "0 <s d" "d \<noteq> 0x7FFFFFFF"
  shows "0 <s d + (1 :: 32 word)"
proof -
  have pos: "0 < sint d" using assms(1) by (simp add: word_sless_alt)
  have "sint d \<noteq> 0x7FFFFFFF"
  proof
    assume "sint d = 0x7FFFFFFF"
    then have "word_of_int (sint d) = (word_of_int 0x7FFFFFFF :: 32 word)" by (simp only:)
    also have "word_of_int (sint d) = d" by (simp flip: scast_eq)
    finally show False using assms(2) by simp
  qed
  moreover have "sint d < 2 ^ 31" using sint_lt [of d] by simp
  ultimately have "sint d + 1 < 2 ^ 31" by simp
  then have "sint (d + 1) = sint d + 1"
    using pos by (simp add: sint_word_ariths signed_take_bit_int_eq_self)
  with pos show ?thesis by (simp add: word_sless_alt)
qed

lemma find_salt_Inr:
  assumes "find_salt timer e m used ks d = Inr (d', sh, timer')" and "0 <s d"
  shows "0 <s d' \<and> try_salt e m used d' ks 0 (replicate (length ks) (- 1)) = Inr (Some sh)"
  using assms
proof (induction timer arbitrary: d)
  case 0
  then show ?case by (auto simp: res_simps split: option.splits if_splits)
next
  case (Suc timer)
  then show ?case
    by (auto simp: res_simps salt_successor split: option.splits if_splits)
qed

lemma lookup_other:
  "home e m k \<noteq> h \<Longrightarrow>
     mph_lookup e (m\<lparr>m_salts := salts[h := d]\<rparr>) k = mph_lookup e (m\<lparr>m_salts := salts\<rparr>) k"
  by (simp add: mph_lookup_def home_def mph_mod_def at_def)

lemma lookup_salted:
  assumes "home e m k < length salts" and "0 <s d"
  shows "mph_lookup e (m\<lparr>m_salts := salts[home e m k := d]\<rparr>) k = Inr (mph_mod e m (jevhash_32 e k (scast d)))"
proof -
  have "\<not> d <s 0" using assms(2) by (simp add: word_sless_alt)
  with assms(1) show ?thesis by (simp add: mph_lookup_def home_def mph_mod_def)
qed

lemma sint_slot_salt:
  assumes "i < 2 ^ 31 - 1"
  shows "sint (- of_nat i - 1 :: 32 word) = - int i - 1"
proof -
  have "(- of_nat i - 1 :: 32 word) = word_of_int (- int i - 1)" by simp
  then show ?thesis
    using assms by (simp only: sint_sbintrunc') (simp add: signed_take_bit_int_eq_self)
qed

lemma lookup_slot:
  assumes "home e m k < length salts" and "i < 2 ^ 31 - 1"
  shows "mph_lookup e (m\<lparr>m_salts := salts[home e m k := - of_nat i - 1]\<rparr>) k = Inr (of_nat i)"
proof -
  let ?s = "- of_nat i - 1 :: 32 word"
  have "?s <s 0" using sint_slot_salt [OF assms(2)] by (simp add: word_sless_alt)
  moreover have "?s \<noteq> 0x80000000"
  proof
    assume "?s = 0x80000000"
    then have "sint ?s = sint (0x80000000 :: 32 word)" by simp
    also have "\<dots> = - (2 ^ 31)" by simp
    finally show False using sint_slot_salt [OF assms(2)] assms(2) by simp
  qed
  ultimately show ?thesis using assms(1) by (simp add: mph_lookup_def home_def mph_mod_def)
qed

lemma fold_set_True:
  assumes "\<forall>s \<in> set sh. unat s < length u"
  shows "length (fold (\<lambda>s u. u[unat s := True]) sh u) = length u"
    and "i < length u \<Longrightarrow> fold (\<lambda>s u. u[unat s := True]) sh u ! i \<longleftrightarrow> u ! i \<or> i \<in> unat ` set sh"
  using assms by (induction sh arbitrary: u) (auto simp: nth_list_update)

text \<open>
  The state after some buckets have been placed: every key of theirs looks up to its slot \<open>g\<close>,
  and \<open>g\<close> is a bijection onto the used slots.
\<close>

definition placed ::
    "hash_lib \<Rightarrow> mph \<Rightarrow> u64 set \<Rightarrow> (u64 \<Rightarrow> nat) \<Rightarrow> 32 word list \<times> bool list \<times> nat \<Rightarrow> bool" where
  "placed e m K g st \<longleftrightarrow> (case st of (salts, used, _) \<Rightarrow>
     length salts = unat (m_nkeys m) \<and> length used = unat (m_nkeys m) \<and>
     (\<forall>k \<in> K. mph_lookup e (m\<lparr>m_salts := salts\<rparr>) k = Inr (of_nat (g k))) \<and>
     bij_betw g K {i. i < length used \<and> used ! i})"

lemma placed_extend:
  assumes pl: "placed e m K g (salts, used, t)" and dis: "K \<inter> set ks = {}"
    and other: "\<forall>k \<in> K. home e m k \<noteq> h"
    and new: "\<forall>k \<in> set ks. mph_lookup e (m\<lparr>m_salts := salts[h := d]\<rparr>) k = Inr (of_nat (f k))"
    and inj: "inj_on f (set ks)" and free: "\<forall>k \<in> set ks. f k < length used \<and> \<not> used ! f k"
    and len: "length used' = length used"
    and used': "\<And>i. i < length used \<Longrightarrow> used' ! i \<longleftrightarrow> used ! i \<or> i \<in> f ` set ks"
  shows "placed e m (K \<union> set ks) (\<lambda>k. if k \<in> K then g k else f k) (salts[h := d], used', t')"
proof -
  let ?g = "\<lambda>k. if k \<in> K then g k else f k" and ?U = "{i. i < length used \<and> used ! i}"
  have "bij_betw g K ?U" using pl unfolding placed_def prod.case by blast
  then have "bij_betw ?g K ?U" by (subst bij_betw_cong [where g = g]) auto
  moreover have "bij_betw ?g (set ks) (f ` set ks)"
    by (subst bij_betw_cong [where g = f]) (use dis inj in \<open>auto simp: inj_on_imp_bij_betw\<close>)
  moreover have "?U \<inter> f ` set ks = {}" using free by auto
  ultimately have "bij_betw ?g (K \<union> set ks) (?U \<union> f ` set ks)" by (rule bij_betw_combine)
  moreover have "?U \<union> f ` set ks = {i. i < length used' \<and> used' ! i}"
    using free used' len by auto
  ultimately show ?thesis
    using pl new other len dis by (auto simp: placed_def lookup_other)
qed

lemma first_free_Some: "first_free u = Some i \<Longrightarrow> i < length u \<and> \<not> u ! i"
  by (auto simp: first_free_def find_Some_iff)

lemma first_free_None: "first_free u = None \<longleftrightarrow> (\<forall>i < length u. u ! i)"
  by (auto simp: first_free_def find_None_iff)

lemma place_bucket_step:
  assumes pl: "placed e m K g (salts, used, t)" and mod_ok: "mph_mod_ok e m"
    and n: "unat (m_nkeys m) < 2 ^ 31"
    and dis: "K \<inter> set (bkeys b) = {}" and d: "distinct (bkeys b)"
    and home: "\<forall>k \<in> set (bkeys b). home e m k = unat (hmod b)"
    and other: "bkeys b \<noteq> [] \<Longrightarrow> \<forall>k \<in> K. home e m k \<noteq> unat (hmod b)"
    and st: "place_bucket e m b (salts, used, t) = Inr st'"
  shows "\<exists>g'. placed e m (K \<union> set (bkeys b)) g' st'"
proof -
  have len: "length salts = unat (m_nkeys m)" "length used = unat (m_nkeys m)"
    using pl by (simp_all add: placed_def)
  have in_n: "home e m k < length salts" for k
    using mod_ok len by (simp add: home_def mph_mod_ok_def)
  consider (many) "1 < length (bkeys b)" | (one) k where "bkeys b = [k]" | (none) "bkeys b = []"
    by (cases "bkeys b" rule: remdups_adj.cases) auto
  then show ?thesis
  proof cases
    case many
    with st obtain d' sh t' where fs: "find_salt t e m used (bkeys b) 1 = Inr (d', sh, t')"
      and st': "st' = (salts[unat (hmod b) := d'], fold (\<lambda>s u. u[unat s := True]) sh used, t')"
      by (auto simp: place_bucket_def res_simps)
    have one: "0 <s (1 :: 32 word)" by (simp add: word_sless_alt)
    note salt = find_salt_Inr [OF fs one]
    let ?f = "\<lambda>k. mph_mod e m (jevhash_32 e k (scast d'))"
    have sh: "sh = map ?f (bkeys b)" "distinct sh"
      "\<forall>k \<in> set (bkeys b). unat (?f k) < length used \<and> \<not> used ! unat (?f k)"
      using try_salt_Some [OF conjunct2 [OF salt]] by auto
    have inj: "inj_on (\<lambda>k. unat (?f k)) (set (bkeys b))"
      using sh(1,2) by (auto simp: distinct_map inj_on_def simp flip: word_unat_eq_iff)
    have new: "\<forall>k \<in> set (bkeys b). mph_lookup e (m\<lparr>m_salts := salts[unat (hmod b) := d']\<rparr>) k
        = Inr (of_nat (unat (?f k)))"
    proof
      fix k assume "k \<in> set (bkeys b)"
      then have "unat (hmod b) = home e m k" using home by simp
      with lookup_salted [OF in_n conjunct1 [OF salt], of k] show "mph_lookup e (m\<lparr>m_salts := salts[unat (hmod b) := d']\<rparr>) k
        = Inr (of_nat (unat (?f k)))" by simp
    qed
    have ne: "bkeys b \<noteq> []" using many by auto
    have "\<forall>s \<in> set sh. unat s < length used" using sh(1,3) by auto
    note u = fold_set_True [OF this]
    have "placed e m (K \<union> set (bkeys b)) (\<lambda>k. if k \<in> K then g k else unat (?f k)) st'"
      unfolding st'
      by (rule placed_extend [OF pl dis other [OF ne] new inj]) (use sh u in auto)
    then show ?thesis by blast
  next
    case one
    with st obtain i where i: "first_free used = Some i"
      and st': "st' = (salts[unat (hmod b) := - of_nat i - 1], used[i := True], t)"
      by (auto simp: place_bucket_def split: option.splits)
    from first_free_Some [OF i] have f: "i < length used" "\<not> used ! i" by auto
    have "i < 2 ^ 31 - 1" using f n len by simp
    from lookup_slot [OF in_n this, of k]
    have "mph_lookup e (m\<lparr>m_salts := salts[unat (hmod b) := - of_nat i - 1]\<rparr>) k = Inr (of_nat i)"
      using home one by simp
    then have "placed e m (K \<union> set (bkeys b)) (\<lambda>k. if k \<in> K then g k else i) st'"
      unfolding st'
      by (intro placed_extend [OF pl dis other, where f = "\<lambda>_. i"]) (use one f in \<open>auto simp: nth_list_update\<close>)
    then show ?thesis by blast
  next
    case none
    with st pl show ?thesis by (auto simp: place_bucket_def)
  qed
qed

lemma place_buckets:
  assumes "placed e m K g st" and "fold_res (place_bucket e m) bs st = Inr st'"
    and "mph_mod_ok e m" "unat (m_nkeys m) < 2 ^ 31"
    and "distinct (concat (map bkeys bs))" and "K \<inter> set (concat (map bkeys bs)) = {}"
    and "K \<union> set (concat (map bkeys bs)) \<subseteq> set keys"
    and "\<forall>b \<in> set bs. \<forall>k \<in> set keys. bkeys b \<noteq> [] \<longrightarrow> (k \<in> set (bkeys b) \<longleftrightarrow> home e m k = unat (hmod b))"
  shows "\<exists>g'. placed e m (K \<union> set (concat (map bkeys bs))) g' st'"
  using assms
proof (induction bs arbitrary: K g st)
  case Nil
  then show ?case by auto
next
  case (Cons b bs)
  from Cons.prems(2) obtain st1 where st1: "place_bucket e m b st = Inr st1"
    and rest: "fold_res (place_bucket e m) bs st1 = Inr st'" by (auto simp: res_simps)
  obtain salts used t where st: "st = (salts, used, t)" by (cases st) auto
  have "\<exists>g1. placed e m (K \<union> set (bkeys b)) g1 st1"
    by (rule place_bucket_step [OF Cons.prems(1) [unfolded st] Cons.prems(3,4)])
      (use Cons.prems st1 st in \<open>auto simp: disjoint_iff\<close>)
  then obtain g1 where "placed e m (K \<union> set (bkeys b)) g1 st1" ..
  then have "\<exists>g'. placed e m (K \<union> set (bkeys b) \<union> set (concat (map bkeys bs))) g' st'"
  proof (rule Cons.IH [OF _ rest Cons.prems(3,4)])
    show "distinct (concat (map bkeys bs))" using Cons.prems(5) by simp
    show "(K \<union> set (bkeys b)) \<inter> set (concat (map bkeys bs)) = {}"
      using Cons.prems(5,6) by (simp add: Int_Un_distrib Int_Un_distrib2)
    show "K \<union> set (bkeys b) \<union> set (concat (map bkeys bs)) \<subseteq> set keys"
      using Cons.prems(7) by (simp add: Un_assoc)
  qed (use Cons.prems(8) in simp)
  then show ?case by (simp only: list.map concat.simps set_append Un_assoc)
qed

lemma placed_none:
  assumes "length salts = unat (m_nkeys m)"
  shows "placed e m {} g (salts, replicate (unat (m_nkeys m)) False, t)"
  using assms by (auto simp: placed_def bij_betw_def)

lemma build_InrD:
  assumes "mph_build e t m0 keys = Inr m" and n: "length keys < 2 ^ 32"
  obtains m1 bs salts used t' where
    "m1 = m0\<lparr>m_nkeys := of_nat (length keys), m_fastmod_u32_M := computeM_u32 e (of_nat (length keys))\<rparr>"
    "unat (m_nkeys m1) = length keys" "length (remdups_adj (sort keys)) = length keys"
    "fold_res (fill_bucket e m1) keys (replicate (length keys) \<lparr>hmod = 0, bkeys = []\<rparr>) = Inr bs"
    "fold_res (place_bucket e m1) (sort_buckets e bs)
       (resize (length keys) 0 (m_salts m0), replicate (length keys) False, t) = Inr (salts, used, t')"
    "m = m1\<lparr>m_salts := salts\<rparr>"
proof -
  have u: "unat (of_nat (length keys) :: u32) = length keys" using n by (simp add: unat_of_nat)
  from assms(1) obtain bs salts used t' where
    "length (remdups_adj (sort keys)) = length keys"
    "fold_res (fill_bucket e (m0\<lparr>m_nkeys := of_nat (length keys),
       m_fastmod_u32_M := computeM_u32 e (of_nat (length keys))\<rparr>)) keys (replicate (length keys) \<lparr>hmod = 0, bkeys = []\<rparr>) = Inr bs"
    "fold_res (place_bucket e (m0\<lparr>m_nkeys := of_nat (length keys),
       m_fastmod_u32_M := computeM_u32 e (of_nat (length keys))\<rparr>)) (sort_buckets e bs)
       (resize (length keys) 0 (m_salts m0), replicate (length keys) False, t) = Inr (salts, used, t')"
    "m = m0\<lparr>m_nkeys := of_nat (length keys), m_fastmod_u32_M := computeM_u32 e (of_nat (length keys)), m_salts := salts\<rparr>"
    unfolding mph_build_def Let_def u by (auto simp: res_simps split: if_splits)
  then show ?thesis by (intro that) (auto simp: u)
qed

lemma distinct_sorted_adj: "sorted xs \<Longrightarrow> distinct_adj xs \<longleftrightarrow> distinct xs"
  by (induction xs rule: remdups_adj.induct) (force simp: distinct_adj_Cons)+

lemma unique_keys: "length (remdups_adj (sort keys)) = length keys \<longleftrightarrow> distinct (keys :: u64 list)"
  using distinct_adj_conv_length_remdups_adj [of "sort keys"] distinct_sorted_adj [of "sort keys"] by simp

theorem build_bijection:
  assumes env: "fastmod_ok e" "sort_ok e" and b: "mph_build e t m0 keys = Inr m" and n: "length keys < 2 ^ 31"
  shows "\<exists>g. (\<forall>k \<in> set keys. mph_lookup e m k = Inr (of_nat (g k))) \<and>
    bij_betw g (set keys) {..<length keys}"
proof (cases "keys = []")
  case True
  then show ?thesis by (auto simp: bij_betw_def)
next
  case False
  have "length keys < 2 ^ 32" using n by simp
  with b obtain m1 bs salts used t' where m1:
    "m1 = m0\<lparr>m_nkeys := of_nat (length keys), m_fastmod_u32_M := computeM_u32 e (of_nat (length keys))\<rparr>"
    "unat (m_nkeys m1) = length keys" "length (remdups_adj (sort keys)) = length keys"
    "fold_res (fill_bucket e m1) keys (replicate (length keys) \<lparr>hmod = 0, bkeys = []\<rparr>) = Inr bs"
    "fold_res (place_bucket e m1) (sort_buckets e bs)
       (resize (length keys) 0 (m_salts m0), replicate (length keys) False, t) = Inr (salts, used, t')"
    "m = m1\<lparr>m_salts := salts\<rparr>" by (rule build_InrD)
  have dist: "distinct keys" using m1(3) unique_keys by simp
  have "0 < m_nkeys m1" using m1(2) False by (simp add: word_less_nat_alt)
  then have ok: "mph_mod_ok e m1" by (intro mph_mod_bound env) (simp_all add: m1(1))
  from fill_buckets_of [OF ok refl, of keys] m1(2,4) have "buckets_of e m1 keys bs" by simp
  then have bs: "buckets_of e m1 keys (sort_buckets e bs)"
    by (rule buckets_of_permute) (use env(2) in \<open>simp add: sort_ok_def\<close>)
  then have mk: "mset (concat (map bkeys (sort_buckets e bs))) = mset keys" by (simp add: buckets_of_def)
  have init: "placed e m1 {} (\<lambda>_. 0) (resize (length keys) 0 (m_salts m0), replicate (length keys) False, t)"
    using placed_none [of "resize (length keys) 0 (m_salts m0)" m1 e] m1(2) by simp
  have "\<exists>g. placed e m1 ({} \<union> set (concat (map bkeys (sort_buckets e bs)))) g (salts, used, t')"
  proof (rule place_buckets [OF init m1(5) ok])
    show "distinct (concat (map bkeys (sort_buckets e bs)))"
      using dist by (simp only: mset_eq_imp_distinct_iff [OF mk])
    show "{} \<union> set (concat (map bkeys (sort_buckets e bs))) \<subseteq> set keys"
      by (simp only: mset_eq_setD [OF mk] Un_empty_left)
    show "\<forall>b \<in> set (sort_buckets e bs). \<forall>k \<in> set keys. bkeys b \<noteq> [] \<longrightarrow>
        (k \<in> set (bkeys b) \<longleftrightarrow> home e m1 k = unat (hmod b))"
      using bs unfolding buckets_of_def by blast
  qed (use n m1(2) in simp_all)
  then obtain g where "placed e m1 (set keys) g (salts, used, t')"
    unfolding mset_eq_setD [OF mk] Un_empty_left ..
  then have g: "\<forall>k \<in> set keys. mph_lookup e m k = Inr (of_nat (g k))"
    "bij_betw g (set keys) {i. i < length keys \<and> used ! i}"
    using m1(2,6) by (auto simp: placed_def)
  have "{i. i < length keys \<and> used ! i} = {..<length keys}"
  proof (rule card_subset_eq)
    show "card {i. i < length keys \<and> used ! i} = card {..<length keys}"
      using bij_betw_same_card [OF g(2)] dist by (simp add: distinct_card)
  qed auto
  with g show ?thesis by auto
qed

section \<open>Lookups of any key\<close>

text \<open>Salts that never send a lookup past \<open>n\<close> slots; a fresh object has none.\<close>

definition salts_ok :: "nat \<Rightarrow> 32 word list \<Rightarrow> bool" where
  "salts_ok n salts \<longleftrightarrow> (\<forall>s \<in> set salts. 0 \<le>s s \<or> (\<exists>i < n. s = - of_nat i - 1))"

lemma salts_ok_resize: "salts_ok n salts \<Longrightarrow> salts_ok n (resize n 0 salts)"
  by (auto simp: salts_ok_def resize_def word_sle_eq dest: in_set_takeD)

lemma salts_ok_update: "salts_ok n salts \<Longrightarrow> 0 \<le>s s \<or> (\<exists>i < n. s = - of_nat i - 1) \<Longrightarrow> salts_ok n (salts[h := s])"
  by (auto simp: salts_ok_def dest!: set_update_subset_insert [THEN subsetD])

lemma place_bucket_salts:
  assumes "place_bucket e m b (salts, used, t) = Inr (salts', used', t')"
    and "salts_ok (length used) salts"
  shows "salts_ok (length used) salts' \<and> length salts' = length salts \<and> length used' = length used"
proof -
  have "length (fold (\<lambda>s u. u[unat s := True]) sh used) = length used" for sh :: "u32 list"
    by (induction sh arbitrary: used) auto
  moreover have "0 <s d \<Longrightarrow> 0 \<le>s d" for d :: "32 word" by (simp add: word_sless_alt word_sle_eq)
  moreover have "0 <s (1 :: 32 word)" by (simp add: word_sless_alt)
  ultimately show ?thesis
    using assms
    by (auto simp: place_bucket_def res_simps split: if_splits option.splits
        intro!: salts_ok_update dest: find_salt_Inr first_free_Some)
qed

lemma place_buckets_salts:
  assumes "fold_res (place_bucket e m) bs (salts, used, t) = Inr (salts', used', t')"
    and "salts_ok (length used) salts"
  shows "salts_ok (length used) salts' \<and> length salts' = length salts"
proof -
  let ?P = "\<lambda>(s, u, _). salts_ok (length used) s \<and> length s = length salts \<and> length u = length used"
  have "?P (salts', used', t')"
  proof (rule fold_res_invariant [OF assms(1), of ?P])
    show "?P (salts, used, t)" using assms(2) by simp
  next
    fix b and s s' :: "32 word list \<times> bool list \<times> nat"
    assume "?P s" "place_bucket e m b s = Inr s'"
    then show "?P s'"
      using place_bucket_salts [of e m b "fst s" "fst (snd s)" "snd (snd s)" "fst s'" "fst (snd s')" "snd (snd s')"]
      by (cases s; cases s') auto
  qed
  then show ?thesis by simp
qed

lemma lookup_in_range:
  assumes ok: "mph_mod_ok e m" and len: "length (m_salts m) = unat (m_nkeys m)"
    and salts: "salts_ok (unat (m_nkeys m)) (m_salts m)" and n: "unat (m_nkeys m) < 2 ^ 31"
  shows "\<exists>x. mph_lookup e m k = Inr x \<and> unat x < unat (m_nkeys m)"
proof -
  let ?s = "m_salts m ! home e m k"
  have h: "home e m k < length (m_salts m)" using ok len by (simp add: home_def mph_mod_ok_def)
  then have "?s \<in> set (m_salts m)" by simp
  with salts consider "0 \<le>s ?s" | i where "i < unat (m_nkeys m)" "?s = - of_nat i - 1"
    by (auto simp: salts_ok_def)
  then show ?thesis
  proof cases
    case 1
    then have "\<not> ?s <s 0" by (simp add: word_sless_alt word_sle_eq)
    then show ?thesis using h ok by (simp add: mph_lookup_def home_def mph_mod_ok_def)
  next
    case 2
    have m: "m = m\<lparr>m_salts := (m_salts m)[home e m k := - of_nat i - 1]\<rparr>"
      using 2(2) by (metis list_update_id mph.surjective mph.update_convs(1))
    have "mph_lookup e m k = Inr (of_nat i)"
      using lookup_slot [OF h, of i] 2(1) n by (subst m) simp
    moreover have "unat (of_nat i :: u32) = i" using 2(1) n by (simp add: unat_of_nat)
    ultimately show ?thesis using 2(1) by simp
  qed
qed

theorem build_lookup_in_range:
  assumes env: "fastmod_ok e" and b: "mph_build e t m0 keys = Inr m" and n: "length keys < 2 ^ 31" "keys \<noteq> []"
    and s: "salts_ok (length keys) (m_salts m0)"
  shows "\<exists>x. mph_lookup e m k = Inr x \<and> unat x < length keys"
    and "salts_ok (length keys) (m_salts m)" and "distinct keys"
proof -
  have "length keys < 2 ^ 32" using n by simp
  with b obtain m1 bs salts used t' where m1:
    "m1 = m0\<lparr>m_nkeys := of_nat (length keys), m_fastmod_u32_M := computeM_u32 e (of_nat (length keys))\<rparr>"
    "unat (m_nkeys m1) = length keys" "length (remdups_adj (sort keys)) = length keys"
    "fold_res (fill_bucket e m1) keys (replicate (length keys) \<lparr>hmod = 0, bkeys = []\<rparr>) = Inr bs"
    "fold_res (place_bucket e m1) (sort_buckets e bs)
       (resize (length keys) 0 (m_salts m0), replicate (length keys) False, t) = Inr (salts, used, t')"
    "m = m1\<lparr>m_salts := salts\<rparr>" by (rule build_InrD)
  have "0 < m_nkeys m1" using m1(2) n(2) by (simp add: word_less_nat_alt)
  then have ok: "mph_mod_ok e m" by (intro mph_mod_bound env) (simp_all add: m1(1,6))
  have sl: "salts_ok (length keys) (m_salts m) \<and> length (m_salts m) = length keys"
    using place_buckets_salts [OF m1(5)] salts_ok_resize [OF s] m1(6) by simp
  then show "salts_ok (length keys) (m_salts m)" ..
  have nk: "unat (m_nkeys m) = length keys" using m1(2,6) by simp
  show "\<exists>x. mph_lookup e m k = Inr x \<and> unat x < length keys"
    using lookup_in_range [OF ok, of k] sl nk n(1) by simp
  show "distinct keys" using m1(3) unique_keys by simp
qed

section \<open>The interface of a minimal perfect hash\<close>

locale perfect_hash =
  fixes lookup :: "'m \<Rightarrow> 'k \<Rightarrow> u32 res"
    and built :: "'k list \<Rightarrow> 'm \<Rightarrow> bool"
  assumes in_range: "built ks m \<Longrightarrow> ks \<noteq> [] \<Longrightarrow> \<exists>x. lookup m k = Inr x \<and> unat x < length ks"
    and no_collision: "built ks m \<Longrightarrow> k \<in> set ks \<Longrightarrow> l \<in> set ks \<Longrightarrow> lookup m k = lookup m l \<Longrightarrow> k = l"
    and no_dups: "built ks m \<Longrightarrow> distinct ks"
begin

definition slot :: "'m \<Rightarrow> 'k \<Rightarrow> nat" where
  "slot m k = (case lookup m k of Inr x \<Rightarrow> unat x | Inl _ \<Rightarrow> 0)"

lemma slot: "built ks m \<Longrightarrow> ks \<noteq> [] \<Longrightarrow> \<exists>x. lookup m k = Inr x \<and> unat x = slot m k \<and> slot m k < length ks"
  using in_range [of ks m k] by (auto simp: slot_def)

lemma slot_inj: "built ks m \<Longrightarrow> inj_on (slot m) (set ks)"
proof (rule inj_onI)
  fix k l assume b: "built ks m" and kl: "k \<in> set ks" "l \<in> set ks" "slot m k = slot m l"
  then have "ks \<noteq> []" by auto
  then have "lookup m k = lookup m l"
    using slot [OF b, of k] slot [OF b, of l] kl(3) by (metis word_unat_eq_iff)
  then show "k = l" using no_collision [OF b] kl by blast
qed

lemma slot_bij: "built ks m \<Longrightarrow> bij_betw (slot m) (set ks) {..<length ks}"
proof -
  assume b: "built ks m"
  have "slot m ` set ks \<subseteq> {..<length ks}"
    using slot [OF b] by (cases "ks = []") auto
  moreover have "card (slot m ` set ks) = length ks"
    using card_image [OF slot_inj [OF b]] distinct_card [OF no_dups [OF b]] by simp
  ultimately have "slot m ` set ks = {..<length ks}" by (intro card_subset_eq) simp_all
  with slot_inj [OF b] show ?thesis by (simp add: bij_betw_def)
qed

text \<open>In every slot there is exactly one key.\<close>

lemma slot_owner: "built ks m \<Longrightarrow> i < length ks \<Longrightarrow> \<exists>!k. k \<in> set ks \<and> slot m k = i"
proof -
  assume b: "built ks m" and i: "i < length ks"
  from slot_bij [OF b] i have "i \<in> slot m ` set ks" by (simp add: bij_betw_def)
  then obtain k where k: "k \<in> set ks" "slot m k = i" by blast
  show ?thesis
  proof (rule ex1I [of _ k])
    fix l assume "l \<in> set ks \<and> slot m l = i"
    with k slot_inj [OF b] show "l = k" by (auto dest: inj_onD)
  qed (use k in simp)
qed

end

text \<open>The object a construction returns, starting from an object whose salts are in range.\<close>

definition mph_built :: "hash_lib \<Rightarrow> u64 list \<Rightarrow> mph \<Rightarrow> bool" where
  "mph_built e ks m \<longleftrightarrow> fastmod_ok e \<and> sort_ok e \<and> length ks < 2 ^ 31 \<and>
     (\<exists>t m0. salts_ok (length ks) (m_salts m0) \<and> mph_build e t m0 ks = Inr m)"

interpretation mph: perfect_hash "mph_lookup e" "mph_built e" for e
proof unfold_locales
  fix ks m k assume "mph_built e ks m" "ks \<noteq> []"
  then show "\<exists>x. mph_lookup e m k = Inr x \<and> unat x < length ks"
    by (auto simp: mph_built_def intro: build_lookup_in_range(1))
next
  fix ks m k l assume b: "mph_built e ks m" "k \<in> set ks" "l \<in> set ks" "mph_lookup e m k = mph_lookup e m l"
  from b(1) obtain t m0 where bld: "fastmod_ok e" "sort_ok e" "mph_build e t m0 ks = Inr m" and n: "length ks < 2 ^ 31"
    by (auto simp: mph_built_def)
  from build_bijection [OF bld n] obtain g where g: "\<forall>k \<in> set ks. mph_lookup e m k = Inr (of_nat (g k))"
    "bij_betw g (set ks) {..<length ks}" by blast
  have "unat (of_nat (g k) :: u32) = g k" if "k \<in> set ks" for k
  proof -
    have "g k < length ks" using g(2) that by (auto simp: bij_betw_def)
    then show ?thesis using n by (simp add: unat_of_nat)
  qed
  then have "g k = g l" using g(1) b by (metis sum.inject(2))
  then show "k = l" using g(2) b by (auto simp: bij_betw_def inj_on_def)
next
  fix ks m assume "mph_built e ks m"
  then show "distinct ks"
    by (cases "ks = []") (auto simp: mph_built_def dest: build_lookup_in_range(3))
qed

section \<open>The library functions, concretely\<close>

text \<open>
  An instance of the parameters: the published constants and rotations of xxHash, the
  remainder itself, and a stable sort.
\<close>

definition reference_lib :: hash_lib where
  "reference_lib =
     \<lparr>XXH_PRIME32_2 = 0x85EBCA77, XXH_PRIME64_2 = 0xC2B2AE3D27D4EB4F,
      XXH_rotl32 = (\<lambda>x r. push_bit r x OR drop_bit (32 - r) x),
      XXH_rotl64 = (\<lambda>x r. push_bit r x OR drop_bit (64 - r) x),
      XXH64 = (\<lambda>v s. v + s), XXH3_64bits_withSeed = (\<lambda>v s. v + s),
      computeM_u32 = (\<lambda>d. 0xFFFFFFFFFFFFFFFF div ucast d + 1),
      fastmod_u32 = (\<lambda>a M d. a mod d),
      sort_buckets = sort_key (\<lambda>b. - int (length (bkeys b)))\<rparr>"

lemma reference_lib_ok: "fastmod_ok reference_lib" "sort_ok reference_lib" "rotl_ok reference_lib"
proof -
  show "fastmod_ok reference_lib" by (simp add: fastmod_ok_def reference_lib_def)
  show "rotl_ok reference_lib" by (simp add: rotl_ok_def reference_lib_def)
  have "sorted_wrt (\<lambda>a b. length (bkeys b) \<le> length (bkeys a)) (sort_key (\<lambda>b. - int (length (bkeys b))) bs)" for bs
    using sorted_sort_key [of "\<lambda>b. - int (length (bkeys b))" bs] by (simp add: sorted_map)
  then show "sort_ok reference_lib" by (auto simp: sort_ok_def reference_lib_def)
qed

lemma reference_build: "mph_build reference_lib 10 mph_empty [5, 77, 4096] =
    Inr \<lparr>m_salts = [1, 0, - 3], m_fastmod_u32_M = 6148914691236517206, m_nkeys = 3\<rparr>"
  by code_simp

section \<open>Keys no salt separates\<close>

text \<open>
  The last step of \<^verbatim>\<open>jevhash_32\<close> before the rotation xors the low half of the key, so bit
  \<open>i\<close> of the rotated hash is bit \<open>i + 19\<close> of the key xored with a bit that depends on the seed
  and the high half only.
\<close>

lemma jevhash_low_bits:
  assumes "rotl_ok e" and "p \<le> 13"
    and "drop_bit 32 a = drop_bit 32 b" and "take_bit p (drop_bit 19 a) = take_bit p (drop_bit 19 b)"
  shows "take_bit p (jevhash_32 e a seed) = take_bit p (jevhash_32 e b seed)"
proof (rule bit_word_eqI)
  fix i assume "i < LENGTH(32)"
  have "bit a (19 + i) = bit b (19 + i)" if "i < p"
  proof -
    have "bit (take_bit p (drop_bit 19 a)) i = bit (take_bit p (drop_bit 19 b)) i" using assms(4) by simp
    then show ?thesis using that by (simp add: bit_simps)
  qed
  moreover have "bit (0xFFFFFFFF :: u64) n \<longleftrightarrow> n < 32" for n
  proof -
    have "(0xFFFFFFFF :: u64) = mask 32" by (simp add: mask_eq_exp_minus_1)
    then show ?thesis by (simp only: bit_mask_iff) auto
  qed
  ultimately show "bit (take_bit p (jevhash_32 e a seed)) i = bit (take_bit p (jevhash_32 e b seed)) i"
    using assms(1-3) by (auto simp: jevhash_32_def Let_def rotl_ok_def bit_simps add.commute)
qed

lemma inseparable:
  assumes env: "fastmod_ok e" "rotl_ok e" and M: "m_fastmod_u32_M m = computeM_u32 e (m_nkeys m)"
    and n: "m_nkeys m = push_bit p 1" and p: "p \<le> 13"
    and "drop_bit 32 a = drop_bit 32 b" and "take_bit p (drop_bit 19 a) = take_bit p (drop_bit 19 b)"
  shows "mph_lookup e m a = mph_lookup e m b"
proof -
  have pos: "0 < m_nkeys m"
  proof -
    have "bit (m_nkeys m) p" using p by (simp add: n bit_simps)
    then show ?thesis by (metis bit_0_eq bot_apply bot_bool_def word_gt_0)
  qed
  have "x mod m_nkeys m = take_bit p x" for x
    by (simp add: n push_bit_eq_mult take_bit_eq_mod)
  then have "mph_mod e m (jevhash_32 e a s) = mph_mod e m (jevhash_32 e b s)" for s
    using env(1) M pos jevhash_low_bits [OF env(2) p assms(6,7), of s]
    by (simp add: mph_mod_def fastmod_ok_def)
  then show ?thesis by (simp add: mph_lookup_def cong: if_cong)
qed

lemma of_nat_inverse_32: "n < m \<Longrightarrow> m < 2 ^ 32 \<Longrightarrow> unat (of_nat n :: u32) = n"
  by (simp add: unat_of_nat)

lemma duplicates_assert:
  assumes "\<not> distinct keys"
  shows "mph_build e t m keys = Inl Assertion_Failed"
proof (cases "int (length keys) \<le> 0xFFFFFFFF")
  case True
  then have u: "unat (of_nat (length keys) :: u32) = length keys" by (simp add: unat_of_nat)
  show ?thesis using assms unique_keys [of keys] True by (auto simp: mph_build_def Let_def u)
next
  case False
  then show ?thesis by (simp add: mph_build_def)
qed

lemma never_builds:
  assumes "fastmod_ok e" "sort_ok e" "rotl_ok e" and "length keys = 2 ^ p" "p \<le> 13"
    and "a \<in> set keys" "b \<in> set keys" "a \<noteq> b"
    and "drop_bit 32 a = drop_bit 32 b" and "take_bit p (drop_bit 19 a) = take_bit p (drop_bit 19 b)"
  shows "\<exists>err. mph_build e t m0 keys = Inl err"
proof (cases "mph_build e t m0 keys")
  case (Inr m)
  have "(2 :: nat) ^ p \<le> 2 ^ 13" using assms(5) by (intro power_increasing) auto
  then have n: "length keys < 2 ^ 32" "length keys < 2 ^ 31" using assms(4) by simp_all
  from Inr n(1) obtain m1 bs salts used t' where m1:
    "m1 = m0\<lparr>m_nkeys := of_nat (length keys), m_fastmod_u32_M := computeM_u32 e (of_nat (length keys))\<rparr>"
    "m = m1\<lparr>m_salts := salts\<rparr>" by (rule build_InrD)
  have "mph_lookup e m a = mph_lookup e m b"
    by (rule inseparable [OF assms(1,3) _ _ assms(5,9,10)])
      (simp_all add: m1 assms(4) push_bit_eq_mult)
  moreover from build_bijection [OF assms(1,2) Inr n(2)] obtain g where
    g: "\<forall>k \<in> set keys. mph_lookup e m k = Inr (of_nat (g k))" "bij_betw g (set keys) {..<length keys}" by blast
  ultimately have "(of_nat (g a) :: u32) = of_nat (g b)" using assms(6,7) by simp
  moreover have "g a < length keys" "g b < length keys" using g(2) assms(6,7) by (auto simp: bij_betw_def)
  ultimately have "g a = g b"
    using n(1) by (metis of_nat_inverse_32)
  with g(2) assms(6-8) show ?thesis by (auto simp: bij_betw_def inj_on_def)
qed blast

section \<open>Properties\<close>

text \<open>C2: A construction that succeeds yields a minimal perfect hash: every key of the set looks up
  without a fault, and the results are a bijection between the keys and the slots 0 to n-1,
  whatever the object held before.\<close>

theorem mph_minimal_perfect:
  assumes "fastmod_ok e" "sort_ok e" and "mph_build e t m0 keys = Inr m" and "length keys < 2 ^ 31"
  shows "\<exists>g. (\<forall>k \<in> set keys. mph_lookup e m k = Inr (of_nat (g k))) \<and>
    bij_betw g (set keys) {..<length keys}"
  using assms by (rule build_bijection)

theorem mph_minimal_perfect_witness:
  "\<exists>m g. mph_build reference_lib 10 mph_empty [5, 77, 4096] = Inr m \<and>
     (\<forall>k \<in> {5, 77, 4096}. mph_lookup reference_lib m k = Inr (of_nat (g k))) \<and>
     bij_betw g {5, 77, 4096} {..<3}"
proof -
  note b = reference_build
  from mph_minimal_perfect [OF reference_lib_ok(1,2) b]
  obtain g where "\<forall>k \<in> set [5, 77, 4096]. mph_lookup reference_lib
      \<lparr>m_salts = [1, 0, - 3], m_fastmod_u32_M = 6148914691236517206, m_nkeys = 3\<rparr> k = Inr (of_nat (g k))"
    "bij_betw g (set [5, 77, 4096]) {..<length [5, 77, 4096 :: u64]}" by auto
  moreover have "length [5, 77, 4096 :: u64] = 3" by simp
  ultimately show ?thesis using b by (metis list.simps(15) list.set(1))
qed

text \<open>C27: After a construction from a fresh object (or one whose salts stay below the number of
  keys), the lookup of any 64-bit value, a key or not, returns a slot below the number of keys.\<close>

theorem mph_any_lookup_in_range:
  assumes "fastmod_ok e" and "mph_build e t m0 keys = Inr m" and "length keys < 2 ^ 31" "keys \<noteq> []"
    and "salts_ok (length keys) (m_salts m0)"
  shows "\<exists>x. mph_lookup e m k = Inr x \<and> unat x < length keys"
  using assms by (rule build_lookup_in_range(1))

theorem mph_any_lookup_in_range_witness:
  "\<exists>m x. mph_build reference_lib 10 mph_empty [5, 77, 4096] = Inr m \<and>
     mph_lookup reference_lib m 123456789 = Inr x \<and> unat x < 3"
proof -
  note b = reference_build
  have "salts_ok (length [5, 77, 4096 :: u64]) (m_salts mph_empty)" by (simp add: salts_ok_def mph_empty_def)
  from mph_any_lookup_in_range [OF reference_lib_ok(1) b _ _ this, of 123456789] b show ?thesis by auto
qed

text \<open>A key list with a duplicate never builds: the construction fails its assertion before it
  touches a bucket.\<close>

lemma mph_duplicates_rejected:
  assumes "\<not> distinct keys"
  shows "mph_build e t m keys = Inl Assertion_Failed"
  using assms by (rule duplicates_assert)

lemma mph_duplicates_rejected_witness:
  "mph_build reference_lib 10 mph_empty [5, 77, 5] = Inl Assertion_Failed"
  by (rule mph_duplicates_rejected) simp

text \<open>C28: When the number of keys is a power of two up to 2^13, two keys with the same high half
  and the same bits from bit 19 on cannot be separated by any salt: no time limit lets the
  construction succeed (it ends in the timeout's assertion or overflows the salt).\<close>

theorem mph_power_of_two_never_builds:
  assumes "fastmod_ok e" "sort_ok e" "rotl_ok e" and "length keys = 2 ^ p" "p \<le> 13"
    and "a \<in> set keys" "b \<in> set keys" "a \<noteq> b"
    and "drop_bit 32 a = drop_bit 32 b" and "take_bit p (drop_bit 19 a) = take_bit p (drop_bit 19 b)"
  shows "\<exists>err. mph_build e t m0 keys = Inl err"
  by (rule never_builds [OF assms])

theorem mph_power_of_two_never_builds_witness:
  "\<exists>err. mph_build reference_lib 1000000 mph_empty [5, 77] = Inl err"
  by (rule mph_power_of_two_never_builds [OF reference_lib_ok, where p = 1 and a = 5 and b = 77]) simp_all

end
