(* ===== verification/MphMap.thy ===== *)
theory MphMap
  imports PerfectHash
begin

text \<open>
  The maps over a minimal perfect hash of \<^verbatim>\<open>include/xnu-trace/MinimalPerfectHash.h\<close>:
  \<^verbatim>\<open>mph_map_static\<close>, built once from a list of pairs, and \<^verbatim>\<open>mph_map\<close>, which
  rebuilds its hash whenever a key is added and reorders its entries with \<^verbatim>\<open>permute\<close>.
  A reference to a value is the index of its entry.
\<close>

section \<open>\<^verbatim>\<open>mph_map_static\<close>\<close>

record 'v mph_map_static =
  ms_mph :: mph
  m_values :: "'v list"

definition static_build ::
    "hash_lib \<Rightarrow> nat \<Rightarrow> 'v \<Rightarrow> 'v mph_map_static \<Rightarrow> (u64 \<times> 'v) list \<Rightarrow> 'v mph_map_static res" where
  "static_build e timer dflt st key_vals =
     (let keys = map fst key_vals in
      and_then (mph_build e timer (ms_mph st) keys) (\<lambda>m.
      and_then (fold_res (\<lambda>(k, v) vals.
                  and_then (mph_lookup e m k) (\<lambda>i.
                  and_then (at vals (unat i)) (\<lambda>_. Inr (vals[unat i := v]))))
                key_vals (resize (length key_vals) dflt (m_values st))) (\<lambda>vals.
      Inr \<lparr>ms_mph = m, m_values = vals\<rparr>)))"

definition static_get :: "hash_lib \<Rightarrow> 'v mph_map_static \<Rightarrow> u64 \<Rightarrow> 'v res" where
  "static_get e st key = and_then (mph_lookup e (ms_mph st) key) (\<lambda>i. at (m_values st) (unat i))"

section \<open>\<^verbatim>\<open>mph_map\<close>\<close>

record 'v mph_map =
  m_mph :: mph
  m_key_vals :: "(u64 \<times> 'v) list"

definition mph_map_keys :: "'v mph_map \<Rightarrow> u64 list" where
  "mph_map_keys mp = map fst (m_key_vals mp)"

text \<open>
  The inner loop of \<^verbatim>\<open>permute\<close> follows one cycle of \<open>new_idx\<close> from \<open>i\<close>.  It does not end
  for every \<open>new_idx\<close>; a cycle of a permutation has at most as many steps as entries.
\<close>

primrec permute_cycle ::
    "nat \<Rightarrow> nat \<Rightarrow> 'a list \<Rightarrow> nat list \<Rightarrow> nat \<Rightarrow> ('a list \<times> nat list \<times> nat) res" where
  "permute_cycle 0 i xs new_idx current = Inl Out_Of_Fuel"
| "permute_cycle (Suc fuel) i xs new_idx current =
     and_then (at new_idx current) (\<lambda>next.
       if i = next then Inr (xs, new_idx, current)
       else and_then (at xs next) (\<lambda>x.
         permute_cycle fuel i (xs[current := x]) (new_idx[current := current]) next))"

definition permute_step :: "nat \<Rightarrow> 'a list \<times> nat list \<Rightarrow> ('a list \<times> nat list) res" where
  "permute_step i st =
     (case st of (xs, new_idx) \<Rightarrow>
      and_then (at xs i) (\<lambda>t.
      and_then (permute_cycle (Suc (length new_idx)) i xs new_idx i) (\<lambda>(xs, new_idx, current).
      Inr (xs[current := t], new_idx[current := current]))))"

definition permute :: "'a list \<Rightarrow> nat list \<Rightarrow> ('a list \<times> nat list) res" where
  "permute xs new_idx = fold_res permute_step [0..<length new_idx] (xs, new_idx)"

definition mph_map_rebuild :: "hash_lib \<Rightarrow> nat \<Rightarrow> 'v mph_map \<Rightarrow> 'v mph_map res" where
  "mph_map_rebuild e timer mp =
     and_then (mph_build e timer (m_mph mp) (mph_map_keys mp)) (\<lambda>m.
     and_then (map_res (\<lambda>(k, _). mph_lookup e m k) (m_key_vals mp)) (\<lambda>new_idx.
     and_then (permute (m_key_vals mp) (map unat new_idx)) (\<lambda>(key_vals, _).
     Inr \<lparr>m_mph = m, m_key_vals = key_vals\<rparr>)))"

definition mph_map_index ::
    "hash_lib \<Rightarrow> nat \<Rightarrow> 'v \<Rightarrow> 'v mph_map \<Rightarrow> u64 \<Rightarrow> ('v mph_map \<times> nat) res" where
  "mph_map_index e timer dflt mp key =
     (if m_key_vals mp = [] then
        and_then (mph_build e timer (m_mph mp) [key]) (\<lambda>m.
          Inr (\<lparr>m_mph = m, m_key_vals = [(key, dflt)]\<rparr>, 0))
      else
        and_then (mph_lookup e (m_mph mp) key) (\<lambda>i.
        and_then (at (m_key_vals mp) (unat i)) (\<lambda>(k, _).
          if k = key then Inr (mp, unat i)
          else
            and_then (mph_map_rebuild e timer (mp\<lparr>m_key_vals := m_key_vals mp @ [(key, dflt)]\<rparr>)) (\<lambda>mp.
            and_then (mph_lookup e (m_mph mp) key) (\<lambda>i.
            and_then (at (m_key_vals mp) (unat i)) (\<lambda>_. Inr (mp, unat i)))))))"

definition mph_map_contains :: "hash_lib \<Rightarrow> 'v mph_map \<Rightarrow> u64 \<Rightarrow> bool res" where
  "mph_map_contains e mp key =
     (if m_key_vals mp = [] then Inr False
      else and_then (mph_lookup e (m_mph mp) key) (\<lambda>i.
           and_then (at (m_key_vals mp) (unat i)) (\<lambda>(k, _). Inr (k = key))))"

definition mph_map_try_emplace ::
    "hash_lib \<Rightarrow> nat \<Rightarrow> 'v mph_map \<Rightarrow> u64 \<Rightarrow> 'v \<Rightarrow> ('v mph_map \<times> nat \<times> bool) res" where
  "mph_map_try_emplace e timer mp key v =
     and_then (mph_map_contains e mp key) (\<lambda>has.
       if has then and_then (mph_lookup e (m_mph mp) key) (\<lambda>i. Inr (mp, unat i, False))
       else
         and_then (mph_map_rebuild e timer (mp\<lparr>m_key_vals := m_key_vals mp @ [(key, v)]\<rparr>)) (\<lambda>mp.
         and_then (mph_lookup e (m_mph mp) key) (\<lambda>i. Inr (mp, unat i, True))))"

section \<open>Scattering values into their slots\<close>

context perfect_hash begin

lemma scatter:
  assumes b: "built ks m" and kv: "set (map fst kvs) \<subseteq> set ks" "distinct (map fst kvs)"
    and len: "length vals = length ks"
  shows "\<exists>vals'. fold_res (\<lambda>(k, v) vals. and_then (lookup m k) (\<lambda>i.
            and_then (at vals (unat i)) (\<lambda>_. Inr (vals[unat i := v])))) kvs vals = Inr vals' \<and>
    length vals' = length ks \<and>
    (\<forall>(k, v) \<in> set kvs. vals' ! slot m k = v) \<and>
    (\<forall>k \<in> set ks. k \<notin> fst ` set kvs \<longrightarrow> vals' ! slot m k = vals ! slot m k)"
  using kv len
proof (induction kvs arbitrary: vals)
  case Nil
  then show ?case by simp
next
  case (Cons p kvs)
  obtain k v where p: "p = (k, v)" by force
  from Cons.prems p have k: "k \<in> set ks" by simp
  then have "ks \<noteq> []" by auto
  from slot [OF b this] obtain x where x: "lookup m k = Inr x" "unat x = slot m k" "slot m k < length ks" by blast
  from Cons.IH [of "vals[slot m k := v]"] Cons.prems obtain vals' where v':
    "fold_res (\<lambda>(k, v) vals. and_then (lookup m k) (\<lambda>i.
        and_then (at vals (unat i)) (\<lambda>_. Inr (vals[unat i := v])))) kvs (vals[slot m k := v]) = Inr vals'"
    "length vals' = length ks" "\<forall>(k, v) \<in> set kvs. vals' ! slot m k = v"
    "\<forall>l \<in> set ks. l \<notin> fst ` set kvs \<longrightarrow> vals' ! slot m l = vals[slot m k := v] ! slot m l" by auto
  have "vals' ! slot m k = v"
    using v'(4) k Cons.prems p x by auto
  moreover have "vals' ! slot m l = vals ! slot m l" if "l \<in> set ks" "l \<notin> fst ` set (p # kvs)" for l
  proof -
    have "slot m l \<noteq> slot m k" using slot_inj [OF b] k that p by (auto dest: inj_onD)
    then show ?thesis using v'(4) that p by simp
  qed
  ultimately show ?case using v' x p Cons.prems(3) by (intro exI [of _ vals']) auto
qed

end

text \<open>The built map returns the value of every pair.\<close>

lemma static_build_correct:
  assumes env: "fastmod_ok e" "sort_ok e" and n: "length kvs < 2 ^ 31"
    and fresh: "m_salts (ms_mph st0) = []"
    and b: "static_build e t d st0 kvs = Inr st" and kv: "(k, v) \<in> set kvs"
  shows "static_get e st k = Inr v"
proof -
  from b obtain m vals where m: "mph_build e t (ms_mph st0) (map fst kvs) = Inr m"
    and sc: "fold_res (\<lambda>(k, v) vals. and_then (mph_lookup e m k) (\<lambda>i.
            and_then (at vals (unat i)) (\<lambda>_. Inr (vals[unat i := v])))) kvs
          (resize (length kvs) d (m_values st0)) = Inr vals"
    and st: "st = \<lparr>ms_mph = m, m_values = vals\<rparr>"
    by (auto simp: static_build_def Let_def res_simps)
  have bt: "mph_built e (map fst kvs) m"
    using env n m fresh by (auto simp: mph_built_def salts_ok_def intro!: exI [of _ "ms_mph st0"])
  have "\<exists>vals'. fold_res (\<lambda>(k, v) vals. and_then (mph_lookup e m k) (\<lambda>i.
            and_then (at vals (unat i)) (\<lambda>_. Inr (vals[unat i := v])))) kvs
          (resize (length kvs) d (m_values st0)) = Inr vals' \<and>
    length vals' = length (map fst kvs) \<and> (\<forall>(k, v) \<in> set kvs. vals' ! mph.slot e m k = v) \<and>
    (\<forall>k \<in> set (map fst kvs). k \<notin> fst ` set kvs \<longrightarrow>
       vals' ! mph.slot e m k = resize (length kvs) d (m_values st0) ! mph.slot e m k)"
    by (rule mph.scatter [OF bt subset_refl mph.no_dups [OF bt]]) simp
  then have v: "length vals = length kvs" "\<forall>(k, v) \<in> set kvs. vals ! mph.slot e m k = v"
    using sc by auto
  have "map fst kvs \<noteq> []" using kv by auto
  from mph.slot [OF bt this, of k] obtain x where
    "mph_lookup e m k = Inr x" "unat x = mph.slot e m k" "mph.slot e m k < length kvs" by auto
  moreover have "vals ! mph.slot e m k = v" using bspec [OF v(2) kv] by simp
  ultimately show ?thesis using v(1) st by (simp add: static_get_def)
qed

section \<open>What \<^verbatim>\<open>permute\<close> computes\<close>

text \<open>\<open>permutes_list f n\<close>: \<open>f\<close> permutes the indices below \<open>n\<close>.\<close>

definition perm_list :: "nat list \<Rightarrow> bool" where
  "perm_list idx \<longleftrightarrow> distinct idx \<and> set idx = {..<length idx}"

text \<open>
  The state while \<open>permute\<close> runs: the entries in \<open>D\<close> are final, all others untouched.
\<close>

definition perm_state :: "'a list \<Rightarrow> nat list \<Rightarrow> nat set \<Rightarrow> 'a list \<Rightarrow> nat list \<Rightarrow> bool" where
  "perm_state xs0 idx0 D xs idx \<longleftrightarrow> length xs = length idx0 \<and> length idx = length idx0 \<and>
     (\<forall>j < length idx0. xs ! j = xs0 ! (if j \<in> D then idx0 ! j else j) \<and>
        idx ! j = (if j \<in> D then j else idx0 ! j))"

lemma perm_state_update:
  assumes "perm_state xs0 idx0 D xs idx" and "c < length idx0" and "x = xs0 ! (idx0 ! c)"
  shows "perm_state xs0 idx0 (insert c D) (xs[c := x]) (idx[c := c])"
  using assms by (auto simp: perm_state_def nth_list_update)

lemma perm_index:
  assumes "perm_list idx" and "j < length idx"
  shows "idx ! j < length idx" and "k < length idx \<Longrightarrow> idx ! j = idx ! k \<Longrightarrow> j = k"
proof -
  have "idx ! j \<in> set idx" using assms(2) by simp
  then show "idx ! j < length idx" using assms(1) by (simp add: perm_list_def)
  show "k < length idx \<Longrightarrow> idx ! j = idx ! k \<Longrightarrow> j = k"
    using assms by (simp add: perm_list_def nth_eq_iff_index_eq)
qed

text \<open>
  Following a cycle: \<open>A\<close> is the part already moved, all of it outside the closed set \<open>D\<close>; every
  entry of \<open>A\<close> but none of \<open>D\<close> is reached from another entry of \<open>A\<close> or is the start.
\<close>

lemma cycle_correct:
  assumes p: "perm_list idx0" and lx: "length xs0 = length idx0" and fin: "finite A"
    and i: "i < length idx0" "i \<notin> D"
    and D: "\<forall>j < length idx0. j \<in> D \<longleftrightarrow> idx0 ! j \<in> D"
    and A: "A \<subseteq> {..<length idx0}" "A \<inter> D = {}" "\<forall>j \<in> A. idx0 ! j \<in> insert c A - {i}"
      "A \<noteq> {} \<Longrightarrow> i \<in> A" "A = {} \<Longrightarrow> c = i" "\<forall>j \<in> insert c A. j \<noteq> i \<longrightarrow> (\<exists>l \<in> A. idx0 ! l = j)"
    and c: "c < length idx0" "c \<notin> A" "c \<notin> D"
    and st: "perm_state xs0 idx0 (D \<union> A) xs idx"
    and fuel: "length idx0 < fuel + card A"
  shows "\<exists>xs' idx' c' D'. permute_cycle fuel i xs idx c = Inr (xs', idx', c') \<and>
    perm_state xs0 idx0 (D' - {c'}) xs' idx' \<and> D \<subseteq> D' \<and> i \<in> D' \<and> c' \<in> D' \<and> c' < length idx0 \<and> c' \<notin> D \<and>
    D' - D \<subseteq> {..<length idx0} \<and> idx0 ! c' = i \<and> (\<forall>j < length idx0. j \<in> D' \<longleftrightarrow> idx0 ! j \<in> D')"
  using fin A c st fuel
proof (induction fuel arbitrary: A xs idx c)
  case 0
  then have "card A \<le> length idx0" by (metis card_lessThan card_mono finite_lessThan)
  with 0 show ?case by simp
next
  case (Suc fuel)
  have ci: "idx ! c = idx0 ! c" "c < length idx" using Suc.prems by (auto simp: perm_state_def)
  have nx: "idx0 ! c < length idx0" using perm_index(1) [OF p] Suc.prems by blast
  have nD: "idx0 ! c \<notin> D" using D Suc.prems by blast
  show ?case
  proof (cases "idx0 ! c = i")
    case True
    let ?D = "D \<union> insert c A"
    have "j \<in> ?D \<longleftrightarrow> idx0 ! j \<in> ?D" if j: "j < length idx0" for j
    proof
      assume "j \<in> ?D"
      then show "idx0 ! j \<in> ?D" using Suc.prems(4,5,6) D j True by (cases "A = {}") auto
    next
      assume a: "idx0 ! j \<in> ?D"
      show "j \<in> ?D"
      proof (cases "idx0 ! j \<in> D")
        case True
        then show ?thesis using D j by blast
      next
        case False
        then have "idx0 ! j \<in> insert c A" using a by blast
        then consider "idx0 ! j = i" | l where "l \<in> A" "idx0 ! l = idx0 ! j" using Suc.prems(7) by blast
        then show ?thesis
        proof cases
          case 1
          then have "j = c" using perm_index(2) [OF p j Suc.prems(8)] True by simp
          then show ?thesis by blast
        next
          case 2
          then have "l = j" using perm_index(2) [OF p, of l j] j Suc.prems(2) by auto
          with 2 show ?thesis by blast
        qed
      qed
    qed
    moreover have "i \<in> ?D" using Suc.prems(5,6) by (cases "A = {}") auto
    moreover have "?D - {c} = D \<union> A" using Suc.prems(9,10) by blast
    ultimately show ?thesis
      using ci True Suc.prems by (intro exI [of _ xs] exI [of _ idx] exI [of _ c] exI [of _ ?D]) auto
  next
    case False
    have nA: "idx0 ! c \<notin> insert c A"
    proof
      assume "idx0 ! c \<in> insert c A"
      then obtain l where l: "l \<in> A" "idx0 ! l = idx0 ! c" using Suc.prems(7) False by blast
      then have "l = c" using perm_index(2) [OF p, of l c] Suc.prems(2,8) by auto
      with l(1) Suc.prems(9) show False by blast
    qed
    have x: "xs ! (idx0 ! c) = xs0 ! (idx0 ! c)" "idx0 ! c < length xs"
      using Suc.prems(11) nx nA nD by (auto simp: perm_state_def)
    have st: "perm_state xs0 idx0 (D \<union> insert c A) (xs[c := xs ! (idx0 ! c)]) (idx[c := c])"
      using perm_state_update [OF Suc.prems(11,8) x(1)] by simp
    have "\<exists>xs' idx' c' D'. permute_cycle fuel i (xs[c := xs ! (idx0 ! c)]) (idx[c := c]) (idx0 ! c) = Inr (xs', idx', c') \<and>
      perm_state xs0 idx0 (D' - {c'}) xs' idx' \<and> D \<subseteq> D' \<and> i \<in> D' \<and> c' \<in> D' \<and> c' < length idx0 \<and> c' \<notin> D \<and>
      D' - D \<subseteq> {..<length idx0} \<and> idx0 ! c' = i \<and> (\<forall>j < length idx0. j \<in> D' \<longleftrightarrow> idx0 ! j \<in> D')"
    proof (rule Suc.IH [OF _ _ _ _ _ _ _ nx nA nD st])
      show "\<forall>j \<in> insert c A. idx0 ! j \<in> insert (idx0 ! c) (insert c A) - {i}"
        using Suc.prems(4) False by blast
      show "i \<in> insert c A" using Suc.prems(5,6) by (cases "A = {}") auto
      show "\<forall>j \<in> insert (idx0 ! c) (insert c A). j \<noteq> i \<longrightarrow> (\<exists>l \<in> insert c A. idx0 ! l = j)"
        using Suc.prems(7) by blast
    qed (use Suc.prems in auto)
    then show ?thesis using ci False x by simp
  qed
qed

lemma permute_step_correct:
  assumes p: "perm_list idx0" and lx: "length xs0 = length idx0" and i: "i < length idx0"
    and D: "\<forall>j < length idx0. j \<in> D \<longleftrightarrow> idx0 ! j \<in> D" and st: "perm_state xs0 idx0 D xs idx"
  shows "\<exists>xs' idx' D'. permute_step i (xs, idx) = Inr (xs', idx') \<and> perm_state xs0 idx0 D' xs' idx' \<and>
    insert i D \<subseteq> D' \<and> (\<forall>j < length idx0. j \<in> D' \<longleftrightarrow> idx0 ! j \<in> D')"
proof (cases "i \<in> D")
  case True
  then have "idx ! i = i" "i < length idx" "i < length xs" using st i by (auto simp: perm_state_def)
  then have "permute_step i (xs, idx) = Inr (xs, idx)"
    using list_update_id [of idx i] by (simp add: permute_step_def)
  with True st D show ?thesis by (metis insert_absorb order_refl)
next
  case False
  have len: "length xs = length idx0" "length idx = length idx0" "xs ! i = xs0 ! i"
    using st i False by (auto simp: perm_state_def)
  have "\<exists>xs' idx' c' D'. permute_cycle (Suc (length idx)) i xs idx i = Inr (xs', idx', c') \<and>
    perm_state xs0 idx0 (D' - {c'}) xs' idx' \<and> D \<subseteq> D' \<and> i \<in> D' \<and> c' \<in> D' \<and> c' < length idx0 \<and> c' \<notin> D \<and>
    D' - D \<subseteq> {..<length idx0} \<and> idx0 ! c' = i \<and> (\<forall>j < length idx0. j \<in> D' \<longleftrightarrow> idx0 ! j \<in> D')"
    by (rule cycle_correct [OF p lx finite.emptyI i False D]) (use i False st len in auto)
  then obtain xs' idx' c' D' where c: "permute_cycle (Suc (length idx)) i xs idx i = Inr (xs', idx', c')"
    "perm_state xs0 idx0 (D' - {c'}) xs' idx'" "D \<subseteq> D'" "i \<in> D'" "c' \<in> D'" "c' < length idx0" "idx0 ! c' = i"
    "\<forall>j < length idx0. j \<in> D' \<longleftrightarrow> idx0 ! j \<in> D'" by blast
  have "perm_state xs0 idx0 D' (xs'[c' := xs ! i]) (idx'[c' := c'])"
    using perm_state_update [OF c(2,6), of "xs ! i"] c(5,7) len(3) by (simp add: insert_absorb)
  moreover have "permute_step i (xs, idx) = Inr (xs'[c' := xs ! i], idx'[c' := c'])"
    using c(1) i len by (simp add: permute_step_def del: permute_cycle.simps)
  ultimately show ?thesis using c(3,4,8) by blast
qed

lemma permute_gather:
  assumes p: "perm_list idx" and lx: "length xs = length idx"
  shows "permute xs idx = Inr (map (\<lambda>j. xs ! (idx ! j)) [0..<length idx], [0..<length idx])"
proof -
  have "\<exists>xs' idx' D. fold_res permute_step [0..<k] (xs, idx) = Inr (xs', idx') \<and> perm_state xs idx D xs' idx' \<and>
      {..<k} \<subseteq> D \<and> (\<forall>j < length idx. j \<in> D \<longleftrightarrow> idx ! j \<in> D)" if "k \<le> length idx" for k
    using that
  proof (induction k)
    case 0
    have "perm_state xs idx {} xs idx" using lx by (simp add: perm_state_def)
    then show ?case by auto
  next
    case (Suc k)
    then obtain xs' idx' D where k: "fold_res permute_step [0..<k] (xs, idx) = Inr (xs', idx')"
      "perm_state xs idx D xs' idx'" "{..<k} \<subseteq> D" "\<forall>j < length idx. j \<in> D \<longleftrightarrow> idx ! j \<in> D" by auto
    from permute_step_correct [OF p lx _ k(4,2), of k] Suc.prems obtain xs2 idx2 D2 where
      s: "permute_step k (xs', idx') = Inr (xs2, idx2)" "perm_state xs idx D2 xs2 idx2"
      "insert k D \<subseteq> D2" "\<forall>j < length idx. j \<in> D2 \<longleftrightarrow> idx ! j \<in> D2" by auto
    have "fold_res permute_step [0..<Suc k] (xs, idx) = Inr (xs2, idx2)"
      using k(1) s(1) by (simp add: fold_res_append)
    moreover have "{..<Suc k} \<subseteq> D2" using k(3) s(3) by (auto simp: less_Suc_eq)
    ultimately show ?case using s by blast
  qed
  from this [of "length idx"] obtain xs' idx' D where
    r: "permute xs idx = Inr (xs', idx')" "perm_state xs idx D xs' idx'" "{..<length idx} \<subseteq> D"
    by (auto simp: permute_def)
  have "xs' = map (\<lambda>j. xs ! (idx ! j)) [0..<length idx]" "idx' = [0..<length idx]"
    using r(2,3) by (auto simp: perm_state_def intro!: nth_equalityI)
  with r(1) show ?thesis by simp
qed

section \<open>The map's contract and when it holds\<close>

text \<open>Every entry sits in the slot of its key: what every operation of the map assumes.\<close>

definition map_wf :: "hash_lib \<Rightarrow> 'v mph_map \<Rightarrow> bool" where
  "map_wf e mp \<longleftrightarrow> (m_key_vals mp \<noteq> [] \<longrightarrow> (\<exists>ks. mph_built e ks (m_mph mp) \<and>
     length ks = length (m_key_vals mp) \<and> set ks = set (mph_map_keys mp) \<and>
     (\<forall>i < length (m_key_vals mp). mph.slot e (m_mph mp) (fst (m_key_vals mp ! i)) = i)))"

definition map_value :: "'v mph_map \<Rightarrow> u64 \<Rightarrow> 'v option" where
  "map_value mp k = map_of (m_key_vals mp) k"

lemma wf_lookup:
  assumes wf: "map_wf e mp" and ne: "m_key_vals mp \<noteq> []"
  obtains x where "mph_lookup e (m_mph mp) k = Inr x" "unat x < length (m_key_vals mp)"
    "k \<in> set (mph_map_keys mp) \<longleftrightarrow> fst (m_key_vals mp ! unat x) = k"
    "\<And>v. map_value mp k = Some v \<longleftrightarrow> m_key_vals mp ! unat x = (k, v)"
proof -
  from wf ne obtain ks where ks: "mph_built e ks (m_mph mp)" "length ks = length (m_key_vals mp)"
    "set ks = set (mph_map_keys mp)" "\<forall>i < length (m_key_vals mp). mph.slot e (m_mph mp) (fst (m_key_vals mp ! i)) = i"
    by (auto simp: map_wf_def)
  then have kne: "ks \<noteq> []" using ne by auto
  from mph.slot [OF ks(1) kne, of k] obtain x where x: "mph_lookup e (m_mph mp) k = Inr x"
    "unat x = mph.slot e (m_mph mp) k" "unat x < length (m_key_vals mp)" using ks(2) by auto
  have mem: "k \<in> set (mph_map_keys mp) \<longleftrightarrow> fst (m_key_vals mp ! unat x) = k"
  proof
    assume "k \<in> set (mph_map_keys mp)"
    then obtain j where "j < length (m_key_vals mp)" "fst (m_key_vals mp ! j) = k"
      by (auto simp: mph_map_keys_def in_set_conv_nth)
    then show "fst (m_key_vals mp ! unat x) = k" using ks(4) x(2) by auto
  next
    assume "fst (m_key_vals mp ! unat x) = k"
    then show "k \<in> set (mph_map_keys mp)" using x(3) by (auto simp: mph_map_keys_def)
  qed
  have "distinct (mph_map_keys mp)"
    using ks(2,3) mph.no_dups [OF ks(1)]
    by (metis card_distinct distinct_card length_map mph_map_keys_def)
  then have val: "map_value mp k = Some v \<longleftrightarrow> m_key_vals mp ! unat x = (k, v)" for v
    using mem x(3) unfolding map_value_def mph_map_keys_def
    by (metis map_of_eq_Some_iff in_set_conv_nth fst_conv image_eqI list.set_map nth_mem
        distinct_map prod.collapse map_of_SomeD option.inject map_of_is_SomeI)
  from that [OF x(1,3) mem val] show ?thesis .
qed

lemma rebuild_gathers:
  assumes b: "mph_built e (mph_map_keys mp) m" and bld: "mph_build e t (m_mph mp) (mph_map_keys mp) = Inr m"
    and n: "n = length (m_key_vals mp)" and ne: "m_key_vals mp \<noteq> []"
  defines "\<sigma> \<equiv> \<lambda>i. mph.slot e m (fst (m_key_vals mp ! i))"
  shows "mph_map_rebuild e t mp = Inr \<lparr>m_mph = m, m_key_vals = map (\<lambda>i. m_key_vals mp ! \<sigma> i) [0..<n]\<rparr>"
    and "\<forall>i < n. \<sigma> i < n" and "inj_on \<sigma> {..<n}"
proof -
  let ?ks = "mph_map_keys mp"
  have kne: "?ks \<noteq> []" and kl: "length ?ks = n" using ne n by (auto simp: mph_map_keys_def)
  have ki: "?ks ! i = fst (m_key_vals mp ! i)" if "i < n" for i using that n by (simp add: mph_map_keys_def)
  show bound: "\<forall>i < n. \<sigma> i < n" using mph.slot [OF b kne] kl by (auto simp: \<sigma>_def)
  show inj: "inj_on \<sigma> {..<n}"
  proof (rule inj_onI)
    fix i j assume ij: "i \<in> {..<n}" "j \<in> {..<n}" "\<sigma> i = \<sigma> j"
    then have "?ks ! i \<in> set ?ks" "?ks ! j \<in> set ?ks" using kl by simp_all
    moreover have "mph.slot e m (?ks ! i) = mph.slot e m (?ks ! j)" using ij ki by (simp add: \<sigma>_def)
    ultimately have "?ks ! i = ?ks ! j" using inj_onD [OF mph.slot_inj [OF b]] by blast
    then show "i = j" using mph.no_dups [OF b] ij kl by (simp add: nth_eq_iff_index_eq)
  qed
  have "\<exists>x. mph_lookup e m k = Inr x \<and> unat x = mph.slot e m k" for k
    using mph.slot [OF b kne, of k] by blast
  then obtain f where f: "\<And>k. mph_lookup e m k = Inr (f k)" "\<And>k. unat (f k) = mph.slot e m k" by metis
  let ?idx = "map (\<lambda>i. \<sigma> i) [0..<n]"
  have idx: "map unat (map (\<lambda>p. f (fst p)) (m_key_vals mp)) = ?idx"
    by (rule nth_equalityI) (simp_all add: n f \<sigma>_def)
  have "perm_list ?idx"
  proof -
    have "\<sigma> ` {..<n} = {..<n}"
      by (rule card_subset_eq) (use bound inj in \<open>auto simp: card_image\<close>)
    then show ?thesis using inj by (simp add: perm_list_def distinct_map atLeast0LessThan)
  qed
  from permute_gather [OF this, of "m_key_vals mp"]
  have "permute (m_key_vals mp) ?idx = Inr (map (\<lambda>i. m_key_vals mp ! \<sigma> i) [0..<n], [0..<n])"
    using n by (simp cong: map_cong)
  moreover have "map_res (\<lambda>(k, _). mph_lookup e m k) (m_key_vals mp) = Inr (map (\<lambda>p. f (fst p)) (m_key_vals mp))"
    by (rule map_res_total) (auto simp: f)
  ultimately show "mph_map_rebuild e t mp = Inr \<lparr>m_mph = m, m_key_vals = map (\<lambda>i. m_key_vals mp ! \<sigma> i) [0..<n]\<rparr>"
    using bld idx by (simp add: mph_map_rebuild_def del: map_map)
qed

lemma rebuild_wf_iff:
  assumes b: "mph_built e (map fst kvs) m" and n: "n = length kvs" and ne: "kvs \<noteq> []"
    and bound: "\<forall>i < n. mph.slot e m (fst (kvs ! i)) < n"
    and inj: "inj_on (\<lambda>i. mph.slot e m (fst (kvs ! i))) {..<n}"
  defines "\<sigma> \<equiv> \<lambda>i. mph.slot e m (fst (kvs ! i))"
  shows "map_wf e \<lparr>m_mph = m, m_key_vals = map (\<lambda>i. kvs ! \<sigma> i) [0..<n]\<rparr> \<longleftrightarrow> (\<forall>i < n. \<sigma> (\<sigma> i) = i)"
proof -
  have img: "\<sigma> ` {..<n} = {..<n}"
    by (rule card_subset_eq) (use bound inj in \<open>auto simp: card_image \<sigma>_def\<close>)
  have keys: "set (map (\<lambda>i. fst (kvs ! \<sigma> i)) [0..<n]) = set (map fst kvs)"
  proof -
    have "set (map (\<lambda>i. fst (kvs ! \<sigma> i)) [0..<n]) = (\<lambda>i. fst (kvs ! i)) ` (\<sigma> ` {..<n})"
      by (auto simp: atLeast0LessThan)
    also have "\<dots> = set (map fst kvs)" unfolding img by (force simp: n in_set_conv_nth image_iff)
    finally show ?thesis .
  qed
  have "n \<noteq> 0" using ne n by simp
  moreover have "\<exists>ks. mph_built e ks m \<and> length ks = n \<and> set ks = set (map fst kvs)"
    using b n by (intro exI [of _ "map fst kvs"]) simp
  ultimately show ?thesis
    using keys unfolding map_wf_def mph_map_keys_def by (auto simp: \<sigma>_def comp_def)
qed

lemma salts_ok_mono: "salts_ok n s \<Longrightarrow> n \<le> n' \<Longrightarrow> salts_ok n' s"
  unfolding salts_ok_def by (meson less_le_trans)

lemma wf_salts: "map_wf e mp \<Longrightarrow> m_key_vals mp \<noteq> [] \<Longrightarrow> salts_ok (length (m_key_vals mp)) (m_salts (m_mph mp))"
proof -
  assume "map_wf e mp" "m_key_vals mp \<noteq> []"
  then obtain ks t m0 where ks: "length ks = length (m_key_vals mp)" "ks \<noteq> []" "fastmod_ok e" "length ks < 2 ^ 31"
    "salts_ok (length ks) (m_salts m0)" "mph_build e t m0 ks = Inr (m_mph mp)"
    by (fastforce simp: map_wf_def mph_built_def)
  from build_lookup_in_range(2) [OF ks(3,6,4,2,5)] ks(1) show ?thesis by simp
qed

lemma wf_insert_built:
  assumes wf: "map_wf e mp" and env: "fastmod_ok e" "sort_ok e" and n: "length (m_key_vals mp) + 1 < 2 ^ 31"
    and fresh: "m_key_vals mp = [] \<Longrightarrow> m_salts (m_mph mp) = []"
    and bld: "mph_build e t (m_mph mp) (mph_map_keys mp @ [k]) = Inr m"
  shows "mph_built e (mph_map_keys mp @ [k]) m"
proof -
  have "salts_ok (length (mph_map_keys mp @ [k])) (m_salts (m_mph mp))"
  proof (cases "m_key_vals mp = []")
    case True
    then show ?thesis using fresh by (simp add: salts_ok_def)
  next
    case False
    from wf_salts [OF wf this] show ?thesis by (rule salts_ok_mono) (simp add: mph_map_keys_def)
  qed
  then show ?thesis using env n bld by (auto simp: mph_built_def mph_map_keys_def)
qed

lemma wf_contains:
  assumes "map_wf e mp"
  shows "mph_map_contains e mp k = Inr (map_value mp k \<noteq> None)"
proof (cases "m_key_vals mp = []")
  case True
  then show ?thesis by (simp add: mph_map_contains_def map_value_def)
next
  case False
  from wf_lookup [OF assms False, of k] obtain x where x: "mph_lookup e (m_mph mp) k = Inr x"
    "unat x < length (m_key_vals mp)" "\<And>v. map_value mp k = Some v \<longleftrightarrow> m_key_vals mp ! unat x = (k, v)" by metis
  then have "map_value mp k \<noteq> None \<longleftrightarrow> fst (m_key_vals mp ! unat x) = k"
    by (metis not_None_eq prod.collapse fst_conv)
  then show ?thesis using x(1,2) False by (simp add: mph_map_contains_def split_beta)
qed

lemma single_wf:
  assumes env: "fastmod_ok e" "sort_ok e" and "mph_build e t mph_empty [k] = Inr m"
  shows "map_wf e \<lparr>m_mph = m, m_key_vals = [(k, v)]\<rparr>"
proof -
  have b: "mph_built e [k] m"
    using assms by (auto simp: mph_built_def salts_ok_def mph_empty_def intro!: exI [of _ mph_empty])
  then show ?thesis using mph.slot [OF b, of k] by (auto simp: map_wf_def mph_map_keys_def)
qed

lemma reference_single:
  "mph_build reference_lib 10 mph_empty [5] = Inr \<lparr>m_salts = [- 1], m_fastmod_u32_M = 0, m_nkeys = 1\<rparr>"
  by code_simp

lemma all_less_two: "(\<forall>i < Suc (Suc 0). P i) \<longleftrightarrow> P 0 \<and> P (Suc 0)"
  by (auto simp: less_Suc_eq)

text \<open>What adding a key does to the map.\<close>

lemma emplace_new:
  fixes mp :: "'v mph_map" and v :: 'v
  assumes wf: "map_wf e mp" and env: "fastmod_ok e" "sort_ok e" and n: "length (m_key_vals mp) + 1 < 2 ^ 31"
    and fresh: "m_key_vals mp = [] \<Longrightarrow> m_salts (m_mph mp) = []" and new: "map_value mp k = None"
    and bld: "mph_build e t (m_mph mp) (mph_map_keys mp @ [k]) = Inr m"
  defines "kvs \<equiv> m_key_vals mp @ [(k, v)]"
  defines "\<sigma> \<equiv> \<lambda>i. mph.slot e m (fst (kvs ! i))"
  defines "mp' \<equiv> \<lparr>m_mph = m, m_key_vals = map (\<lambda>i. kvs ! \<sigma> i) [0..<length kvs]\<rparr>"
  shows "mph_map_try_emplace e t mp k v = Inr (mp', \<sigma> (length kvs - 1), True) \<and>
    (map_wf e mp' \<longleftrightarrow> (\<forall>i < length kvs. \<sigma> (\<sigma> i) = i))"
proof -
  have keys: "mph_map_keys (mp\<lparr>m_key_vals := kvs\<rparr>) = mph_map_keys mp @ [k]" "map fst kvs = mph_map_keys mp @ [k]"
    by (simp_all add: mph_map_keys_def kvs_def)
  have b: "mph_built e (mph_map_keys mp @ [k]) m" by (rule wf_insert_built [OF wf env n fresh bld])
  have ne: "m_key_vals (mp\<lparr>m_key_vals := kvs\<rparr>) \<noteq> []" "kvs \<noteq> []" by (simp_all add: kvs_def)
  note rb = rebuild_gathers [of e "mp\<lparr>m_key_vals := kvs\<rparr>" m t "length kvs", unfolded keys(1), OF b _ _ ne(1)]
  have r: "mph_map_rebuild e t (mp\<lparr>m_key_vals := kvs\<rparr>) = Inr mp'"
    using rb(1) bld by (simp add: mp'_def \<sigma>_def)
  have bi: "\<forall>i < length kvs. \<sigma> i < length kvs" "inj_on \<sigma> {..<length kvs}"
    using rb(2,3) bld by (simp_all add: \<sigma>_def)
  have "fst (kvs ! (length kvs - 1)) = k" by (simp add: kvs_def)
  moreover obtain x where "mph_lookup e m k = Inr x" "unat x = mph.slot e m k"
    using mph.slot [OF b, of k] by auto
  ultimately have "mph_map_try_emplace e t mp k v = Inr (mp', \<sigma> (length kvs - 1), True)"
    using wf_contains [OF wf, of k] new r by (simp add: mph_map_try_emplace_def kvs_def mp'_def \<sigma>_def)
  moreover have "map_wf e mp' \<longleftrightarrow> (\<forall>i < length kvs. \<sigma> (\<sigma> i) = i)"
    unfolding mp'_def \<sigma>_def
    by (rule rebuild_wf_iff [OF _ refl ne(2)]) (use b keys bi in \<open>simp_all add: \<sigma>_def\<close>)
  ultimately show ?thesis by blast
qed

section \<open>Properties\<close>

text \<open>A static map built from a list of pairs returns, for every pair of the list, the pair's
  value.\<close>

lemma static_map_lookup:
  assumes "fastmod_ok e" "sort_ok e" and "length kvs < 2 ^ 31" and "m_salts (ms_mph st0) = []"
    and "static_build e t d st0 kvs = Inr st" and "(k, v) \<in> set kvs"
  shows "static_get e st k = Inr v"
  using assms by (rule static_build_correct)

lemma static_map_lookup_witness:
  "\<exists>st. static_build reference_lib 10 0 \<lparr>ms_mph = mph_empty, m_values = []\<rparr>
       [(5, 50), (77, 51), (4096, 52 :: nat)] = Inr st \<and> static_get reference_lib st 77 = Inr 51"
proof -
  have b: "static_build reference_lib 10 0 \<lparr>ms_mph = mph_empty, m_values = []\<rparr>
       [(5, 50), (77, 51), (4096, 52 :: nat)] =
     Inr \<lparr>ms_mph = \<lparr>m_salts = [1, 0, - 3], m_fastmod_u32_M = 6148914691236517206, m_nkeys = 3\<rparr>,
         m_values = [52, 50, 51]\<rparr>" by code_simp
  have "m_salts (ms_mph \<lparr>ms_mph = mph_empty, m_values = [] :: nat list\<rparr>) = []" by (simp add: mph_empty_def)
  from static_map_lookup [OF reference_lib_ok(1,2) _ this b, of 77 51] b show ?thesis by simp
qed

text \<open>\<^verbatim>\<open>permute\<close> terminates on every permutation and gathers: entry \<open>j\<close> of the result is
  the old entry \<open>new_idx[j]\<close> (so \<open>new_idx\<close> names sources, not destinations).\<close>

lemma permute_gathers:
  assumes "perm_list new_idx" and "length xs = length new_idx"
  shows "permute xs new_idx = Inr (map (\<lambda>j. xs ! (new_idx ! j)) [0..<length new_idx], [0..<length new_idx])"
  using assms by (rule permute_gather)

lemma permute_gathers_witness:
  "permute ''abcd'' [2, 0, 1, 3] = Inr (''cabd'', [0, 1, 2, 3])"
proof -
  have "perm_list [2, 0, 1, 3]" by (auto simp: perm_list_def)
  from permute_gathers [OF this, of "''abcd''"] show ?thesis by (simp add: upt_rec)
qed

text \<open>C29: On a map whose entries sit in their keys' slots, \<^verbatim>\<open>contains\<close> is membership, and for
  a present key both \<^verbatim>\<open>operator[]\<close> and \<^verbatim>\<open>try_emplace\<close> leave the map as it is and
  refer to the entry that holds the key's value.\<close>

theorem mph_map_reads:
  assumes "map_wf e mp"
  shows "mph_map_contains e mp k = Inr (map_value mp k \<noteq> None) \<and>
    (\<forall>v. map_value mp k = Some v \<longrightarrow> (\<exists>i. mph_map_index e t d mp k = Inr (mp, i) \<and>
       mph_map_try_emplace e t mp k v' = Inr (mp, i, False) \<and>
       i < length (m_key_vals mp) \<and> m_key_vals mp ! i = (k, v)))"
proof (intro conjI allI impI)
  show c: "mph_map_contains e mp k = Inr (map_value mp k \<noteq> None)" by (rule wf_contains [OF assms])
  fix v assume v: "map_value mp k = Some v"
  then have ne: "m_key_vals mp \<noteq> []" by (auto simp: map_value_def)
  from wf_lookup [OF assms ne, of k] obtain x where x: "mph_lookup e (m_mph mp) k = Inr x"
    "unat x < length (m_key_vals mp)" "m_key_vals mp ! unat x = (k, v)" using v by metis
  then show "\<exists>i. mph_map_index e t d mp k = Inr (mp, i) \<and> mph_map_try_emplace e t mp k v' = Inr (mp, i, False) \<and>
      i < length (m_key_vals mp) \<and> m_key_vals mp ! i = (k, v)"
    using c v ne by (intro exI [of _ "unat x"]) (simp add: mph_map_index_def mph_map_try_emplace_def)
qed

theorem mph_map_reads_witness:
  "\<exists>m i. mph_build reference_lib 10 mph_empty [5] = Inr m \<and>
     mph_map_contains reference_lib \<lparr>m_mph = m, m_key_vals = [(5, 50 :: nat)]\<rparr> 6 = Inr False \<and>
     mph_map_index reference_lib 10 0 \<lparr>m_mph = m, m_key_vals = [(5, 50 :: nat)]\<rparr> 5 =
       Inr (\<lparr>m_mph = m, m_key_vals = [(5, 50)]\<rparr>, i) \<and> i = 0"
proof -
  obtain m where m: "mph_build reference_lib 10 mph_empty [5] = Inr m"
    using reference_single by blast
  have wf: "map_wf reference_lib \<lparr>m_mph = m, m_key_vals = [(5, 50 :: nat)]\<rparr>"
    by (rule single_wf [OF reference_lib_ok(1,2) m])
  from mph_map_reads [OF wf, of 5 10 0] mph_map_reads [OF wf, of 6 10 0] m show ?thesis
    by (auto simp: map_value_def)
qed

text \<open>The two-key map of the keys 0 and 0x80000, as two insertions leave it.\<close>

definition two_keys :: "nat mph_map" where
  "two_keys = \<lparr>m_mph = \<lparr>m_salts = [- 1, - 2], m_fastmod_u32_M = 0x8000000000000000, m_nkeys = 2\<rparr>,
     m_key_vals = [(0x80000, 51), (0, 50)]\<rparr>"

lemma two_keys_wf: "map_wf reference_lib two_keys"
proof -
  let ?m = "\<lparr>m_salts = [- 1], m_fastmod_u32_M = 0, m_nkeys = 1\<rparr>"
  let ?mp = "\<lparr>m_mph = ?m, m_key_vals = [(0, 50 :: nat)]\<rparr>"
  have m: "mph_build reference_lib 10 mph_empty [0] = Inr ?m" by code_simp
  have "mph_build reference_lib 10 ?m [0, 0x80000] = Inr (m_mph two_keys)" by code_simp
  then have m2: "mph_build reference_lib 10 (m_mph ?mp) (mph_map_keys ?mp @ [0x80000]) = Inr (m_mph two_keys)"
    by (simp add: mph_map_keys_def)
  have "mph_lookup reference_lib (m_mph two_keys) 0 = Inr 1" "mph_lookup reference_lib (m_mph two_keys) 0x80000 = Inr 0"
    by code_simp+
  then have slots: "mph.slot reference_lib (m_mph two_keys) 0 = 1" "mph.slot reference_lib (m_mph two_keys) 0x80000 = 0"
    by (simp_all add: mph.slot_def)
  have e: "length (m_key_vals ?mp) + 1 < 2 ^ 31" "m_key_vals ?mp = [] \<Longrightarrow> m_salts (m_mph ?mp) = []"
    "map_value ?mp 0x80000 = None" by (simp_all add: map_value_def)
  from emplace_new [OF single_wf [OF reference_lib_ok(1,2) m] reference_lib_ok(1,2) e m2, of 51] slots show ?thesis
    by (simp add: all_less_two) (simp add: two_keys_def)
qed

lemma contains_gathered:
  assumes b: "mph_built e (map fst kvs) m" and i: "i < length kvs"
  defines "\<sigma> \<equiv> \<lambda>i. mph.slot e m (fst (kvs ! i))"
  shows "mph_map_contains e \<lparr>m_mph = m, m_key_vals = map (\<lambda>i. kvs ! \<sigma> i) [0..<length kvs]\<rparr> (fst (kvs ! i)) =
    Inr (\<sigma> (\<sigma> i) = i)"
proof -
  have key: "fst (kvs ! j) \<in> set (map fst kvs)" if "j < length kvs" for j using that by simp
  have ne: "kvs \<noteq> []" using i by auto
  have bound: "\<sigma> j < length kvs" if "j < length kvs" for j using mph.slot [OF b, of "fst (kvs ! j)"] that ne
    by (auto simp: \<sigma>_def)
  obtain x where x: "mph_lookup e m (fst (kvs ! i)) = Inr x" "unat x = \<sigma> i"
    using mph.slot [OF b, of "fst (kvs ! i)"] ne by (auto simp: \<sigma>_def)
  have "fst (kvs ! \<sigma> (\<sigma> i)) = fst (kvs ! i) \<longleftrightarrow> \<sigma> (\<sigma> i) = i"
    using nth_eq_iff_index_eq [OF mph.no_dups [OF b], of "\<sigma> (\<sigma> i)" i] bound [OF bound [OF i]] i by simp
  then show ?thesis
    using x bound [OF i] i by (auto simp: mph_map_contains_def split_beta)
qed

text \<open>C30: What inserting a new key does to a map whose entries sit in their slots, when the hash of the keys
  can be built: the entries are gathered along their new slots \<open>\<sigma>\<close> instead of being scattered
  to them, so that afterwards \<^verbatim>\<open>contains\<close> is true of the \<open>i\<close>-th key exactly when \<open>\<sigma>\<close> moves \<open>i\<close>
  back in two steps.  All other keys, old and new, are lost, and the map is in order only when
  \<open>\<sigma>\<close> is its own inverse.  The witness is a third insertion that loses all three keys.\<close>

theorem mph_map_loses_keys:
  fixes mp :: "'v mph_map" and v :: 'v
  assumes wf: "map_wf e mp" and env: "fastmod_ok e" "sort_ok e" and n: "length (m_key_vals mp) + 1 < 2 ^ 31"
    and fresh: "m_key_vals mp = [] \<Longrightarrow> m_salts (m_mph mp) = []" and new: "map_value mp k = None"
    and bld: "mph_build e t (m_mph mp) (mph_map_keys mp @ [k]) = Inr m"
  defines "kvs \<equiv> m_key_vals mp @ [(k, v)]"
  defines "\<sigma> \<equiv> \<lambda>i. mph.slot e m (fst (kvs ! i))"
  shows "\<exists>mp'. mph_map_try_emplace e t mp k v = Inr (mp', \<sigma> (length kvs - 1), True) \<and>
    (\<forall>i < length kvs. mph_map_contains e mp' (fst (kvs ! i)) = Inr (\<sigma> (\<sigma> i) = i)) \<and>
    (map_wf e mp' \<longleftrightarrow> (\<forall>i < length kvs. \<sigma> (\<sigma> i) = i))"
proof -
  have "map fst kvs = mph_map_keys mp @ [k]" by (simp add: kvs_def mph_map_keys_def)
  then have b: "mph_built e (map fst kvs) m" using wf_insert_built [OF wf env n fresh bld] by simp
  show ?thesis
    using emplace_new [OF wf env n fresh new bld, of v] contains_gathered [OF b]
    unfolding \<sigma>_def kvs_def by blast
qed

theorem mph_map_loses_keys_witness:
  "\<exists>mp' i. mph_map_try_emplace reference_lib 10 two_keys 10 52 = Inr (mp', i, True) \<and>
     mph_map_contains reference_lib two_keys 0 = Inr True \<and>
     (\<forall>k \<in> {0, 0x80000, 10}. mph_map_contains reference_lib mp' k = Inr False) \<and> \<not> map_wf reference_lib mp'"
proof -
  let ?m = "\<lparr>m_salts = [- 2, 1, 0], m_fastmod_u32_M = 6148914691236517206, m_nkeys = 3\<rparr>"
  have "mph_build reference_lib 10 (m_mph two_keys) [0x80000, 0, 10] = Inr ?m" by code_simp
  then have m: "mph_build reference_lib 10 (m_mph two_keys) (mph_map_keys two_keys @ [10]) = Inr ?m"
    by (simp add: mph_map_keys_def two_keys_def)
  have "mph_lookup reference_lib ?m 0 = Inr 2" "mph_lookup reference_lib ?m 0x80000 = Inr 1"
    "mph_lookup reference_lib ?m 10 = Inr 0" by code_simp+
  then have slots: "mph.slot reference_lib ?m 0 = 2" "mph.slot reference_lib ?m 0x80000 = 1" "mph.slot reference_lib ?m 10 = 0"
    by (simp_all add: mph.slot_def)
  have three: "(\<forall>i < Suc (Suc (Suc 0)). P i) \<longleftrightarrow> P 0 \<and> P (Suc 0) \<and> P (Suc (Suc 0))" for P
    by (auto simp: less_Suc_eq)
  have e: "length (m_key_vals two_keys) + 1 < 2 ^ 31" "m_key_vals two_keys = [] \<Longrightarrow> m_salts (m_mph two_keys) = []"
    "map_value two_keys 10 = None" by (simp_all add: map_value_def two_keys_def)
  have kv: "m_key_vals two_keys = [(0x80000, 51), (0, 50)]" by (simp add: two_keys_def)
  have "mph_map_contains reference_lib two_keys 0 = Inr True"
    using wf_contains [OF two_keys_wf, of 0] by (simp add: map_value_def two_keys_def)
  with mph_map_loses_keys [OF two_keys_wf reference_lib_ok(1,2) e m, of 52] show ?thesis
    by (auto simp: kv slots three)
qed

end
