(* ===== verification/TraceLogger.thy ===== *)
theory TraceLogger
  imports TraceWriterCorrect MphMap
begin

text \<open>
  The two \<^verbatim>\<open>TraceLog::log\<close> entry points of \<^verbatim>\<open>lib/xnu-trace/TraceLog.cpp\<close>: the per-thread
  contexts live in an \<^verbatim>\<open>mph_map\<close> keyed by the thread.
\<close>

section \<open>\<^verbatim>\<open>TraceLog::log\<close>\<close>

record trace_log =
  m_num_inst :: u64
  m_stream :: bool
  m_thread_ctxs :: "thread_ctx mph_map"

text \<open>The thread's entry, added with \<open>init\<close> as its last context when it is missing.\<close>

definition thread_entry ::
    "hash_lib \<Rightarrow> nat \<Rightarrow> log_arm64_cpu_context \<Rightarrow> u32 \<Rightarrow> trace_log \<Rightarrow> (thread_ctx mph_map \<times> nat) res" where
  "thread_entry e timer init thread lg =
     and_then (mph_map_contains e (m_thread_ctxs lg) (ucast thread)) (\<lambda>has.
       if \<not> has then
         and_then (mph_map_try_emplace e timer (m_thread_ctxs lg) (ucast thread) (new_thread_ctx (m_stream lg)))
           (\<lambda>(mp, i, added).
           and_then (assert_that added) (\<lambda>_.
           and_then (at (m_key_vals mp) i) (\<lambda>(k, t).
             Inr (mp\<lparr>m_key_vals := (m_key_vals mp)[i := (k, t\<lparr>last_cpu_ctx := init\<rparr>)]\<rparr>, i))))
       else mph_map_index e timer (new_thread_ctx False) (m_thread_ctxs lg) (ucast thread))"

definition trace_log_ctx ::
    "hash_lib \<Rightarrow> nat \<Rightarrow> u32 \<Rightarrow> log_arm64_cpu_context \<Rightarrow> trace_log \<Rightarrow> trace_log res" where
  "trace_log_ctx e timer thread c lg =
     and_then (thread_entry e timer c thread lg) (\<lambda>(mp, i).
     and_then (at (m_key_vals mp) i) (\<lambda>(k, t).
     and_then (write_log_msg c t) (\<lambda>t.
     Inr (lg\<lparr>m_thread_ctxs := mp\<lparr>m_key_vals := (m_key_vals mp)[i := (k, t)]\<rparr>,
             m_num_inst := m_num_inst lg + 1\<rparr>))))"

definition trace_log_pc :: "hash_lib \<Rightarrow> nat \<Rightarrow> u32 \<Rightarrow> u64 \<Rightarrow> trace_log \<Rightarrow> trace_log res" where
  "trace_log_pc e timer thread pc lg =
     and_then (thread_entry e timer (zero_ctx\<lparr>ctx_pc := pc\<rparr>) thread lg) (\<lambda>(mp, i).
     and_then (at (m_key_vals mp) i) (\<lambda>(k, t).
     Inr (lg\<lparr>m_thread_ctxs := mp\<lparr>m_key_vals := (m_key_vals mp)[i := (k, write_log_msg_pc pc t)]\<rparr>,
             m_num_inst := m_num_inst lg + 1\<rparr>)))"


end
