(* ===== verification/TraceReader.thy ===== *)
theory TraceReader
  imports LogMessages
begin

text \<open>
  The reading half of \<^verbatim>\<open>include/xnu-trace/TraceLog.h\<close> and \<^verbatim>\<open>lib/xnu-trace/TraceLog.cpp\<close>:
  \<^verbatim>\<open>log_thread_buf\<close> with its iterators, \<^verbatim>\<open>extract_pcs_from_trace\<close> and
  \<^verbatim>\<open>extract_bbs_from_pc_trace\<close>.

  A \<open>log_thread_buf\<close> is the memory that can be read from \<^verbatim>\<open>m_buf.data()\<close> on, of which the
  first \<open>lb_size\<close> bytes are the vector; reading at or past the end of \<open>lb_mem\<close> is a fault.
\<close>

section \<open>Buffers and iterators\<close>

record log_thread_buf =
  lb_mem :: buffer
  lb_size :: nat
  lb_num_inst :: u64

record iterator =
  it_ptr :: nat
  it_end :: nat

definition num_bytes :: "log_thread_buf \<Rightarrow> nat" where
  "num_bytes b = lb_size b"

definition front :: "log_thread_buf \<Rightarrow> nat res" where
  "front b = and_then (msg_is_sync_frame (lb_mem b) 0) (\<lambda>s. and_then (assert_that s) (\<lambda>_. Inr 0))"

definition iter_begin :: "log_thread_buf \<Rightarrow> iterator" where
  "iter_begin b = \<lparr>it_ptr = 0, it_end = lb_size b\<rparr>"

definition iter_end :: "log_thread_buf \<Rightarrow> iterator" where
  "iter_end b = \<lparr>it_ptr = lb_size b, it_end = lb_size b\<rparr>"

definition iter_next :: "buffer \<Rightarrow> iterator \<Rightarrow> iterator res" where
  "iter_next mem it =
     and_then (msg_size mem (it_ptr it)) (\<lambda>sz.
       let it = it\<lparr>it_ptr := it_ptr it + sz\<rparr> in
       if it_ptr it \<noteq> it_end it then
         and_then (msg_is_sync_frame mem (it_ptr it)) (\<lambda>sync.
           if sync then
             and_then (msg_size mem (it_ptr it)) (\<lambda>sz. Inr (it\<lparr>it_ptr := it_ptr it + sz\<rparr>))
           else Inr it)
       else Inr it)"

definition iter_equal :: "iterator \<Rightarrow> iterator \<Rightarrow> bool" where
  "iter_equal a b \<longleftrightarrow> it_ptr a = it_ptr b"

section \<open>Program counters\<close>

definition pc_next :: "buffer \<Rightarrow> iterator \<times> u64 \<Rightarrow> (iterator \<times> u64) res" where
  "pc_next mem i =
     (case i of (it, pc) \<Rightarrow>
      and_then (iter_next mem it) (\<lambda>it.
      and_then (msg_pc_branched mem (it_ptr it)) (\<lambda>b.
        if b then and_then (msg_pc mem (it_ptr it)) (\<lambda>pc. Inr (it, pc)) else Inr (it, pc + 4))))"

definition pcs_begin :: "log_thread_buf \<Rightarrow> (iterator \<times> u64) res" where
  "pcs_begin b =
     and_then (front b) (\<lambda>f. and_then (msg_sync_ctx (lb_mem b) f) (\<lambda>c. case c of
       Some q \<Rightarrow> and_then (load (lb_mem b) q) (\<lambda>pc. Inr (iter_begin b, pc))
     | None \<Rightarrow> Inl Out_Of_Bounds))"

definition pcs_end :: "log_thread_buf \<Rightarrow> iterator \<times> u64" where
  "pcs_end b = (iter_end b, 0)"

lemma msg_size_pos: "msg_size mem p = Inr sz \<Longrightarrow> 0 < sz"
  by (auto simp: msg_size_def size_full_ctx_def sizeof_ctx_def sizeof_log_msg_def res_simps split: if_splits)

lemma iter_next_progress:
  assumes "iter_next mem it = Inr it'"
  shows "it_ptr it < it_ptr it' \<and> it_end it' = it_end it"
proof -
  from assms obtain sz where sz: "msg_size mem (it_ptr it) = Inr sz" by (auto simp: iter_next_def res_simps)
  show ?thesis
    using assms sz msg_size_pos [OF sz]
    by (auto simp: iter_next_def Let_def res_simps split: if_splits dest: msg_size_pos)
qed

lemma load_bound: "(load mem p :: 'a::len word res) = Inr w \<Longrightarrow> p + LENGTH('a) div 8 \<le> length mem"
  by (simp add: load_Inr_iff)

lemma pc_next_progress:
  assumes "pc_next mem (it, pc) = Inr (it', pc')"
  shows "it_ptr it < it_ptr it' \<and> it_ptr it' \<le> length mem"
proof -
  from assms obtain g where it: "iter_next mem it = Inr it'" and g: "msg_gpr_changed mem (it_ptr it') = Inr g"
    by (auto simp: pc_next_def msg_pc_branched_def res_simps split: if_splits)
  from load_bound [OF g [unfolded msg_gpr_changed_def]] iter_next_progress [OF it] show ?thesis by simp
qed

function collect_pcs :: "buffer \<Rightarrow> iterator \<times> u64 \<Rightarrow> iterator \<times> u64 \<Rightarrow> u64 list res" where
  "collect_pcs mem i e =
     (if iter_equal (fst i) (fst e) then Inr []
      else and_then (pc_next mem i) (\<lambda>i'. and_then (collect_pcs mem i' e) (\<lambda>pcs. Inr (snd i # pcs))))"
  by pat_completeness auto
termination
proof (relation "measure (\<lambda>(mem, i, e). length mem - it_ptr (fst i))")
  fix mem i e i' assume "\<not> iter_equal (fst i) (fst e)" "pc_next mem i = Inr i'"
  then have "it_ptr (fst i) < it_ptr (fst i') \<and> it_ptr (fst i') \<le> length mem"
    using pc_next_progress [of mem "fst i" "snd i" "fst i'" "snd i'"] by simp
  then show "((mem, i', e), (mem, i, e)) \<in> measure (\<lambda>(mem, i, e). length mem - it_ptr (fst i))"
    by (simp add: diff_less_mono2)
qed simp

declare collect_pcs.simps [simp del]

definition extract_pcs_from_trace :: "log_thread_buf \<Rightarrow> u64 list res" where
  "extract_pcs_from_trace b = and_then (pcs_begin b) (\<lambda>i. collect_pcs (lb_mem b) i (pcs_end b))"

section \<open>Contexts\<close>

text \<open>
  The constructor of \<^verbatim>\<open>ctx_iterator\<close> copies \<^verbatim>\<open>sizeof(m_ctx)\<close> bytes from \<^verbatim>\<open>&ctx\<close>, the
  address of its own pointer argument: the object there is the eight bytes of the pointer.
\<close>

definition ctx_iterator :: "iterator \<Rightarrow> u64 \<Rightarrow> log_arm64_cpu_context \<Rightarrow> (iterator \<times> log_arm64_cpu_context) res" where
  "ctx_iterator it ctx_ptr uninitialised =
     (if ctx_ptr \<noteq> 0 then
        and_then (load_bytes sizeof_ctx (le_bytes 8 ctx_ptr) 0) (\<lambda>bs.
        and_then (load_ctx bs 0) (\<lambda>c. Inr (it, c)))
      else Inr (it, uninitialised))"

definition ctx_next :: "buffer \<Rightarrow> iterator \<times> log_arm64_cpu_context \<Rightarrow> (iterator \<times> log_arm64_cpu_context) res" where
  "ctx_next mem i =
     (case i of (it, c) \<Rightarrow>
      and_then (iter_next mem it) (\<lambda>it. and_then (ctx_update mem (it_ptr it) c) (\<lambda>c. Inr (it, c))))"

definition ctx_begin :: "u64 \<Rightarrow> log_thread_buf \<Rightarrow> log_arm64_cpu_context \<Rightarrow> (iterator \<times> log_arm64_cpu_context) res" where
  "ctx_begin base b uninitialised =
     and_then (front b) (\<lambda>f. and_then (msg_sync_ctx (lb_mem b) f) (\<lambda>c. case c of
       Some q \<Rightarrow> ctx_iterator (iter_begin b) (base + of_nat q) uninitialised
     | None \<Rightarrow> ctx_iterator (iter_begin b) 0 uninitialised))"

section \<open>Basic blocks\<close>

record bb_t =
  bb_pc :: u64
  bb_sz :: u32

definition bb_step :: "u64 \<Rightarrow> bb_t list \<times> u64 \<times> u64 \<Rightarrow> bb_t list \<times> u64 \<times> u64" where
  "bb_step pc st =
     (case st of (bbs, bb_start, last_pc) \<Rightarrow>
      if last_pc + 4 \<noteq> pc
      then (bbs @ [\<lparr>bb_pc = bb_start, bb_sz = ucast (last_pc + 4 - bb_start)\<rparr>], pc, pc)
      else (bbs, bb_start, pc))"

definition extract_bbs_from_pc_trace :: "u64 list \<Rightarrow> bb_t list res" where
  "extract_bbs_from_pc_trace pcs =
     and_then (if pcs = [] then Inl Out_Of_Bounds else Inr (pcs ! 0)) (\<lambda>bb_start.
       let (bbs, bb_start, last_pc) = fold bb_step pcs ([], bb_start, bb_start - 4) in
       Inr (if bb_start \<noteq> last_pc
            then bbs @ [\<lparr>bb_pc = bb_start, bb_sz = ucast (last_pc + 4 - bb_start)\<rparr>]
            else bbs))"

definition extract_bbs_from_trace :: "log_thread_buf \<Rightarrow> bb_t list res" where
  "extract_bbs_from_trace b = and_then (assert_that False) (\<lambda>_. Inr [])"

section \<open>Blocks and the program counters they stand for\<close>

definition run_pcs :: "u64 \<Rightarrow> nat \<Rightarrow> u64 list" where
  "run_pcs start n = map (\<lambda>k. start + 4 * of_nat k) [0..<n]"

definition bb_pcs :: "bb_t \<Rightarrow> u64 list" where
  "bb_pcs b = run_pcs (bb_pc b) (unat (bb_sz b) div 4)"

lemma run_pcs_zero: "run_pcs s 0 = []"
  by (simp add: run_pcs_def)

lemma run_pcs_Suc: "run_pcs s (Suc n) = run_pcs s n @ [s + 4 * of_nat n]"
  by (simp add: run_pcs_def)

lemma bb_pcs_run:
  assumes "n < 2 ^ 30"
  shows "bb_pcs \<lparr>bb_pc = s, bb_sz = ucast (s + 4 * of_nat n - s)\<rparr> = run_pcs s n"
proof -
  have "unat (4 * of_nat n :: u64) = 4 * n" using assms by (simp add: unat_word_ariths unat_of_nat)
  then have "unat (ucast (4 * of_nat n :: u64) :: u32) = 4 * n"
    using assms by (simp add: unsigned_ucast_eq take_bit_nat_eq_self)
  then show ?thesis by (simp add: bb_pcs_def)
qed

lemma fold_bb_step:
  assumes "length pcs + r < 2 ^ 30" and "last_pc = s + 4 * of_nat r - 4"
  shows "\<exists>bbs' s' r'. fold bb_step pcs (bbs, s, last_pc) = (bbs', s', s' + 4 * of_nat r' - 4) \<and>
    concat (map bb_pcs bbs) @ run_pcs s r @ pcs = concat (map bb_pcs bbs') @ run_pcs s' r' \<and>
    r' \<le> length pcs + r \<and> (0 < r \<or> pcs \<noteq> [] \<longrightarrow> 0 < r')"
  using assms
proof (induction pcs arbitrary: bbs s r last_pc)
  case Nil
  then show ?case by (intro exI [of _ bbs] exI [of _ s] exI [of _ r]) simp
next
  case (Cons pc pcs)
  show ?case
  proof (cases "last_pc + 4 = pc")
    case True
    then have pc: "pc = s + 4 * of_nat r" using Cons.prems(2) by simp
    have "pc = s + 4 * of_nat (Suc r) - 4" by (simp add: pc)
    from Cons.IH [of "Suc r" pc s bbs, OF _ this] Cons.prems(1) obtain bbs' s' r' where
      "fold bb_step pcs (bbs, s, pc) = (bbs', s', s' + 4 * of_nat r' - 4)"
      "concat (map bb_pcs bbs) @ run_pcs s (Suc r) @ pcs = concat (map bb_pcs bbs') @ run_pcs s' r'"
      "r' \<le> length pcs + Suc r" "0 < r'" by auto
    moreover have "bb_step pc (bbs, s, last_pc) = (bbs, s, pc)" using True by (simp add: bb_step_def)
    ultimately show ?thesis
      using pc by (intro exI [of _ bbs'] exI [of _ s'] exI [of _ r']) (simp add: run_pcs_Suc)
  next
    case False
    let ?b = "\<lparr>bb_pc = s, bb_sz = ucast (last_pc + 4 - s)\<rparr>"
    have b: "bb_pcs ?b = run_pcs s r" using bb_pcs_run [of r s] Cons.prems by simp
    have "pc = pc + 4 * of_nat (1 :: nat) - 4" by simp
    from Cons.IH [of 1 pc pc "bbs @ [?b]", OF _ this] Cons.prems(1) obtain bbs' s' r' where
      "fold bb_step pcs (bbs @ [?b], pc, pc) = (bbs', s', s' + 4 * of_nat r' - 4)"
      "concat (map bb_pcs (bbs @ [?b])) @ run_pcs pc 1 @ pcs = concat (map bb_pcs bbs') @ run_pcs s' r'"
      "r' \<le> length pcs + 1" "0 < r'" by auto
    moreover have "bb_step pc (bbs, s, last_pc) = (bbs @ [?b], pc, pc)" using False by (simp add: bb_step_def)
    ultimately show ?thesis
      using b by (intro exI [of _ bbs'] exI [of _ s'] exI [of _ r']) (simp add: run_pcs_def)
  qed
qed

end
