(* ===== verification/TraceProps.thy ===== *)
theory TraceProps
  imports TraceReader TraceWriterCorrect
begin

text \<open>
  What the writer's bytes mean to the reader: messages and contexts round trip, the program
  counters of a run are read back, how far a thread's output may go without a sync frame, and
  where reading fails.
\<close>

section \<open>Stepping over written frames\<close>

text \<open>
  The iterator steps from a frame \<open>cur\<close> over an optional sync frame to the next message.
\<close>

lemma iter_next_message:
  assumes sz: "msg_size mem p = Inr (length cur)" and m: "wf_message m" and c: "wf_ctx c"
    and rest: "has_bytes mem (p + length cur) ((if due then sync_bytes n c else []) @ message_bytes m)"
    and e: "p + length cur + length (if due then sync_bytes n c else []) < e" "p + length cur \<noteq> e"
  shows "iter_next mem \<lparr>it_ptr = p, it_end = e\<rparr> =
    Inr \<lparr>it_ptr = p + length cur + length (if due then sync_bytes n c else []), it_end = e\<rparr>"
proof (cases due)
  case True
  then have "has_bytes mem (p + length cur) (sync_bytes n c)" using rest by (simp add: has_bytes_append)
  from sync_accessors [OF this c] show ?thesis using sz e True by (simp add: iter_next_def Let_def)
next
  case False
  then have "has_bytes mem (p + length cur) (message_bytes m)" using rest by simp
  from message_accessors [OF this m] show ?thesis using sz e False by (simp add: iter_next_def Let_def)
qed

lemma pc_next_message:
  assumes nx: "iter_next mem it = Inr it'" and m: "has_bytes mem (it_ptr it') (message_bytes (diff_message prev c))"
    and enc: "encodable prev c"
  shows "pc_next mem (it, ctx_pc prev) = Inr (it', ctx_pc c)"
proof -
  note acc = message_accessors [OF m diff_message_wf [OF enc]]
  show ?thesis
    using nx acc(3) acc(5) [of "ctx_pc c"]
    by (cases "ctx_pc c = ctx_pc prev + 4") (simp_all add: pc_next_def diff_message_def)
qed

lemma load_in_slack: "p + 16 \<le> length mem \<Longrightarrow> \<exists>b. msg_pc_branched mem p = Inr b \<and> (\<exists>x. msg_pc mem p = Inr x)"
  by (simp add: msg_pc_branched_def msg_gpr_changed_def msg_pc_def sizeof_log_msg_def)

lemma message_bytes_nonempty: "0 < length (message_bytes m)"
  by (simp add: length_message_bytes)

lemma collect_pcs_run:
  fixes cur :: buffer
  assumes sz: "msg_size mem p = Inr (length cur)" and c: "wf_ctx prev" and run: "encodable_run prev cs"
    and rest: "has_bytes mem (p + length cur) (trace_bytes n z prev cs)"
    and e: "e = p + length cur + length (trace_bytes n z prev cs)" and ne: "cur \<noteq> []" and slack: "e + 16 \<le> length mem \<or> e = length mem"
  shows "collect_pcs mem (\<lparr>it_ptr = p, it_end = e\<rparr>, ctx_pc prev) (\<lparr>it_ptr = e, it_end = e\<rparr>, 0) =
    (if e + 16 \<le> length mem then Inr (ctx_pc prev # map ctx_pc cs) else Inl Out_Of_Bounds)"
  using assms
proof (induction cs arbitrary: p cur prev n z)
  case Nil
  then have "iter_next mem \<lparr>it_ptr = p, it_end = e\<rparr> = Inr \<lparr>it_ptr = e, it_end = e\<rparr>"
    by (simp add: iter_next_def)
  moreover have "msg_pc_branched mem e = Inl Out_Of_Bounds" if "e = length mem"
    by (simp add: that msg_pc_branched_def msg_gpr_changed_def load_def)
  moreover have "\<exists>pc. pc_next mem (\<lparr>it_ptr = p, it_end = e\<rparr>, ctx_pc prev) = Inr (\<lparr>it_ptr = e, it_end = e\<rparr>, pc)"
    if s: "e + 16 \<le> length mem" and nx: "iter_next mem \<lparr>it_ptr = p, it_end = e\<rparr> = Inr \<lparr>it_ptr = e, it_end = e\<rparr>"
  proof -
    obtain b x where "msg_pc_branched mem e = Inr b" "msg_pc mem e = Inr x"
      using load_in_slack [of e mem] s by blast
    with nx show ?thesis by (cases b) (simp_all add: pc_next_def)
  qed
  ultimately show ?case
    using Nil.prems
    by (cases "e + 16 \<le> length mem"; subst collect_pcs.simps)
      (auto simp: iter_equal_def collect_pcs.simps pc_next_def)
next
  case (Cons c cs)
  let ?m = "diff_message prev c"
  let ?due = "z \<ge> sync_every"
  let ?s = "if ?due then sync_bytes n prev else []"
  let ?z = "(if ?due then 0 else z) + of_nat (length (message_bytes ?m))"
  from Cons.prems(3) have enc: "encodable prev c" "wf_ctx c" "encodable_run c cs" by simp_all
  note wf = diff_message_wf [OF enc(1)]
  have tb: "trace_bytes n z prev (c # cs) = ?s @ message_bytes ?m @ trace_bytes (n + 1) ?z c cs"
    by (simp add: Let_def)
  have h: "has_bytes mem (p + length cur) (?s @ message_bytes ?m)"
    "has_bytes mem (p + length cur + length ?s) (message_bytes ?m)"
    "has_bytes mem (p + length cur + length ?s + length (message_bytes ?m)) (trace_bytes (n + 1) ?z c cs)"
    using Cons.prems(4) unfolding tb by (auto simp: has_bytes_append add.assoc simp del: length_append)
  have el: "p + length cur + length ?s + length (message_bytes ?m) + length (trace_bytes (n + 1) ?z c cs) = e"
    using Cons.prems(5) unfolding tb by simp
  have nx: "iter_next mem \<lparr>it_ptr = p, it_end = e\<rparr> = Inr \<lparr>it_ptr = p + length cur + length ?s, it_end = e\<rparr>"
    by (rule iter_next_message [OF Cons.prems(1) wf Cons.prems(2) h(1)])
      (use el message_bytes_nonempty [of ?m] in linarith)+
  have pn: "pc_next mem (\<lparr>it_ptr = p, it_end = e\<rparr>, ctx_pc prev) =
      Inr (\<lparr>it_ptr = p + length cur + length ?s, it_end = e\<rparr>, ctx_pc c)"
    by (rule pc_next_message [OF nx _ enc(1)]) (use h(2) in simp)
  have "collect_pcs mem (\<lparr>it_ptr = p + length cur + length ?s, it_end = e\<rparr>, ctx_pc c) (\<lparr>it_ptr = e, it_end = e\<rparr>, 0) =
      (if e + 16 \<le> length mem then Inr (ctx_pc c # map ctx_pc cs) else Inl Out_Of_Bounds)"
    by (rule Cons.IH [of "p + length cur + length ?s" "message_bytes ?m" c "n + 1" ?z])
      (use message_accessors(2) [OF h(2) wf] enc(2,3) h(3) el message_bytes_nonempty [of ?m] Cons.prems(7) in \<open>simp_all split del: if_split\<close>)
  moreover have "p \<noteq> e" using Cons.prems(5,6) by simp
  ultimately show ?case using pn by (subst collect_pcs.simps) (simp add: iter_equal_def)
qed

lemma trace_first:
  "trace_bytes n (sync_every + 1) c0 (c0 # cs) = sync_bytes n c0 @
     message_bytes (diff_message c0 c0) @ trace_bytes (n + 1) (of_nat (length (message_bytes (diff_message c0 c0)))) c0 cs"
proof -
  have "sync_every \<le> sync_every + 1" by (simp add: sync_every_def)
  then show ?thesis by (simp add: Let_def)
qed

text \<open>What \<^verbatim>\<open>TraceLog::log\<close> has written for a thread whose first context is \<open>c0\<close>.\<close>

definition first_thread_ctx :: "bool \<Rightarrow> log_arm64_cpu_context \<Rightarrow> thread_ctx" where
  "first_thread_ctx stream c0 = (new_thread_ctx stream)\<lparr>last_cpu_ctx := c0\<rparr>"

lemma diff_same: "encodable c c" "diff_message c c = \<lparr>msg_branch = Some (ctx_pc c), msg_new_sp = None, msg_gprs = [], msg_vecs = []\<rparr>"
proof -
  show "encodable c c" by (simp add: encodable_def changed_gprs_def changed_vecs_def)
  have "(4 :: u64) \<noteq> 0" by simp
  then have "ctx_pc c \<noteq> ctx_pc c + 4" by (metis add_cancel_left_right)
  then show "diff_message c c = \<lparr>msg_branch = Some (ctx_pc c), msg_new_sp = None, msg_gprs = [], msg_vecs = []\<rparr>"
    by (simp add: diff_message_def changed_gprs_def changed_vecs_def)
qed

lemma first_write:
  assumes "wf_ctx c0" and "encodable_run c0 cs"
  shows "\<exists>t. fold_res write_log_msg (c0 # cs) (first_thread_ctx stream c0) = Inr t \<and>
    written t = trace_bytes 0 (sync_every + 1) c0 (c0 # cs) \<and> num_inst t = of_nat (Suc (length cs))"
proof -
  have "encodable_run c0 (c0 # cs)" using assms by (simp add: diff_same)
  moreover have "last_cpu_ctx (first_thread_ctx stream c0) = c0" "num_inst (first_thread_ctx stream c0) = 0"
    "sz_since_last_sync (first_thread_ctx stream c0) = sync_every + 1" "written (first_thread_ctx stream c0) = []"
    by (simp_all add: first_thread_ctx_def new_thread_ctx_def written_def)
  ultimately show ?thesis
    using write_run [of "first_thread_ctx stream c0" "c0 # cs"] assms(1) by auto
qed

lemma pcs_read_back:
  assumes c0: "wf_ctx c0" and run: "encodable_run c0 cs" and slack: "16 \<le> length slack \<or> slack = []"
  defines "bs \<equiv> trace_bytes 0 (sync_every + 1) c0 (c0 # cs)"
  shows "extract_pcs_from_trace \<lparr>lb_mem = bs @ slack, lb_size = length bs, lb_num_inst = n\<rparr> =
    (if slack = [] then Inl Out_Of_Bounds else Inr (ctx_pc c0 # ctx_pc c0 # map ctx_pc cs))"
proof -
  let ?mem = "bs @ slack"
  have bs: "bs = sync_bytes 0 c0 @ message_bytes (diff_message c0 c0) @
      trace_bytes 1 (of_nat (length (message_bytes (diff_message c0 c0)))) c0 cs"
    using trace_first [of 0 c0 cs] by (simp add: bs_def)
  have all: "has_bytes ?mem 0 bs" by (simp add: has_bytes_def)
  then have s: "has_bytes ?mem 0 (sync_bytes 0 c0)" unfolding bs by (simp add: has_bytes_append)
  note acc = sync_accessors [OF s c0]
  have "pcs_begin \<lparr>lb_mem = ?mem, lb_size = length bs, lb_num_inst = n\<rparr> = Inr (\<lparr>it_ptr = 0, it_end = length bs\<rparr>, ctx_pc c0)"
    using acc by (simp add: pcs_begin_def front_def iter_begin_def del: load_ok)
  moreover have "collect_pcs ?mem (\<lparr>it_ptr = 0, it_end = length bs\<rparr>, ctx_pc c0) (\<lparr>it_ptr = length bs, it_end = length bs\<rparr>, 0) =
      (if length bs + 16 \<le> length ?mem then Inr (ctx_pc c0 # map ctx_pc (c0 # cs)) else Inl Out_Of_Bounds)"
  proof (rule collect_pcs_run [of _ 0 "sync_bytes 0 c0" c0 "c0 # cs" 0 0])
    have t0: "trace_bytes 0 0 c0 (c0 # cs) = message_bytes (diff_message c0 c0) @
        trace_bytes 1 (of_nat (length (message_bytes (diff_message c0 c0)))) c0 cs"
      by (simp add: Let_def sync_every_def)
    show "has_bytes ?mem (0 + length (sync_bytes 0 c0)) (trace_bytes 0 0 c0 (c0 # cs))"
      using all unfolding t0 by (subst (asm) bs) (simp add: has_bytes_append)
    show "length bs = 0 + length (sync_bytes 0 c0) + length (trace_bytes 0 0 c0 (c0 # cs))"
      unfolding t0 by (subst bs) simp
    show "sync_bytes 0 c0 \<noteq> []" using length_sync_hdr by (auto simp: sync_bytes_def)
    show "encodable_run c0 (c0 # cs)" using run c0 by (simp add: diff_same)
  qed (use acc c0 slack in simp_all)
  ultimately show ?thesis using slack by (auto simp: extract_pcs_from_trace_def pcs_end_def iter_end_def)
qed

lemma write_run_encodable:
  assumes "fold_res write_log_msg cs t = Inr t'" and "wf_ctx (last_cpu_ctx t)" and "\<forall>c \<in> set cs. wf_ctx c"
  shows "encodable_run (last_cpu_ctx t) cs"
  using assms
proof (induction cs arbitrary: t)
  case Nil
  then show ?case by simp
next
  case (Cons c cs)
  then obtain t1 where t1: "write_log_msg c t = Inr t1" "fold_res write_log_msg cs t1 = Inr t'"
    by (auto simp: res_simps)
  have c: "wf_ctx c" using Cons.prems(3) by simp
  from write_log_msg_eq [OF Cons.prems(2) c] t1(1) have "encodable (last_cpu_ctx t) c" "last_cpu_ctx t1 = c"
    by (auto split: if_splits)
  with Cons.IH [OF t1(2)] c Cons.prems(3) show ?case by simp
qed

section \<open>The distance to the last sync frame\<close>

text \<open>
  A thread has written nothing yet, or its output ends in a sync frame and fewer than
  \<open>sync_every\<close> plus one message's bytes after it, which the counter counts.
\<close>

definition sync_inv :: "thread_ctx \<Rightarrow> bool" where
  "sync_inv t \<longleftrightarrow> wf_ctx (last_cpu_ctx t) \<and>
     (written t = [] \<and> sz_since_last_sync t = sync_every + 1 \<or>
      (\<exists>pre n c post. written t = pre @ sync_bytes n c @ post \<and> wf_ctx c \<and>
         length post = unat (sz_since_last_sync t) \<and> length post < unat sync_every + size_max))"

lemma sync_every_unat: "unat sync_every = 1048576"
  by (simp add: sync_every_def)

lemma sync_inv_step:
  assumes inv: "sync_inv t" and c: "wf_ctx c" and w: "write_log_msg c t = Inr t'"
  shows "sync_inv t' \<and> written t' \<noteq> []"
proof -
  let ?m = "message_bytes (diff_message (last_cpu_ctx t) c)"
  have wl: "wf_ctx (last_cpu_ctx t)" using inv by (simp add: sync_inv_def)
  from write_log_msg_eq [OF wl c] w have enc: "encodable (last_cpu_ctx t) c"
    and t': "written t' = written t @ (if sync_due t then sync_bytes (num_inst t) (last_cpu_ctx t) else []) @ ?m"
      "last_cpu_ctx t' = c"
      "sz_since_last_sync t' = (if sync_due t then 0 else sz_since_last_sync t) + of_nat (length ?m)"
    by (auto split: if_splits)
  have m: "length ?m \<le> size_max" "size_max = 144"
    using message_size_max [OF diff_message_wf [OF enc]] by (simp_all add: size_max_def rpc_num_changed_max_def)
  show ?thesis
  proof (cases "sync_due t")
    case True
    then have "unat (sz_since_last_sync t') = length ?m" using t'(3) m by (simp add: unat_of_nat)
    moreover have "length ?m < unat sync_every + size_max" using m sync_every_unat by simp
    moreover have "written t' = written t @ sync_bytes (num_inst t) (last_cpu_ctx t) @ ?m" using t'(1) True by simp
    ultimately have "sync_inv t'" using t'(2) c wl unfolding sync_inv_def by metis
    moreover have "?m \<noteq> []" using message_bytes_nonempty [of "diff_message (last_cpu_ctx t) c"] by auto
    ultimately show ?thesis using t'(1) by simp
  next
    case False
    then have lt: "unat (sz_since_last_sync t) < unat sync_every" by (simp add: sync_due_def word_less_nat_alt not_le)
    have "sync_every \<le> sync_every + 1" by (simp add: sync_every_def)
    with False inv obtain pre n d post where p: "written t = pre @ sync_bytes n d @ post" "wf_ctx d"
      "length post = unat (sz_since_last_sync t)" by (auto simp: sync_inv_def sync_due_def)
    have "unat (sz_since_last_sync t') = length (post @ ?m)"
      using False t'(3) p(3) lt m sync_every_unat by (simp add: unat_word_ariths unat_of_nat)
    moreover have "length (post @ ?m) < unat sync_every + size_max" using p(3) lt m by simp
    moreover have "written t' = pre @ sync_bytes n d @ (post @ ?m)" using t'(1) p(1) False by simp
    ultimately have "sync_inv t'" using t'(2) c p(2) unfolding sync_inv_def by metis
    moreover have "sync_bytes n d \<noteq> []" using length_sync_hdr by (auto simp: sync_bytes_def)
    ultimately show ?thesis using t'(1) p(1) by simp
  qed
qed

lemma sync_inv_run:
  assumes "fold_res write_log_msg cs t = Inr t'" and "sync_inv t" and "\<forall>c \<in> set cs. wf_ctx c"
  shows "sync_inv t' \<and> (cs \<noteq> [] \<longrightarrow> written t' \<noteq> [])"
  using assms
proof (induction cs arbitrary: t)
  case Nil
  then show ?case by simp
next
  case (Cons c cs)
  then obtain t1 where t1: "write_log_msg c t = Inr t1" "fold_res write_log_msg cs t1 = Inr t'"
    by (auto simp: res_simps)
  from sync_inv_step [OF Cons.prems(2) _ t1(1)] Cons.prems(3) have s: "sync_inv t1" "written t1 \<noteq> []" by simp_all
  show ?case
  proof (cases cs)
    case Nil
    then show ?thesis using t1 s by simp
  next
    case (Cons a list)
    then show ?thesis using Cons.IH [OF t1(2) s(1)] Cons.prems(3) by simp
  qed
qed

lemma first_sync_inv: "wf_ctx c0 \<Longrightarrow> sync_inv (first_thread_ctx stream c0)"
  by (simp add: sync_inv_def first_thread_ctx_def new_thread_ctx_def written_def)

section \<open>Traces of program counters only\<close>

lemma pc_only_prefix:
  assumes "pcs \<noteq> []" and "written t = []"
  shows "\<exists>g rest. written (fold write_log_msg_pc pcs t) = le_bytes 4 g @ rest \<and> \<not> rpc_sync (g :: u32)"
proof -
  have grow: "\<exists>more. written (fold write_log_msg_pc ps t) = written t @ more" for ps t
  proof (induction ps arbitrary: t)
    case (Cons p ps)
    obtain m1 where "written (write_log_msg_pc p t) = written t @ m1"
      by (simp add: write_log_msg_pc_def split_beta)
    moreover obtain m2 where "written (fold write_log_msg_pc ps (write_log_msg_pc p t)) = written (write_log_msg_pc p t) @ m2"
      using Cons.IH by blast
    ultimately show ?case by simp
  qed simp
  obtain pc ps where pcs: "pcs = pc # ps" using assms(1) by (cases pcs) auto
  have "\<not> rpc_sync (rpc_set_pc_branched 0)" "\<not> rpc_sync 0" by code_simp+
  then have "\<exists>g rest. written (write_log_msg_pc pc t) = le_bytes 4 g @ rest \<and> \<not> rpc_sync g"
    using assms(2) by (auto simp: write_log_msg_pc_def)
  then show ?thesis using grow [of ps "write_log_msg_pc pc t"] pcs by auto
qed

lemma pc_only_front:
  assumes "pcs \<noteq> []" and "written t = []"
  shows "extract_pcs_from_trace \<lparr>lb_mem = written (fold write_log_msg_pc pcs t) @ slack,
      lb_size = length (written (fold write_log_msg_pc pcs t)), lb_num_inst = n\<rparr> = Inl Assertion_Failed"
proof -
  from pc_only_prefix [OF assms] obtain g rest where
    w: "written (fold write_log_msg_pc pcs t) = le_bytes 4 g @ rest" "\<not> rpc_sync (g :: u32)" by blast
  have "has_bytes ((le_bytes 4 g @ rest) @ slack) 0 (le_bytes 4 g)" by (simp add: has_bytes_def)
  then have "msg_gpr_changed ((le_bytes 4 g @ rest) @ slack) 0 = Inr g"
    by (simp add: msg_gpr_changed_def load_has_bytes del: load_ok append_assoc)
  then show ?thesis
    unfolding w(1) using w(2) by (simp add: extract_pcs_from_trace_def pcs_begin_def front_def msg_is_sync_frame_def)
qed

section \<open>Concrete contexts\<close>

definition sample_ctx :: "u64 \<Rightarrow> nat \<Rightarrow> u64 \<Rightarrow> log_arm64_cpu_context" where
  "sample_ctx pc r x = zero_ctx\<lparr>ctx_pc := pc, ctx_x := (replicate 31 0)[r := x]\<rparr>"

lemma sample_pc: "ctx_pc (sample_ctx pc r x) = pc"
  by (simp add: sample_ctx_def)

lemma sample_wf: "wf_ctx (sample_ctx pc r x)"
  by (simp add: sample_ctx_def zero_ctx_def wf_ctx_def)

lemma sample_run: "encodable_run (sample_ctx 0x1000 0 0) [sample_ctx 0x1004 3 7, sample_ctx 0x2000 5 9]"
proof -
  have "encodable (sample_ctx 0x1000 0 0) (sample_ctx 0x1004 3 7)"
    "encodable (sample_ctx 0x1004 3 7) (sample_ctx 0x2000 5 9)" by code_simp+
  then show ?thesis by (simp add: sample_wf)
qed

section \<open>Properties\<close>

text \<open>C31: The change detection on vector lanes (pairwise comparison, interleaving of the two lanes'
  bits, masking of the slot that overlaps \<^verbatim>\<open>v[0]\<close>) finds exactly the general registers whose
  values differ, and the vector loop exactly the differing vector registers.\<close>

theorem register_diff_exact:
  assumes "wf_ctx c" "wf_ctx prev"
  shows "(bit (x_diff c prev) i \<longleftrightarrow> i < 31 \<and> ctx_x c ! i \<noteq> ctx_x prev ! i) \<and>
    (bit (v_diff c prev) i \<longleftrightarrow> i < 32 \<and> ctx_v c ! i \<noteq> ctx_v prev ! i)"
  using x_diff_bit [OF assms] v_diff_bit by blast

theorem register_diff_exact_witness:
  "bit (x_diff (sample_ctx 4 3 7) (sample_ctx 0 0 0)) 3 \<and> \<not> bit (x_diff (sample_ctx 4 3 7) (sample_ctx 0 0 0)) 4"
  using register_diff_exact [OF sample_wf sample_wf, of 4 3 7 0 0 0 3]
    register_diff_exact [OF sample_wf sample_wf, of 4 3 7 0 0 0 4]
  by (simp add: sample_ctx_def)

text \<open>C32: Encoding fails exactly when more than five general or more than five vector registers
  changed; otherwise the message is at most \<^verbatim>\<open>size_max\<close> bytes long, and the reader's
  \<^verbatim>\<open>size()\<close> of it is its length and it is not taken for a sync frame, wherever it lies.\<close>

theorem encode_msg_size:
  assumes "wf_ctx prev" "wf_ctx c"
  shows "(encode_msg prev c = Inl Assertion_Failed \<longleftrightarrow>
      5 < card {i. i < 31 \<and> ctx_x c ! i \<noteq> ctx_x prev ! i} \<or> 5 < card {i. i < 32 \<and> ctx_v c ! i \<noteq> ctx_v prev ! i}) \<and>
    (\<forall>bs. encode_msg prev c = Inr bs \<longrightarrow> length bs \<le> size_max \<and>
      (\<forall>pre post. msg_size (pre @ bs @ post) (length pre) = Inr (length bs) \<and>
         msg_is_sync_frame (pre @ bs @ post) (length pre) = Inr False))"
proof -
  have card: "length (filter P [0..<n]) = card {i. i < n \<and> P i}" for P and n :: nat
  proof -
    have "set (filter P [0..<n]) = {i. i < n \<and> P i}" by auto
    then show ?thesis by (metis distinct_card distinct_filter distinct_upt)
  qed
  have "encodable prev c \<longleftrightarrow> \<not> (5 < card {i. i < 31 \<and> ctx_x c ! i \<noteq> ctx_x prev ! i} \<or>
      5 < card {i. i < 32 \<and> ctx_v c ! i \<noteq> ctx_v prev ! i})"
    unfolding encodable_def changed_gprs_def changed_vecs_def card by auto
  then show ?thesis
    using encode_msg_eq [OF assms] message_size_max [OF diff_message_wf]
      message_accessors(1,2) [OF has_bytes_at diff_message_wf]
    by auto
qed

theorem encode_msg_size_witness:
  "\<exists>bs. encode_msg (sample_ctx 0 0 0) (sample_ctx 4 3 7) = Inr bs \<and> length bs \<le> size_max"
proof -
  have "encodable (sample_ctx 0 0 0) (sample_ctx 4 3 7)" by code_simp
  then have "\<exists>bs. encode_msg (sample_ctx 0 0 0) (sample_ctx 4 3 7) = Inr bs"
    by (simp add: encode_msg_eq [OF sample_wf sample_wf])
  then show ?thesis using encode_msg_size [OF sample_wf sample_wf, of 0 0 0 4 3 7] by blast
qed

text \<open>C24: A message written for a context and applied to the previous context gives the new
  registers, stack pointer and, after a branch, pc back; a pc that advanced by one instruction
  keeps its old value and the flags are never updated.\<close>

theorem context_round_trip:
  assumes "wf_ctx prev" "wf_ctx c" and "encode_msg prev c = Inr bs"
  shows "ctx_update (pre @ bs @ post) (length pre) prev =
    Inr (c\<lparr>ctx_pc := (if ctx_pc c = ctx_pc prev + 4 then ctx_pc prev else ctx_pc c), ctx_nzcv := ctx_nzcv prev\<rparr>)"
proof -
  have enc: "encodable prev c" and bs: "bs = message_bytes (diff_message prev c)"
    using encode_msg_eq [OF assms(1,2)] assms(3) by (auto split: if_splits)
  have "\<forall>i \<in> set (map fst (msg_gprs (diff_message prev c))). i < 31"
    by (auto simp: diff_message_def changed_gprs_def)
  from ctx_update_message [OF has_bytes_at diff_message_wf [OF enc] this]
  show ?thesis by (simp add: bs apply_diff_message [OF assms(1,2)])
qed

theorem context_round_trip_witness:
  "\<exists>bs. encode_msg (sample_ctx 0 0 0) (sample_ctx 8 3 7) = Inr bs \<and>
     ctx_update bs 0 (sample_ctx 0 0 0) = Inr (sample_ctx 8 3 7)"
proof -
  have "encodable (sample_ctx 0 0 0) (sample_ctx 8 3 7)" by code_simp
  then obtain bs where bs: "encode_msg (sample_ctx 0 0 0) (sample_ctx 8 3 7) = Inr bs"
    by (simp add: encode_msg_eq [OF sample_wf sample_wf])
  from context_round_trip [OF sample_wf sample_wf bs, of "[]" "[]"] bs show ?thesis
    by (simp add: sample_ctx_def zero_ctx_def)
qed

text \<open>C11: The program counters of a run are read back from the bytes the thread wrote, with the first
  one twice (the sync frame at the start counts as an instruction), provided at least 16 bytes
  can be read past the end of the buffer.\<close>

theorem pcs_round_trip:
  assumes "wf_ctx c0" "\<forall>c \<in> set cs. wf_ctx c"
    and "fold_res write_log_msg (c0 # cs) (first_thread_ctx stream c0) = Inr t" and "16 \<le> length slack"
  shows "extract_pcs_from_trace \<lparr>lb_mem = written t @ slack, lb_size = length (written t), lb_num_inst = num_inst t\<rparr> =
    Inr (ctx_pc c0 # map ctx_pc (c0 # cs)) \<and> num_inst t = of_nat (length (c0 # cs))"
proof -
  have "last_cpu_ctx (first_thread_ctx stream c0) = c0" by (simp add: first_thread_ctx_def)
  then have run: "encodable_run c0 cs" using write_run_encodable [OF assms(3)] assms(1,2) by simp
  from first_write [OF assms(1) run, of stream] assms(3)
  have "written t = trace_bytes 0 (sync_every + 1) c0 (c0 # cs)" "num_inst t = of_nat (Suc (length cs))" by auto
  moreover have "slack \<noteq> []" using assms(4) by auto
  ultimately show ?thesis using pcs_read_back [OF assms(1) run, of slack] assms(4) by simp
qed

theorem pcs_round_trip_witness:
  "\<exists>t. fold_res write_log_msg [sample_ctx 0x1000 0 0, sample_ctx 0x1004 3 7, sample_ctx 0x2000 5 9]
       (first_thread_ctx False (sample_ctx 0x1000 0 0)) = Inr t \<and>
     extract_pcs_from_trace \<lparr>lb_mem = written t @ replicate 16 0, lb_size = length (written t), lb_num_inst = num_inst t\<rparr> =
       Inr [0x1000, 0x1000, 0x1004, 0x2000]"
proof -
  from first_write [OF sample_wf sample_run, of False] obtain t where
    t: "fold_res write_log_msg [sample_ctx 0x1000 0 0, sample_ctx 0x1004 3 7, sample_ctx 0x2000 5 9]
       (first_thread_ctx False (sample_ctx 0x1000 0 0)) = Inr t" by blast
  have "\<forall>c \<in> set [sample_ctx 0x1004 3 7, sample_ctx 0x2000 5 9]. wf_ctx c" by (simp add: sample_wf)
  moreover have "16 \<le> length (replicate 16 (0 :: byte))" by simp
  ultimately have "extract_pcs_from_trace \<lparr>lb_mem = written t @ replicate 16 0, lb_size = length (written t), lb_num_inst = num_inst t\<rparr> =
       Inr [0x1000, 0x1000, 0x1004, 0x2000]"
    using conjunct1 [OF pcs_round_trip [OF sample_wf _ t]] by (simp add: sample_pc)
  with t show ?thesis by blast
qed

text \<open>When nothing can be read past the end of the buffer, extracting the program counters of any
  run reads out of bounds: the last increment looks at the message at the end position.\<close>

lemma pcs_read_past_end:
  assumes "wf_ctx c0" "\<forall>c \<in> set cs. wf_ctx c"
    and "fold_res write_log_msg (c0 # cs) (first_thread_ctx stream c0) = Inr t"
  shows "extract_pcs_from_trace \<lparr>lb_mem = written t, lb_size = length (written t), lb_num_inst = num_inst t\<rparr> =
    Inl Out_Of_Bounds"
proof -
  have "last_cpu_ctx (first_thread_ctx stream c0) = c0" by (simp add: first_thread_ctx_def)
  then have run: "encodable_run c0 cs" using write_run_encodable [OF assms(3)] assms(1,2) by simp
  from first_write [OF assms(1) run, of stream] assms(3)
  have "written t = trace_bytes 0 (sync_every + 1) c0 (c0 # cs)" by auto
  then show ?thesis using pcs_read_back [OF assms(1) run, of "[]"] by simp
qed

lemma pcs_read_past_end_witness:
  "\<exists>t. fold_res write_log_msg [sample_ctx 0x1000 0 0, sample_ctx 0x1004 3 7, sample_ctx 0x2000 5 9]
       (first_thread_ctx True (sample_ctx 0x1000 0 0)) = Inr t \<and>
     extract_pcs_from_trace \<lparr>lb_mem = written t, lb_size = length (written t), lb_num_inst = num_inst t\<rparr> = Inl Out_Of_Bounds"
proof -
  from first_write [OF sample_wf sample_run, of True] obtain t where
    t: "fold_res write_log_msg [sample_ctx 0x1000 0 0, sample_ctx 0x1004 3 7, sample_ctx 0x2000 5 9]
       (first_thread_ctx True (sample_ctx 0x1000 0 0)) = Inr t" by blast
  have "\<forall>c \<in> set [sample_ctx 0x1004 3 7, sample_ctx 0x2000 5 9]. wf_ctx c" by (simp add: sample_wf)
  from pcs_read_past_end [OF sample_wf this t] t show ?thesis by blast
qed

text \<open>A trace of program counters only never contains a sync frame at its start, so the reader's
  \<^verbatim>\<open>front()\<close> assertion fails on every such non-empty trace.\<close>

lemma pc_only_trace_asserts:
  assumes "pcs \<noteq> []"
  shows "extract_pcs_from_trace
      \<lparr>lb_mem = written (fold write_log_msg_pc pcs (first_thread_ctx stream c0)) @ slack,
       lb_size = length (written (fold write_log_msg_pc pcs (first_thread_ctx stream c0))), lb_num_inst = n\<rparr> =
    Inl Assertion_Failed"
  using assms by (rule pc_only_front) (simp add: first_thread_ctx_def new_thread_ctx_def written_def)

lemma pc_only_trace_asserts_witness:
  "extract_pcs_from_trace
      \<lparr>lb_mem = written (fold write_log_msg_pc [0x1000, 0x1004] (first_thread_ctx False zero_ctx)) @ [],
       lb_size = length (written (fold write_log_msg_pc [0x1000, 0x1004] (first_thread_ctx False zero_ctx))), lb_num_inst = 2\<rparr> =
    Inl Assertion_Failed"
  by (rule pc_only_trace_asserts) simp

text \<open>C33: After any successful run of full-context logging a thread's output ends in a sync frame and
  fewer than \<^verbatim>\<open>sync_every\<close> plus one maximal message of bytes, and the thread's counter is
  exactly the number of those bytes.\<close>

theorem sync_frame_distance:
  assumes "wf_ctx c0" "\<forall>c \<in> set cs. wf_ctx c"
    and "fold_res write_log_msg (c0 # cs) (first_thread_ctx stream c0) = Inr t"
  shows "\<exists>pre n c post. written t = pre @ sync_bytes n c @ post \<and> wf_ctx c \<and>
    length post = unat (sz_since_last_sync t) \<and> length post < unat sync_every + size_max"
  using sync_inv_run [OF assms(3) first_sync_inv [OF assms(1)]] assms(1,2) by (auto simp: sync_inv_def)

theorem sync_frame_distance_witness:
  "\<exists>t pre n c post. fold_res write_log_msg [sample_ctx 0x1000 0 0, sample_ctx 0x1004 3 7, sample_ctx 0x2000 5 9]
       (first_thread_ctx False (sample_ctx 0x1000 0 0)) = Inr t \<and>
     written t = pre @ sync_bytes n c @ post \<and> length post < unat sync_every + size_max"
proof -
  from first_write [OF sample_wf sample_run, of False] obtain t where
    t: "fold_res write_log_msg [sample_ctx 0x1000 0 0, sample_ctx 0x1004 3 7, sample_ctx 0x2000 5 9]
       (first_thread_ctx False (sample_ctx 0x1000 0 0)) = Inr t" by blast
  have "\<forall>c \<in> set [sample_ctx 0x1004 3 7, sample_ctx 0x2000 5 9]. wf_ctx c" by (simp add: sample_wf)
  from sync_frame_distance [OF sample_wf this t] t show ?thesis by blast
qed

text \<open>C34: The basic blocks of a trace of fewer than 2^30 instructions stand for exactly its program
  counters in order, except that a last block of a single instruction is dropped.\<close>

theorem bbs_cover_trace:
  assumes "pcs \<noteq> []" and "length pcs < 2 ^ 30"
  shows "\<exists>bbs. extract_bbs_from_pc_trace pcs = Inr bbs \<and>
    (concat (map bb_pcs bbs) = pcs \<or> concat (map bb_pcs bbs) @ [pcs ! (length pcs - 1)] = pcs)"
proof -
  have "\<exists>bbs' s' r'. fold bb_step pcs ([], pcs ! 0, pcs ! 0 - 4) = (bbs', s', s' + 4 * of_nat r' - 4) \<and>
    concat (map bb_pcs []) @ run_pcs (pcs ! 0) 0 @ pcs = concat (map bb_pcs bbs') @ run_pcs s' r' \<and>
    r' \<le> length pcs + 0 \<and> (0 < (0 :: nat) \<or> pcs \<noteq> [] \<longrightarrow> 0 < r')"
    by (rule fold_bb_step) (use assms(2) in simp_all)
  then obtain bbs s r where f: "fold bb_step pcs ([], pcs ! 0, pcs ! 0 - 4) = (bbs, s, s + 4 * of_nat r - 4)"
    "pcs = concat (map bb_pcs bbs) @ run_pcs s r" "r \<le> length pcs" "0 < r"
    using assms(1) unfolding list.map concat.simps append_Nil run_pcs_zero add_0_right by blast
  let ?l = "s + 4 * of_nat r - 4"
  have b: "bb_pcs \<lparr>bb_pc = s, bb_sz = ucast (?l + 4 - s)\<rparr> = run_pcs s r"
    using bb_pcs_run [of r s] f(3) assms(2) by simp
  show ?thesis
  proof (cases "s = ?l")
    case True
    have "4 * of_nat r = (4 :: u64)" using True by (metis add_diff_eq add_left_cancel diff_add_cancel add.right_neutral)
    then have "unat (4 * of_nat r :: u64) = 4" by simp
    moreover have "unat (4 * of_nat r :: u64) = 4 * r" using f(3) assms(2) by (simp add: unat_word_ariths unat_of_nat)
    ultimately have "r = 1" by simp
    then have "pcs = concat (map bb_pcs bbs) @ [s]" using f(2) by (simp add: run_pcs_def)
    then have "concat (map bb_pcs bbs) @ [pcs ! (length pcs - 1)] = pcs" by (metis last_conv_nth last_snoc snoc_eq_iff_butlast)
    then show ?thesis using f(1) True assms(1) by (simp add: extract_bbs_from_pc_trace_def)
  next
    case False
    then show ?thesis using f(1,2) b assms(1) by (simp add: extract_bbs_from_pc_trace_def)
  qed
qed

theorem bbs_cover_trace_witness:
  "\<exists>bbs. extract_bbs_from_pc_trace [0x1000, 0x1004, 0x2000] = Inr bbs \<and>
     (concat (map bb_pcs bbs) = [0x1000, 0x1004, 0x2000] \<or> concat (map bb_pcs bbs) @ [0x2000] = [0x1000, 0x1004, 0x2000])"
  using bbs_cover_trace [of "[0x1000, 0x1004, 0x2000]"] by simp

text \<open>\<^verbatim>\<open>ctx_begin\<close> on a trace that starts with a sync frame always reads out of bounds: the
  iterator's constructor copies a context from the address of its pointer argument.\<close>

lemma ctx_begin_reads_out_of_bounds:
  assumes "has_bytes (lb_mem b) 0 (sync_bytes n c)" "wf_ctx c" and "base + of_nat sync_frame_sz \<noteq> 0"
  shows "ctx_begin base b u = Inl Out_Of_Bounds"
proof -
  from sync_accessors [OF assms(1,2)] have
    "front b = Inr 0" "msg_sync_ctx (lb_mem b) 0 = Inr (Some sync_frame_sz)" by (simp_all add: front_def)
  moreover have "load_bytes sizeof_ctx (le_bytes 8 w) 0 = Inl Out_Of_Bounds" for w :: u64
    by (simp add: load_bytes_def sizeof_ctx_def)
  ultimately show ?thesis using assms(3) by (simp add: ctx_begin_def ctx_iterator_def)
qed

lemma ctx_begin_reads_out_of_bounds_witness:
  "ctx_begin 0x1000 \<lparr>lb_mem = sync_bytes 0 zero_ctx, lb_size = 928, lb_num_inst = 0\<rparr> zero_ctx = Inl Out_Of_Bounds"
proof (rule ctx_begin_reads_out_of_bounds)
  show "has_bytes (lb_mem \<lparr>lb_mem = sync_bytes 0 zero_ctx, lb_size = 928, lb_num_inst = 0\<rparr>) 0 (sync_bytes 0 zero_ctx)"
    by (simp add: has_bytes_def)
  show "wf_ctx zero_ctx" by (simp add: wf_ctx_def zero_ctx_def)
  show "(0x1000 :: u64) + of_nat sync_frame_sz \<noteq> 0" by (simp add: sync_frame_sz_def length_sync_hdr)
qed

end
