(* ===== verification/CompressedFile.thy ===== *)
theory CompressedFile
  imports Prelude
begin

text \<open>
  The container of every file of a trace, \<^verbatim>\<open>lib/xnu-trace/CompressedFile.cpp\<close>: a packed
  \<^verbatim>\<open>log_comp_hdr\<close>, a header of the client's, and a body that is stored as it is or as one
  zstd frame.  A stdio stream is its bytes and a position; every write to the disk succeeds.

  Zstd is a parameter, \<open>zstd_lib\<close>: the contexts' types, the buffer sizes it asks for and
  its two streaming calls.  What the code relies on is \<open>zstd_ok\<close> in \<open>CompressedFileProps\<close>.
\<close>

section \<open>stdio\<close>

record stdio =
  f_bytes :: buffer
  f_pos :: nat

text \<open>\<^verbatim>\<open>fwrite(p, n, 1, f)\<close>: the number of items written, 0 when the item is empty.\<close>

definition fwrite1 :: "buffer \<Rightarrow> stdio \<Rightarrow> nat \<times> stdio" where
  "fwrite1 bs f =
     (if bs = [] then (0, f)
      else (1, f\<lparr>f_bytes := take (f_pos f) (f_bytes f) @ bs @ drop (f_pos f + length bs) (f_bytes f),
                 f_pos := f_pos f + length bs\<rparr>))"

text \<open>\<^verbatim>\<open>fread(p, n, 1, f)\<close> and \<^verbatim>\<open>fread(p, 1, n, f)\<close>.\<close>

definition fread1 :: "nat \<Rightarrow> stdio \<Rightarrow> nat \<times> buffer \<times> stdio" where
  "fread1 n f =
     (let bs = take n (drop (f_pos f) (f_bytes f))
      in (if n > 0 \<and> length bs = n then 1 else 0, bs, f\<lparr>f_pos := f_pos f + length bs\<rparr>))"

definition fread_bytes :: "nat \<Rightarrow> stdio \<Rightarrow> buffer \<times> stdio" where
  "fread_bytes n f =
     (let bs = take n (drop (f_pos f) (f_bytes f)) in (bs, f\<lparr>f_pos := f_pos f + length bs\<rparr>))"

definition fseek_set :: "nat \<Rightarrow> stdio \<Rightarrow> stdio" where
  "fseek_set p f = f\<lparr>f_pos := p\<rparr>"

definition fseek_end :: "stdio \<Rightarrow> stdio" where
  "fseek_end f = f\<lparr>f_pos := length (f_bytes f)\<rparr>"

text \<open>The code asserts that the one item was written, or read.\<close>

definition fwrite_one :: "buffer \<Rightarrow> stdio \<Rightarrow> stdio res" where
  "fwrite_one bs f = (case fwrite1 bs f of (n, f) \<Rightarrow> and_then (assert_that (n = 1)) (\<lambda>_. Inr f))"

definition fread_one :: "nat \<Rightarrow> stdio \<Rightarrow> (buffer \<times> stdio) res" where
  "fread_one n f = (case fread1 n f of (k, bs, f) \<Rightarrow> and_then (assert_that (k = 1)) (\<lambda>_. Inr (bs, f)))"

section \<open>The container's header\<close>

record log_comp_hdr =
  comp_magic :: u64
  comp_is_compressed :: u64
  comp_header_size :: u64
  comp_decompressed_size :: u64

definition sizeof_comp_hdr :: nat where "sizeof_comp_hdr = 32"
definition offsetof_decompressed_size :: nat where "offsetof_decompressed_size = 24"

definition comp_hdr_bytes :: "log_comp_hdr \<Rightarrow> buffer" where
  "comp_hdr_bytes h = le_bytes 8 (comp_magic h) @ le_bytes 8 (comp_is_compressed h) @
     le_bytes 8 (comp_header_size h) @ le_bytes 8 (comp_decompressed_size h)"

definition load_comp_hdr :: "buffer \<Rightarrow> nat \<Rightarrow> log_comp_hdr res" where
  "load_comp_hdr mem p =
     and_then (load mem p) (\<lambda>m. and_then (load mem (p + 8)) (\<lambda>c.
     and_then (load mem (p + 16)) (\<lambda>h. and_then (load mem (p + 24)) (\<lambda>d.
     Inr \<lparr>comp_magic = m, comp_is_compressed = c, comp_header_size = h, comp_decompressed_size = d\<rparr>))))"

section \<open>Zstd\<close>

text \<open>
  \<open>zstd_compress z c fin inp cap\<close> is \<^verbatim>\<open>ZSTD_compressStream2\<close> on the unread input \<open>inp\<close> and an
  empty output buffer of \<open>cap\<close> bytes, with \<^verbatim>\<open>ZSTD_e_end\<close> when \<open>fin\<close> and \<^verbatim>\<open>ZSTD_e_continue\<close>
  otherwise: the context afterwards, the output, how much input was read, and the return
  value, None for an error code.  \<open>zstd_decompress\<close> is \<^verbatim>\<open>ZSTD_decompressStream\<close> likewise.
\<close>

record ('c, 'd) zstd_lib =
  zstd_cctx :: "'c option"                       \<comment> \<open>\<^verbatim>\<open>ZSTD_createCCtx\<close>\<close>
  zstd_params :: "'c \<Rightarrow> int \<Rightarrow> int \<Rightarrow> 'c option"   \<comment> \<open>level and workers; None when a parameter is refused\<close>
  zstd_dctx :: "'d option"                       \<comment> \<open>\<^verbatim>\<open>ZSTD_createDCtx\<close>\<close>
  zstd_compress :: "'c \<Rightarrow> bool \<Rightarrow> buffer \<Rightarrow> nat \<Rightarrow> 'c \<times> buffer \<times> nat \<times> nat option"
  zstd_decompress :: "'d \<Rightarrow> buffer \<Rightarrow> nat \<Rightarrow> 'd \<times> buffer \<times> nat \<times> nat option"
  zstd_c_out_size :: nat
  zstd_d_in_size :: nat
  zstd_d_out_size :: nat

section \<open>The file object\<close>

record ('c, 'd) comp_file =
  cf_fh :: stdio
  cf_comp_ctx :: "'c option"
  cf_in_size :: nat
  cf_out_size :: nat
  cf_decomp_ctx :: "'d option"
  cf_is_read :: bool
  cf_hdr_buf :: buffer
  cf_decomp_size :: u64
  cf_num_disk_ops :: u64
  cf_num_zstd_ops :: u64
  cf_hdr_sz :: u64

definition check :: "'a option \<Rightarrow> 'a res" where
  "check r = (case r of None \<Rightarrow> Inl Process_Exit | Some x \<Rightarrow> Inr x)"

definition assert_some :: "'a option \<Rightarrow> 'a res" where
  "assert_some r = (case r of None \<Rightarrow> Inl Assertion_Failed | Some x \<Rightarrow> Inr x)"

text \<open>\<open>file\<close> is None when \<^verbatim>\<open>fopen\<close> fails; the maximum of the type stands for any size or magic.\<close>

definition cf_open_read ::
    "('c, 'd) zstd_lib \<Rightarrow> buffer option \<Rightarrow> u64 \<Rightarrow> u64 \<Rightarrow> ('c, 'd) comp_file res" where
  "cf_open_read z file hdr_sz hdr_magic =
     and_then (check file) (\<lambda>bytes.
     and_then (fread_one sizeof_comp_hdr \<lparr>f_bytes = bytes, f_pos = 0\<rparr>) (\<lambda>(raw, fh).
     and_then (load_comp_hdr raw 0) (\<lambda>comp_hdr.
     and_then (assert_that (comp_magic comp_hdr = hdr_magic \<or> hdr_magic = - 1)) (\<lambda>_.
     and_then (assert_that (comp_header_size comp_hdr = hdr_sz \<or> hdr_sz = - 1)) (\<lambda>_.
     and_then (fread_one (unat (comp_header_size comp_hdr)) fh) (\<lambda>(hdr_buf, fh).
     let f = \<lparr>cf_fh = fh, cf_comp_ctx = None, cf_in_size = 0, cf_out_size = 0, cf_decomp_ctx = None,
              cf_is_read = True, cf_hdr_buf = hdr_buf, cf_decomp_size = comp_decompressed_size comp_hdr,
              cf_num_disk_ops = 0, cf_num_zstd_ops = 0, cf_hdr_sz = comp_header_size comp_hdr\<rparr>
     in if comp_is_compressed comp_hdr \<noteq> 0 then
          and_then (assert_some (zstd_dctx z)) (\<lambda>d.
          Inr (f\<lparr>cf_decomp_ctx := Some d, cf_in_size := zstd_d_in_size z, cf_out_size := zstd_d_out_size z\<rparr>))
        else Inr f))))))"

text \<open>\<open>cores\<close> is what \<^verbatim>\<open>get_num_cores\<close> returns; \<open>can_open\<close> whether \<^verbatim>\<open>fopen\<close> succeeds.\<close>

definition cf_open_write ::
    "('c, 'd) zstd_lib \<Rightarrow> int \<Rightarrow> bool \<Rightarrow> u64 \<Rightarrow> buffer option \<Rightarrow> int \<Rightarrow> int \<Rightarrow> ('c, 'd) comp_file res" where
  "cf_open_write z cores can_open hdr_magic hdr level num_threads =
     and_then (assert_some hdr) (\<lambda>hdr.
     and_then (check (if can_open then Some () else None)) (\<lambda>_.
     let comp_hdr = \<lparr>comp_magic = hdr_magic, comp_is_compressed = of_bool (level \<noteq> 0),
                     comp_header_size = of_nat (length hdr), comp_decompressed_size = 0\<rparr>
     in and_then (fwrite_one (comp_hdr_bytes comp_hdr) \<lparr>f_bytes = [], f_pos = 0\<rparr>) (\<lambda>fh.
     and_then (fwrite_one hdr fh) (\<lambda>fh.
     let f = \<lparr>cf_fh = fh, cf_comp_ctx = None, cf_in_size = 0, cf_out_size = 0, cf_decomp_ctx = None,
              cf_is_read = False, cf_hdr_buf = hdr, cf_decomp_size = 0,
              cf_num_disk_ops = 0, cf_num_zstd_ops = 0, cf_hdr_sz = of_nat (length hdr)\<rparr>
     in if level \<noteq> 0 then
          and_then (assert_some (zstd_cctx z)) (\<lambda>c.
          and_then (check (zstd_params z c level (if num_threads < 1 then cores else num_threads))) (\<lambda>c.
          Inr (f\<lparr>cf_comp_ctx := Some c, cf_out_size := zstd_c_out_size z\<rparr>)))
        else Inr f))))"

section \<open>Writing\<close>

definition disk_write :: "buffer \<Rightarrow> ('c, 'd) comp_file \<Rightarrow> ('c, 'd) comp_file res" where
  "disk_write bs f =
     and_then (fwrite_one bs (cf_fh f)) (\<lambda>fh. Inr (f\<lparr>cf_fh := fh, cf_num_disk_ops := cf_num_disk_ops f + 1\<rparr>))"

text \<open>The \<^verbatim>\<open>do \<dots> while (!done)\<close> of \<^verbatim>\<open>write\<close> on the input that is left, with fuel.\<close>

primrec compress_loop ::
    "('c, 'd) zstd_lib \<Rightarrow> nat \<Rightarrow> 'c \<Rightarrow> buffer \<Rightarrow> ('c, 'd) comp_file \<Rightarrow> ('c \<times> ('c, 'd) comp_file) res" where
  "compress_loop z 0 c inp f = Inl Out_Of_Fuel"
| "compress_loop z (Suc fuel) c inp f =
     (case zstd_compress z c False inp (cf_out_size f) of (c, out, n, remaining) \<Rightarrow>
      and_then (assert_some remaining) (\<lambda>_.
      let f = f\<lparr>cf_num_zstd_ops := cf_num_zstd_ops f + 1\<rparr>
      in and_then (if out \<noteq> [] then disk_write out f else Inr f) (\<lambda>f.
         if n = length inp then Inr (c, f) else compress_loop z fuel c (drop n inp) f)))"

definition cf_write ::
    "('c, 'd) zstd_lib \<Rightarrow> nat \<Rightarrow> buffer \<Rightarrow> ('c, 'd) comp_file \<Rightarrow> ('c, 'd) comp_file res" where
  "cf_write z fuel buf f =
     and_then (assert_that (\<not> cf_is_read f)) (\<lambda>_.
     and_then
       (case cf_comp_ctx f of
          None \<Rightarrow> disk_write buf f
        | Some c \<Rightarrow> and_then (compress_loop z fuel c buf f) (\<lambda>(c, f). Inr (f\<lparr>cf_comp_ctx := Some c\<rparr>)))
       (\<lambda>f. Inr (f\<lparr>cf_decomp_size := cf_decomp_size f + of_nat (length buf)\<rparr>)))"

section \<open>Closing\<close>

primrec finish_loop ::
    "('c, 'd) zstd_lib \<Rightarrow> nat \<Rightarrow> 'c \<Rightarrow> ('c, 'd) comp_file \<Rightarrow> ('c, 'd) comp_file res" where
  "finish_loop z 0 c f = Inl Out_Of_Fuel"
| "finish_loop z (Suc fuel) c f =
     (case zstd_compress z c True [] (cf_out_size f) of (c, out, n, remaining) \<Rightarrow>
      and_then (check remaining) (\<lambda>remaining.
      let f = f\<lparr>cf_num_zstd_ops := cf_num_zstd_ops f + 1\<rparr>
      in and_then (if out \<noteq> [] then disk_write out f else Inr f) (\<lambda>f.
         if remaining = 0 then Inr f else finish_loop z fuel c f)))"

text \<open>
  The destructor: the bytes the file holds when it is closed.  The header is written again,
  as it is now, and the size of the body is put into the container's header.
\<close>

definition cf_close :: "('c, 'd) zstd_lib \<Rightarrow> nat \<Rightarrow> ('c, 'd) comp_file \<Rightarrow> buffer res" where
  "cf_close z fuel f =
     and_then (case cf_comp_ctx f of Some c \<Rightarrow> finish_loop z fuel c f | None \<Rightarrow> Inr f) (\<lambda>f.
     if \<not> cf_is_read f then
       and_then (fwrite_one (le_bytes 8 (cf_decomp_size f)) (fseek_set offsetof_decompressed_size (cf_fh f))) (\<lambda>fh.
       and_then (assert_that (cf_hdr_sz f = of_nat (length (cf_hdr_buf f)))) (\<lambda>_.
       and_then (fwrite_one (cf_hdr_buf f) (fseek_set sizeof_comp_hdr fh)) (\<lambda>fh.
       and_then (assert_that (f_pos (fseek_end fh) > 0)) (\<lambda>_.
       Inr (f_bytes fh)))))
     else Inr (f_bytes (cf_fh f)))"

section \<open>Reading\<close>

text \<open>
  The inner loop of \<^verbatim>\<open>read\<close> on the chunk \<open>inp\<close>: all of it is fed to zstd, whatever the caller
  asked for; \<open>got\<close> is what the caller's buffer of \<open>sz\<close> bytes holds.
\<close>

primrec decompress_chunk ::
    "('c, 'd) zstd_lib \<Rightarrow> nat \<Rightarrow> nat \<Rightarrow> buffer \<Rightarrow> 'd \<Rightarrow> nat \<Rightarrow> buffer \<Rightarrow> ('c, 'd) comp_file \<Rightarrow>
       ('d \<times> nat \<times> buffer \<times> ('c, 'd) comp_file) res" where
  "decompress_chunk z sz 0 inp d suggested got f = Inl Out_Of_Fuel"
| "decompress_chunk z sz (Suc fuel) inp d suggested got f =
     (if inp = [] then Inr (d, suggested, got, f)
      else case zstd_decompress z d inp (cf_out_size f) of (d, out, n, ret) \<Rightarrow>
        and_then (check ret) (\<lambda>suggested.
        let f = f\<lparr>cf_num_zstd_ops := cf_num_zstd_ops f + 1\<rparr>
        in if length got + length out \<le> sz
           then decompress_chunk z sz fuel (drop n inp) d suggested (got @ out) f
           else Inl Out_Of_Bounds))"

text \<open>
  Zstd's suggestion is the size of the next \<^verbatim>\<open>fread\<close> into the input buffer, whatever that
  buffer's size: more bytes than it holds are written past its end.
\<close>

primrec decompress_loop ::
    "('c, 'd) zstd_lib \<Rightarrow> nat \<Rightarrow> nat \<Rightarrow> nat \<Rightarrow> 'd \<Rightarrow> nat \<Rightarrow> buffer \<Rightarrow> ('c, 'd) comp_file \<Rightarrow>
       (buffer \<times> ('c, 'd) comp_file) res" where
  "decompress_loop z timer sz 0 d suggested got f = Inl Out_Of_Fuel"
| "decompress_loop z timer sz (Suc fuel) d suggested got f =
     (if length got = sz then Inr (got, f\<lparr>cf_decomp_ctx := Some d\<rparr>)
      else case fread_bytes suggested (cf_fh f) of (inp, fh) \<Rightarrow>
        let f = f\<lparr>cf_fh := fh, cf_num_disk_ops := cf_num_disk_ops f + 1\<rparr>
        in and_then (if length inp \<le> cf_in_size f then Inr () else Inl Out_Of_Bounds) (\<lambda>_.
           and_then (assert_that (length inp > 0)) (\<lambda>_.
           and_then (decompress_chunk z sz timer inp d suggested got f) (\<lambda>(d, suggested, got, f).
             decompress_loop z timer sz fuel d suggested got f))))"

definition cf_read_n ::
    "('c, 'd) zstd_lib \<Rightarrow> nat \<Rightarrow> nat \<Rightarrow> ('c, 'd) comp_file \<Rightarrow> (buffer \<times> ('c, 'd) comp_file) res" where
  "cf_read_n z timer sz f =
     and_then (assert_that (cf_is_read f)) (\<lambda>_.
     and_then
       (case cf_decomp_ctx f of
          None \<Rightarrow> and_then (fread_one sz (cf_fh f)) (\<lambda>(bs, fh).
                   Inr (bs, f\<lparr>cf_fh := fh, cf_num_disk_ops := cf_num_disk_ops f + 1\<rparr>))
        | Some d \<Rightarrow> decompress_loop z timer sz timer d (cf_in_size f) [] f)
       (\<lambda>(bs, f). Inr (bs, f\<lparr>cf_decomp_size := cf_decomp_size f + of_nat sz\<rparr>)))"

definition cf_read ::
    "('c, 'd) zstd_lib \<Rightarrow> nat \<Rightarrow> ('c, 'd) comp_file \<Rightarrow> (buffer \<times> ('c, 'd) comp_file) res" where
  "cf_read z timer f = cf_read_n z timer (unat (cf_decomp_size f)) f"

text \<open>\<^verbatim>\<open>header<T>()\<close> asserts the header's size.\<close>

definition cf_header :: "nat \<Rightarrow> ('c, 'd) comp_file \<Rightarrow> buffer res" where
  "cf_header sz f = and_then (assert_that (sz = length (cf_hdr_buf f))) (\<lambda>_. Inr (cf_hdr_buf f))"

end
