(* ===== verification/CompressedFileProps.thy ===== *)
theory CompressedFileProps
  imports CompressedFile "HOL-Library.Sublist"
begin

text \<open>
  What the container of \<open>CompressedFile\<close> promises: a file that was written and closed holds
  its header and its body, and reading it gives them back, for every compression level and
  every zstd that keeps its documented contract.
\<close>

section \<open>The contract of zstd\<close>

text \<open>
  The compressor: \<open>cinv e c i w\<close> holds of a context that was given the input \<open>i\<close> and has
  handed out \<open>w\<close>, with \<open>e\<close> once the frame is being ended.  A call makes progress (it reads
  input or hands out some of the at most \<open>h\<close> units it holds back); \<^verbatim>\<open>ZSTD_e_end\<close> returns 0
  when the frame of everything given is complete.
\<close>

definition cctx_ok ::
    "('c, 'd) zstd_lib \<Rightarrow> (buffer \<Rightarrow> buffer \<Rightarrow> bool) \<Rightarrow> nat \<Rightarrow>
       (bool \<Rightarrow> 'c \<Rightarrow> buffer \<Rightarrow> buffer \<Rightarrow> bool) \<Rightarrow> ('c \<Rightarrow> nat) \<Rightarrow> bool" where
  "cctx_ok z frame h cinv held \<longleftrightarrow>
     (\<exists>c0. zstd_cctx z = Some c0 \<and>
        (\<forall>level workers. \<exists>c. zstd_params z c0 level workers = Some c \<and> cinv False c [] [])) \<and>
     (\<forall>e c i w. cinv e c i w \<longrightarrow> held c \<le> h) \<and>
     (\<forall>c i w inp cap. cinv False c i w \<longrightarrow> cap > 0 \<longrightarrow>
        (\<exists>c' out n k. zstd_compress z c False inp cap = (c', out, n, Some k) \<and> n \<le> length inp \<and>
           cinv False c' (i @ take n inp) (w @ out) \<and> (inp = [] \<or> n > 0 \<or> held c' < held c))) \<and>
     (\<forall>e c i w cap. cinv e c i w \<longrightarrow> cap > 0 \<longrightarrow>
        (\<exists>c' out n k. zstd_compress z c True [] cap = (c', out, n, Some k) \<and>
           (if k = 0 then frame (w @ out) i else cinv True c' i (w @ out) \<and> held c' < held c)))"

definition compressor_ok :: "('c, 'd) zstd_lib \<Rightarrow> (buffer \<Rightarrow> buffer \<Rightarrow> bool) \<Rightarrow> nat \<Rightarrow> bool" where
  "compressor_ok z frame h \<longleftrightarrow> zstd_c_out_size z > 0 \<and> (\<exists>cinv held. cctx_ok z frame h cinv held)"

lemma cctx_okD:
  assumes "cctx_ok z frame h cinv held"
  shows "cinv e c i w \<Longrightarrow> held c \<le> h"
    and "cinv False c i w \<Longrightarrow> cap > 0 \<Longrightarrow>
        \<exists>c' out n k. zstd_compress z c False inp cap = (c', out, n, Some k) \<and> n \<le> length inp \<and>
           cinv False c' (i @ take n inp) (w @ out) \<and> (inp = [] \<or> n > 0 \<or> held c' < held c)"
    and "cinv e c i w \<Longrightarrow> cap > 0 \<Longrightarrow>
        \<exists>c' out n k. zstd_compress z c True [] cap = (c', out, n, Some k) \<and>
           (if k = 0 then frame (w @ out) i else cinv True c' i (w @ out) \<and> held c' < held c)"
  using assms unfolding cctx_ok_def by blast+

text \<open>
  The decompressor: \<open>dinv d p got\<close> holds of a context that has read \<open>p\<close> and handed out
  \<open>got\<close>.  On a prefix of a frame it makes progress and hands out a prefix of the frame's
  content; it reads the frame's last byte only when it has handed out all of it, and asks
  for more input before that, but never for more than the input buffer it recommends
  (\<^verbatim>\<open>ZSTD_DStreamInSize\<close>) holds.
\<close>

definition dctx_ok ::
    "('c, 'd) zstd_lib \<Rightarrow> (buffer \<Rightarrow> buffer \<Rightarrow> bool) \<Rightarrow> ('d \<Rightarrow> buffer \<Rightarrow> buffer \<Rightarrow> bool) \<Rightarrow> bool" where
  "dctx_ok z frame dinv \<longleftrightarrow>
     (\<exists>d0. zstd_dctx z = Some d0 \<and> dinv d0 [] []) \<and>
     (\<forall>fr x d p got inp cap. frame fr x \<longrightarrow> dinv d p got \<longrightarrow> prefix got x \<longrightarrow> prefix (p @ inp) fr \<longrightarrow>
        inp \<noteq> [] \<longrightarrow> cap > 0 \<longrightarrow>
        (\<exists>d' out n k. zstd_decompress z d inp cap = (d', out, n, Some k) \<and> n \<le> length inp \<and>
           (n > 0 \<or> out \<noteq> []) \<and> dinv d' (p @ take n inp) (got @ out) \<and> prefix (got @ out) x \<and>
           (if p @ take n inp = fr then got @ out = x else 0 < k \<and> k \<le> zstd_d_in_size z)))"

definition decompressor_ok :: "('c, 'd) zstd_lib \<Rightarrow> (buffer \<Rightarrow> buffer \<Rightarrow> bool) \<Rightarrow> bool" where
  "decompressor_ok z frame \<longleftrightarrow> zstd_d_in_size z > 0 \<and> zstd_d_out_size z > 0 \<and>
     (\<exists>dinv. dctx_ok z frame dinv) \<and> (\<forall>x. \<not> frame [] x)"

section \<open>Streams\<close>

lemma comp_hdr_bytes_length [simp]: "length (comp_hdr_bytes h) = 32"
  by (simp add: comp_hdr_bytes_def)

lemma load_comp_hdr_bytes:
  assumes "has_bytes mem p (comp_hdr_bytes h)"
  shows "load_comp_hdr mem p = Inr h"
proof -
  have "has_bytes mem p (le_bytes 8 (comp_magic h))" "has_bytes mem (p + 8) (le_bytes 8 (comp_is_compressed h))"
    "has_bytes mem (p + 16) (le_bytes 8 (comp_header_size h))"
    "has_bytes mem (p + 24) (le_bytes 8 (comp_decompressed_size h))"
    using assms by (simp_all add: comp_hdr_bytes_def has_bytes_append add.assoc add.commute)
  then show ?thesis by (simp add: load_comp_hdr_def load_has_bytes del: load_ok)
qed

definition at_end :: "stdio \<Rightarrow> bool" where
  "at_end s \<longleftrightarrow> f_pos s = length (f_bytes s)"

text \<open>What the loops leave alone.\<close>

definition settings :: "('c, 'd) comp_file \<Rightarrow> nat \<times> bool \<times> buffer \<times> u64 \<times> u64 \<times> nat" where
  "settings f = (cf_out_size f, cf_is_read f, cf_hdr_buf f, cf_hdr_sz f, cf_decomp_size f, cf_in_size f)"

text \<open>The body so far: the file ends with \<open>w\<close>, after \<open>pre\<close>.\<close>

definition body :: "buffer \<Rightarrow> buffer \<Rightarrow> ('c, 'd) comp_file \<Rightarrow> bool" where
  "body pre w f \<longleftrightarrow> f_bytes (cf_fh f) = pre @ w \<and> at_end (cf_fh f)"

lemma fwrite_one_append:
  "at_end s \<Longrightarrow> bs \<noteq> [] \<Longrightarrow>
     fwrite_one bs s = Inr \<lparr>f_bytes = f_bytes s @ bs, f_pos = length (f_bytes s @ bs)\<rparr>"
  by (cases s) (simp add: fwrite_one_def fwrite1_def at_end_def)

lemma fwrite_one_Nil [simp]: "fwrite_one [] s = Inl Assertion_Failed"
  by (simp add: fwrite_one_def fwrite1_def)

lemma fread_one_ok:
  assumes "has_bytes (f_bytes s) (f_pos s) bs" and "bs \<noteq> []"
  shows "fread_one (length bs) s = Inr (bs, s\<lparr>f_pos := f_pos s + length bs\<rparr>)"
  using assms by (simp add: fread_one_def fread1_def has_bytes_def)

lemma fread_one_0 [simp]: "fread_one 0 s = Inl Assertion_Failed"
  by (simp add: fread_one_def fread1_def)

lemma disk_write_body:
  assumes "body pre w f"
  shows "\<exists>f'. (if out \<noteq> [] then disk_write out f else Inr f) = Inr f' \<and> body pre (w @ out) f' \<and>
      settings f' = settings f \<and> cf_comp_ctx f' = cf_comp_ctx f"
  using assms by (auto simp: disk_write_def body_def settings_def fwrite_one_append at_end_def)

section \<open>Writing\<close>

lemma compress_loop_ok:
  assumes z: "cctx_ok z frame h cinv held"
  shows "cinv False c i w \<Longrightarrow> body pre w f \<Longrightarrow> cf_out_size f > 0 \<Longrightarrow>
      length inp * Suc h + held c < fuel \<Longrightarrow>
      \<exists>c' f' w'. compress_loop z fuel c inp f = Inr (c', f') \<and> cinv False c' (i @ inp) w' \<and>
         body pre w' f' \<and> settings f' = settings f \<and> cf_comp_ctx f' = cf_comp_ctx f"
proof (induction fuel arbitrary: c i w inp f)
  case 0
  then show ?case by simp
next
  case (Suc fuel)
  obtain c' out n k where s: "zstd_compress z c False inp (cf_out_size f) = (c', out, n, Some k)"
    "n \<le> length inp" "cinv False c' (i @ take n inp) (w @ out)" "inp = [] \<or> n > 0 \<or> held c' < held c"
    using cctx_okD(2) [OF z Suc.prems(1,3), of inp] by blast
  let ?g = "f\<lparr>cf_num_zstd_ops := cf_num_zstd_ops f + 1\<rparr>"
  have "body pre w ?g" using Suc.prems(2) by (simp add: body_def)
  from disk_write_body [OF this, of out] obtain f' where f':
    "(if out \<noteq> [] then disk_write out ?g else Inr ?g) = Inr f'" "body pre (w @ out) f'"
    "settings f' = settings ?g" "cf_comp_ctx f' = cf_comp_ctx ?g"
    by blast
  have set: "settings f' = settings f" "cf_comp_ctx f' = cf_comp_ctx f" "cf_out_size f' = cf_out_size f"
    using f'(3,4) by (simp_all add: settings_def)
  show ?case
  proof (cases "n = length inp")
    case True
    then show ?thesis
      using s f'(1,2) set
      by (intro exI [of _ c'] exI [of _ f'] exI [of _ "w @ out"]) (simp add: assert_some_def Let_def)
  next
    case False
    with s(2) have lt: "n < length inp" by simp
    have "length (drop n inp) * Suc h + held c' < fuel"
    proof (cases "n = 0")
      case True
      with s(4) lt have "held c' < held c" by auto
      with True Suc.prems(4) show ?thesis by simp
    next
      case n: False
      have "length (drop n inp) + 1 \<le> length inp" using n lt by simp
      then have "(length (drop n inp) + 1) * Suc h \<le> length inp * Suc h" by (rule mult_le_mono1)
      with cctx_okD(1) [OF z s(3)] Suc.prems(4) show ?thesis by simp
    qed
    from Suc.IH [OF s(3) f'(2) _ this] obtain c'' f'' w'' where r:
      "compress_loop z fuel c' (drop n inp) f' = Inr (c'', f'')" "cinv False c'' (i @ inp) w''"
      "body pre w'' f''" "settings f'' = settings f'" "cf_comp_ctx f'' = cf_comp_ctx f'"
      using set(3) Suc.prems(3) by auto
    then show ?thesis
      using s(1) f'(1) set False
      by (intro exI [of _ c''] exI [of _ f''] exI [of _ w'']) (simp add: assert_some_def Let_def)
  qed
qed

lemma finish_loop_ok:
  assumes z: "cctx_ok z frame h cinv held"
  shows "cinv e c i w \<Longrightarrow> body pre w f \<Longrightarrow> cf_out_size f > 0 \<Longrightarrow> held c < fuel \<Longrightarrow>
      \<exists>f' w'. finish_loop z fuel c f = Inr f' \<and> frame w' i \<and> body pre w' f' \<and> settings f' = settings f"
proof (induction fuel arbitrary: e c w f)
  case 0
  then show ?case by simp
next
  case (Suc fuel)
  obtain c' out n k where s: "zstd_compress z c True [] (cf_out_size f) = (c', out, n, Some k)"
    "if k = 0 then frame (w @ out) i else cinv True c' i (w @ out) \<and> held c' < held c"
    using cctx_okD(3) [OF z Suc.prems(1,3)] by blast
  let ?g = "f\<lparr>cf_num_zstd_ops := cf_num_zstd_ops f + 1\<rparr>"
  have "body pre w ?g" using Suc.prems(2) by (simp add: body_def)
  from disk_write_body [OF this, of out] obtain f' where f':
    "(if out \<noteq> [] then disk_write out ?g else Inr ?g) = Inr f'" "body pre (w @ out) f'"
    "settings f' = settings ?g"
    by blast
  have set: "settings f' = settings f" "cf_out_size f' = cf_out_size f"
    using f'(3) by (simp_all add: settings_def)
  show ?case
  proof (cases "k = 0")
    case True
    then show ?thesis
      using s f'(1,2) set by (intro exI [of _ f'] exI [of _ "w @ out"]) (simp add: check_def Let_def)
  next
    case False
    with s(2) have "cinv True c' i (w @ out)" "held c' < held c" by simp_all
    then obtain f'' w'' where
      "finish_loop z fuel c' f' = Inr f''" "frame w'' i" "body pre w'' f''" "settings f'' = settings f'"
      using Suc.IH [of True c' "w @ out" f'] f'(2) set(2) Suc.prems(3,4) by auto
    then show ?thesis
      using s(1) f'(1) set False by (intro exI [of _ f''] exI [of _ w'']) (simp add: check_def Let_def)
  qed
qed

text \<open>
  A file being written: its container header \<open>h\<close> (with no size yet) and its header, then a
  body that is \<open>i\<close> itself, or what the compressor has handed out for \<open>i\<close>.
\<close>

definition writing ::
    "(bool \<Rightarrow> 'c \<Rightarrow> buffer \<Rightarrow> buffer \<Rightarrow> bool) \<Rightarrow> log_comp_hdr \<Rightarrow> buffer \<Rightarrow> bool \<Rightarrow> buffer \<Rightarrow> ('c, 'd) comp_file \<Rightarrow> bool" where
  "writing cinv h hdr compressed i f \<longleftrightarrow>
     \<not> cf_is_read f \<and> cf_hdr_buf f = hdr \<and> cf_hdr_sz f = of_nat (length hdr) \<and>
     cf_decomp_size f = of_nat (length i) \<and>
     (compressed \<longleftrightarrow> cf_comp_ctx f \<noteq> None) \<and>
     (case cf_comp_ctx f of
        None \<Rightarrow> body (comp_hdr_bytes h @ hdr) i f
      | Some c \<Rightarrow> cf_out_size f > 0 \<and> (\<exists>w. body (comp_hdr_bytes h @ hdr) w f \<and> cinv False c i w))"

lemma cf_write_ok:
  assumes z: "compressed \<Longrightarrow> cctx_ok z frame m cinv held"
    and wr: "writing cinv h hdr compressed i f" and fuel: "Suc (length buf) * Suc m \<le> fuel"
    and ne: "compressed \<or> buf \<noteq> []"
  shows "\<exists>f'. cf_write z fuel buf f = Inr f' \<and> writing cinv h hdr compressed (i @ buf) f'"
proof (cases "cf_comp_ctx f")
  case None
  with wr ne have b: "body (comp_hdr_bytes h @ hdr) i f" "buf \<noteq> []" by (auto simp: writing_def)
  from disk_write_body [OF b(1), of buf] b(2) obtain f' where
    "disk_write buf f = Inr f'" "body (comp_hdr_bytes h @ hdr) (i @ buf) f'" "settings f' = settings f"
    "cf_comp_ctx f' = cf_comp_ctx f"
    by auto
  then show ?thesis
    using wr None by (auto simp: cf_write_def writing_def settings_def body_def)
next
  case (Some c)
  with wr obtain w where b: "body (comp_hdr_bytes h @ hdr) w f" "cinv False c i w" "cf_out_size f > 0"
    by (auto simp: writing_def)
  have z: "cctx_ok z frame m cinv held" using z wr Some by (simp add: writing_def)
  have "length buf * Suc m + held c < fuel" using fuel cctx_okD(1) [OF z b(2)] by simp
  from compress_loop_ok [OF z b(2,1,3) this] obtain c' f' w' where
    "compress_loop z fuel c buf f = Inr (c', f')" "cinv False c' (i @ buf) w'"
    "body (comp_hdr_bytes h @ hdr) w' f'" "settings f' = settings f"
    by auto
  then show ?thesis
    using wr Some by (auto simp: cf_write_def writing_def settings_def body_def)
qed

lemma cf_writes_ok:
  assumes z: "compressed \<Longrightarrow> cctx_ok z frame m cinv held"
    and fuel: "\<And>b. b \<in> set chunks \<Longrightarrow> Suc (length b) * Suc m \<le> fuel"
    and ne: "compressed \<or> [] \<notin> set chunks"
  shows "writing cinv h hdr compressed i f \<Longrightarrow>
      \<exists>f'. fold_res (cf_write z fuel) chunks f = Inr f' \<and> writing cinv h hdr compressed (i @ concat chunks) f'"
  using fuel ne
proof (induction chunks arbitrary: i f)
  case Nil
  then show ?case by simp
next
  case (Cons b chunks)
  have "Suc (length b) * Suc m \<le> fuel" "compressed \<or> b \<noteq> []" using Cons.prems(2,3) by auto
  from cf_write_ok [OF z Cons.prems(1) this] obtain f' where
    f': "cf_write z fuel b f = Inr f'" "writing cinv h hdr compressed (i @ b) f'"
    by blast
  from Cons.IH [OF f'(2)] Cons.prems(2,3) obtain f'' where
    "fold_res (cf_write z fuel) chunks f' = Inr f''"
    "writing cinv h hdr compressed ((i @ b) @ concat chunks) f''"
    by (metis list.set_intros(2))
  with f'(1) show ?case by auto
qed

text \<open>
  Closing puts the size into the container's header, writes the header as it is by then over
  the one the file was opened with, and leaves the rest in place.
\<close>

lemma close_bytes:
  assumes "body (comp_hdr_bytes h @ old) w f" and "length (cf_hdr_buf f) = length old" and "old \<noteq> []"
    and "\<not> cf_is_read f" and "cf_hdr_sz f = of_nat (length old)" and "cf_comp_ctx f = None"
  shows "cf_close z fuel f =
     Inr (comp_hdr_bytes (h\<lparr>comp_decompressed_size := cf_decomp_size f\<rparr>) @ cf_hdr_buf f @ w)"
proof -
  have "length (le_bytes 8 (cf_decomp_size f)) = 8" by simp
  then have "le_bytes 8 (cf_decomp_size f) \<noteq> []" by (metis list.size(3) zero_neq_numeral)
  then have "fwrite_one (le_bytes 8 (cf_decomp_size f)) (fseek_set offsetof_decompressed_size (cf_fh f)) =
     Inr \<lparr>f_bytes = comp_hdr_bytes (h\<lparr>comp_decompressed_size := cf_decomp_size f\<rparr>) @ old @ w, f_pos = 32\<rparr>"
    using assms(1)
    by (cases "cf_fh f")
      (simp add: fwrite_one_def fwrite1_def fseek_set_def body_def comp_hdr_bytes_def offsetof_decompressed_size_def)
  moreover have "cf_hdr_buf f \<noteq> []" using assms(2,3) by auto
  ultimately show ?thesis
    using assms(2-6)
    by (simp add: cf_close_def fwrite_one_def fwrite1_def fseek_set_def fseek_end_def sizeof_comp_hdr_def)
qed


section \<open>Whole files\<close>

text \<open>
  How the clients use the container: open, write the chunks in order, close; open, read
  the whole body.
\<close>

definition save_file ::
    "('c, 'd) zstd_lib \<Rightarrow> int \<Rightarrow> nat \<Rightarrow> u64 \<Rightarrow> buffer \<Rightarrow> int \<Rightarrow> int \<Rightarrow> buffer list \<Rightarrow> buffer res" where
  "save_file z cores fuel magic hdr level workers chunks =
     and_then (cf_open_write z cores True magic (Some hdr) level workers) (\<lambda>f.
     and_then (fold_res (cf_write z fuel) chunks f) (cf_close z fuel))"

definition fetch_file ::
    "('c, 'd) zstd_lib \<Rightarrow> nat \<Rightarrow> u64 \<Rightarrow> u64 \<Rightarrow> buffer \<Rightarrow> (buffer \<times> buffer) res" where
  "fetch_file z fuel hdr_sz magic bytes =
     and_then (cf_open_read z (Some bytes) hdr_sz magic) (\<lambda>f.
     and_then (cf_read z fuel f) (\<lambda>(b, f). Inr (cf_hdr_buf f, b)))"

definition saved_bytes :: "u64 \<Rightarrow> buffer \<Rightarrow> bool \<Rightarrow> nat \<Rightarrow> buffer \<Rightarrow> buffer" where
  "saved_bytes magic hdr compressed n w =
     comp_hdr_bytes \<lparr>comp_magic = magic, comp_is_compressed = of_bool compressed,
       comp_header_size = of_nat (length hdr), comp_decompressed_size = of_nat n\<rparr> @ hdr @ w"

lemma open_write_ok:
  assumes "hdr \<noteq> []" and z: "level \<noteq> 0 \<Longrightarrow> cctx_ok z frame m cinv held \<and> zstd_c_out_size z > 0"
  shows "\<exists>f. cf_open_write z cores True magic (Some hdr) level workers = Inr f \<and>
     writing cinv \<lparr>comp_magic = magic, comp_is_compressed = of_bool (level \<noteq> 0),
       comp_header_size = of_nat (length hdr), comp_decompressed_size = 0\<rparr> hdr (level \<noteq> 0) [] f"
proof -
  have "comp_hdr_bytes h \<noteq> []" for h by (metis comp_hdr_bytes_length list.size(3) zero_neq_numeral)
  then have w: "fwrite_one (comp_hdr_bytes h) \<lparr>f_bytes = [], f_pos = 0\<rparr> =
      Inr \<lparr>f_bytes = comp_hdr_bytes h, f_pos = 32\<rparr>" for h
    by (simp add: fwrite_one_append at_end_def)
  have w2: "fwrite_one hdr \<lparr>f_bytes = comp_hdr_bytes h, f_pos = 32\<rparr> =
      Inr \<lparr>f_bytes = comp_hdr_bytes h @ hdr, f_pos = 32 + length hdr\<rparr>" for h
    using assms(1) by (simp add: fwrite_one_append at_end_def)
  show ?thesis
  proof (cases "level = 0")
    case True
    then show ?thesis
      by (simp add: cf_open_write_def assert_some_def check_def w w2 writing_def body_def at_end_def Let_def)
  next
    case False
    with z obtain c0 where "zstd_cctx z = Some c0"
      "\<forall>level workers. \<exists>c. zstd_params z c0 level workers = Some c \<and> cinv False c [] []"
      by (auto simp: cctx_ok_def)
    moreover from this(2) obtain c where
      "zstd_params z c0 level (if workers < 1 then cores else workers) = Some c" "cinv False c [] []"
      by blast
    ultimately show ?thesis
      using False z
      by (simp add: cf_open_write_def assert_some_def check_def w w2 writing_def body_def at_end_def Let_def)
  qed
qed

text \<open>The client may replace its header by one of the same length until the file is closed.\<close>

lemma writing_close_hdr:
  assumes z: "compressed \<Longrightarrow> cctx_ok z frame m cinv held" and m: "compressed \<Longrightarrow> m < fuel" and "hdr \<noteq> []"
    and wr: "writing cinv h hdr compressed i f" and hdr': "length hdr' = length hdr"
  shows "\<exists>w. cf_close z fuel (f\<lparr>cf_hdr_buf := hdr'\<rparr>) =
        Inr (comp_hdr_bytes (h\<lparr>comp_decompressed_size := of_nat (length i)\<rparr>) @ hdr' @ w) \<and>
      (if compressed then frame w i else w = i)"
proof (cases "cf_comp_ctx f")
  case None
  then have "body (comp_hdr_bytes h @ hdr) i (f\<lparr>cf_hdr_buf := hdr'\<rparr>)"
    using wr by (simp add: writing_def body_def)
  from close_bytes [OF this, of z fuel] None wr assms(3) hdr' show ?thesis by (auto simp: writing_def)
next
  case (Some c)
  let ?f = "f\<lparr>cf_hdr_buf := hdr'\<rparr>"
  from Some wr obtain w where b: "body (comp_hdr_bytes h @ hdr) w ?f" "cinv False c i w" "cf_out_size ?f > 0"
    by (auto simp: writing_def body_def)
  have z: "cctx_ok z frame m cinv held" using z wr Some by (simp add: writing_def)
  have "held c < fuel" using cctx_okD(1) [OF z b(2)] m wr Some by (force simp: writing_def)
  from finish_loop_ok [OF z b(2,1,3) this] obtain f' w' where
    fin: "finish_loop z fuel c ?f = Inr f'" "frame w' i" "body (comp_hdr_bytes h @ hdr) w' f'" "settings f' = settings ?f"
    by blast
  let ?g = "f'\<lparr>cf_comp_ctx := None\<rparr>"
  have g: "\<not> cf_is_read ?g" "cf_hdr_buf ?g = hdr'" "cf_hdr_sz ?g = of_nat (length hdr)"
    "cf_decomp_size ?g = of_nat (length i)" "body (comp_hdr_bytes h @ hdr) w' ?g"
    using fin(3,4) wr by (simp_all add: settings_def writing_def body_def)
  have "cf_close z fuel ?f = cf_close z fuel ?g"
    using fin(1) Some by (simp add: cf_close_def)
  also have "\<dots> = Inr (comp_hdr_bytes (h\<lparr>comp_decompressed_size := of_nat (length i)\<rparr>) @ hdr' @ w')"
    using close_bytes [OF g(5), of z fuel] g(1-4) hdr' assms(3) by simp
  finally show ?thesis using fin(2) wr Some by (auto simp: writing_def)
qed

lemma writing_close:
  assumes "compressed \<Longrightarrow> cctx_ok z frame m cinv held" and "compressed \<Longrightarrow> m < fuel" and "hdr \<noteq> []"
    and "writing cinv h hdr compressed i f"
  shows "\<exists>w. cf_close z fuel f = Inr (comp_hdr_bytes (h\<lparr>comp_decompressed_size := of_nat (length i)\<rparr>) @ hdr @ w) \<and>
      (if compressed then frame w i else w = i)"
proof -
  have "f\<lparr>cf_hdr_buf := hdr\<rparr> = f" using assms(4) by (cases f) (simp add: writing_def)
  with writing_close_hdr [OF assms refl] show ?thesis by simp
qed

lemma save_layout:
  assumes z: "level \<noteq> 0 \<Longrightarrow> compressor_ok z frame m" and "hdr \<noteq> []" and m: "level \<noteq> 0 \<Longrightarrow> m < fuel"
    and "\<And>b. b \<in> set chunks \<Longrightarrow> Suc (length b) * Suc m \<le> fuel" and "level \<noteq> 0 \<or> [] \<notin> set chunks"
  shows "\<exists>w. save_file z cores fuel magic hdr level workers chunks =
        Inr (saved_bytes magic hdr (level \<noteq> 0) (length (concat chunks)) w) \<and>
      (if level \<noteq> 0 then frame w (concat chunks) else w = concat chunks)"
proof -
  obtain cinv held where z': "level \<noteq> 0 \<Longrightarrow> cctx_ok z frame m cinv held \<and> zstd_c_out_size z > 0"
    using z by (auto simp: compressor_ok_def)
  from open_write_ok [OF assms(2) this] obtain f where
    f: "cf_open_write z cores True magic (Some hdr) level workers = Inr f"
    "writing cinv \<lparr>comp_magic = magic, comp_is_compressed = of_bool (level \<noteq> 0),
       comp_header_size = of_nat (length hdr), comp_decompressed_size = 0\<rparr> hdr (level \<noteq> 0) [] f"
    by blast
  have z'': "level \<noteq> 0 \<Longrightarrow> cctx_ok z frame m cinv held" using z' by blast
  from cf_writes_ok [OF z'' assms(4,5) f(2)] obtain f' where
    f': "fold_res (cf_write z fuel) chunks f = Inr f'"
    "writing cinv \<lparr>comp_magic = magic, comp_is_compressed = of_bool (level \<noteq> 0),
       comp_header_size = of_nat (length hdr), comp_decompressed_size = 0\<rparr> hdr (level \<noteq> 0) (concat chunks) f'"
    by auto
  from writing_close [OF z'' m assms(2) f'(2)] show ?thesis
    using f(1) f'(1) by (auto simp: save_file_def saved_bytes_def)
qed


section \<open>Reading\<close>

text \<open>The decompressor has read \<open>p\<close> of the frame \<open>fr\<close> of \<open>x\<close>, handed out \<open>got\<close> and asks for
  \<open>k\<close>, at most \<open>lim\<close>, bytes.\<close>

definition reading ::
    "nat \<Rightarrow> ('d \<Rightarrow> buffer \<Rightarrow> buffer \<Rightarrow> bool) \<Rightarrow> buffer \<Rightarrow> buffer \<Rightarrow> 'd \<Rightarrow> nat \<Rightarrow> buffer \<Rightarrow> buffer \<Rightarrow> bool" where
  "reading lim dinv fr x d k p got \<longleftrightarrow>
     dinv d p got \<and> prefix got x \<and> (if p = fr then got = x else 0 < k \<and> k \<le> lim)"

lemma dctx_okD:
  assumes "dctx_ok z frame dinv" and "frame fr x" and "dinv d p got" and "prefix got x"
    and "prefix (p @ inp) fr" and "inp \<noteq> []" and "cap > 0"
  shows "\<exists>d' out n k. zstd_decompress z d inp cap = (d', out, n, Some k) \<and> n \<le> length inp \<and>
           (n > 0 \<or> out \<noteq> []) \<and> dinv d' (p @ take n inp) (got @ out) \<and> prefix (got @ out) x \<and>
           (if p @ take n inp = fr then got @ out = x else 0 < k \<and> k \<le> zstd_d_in_size z)"
  using assms(1) [unfolded dctx_ok_def, THEN conjunct2] assms(2-7) by blast

lemma reading_step:
  assumes "dctx_ok z frame dinv" and "frame fr x" and "reading (zstd_d_in_size z) dinv fr x d k p got"
    and "prefix (p @ inp) fr" and "inp \<noteq> []" and "cap > 0"
  obtains d' out n k' where "zstd_decompress z d inp cap = (d', out, n, Some k')" and "n \<le> length inp"
    and "n > 0 \<or> out \<noteq> []" and "reading (zstd_d_in_size z) dinv fr x d' k' (p @ take n inp) (got @ out)"
    and "(p @ take n inp) @ drop n inp = p @ inp"
    and "length (drop n inp) + (length x - length (got @ out)) < length inp + (length x - length got)"
proof -
  have "dinv d p got" "prefix got x" using assms(3) by (simp_all add: reading_def)
  from dctx_okD [OF assms(1,2) this assms(4,5,6)] obtain d' out n k' where
    s: "zstd_decompress z d inp cap = (d', out, n, Some k')" "n \<le> length inp" "n > 0 \<or> out \<noteq> []"
    "dinv d' (p @ take n inp) (got @ out)" "prefix (got @ out) x"
    "if p @ take n inp = fr then got @ out = x else 0 < k' \<and> k' \<le> zstd_d_in_size z"
    by blast
  have "length (got @ out) \<le> length x" using s(5) by (rule prefix_length_le)
  with s(2,3) assms(5)
  have "length (drop n inp) + (length x - length (got @ out)) < length inp + (length x - length got)"
    by (cases "n = 0"; cases out) auto
  with s show ?thesis by (intro that [of d' out n k']) (auto simp: reading_def)
qed

lemma decompress_chunk_ok:
  assumes z: "dctx_ok z frame dinv" and fr: "frame fr x" and "length x \<le> sz"
  shows "reading (zstd_d_in_size z) dinv fr x d k p got \<Longrightarrow> prefix (p @ inp) fr \<Longrightarrow> cf_out_size f > 0 \<Longrightarrow>
      length inp + (length x - length got) < fuel \<Longrightarrow>
      \<exists>d' k' got' f'. decompress_chunk z sz fuel inp d k got f = Inr (d', k', got', f') \<and>
         reading (zstd_d_in_size z) dinv fr x d' k' (p @ inp) got' \<and> cf_fh f' = cf_fh f \<and> settings f' = settings f"
proof (induction fuel arbitrary: inp d k p got f)
  case 0
  then show ?case by simp
next
  case (Suc fuel)
  show ?case
  proof (cases "inp = []")
    case True
    with Suc.prems(1) show ?thesis by simp
  next
    case False
    obtain d' out n k' where
      s: "zstd_decompress z d inp (cf_out_size f) = (d', out, n, Some k')" "n \<le> length inp"
      "n > 0 \<or> out \<noteq> []" "reading (zstd_d_in_size z) dinv fr x d' k' (p @ take n inp) (got @ out)"
      "(p @ take n inp) @ drop n inp = p @ inp"
      "length (drop n inp) + (length x - length (got @ out)) < length inp + (length x - length got)"
      by (rule reading_step [OF z fr Suc.prems(1,2) False Suc.prems(3)])
    let ?g = "f\<lparr>cf_num_zstd_ops := cf_num_zstd_ops f + 1\<rparr>"
    have "length (got @ out) \<le> sz"
      using s(4) assms(3) by (auto simp: reading_def dest: prefix_length_le)
    moreover have "\<exists>d'' k'' got'' f''.
        decompress_chunk z sz fuel (drop n inp) d' k' (got @ out) ?g = Inr (d'', k'', got'', f'') \<and>
        reading (zstd_d_in_size z) dinv fr x d'' k'' ((p @ take n inp) @ drop n inp) got'' \<and> cf_fh f'' = cf_fh ?g \<and>
        settings f'' = settings ?g"
      using Suc.prems(2,3,4) s(5,6) by (intro Suc.IH [OF s(4)]) simp_all
    ultimately show ?thesis
      using s(1) False unfolding s(5) by (auto simp: check_def Let_def settings_def)
  qed
qed

text \<open>A caller that asks for less than the chunk decodes to gets more than its buffer holds.\<close>

lemma decompress_chunk_overflows:
  assumes z: "dctx_ok z frame dinv" and fr: "frame fr x" and "sz < length x"
  shows "reading (zstd_d_in_size z) dinv fr x d k p got \<Longrightarrow> p @ inp = fr \<Longrightarrow> cf_out_size f > 0 \<Longrightarrow> length got \<le> sz \<Longrightarrow>
      length inp + (length x - length got) < fuel \<Longrightarrow>
      decompress_chunk z sz fuel inp d k got f = Inl Out_Of_Bounds"
proof (induction fuel arbitrary: inp d k p got f)
  case 0
  then show ?case by simp
next
  case (Suc fuel)
  have ne: "inp \<noteq> []" using Suc.prems(1,2,4) assms(3) by (auto simp: reading_def)
  have pre: "prefix (p @ inp) fr" using Suc.prems(2) by simp
  obtain d' out n k' where
    s: "zstd_decompress z d inp (cf_out_size f) = (d', out, n, Some k')" "n \<le> length inp"
    "n > 0 \<or> out \<noteq> []" "reading (zstd_d_in_size z) dinv fr x d' k' (p @ take n inp) (got @ out)"
    "(p @ take n inp) @ drop n inp = p @ inp"
    "length (drop n inp) + (length x - length (got @ out)) < length inp + (length x - length got)"
    by (rule reading_step [OF z fr Suc.prems(1) pre ne Suc.prems(3)])
  let ?g = "f\<lparr>cf_num_zstd_ops := cf_num_zstd_ops f + 1\<rparr>"
  have "length (got @ out) \<le> sz \<Longrightarrow>
      decompress_chunk z sz fuel (drop n inp) d' k' (got @ out) ?g = Inl Out_Of_Bounds"
    using Suc.prems(2,3,5) s(5,6) by (intro Suc.IH [OF s(4)]) simp_all
  then show ?case using s(1) ne by (auto simp: check_def Let_def)
qed

lemma decompress_loop_ok:
  assumes z: "dctx_ok z frame dinv" and fr: "frame fr x" and timer: "length fr + length x < timer"
  shows "reading (zstd_d_in_size z) dinv fr x d k p got \<Longrightarrow> p @ rest = fr \<Longrightarrow>
      drop (f_pos (cf_fh f)) (f_bytes (cf_fh f)) = rest \<Longrightarrow> cf_out_size f > 0 \<and> cf_in_size f = zstd_d_in_size z \<Longrightarrow> length rest < fuel \<Longrightarrow>
      \<exists>f'. decompress_loop z timer (length x) fuel d k got f = Inr (x, f') \<and> settings f' = settings f"
proof (induction fuel arbitrary: d k p got rest f)
  case 0
  then show ?case by simp
next
  case (Suc fuel)
  show ?case
  proof (cases "length got = length x")
    case True
    with Suc.prems(1) have "got = x" by (auto simp: reading_def prefix_def)
    with True show ?thesis by (auto simp: settings_def)
  next
    case False
    then have "p \<noteq> fr" "k > 0" and lim: "k \<le> cf_in_size f"
      using Suc.prems(1,4) by (auto simp: reading_def split: if_splits)
    with Suc.prems(2) have rest: "rest \<noteq> []" by auto
    let ?inp = "take k rest"
    have inp: "?inp \<noteq> []" "p @ ?inp @ drop k rest = fr" using rest \<open>k > 0\<close> Suc.prems(2) by simp_all
    let ?fh = "(cf_fh f)\<lparr>f_pos := f_pos (cf_fh f) + length ?inp\<rparr>"
    let ?g = "f\<lparr>cf_fh := ?fh, cf_num_disk_ops := cf_num_disk_ops f + 1\<rparr>"
    have rd: "fread_bytes k (cf_fh f) = (?inp, ?fh)" using Suc.prems(3) by (simp add: fread_bytes_def)
    have pre: "prefix (p @ ?inp) fr" using inp(2) by (metis append.assoc prefixI)
    have "length (p @ ?inp) \<le> length fr" using pre by (rule prefix_length_le)
    then have "length ?inp + (length x - length got) < timer" using timer by simp
    from decompress_chunk_ok [OF z fr order_refl Suc.prems(1) pre _ this, of ?g] Suc.prems(4)
    obtain d' k' got' f' where
      c: "decompress_chunk z (length x) timer ?inp d k got ?g = Inr (d', k', got', f')"
      "reading (zstd_d_in_size z) dinv fr x d' k' (p @ ?inp) got'" "cf_fh f' = ?fh" "settings f' = settings f"
      by (auto simp: settings_def)
    have "drop (f_pos (cf_fh f')) (f_bytes (cf_fh f')) = drop (length ?inp) rest"
      using Suc.prems(3) [symmetric] c(3) by (simp add: add.commute)
    then have "drop (f_pos (cf_fh f')) (f_bytes (cf_fh f')) = drop k rest"
      by (cases "k \<le> length rest") simp_all
    moreover have "cf_out_size f' > 0 \<and> cf_in_size f' = zstd_d_in_size z" using c(4) Suc.prems(4) by (simp add: settings_def)
    moreover have "length (drop k rest) < fuel" using Suc.prems(5) rest \<open>k > 0\<close> by (cases rest) auto
    ultimately have "\<exists>f''. decompress_loop z timer (length x) fuel d' k' got' f' = Inr (x, f'') \<and> settings f'' = settings f'"
      using inp(2) by (intro Suc.IH [OF c(2), of "drop k rest"]) simp_all
    then show ?thesis using False rd c(1,4) inp(1) lim by (auto simp: Let_def)
  qed
qed


section \<open>Opening a saved file\<close>

lemma decompressor_okE:
  assumes "decompressor_ok z frame"
  obtains dinv d where "dctx_ok z frame dinv" and "zstd_dctx z = Some d" and "dinv d [] []"
    and "zstd_d_in_size z > 0" and "zstd_d_out_size z > 0" and "\<forall>x. \<not> frame [] x"
proof -
  from assms obtain dinv where "dctx_ok z frame dinv" unfolding decompressor_ok_def by blast
  moreover from this obtain d where "zstd_dctx z = Some d" "dinv d [] []" unfolding dctx_ok_def by blast
  ultimately show ?thesis using assms by (intro that [of dinv d]) (simp_all add: decompressor_ok_def)
qed

lemma open_saved:
  assumes "hdr \<noteq> []" and "length hdr < 2 ^ 64" and "n < 2 ^ 64" and d: "compressed \<Longrightarrow> zstd_dctx z = Some d"
  shows "\<exists>f. cf_open_read z (Some (saved_bytes magic hdr compressed n w)) (of_nat (length hdr)) magic = Inr f \<and>
     drop (f_pos (cf_fh f)) (f_bytes (cf_fh f)) = w \<and> cf_hdr_buf f = hdr \<and> cf_is_read f \<and>
     cf_decomp_size f = of_nat n \<and> cf_decomp_ctx f = (if compressed then Some d else None) \<and>
     (compressed \<longrightarrow> cf_in_size f = zstd_d_in_size z \<and> cf_out_size f = zstd_d_out_size z)"
proof -
  let ?h = "\<lparr>comp_magic = magic, comp_is_compressed = of_bool compressed,
       comp_header_size = of_nat (length hdr), comp_decompressed_size = of_nat n\<rparr>"
  let ?b = "saved_bytes magic hdr compressed n w"
  have b: "?b = comp_hdr_bytes ?h @ hdr @ w" by (simp add: saved_bytes_def)
  have h1: "has_bytes ?b 0 (comp_hdr_bytes ?h)" and h2: "has_bytes ?b 32 hdr"
    by (simp_all add: b has_bytes_def)
  have "comp_hdr_bytes ?h \<noteq> []" by (metis comp_hdr_bytes_length list.size(3) zero_neq_numeral)
  then have r1: "fread_one sizeof_comp_hdr \<lparr>f_bytes = ?b, f_pos = 0\<rparr> =
      Inr (comp_hdr_bytes ?h, \<lparr>f_bytes = ?b, f_pos = 32\<rparr>)"
    using fread_one_ok [of "\<lparr>f_bytes = ?b, f_pos = 0\<rparr>" "comp_hdr_bytes ?h"] h1
    by (simp add: sizeof_comp_hdr_def)
  have r2: "fread_one (length hdr) \<lparr>f_bytes = ?b, f_pos = 32\<rparr> =
      Inr (hdr, \<lparr>f_bytes = ?b, f_pos = 32 + length hdr\<rparr>)"
    using fread_one_ok [of "\<lparr>f_bytes = ?b, f_pos = 32\<rparr>" hdr] h2 assms(1) by simp
  have "has_bytes (comp_hdr_bytes ?h) 0 (comp_hdr_bytes ?h)" by (simp add: has_bytes_def)
  note l = load_comp_hdr_bytes [OF this]
  have u: "unat (of_nat (length hdr) :: u64) = length hdr"
    using assms(2) by (simp add: unat_of_nat take_bit_nat_eq_self)
  have dr: "drop (32 + length hdr) (saved_bytes magic hdr c n w) = w" for c by (simp add: saved_bytes_def)
  show ?thesis
    by (simp add: cf_open_read_def check_def assert_some_def r1 l u r2 d dr Let_def)
qed

lemma fetch_saved:
  assumes "hdr \<noteq> []" and "length hdr < 2 ^ 64" and "length x < 2 ^ 64" and z: "decompressor_ok z frame"
    and w: "if compressed then frame w x else w = x \<and> x \<noteq> []" and timer: "length w + length x < timer"
  shows "fetch_file z timer (of_nat (length hdr)) magic (saved_bytes magic hdr compressed (length x) w) = Inr (hdr, x)"
proof -
  obtain dinv d where dinv: "dctx_ok z frame dinv" "zstd_dctx z = Some d" "dinv d [] []"
    and sz: "zstd_d_in_size z > 0" "zstd_d_out_size z > 0" and ne: "\<forall>x. \<not> frame [] x"
    by (rule decompressor_okE [OF z])
  from open_saved [of hdr "length x" compressed z d magic w, OF assms(1-3) dinv(2)] obtain f where
    f: "cf_open_read z (Some (saved_bytes magic hdr compressed (length x) w)) (of_nat (length hdr)) magic = Inr f"
    "drop (f_pos (cf_fh f)) (f_bytes (cf_fh f)) = w" "cf_hdr_buf f = hdr" "cf_is_read f"
    "cf_decomp_size f = of_nat (length x)" "cf_decomp_ctx f = (if compressed then Some d else None)"
    "compressed \<longrightarrow> cf_in_size f = zstd_d_in_size z \<and> cf_out_size f = zstd_d_out_size z"
    by blast
  have u: "unat (cf_decomp_size f) = length x"
    using f(5) assms(3) by (simp add: unat_of_nat take_bit_nat_eq_self)
  show ?thesis
  proof (cases compressed)
    case True
    with w ne have fr: "frame w x" "w \<noteq> []" by auto
    then have "reading (zstd_d_in_size z) dinv w x d (zstd_d_in_size z) [] []"
      using dinv(3) sz(1) by (simp add: reading_def)
    from decompress_loop_ok [OF dinv(1) fr(1) timer this _ f(2), of timer] obtain f' where
      "decompress_loop z timer (length x) timer d (zstd_d_in_size z) [] f = Inr (x, f')" "settings f' = settings f"
      using True f(7) sz(2) timer by auto
    then show ?thesis
      using True f u by (simp add: fetch_file_def cf_read_def cf_read_n_def settings_def)
  next
    case False
    with w have "w = x" "x \<noteq> []" by simp_all
    then have "has_bytes (f_bytes (cf_fh f)) (f_pos (cf_fh f)) x"
      using f(2) by (auto simp: has_bytes_def)
    from fread_one_ok [OF this \<open>x \<noteq> []\<close>] show ?thesis
      using False f u by (simp add: fetch_file_def cf_read_def cf_read_n_def)
  qed
qed

text \<open>Without compression neither an empty chunk nor an empty body gets through.\<close>

lemma cf_write_empty:
  "writing cinv h hdr False i f \<Longrightarrow> cf_write z fuel [] f = Inl Assertion_Failed"
  by (auto simp: cf_write_def writing_def disk_write_def)

lemma writes_empty:
  "writing cinv h hdr False i f \<Longrightarrow> [] \<in> set chunks \<Longrightarrow>
     fold_res (cf_write z fuel) chunks f = Inl Assertion_Failed"
proof (induction chunks arbitrary: i f)
  case Nil
  then show ?case by simp
next
  case (Cons b chunks)
  show ?case
  proof (cases "b = []")
    case True
    then show ?thesis using cf_write_empty [OF Cons.prems(1)] by simp
  next
    case False
    have "\<exists>f'. cf_write z (Suc (length b)) b f = Inr f' \<and> writing cinv h hdr False (i @ b) f'"
      by (rule cf_write_ok [where m = 0, OF _ Cons.prems(1)]) (simp_all add: False)
    moreover have "cf_write z (Suc (length b)) b f = cf_write z fuel b f"
      using Cons.prems(1) by (simp add: cf_write_def writing_def)
    ultimately show ?thesis using Cons.IH Cons.prems(2) False by auto
  qed
qed

lemma save_empty_chunk:
  assumes "hdr \<noteq> []" and "[] \<in> set chunks"
  shows "save_file z cores fuel magic hdr 0 workers chunks = Inl Assertion_Failed"
proof -
  from open_write_ok [where level = 0, OF assms(1)] obtain f where
    "cf_open_write z cores True magic (Some hdr) 0 workers = Inr f"
    "writing (\<lambda>_ _ _ _. True) \<lparr>comp_magic = magic, comp_is_compressed = of_bool ((0 :: int) \<noteq> 0),
       comp_header_size = of_nat (length hdr), comp_decompressed_size = 0\<rparr> hdr ((0 :: int) \<noteq> 0) [] f"
    by blast
  then show ?thesis using writes_empty [of _ _ hdr "[]" f chunks] assms(2) by (simp add: save_file_def)
qed

lemma fetch_empty:
  assumes "hdr \<noteq> []" and "length hdr < 2 ^ 64"
  shows "\<exists>bytes. save_file z cores fuel magic hdr 0 workers [] = Inr bytes \<and>
     fetch_file z timer (of_nat (length hdr)) magic bytes = Inl Assertion_Failed"
proof -
  have "\<exists>w. save_file z cores fuel magic hdr 0 workers [] =
        Inr (saved_bytes magic hdr ((0 :: int) \<noteq> 0) (length (concat ([] :: buffer list))) w) \<and>
      (if (0 :: int) \<noteq> 0 then undefined w (concat []) else w = concat [])"
    by (rule save_layout) (simp_all add: assms(1))
  then have "save_file z cores fuel magic hdr 0 workers [] = Inr (saved_bytes magic hdr False 0 [])" by simp
  moreover from open_saved [of hdr 0 False z undefined magic "[]"] assms obtain f where
    "cf_open_read z (Some (saved_bytes magic hdr False 0 [])) (of_nat (length hdr)) magic = Inr f"
    "cf_is_read f" "cf_decomp_size f = 0" "cf_decomp_ctx f = None"
    by auto
  ultimately show ?thesis by (simp add: fetch_file_def cf_read_def cf_read_n_def)
qed

section \<open>An instance of the contract\<close>

text \<open>
  A codec that stores its input and ends a frame with one more byte; its decoder holds the
  last byte back, since it may be that one.
\<close>

definition store_zstd :: "(unit, byte option) zstd_lib" where
  "store_zstd = \<lparr>zstd_cctx = Some (), zstd_params = (\<lambda>c _ _. Some c), zstd_dctx = Some None,
     zstd_compress = (\<lambda>c fin inp cap.
       if fin then (c, [0], 0, Some 0) else (c, take cap inp, min cap (length inp), Some 0)),
     zstd_decompress = (\<lambda>d inp cap.
       (Some (hd inp), case d of None \<Rightarrow> [] | Some b \<Rightarrow> [b], 1, Some 1)),
     zstd_c_out_size = 4, zstd_d_in_size = 16, zstd_d_out_size = 4\<rparr>"

definition store_frame :: "buffer \<Rightarrow> buffer \<Rightarrow> bool" where
  "store_frame fr x \<longleftrightarrow> fr = x @ [0]"

lemma store_d_in_size: "zstd_d_in_size store_zstd = 16"
  by (simp add: store_zstd_def)

lemma store_compressor_ok: "compressor_ok store_zstd store_frame 0"
proof -
  have "cctx_ok store_zstd store_frame 0 (\<lambda>_ _ i w. w = i) (\<lambda>_. 0)"
    by (auto simp: cctx_ok_def store_zstd_def store_frame_def min_def)
  then show ?thesis unfolding compressor_ok_def by (auto simp: store_zstd_def)
qed

lemma store_decompressor_ok: "decompressor_ok store_zstd store_frame"
proof -
  let ?dinv = "\<lambda>d p got. got = butlast p \<and> d = (if p = [] then None else Some (last p))"
  have "dctx_ok store_zstd store_frame ?dinv"
    unfolding dctx_ok_def
  proof (intro conjI allI impI)
    show "\<exists>d0. zstd_dctx store_zstd = Some d0 \<and> ?dinv d0 [] []" by (simp add: store_zstd_def)
    fix fr x :: buffer and d p got inp and cap :: nat
    assume a: "store_frame fr x" "?dinv d p got" "prefix (p @ inp) fr" "inp \<noteq> []"
    obtain b bs where inp: "inp = b # bs" using a(4) by (cases inp) auto
    have out: "got @ (case d of None \<Rightarrow> [] | Some b \<Rightarrow> [b]) = p"
      using a(2) by (cases p rule: rev_cases) auto
    obtain r where r: "x @ [0] = p @ b # bs @ r" using a(1,3) inp by (auto simp: store_frame_def prefix_def)
    have "x = p @ butlast (b # bs @ r)" using arg_cong [OF r, of butlast] by (simp add: butlast_append)
    then have "prefix p x" by simp
    moreover have "p @ [b] = fr \<Longrightarrow> p = x" using a(1) by (simp add: store_frame_def)
    moreover have "zstd_decompress store_zstd d inp cap = (Some b, case d of None \<Rightarrow> [] | Some b \<Rightarrow> [b], 1, Some 1)"
      by (simp add: store_zstd_def inp)
    ultimately show "\<exists>d' out n k. zstd_decompress store_zstd d inp cap = (d', out, n, Some k) \<and> n \<le> length inp \<and>
        (n > 0 \<or> out \<noteq> []) \<and> ?dinv d' (p @ take n inp) (got @ out) \<and> prefix (got @ out) x \<and>
        (if p @ take n inp = fr then got @ out = x else 0 < k \<and> k \<le> zstd_d_in_size store_zstd)"
      using out inp by (simp add: store_d_in_size)
  qed
  then show ?thesis unfolding decompressor_ok_def by (auto simp: store_zstd_def store_frame_def)
qed

section \<open>Properties\<close>

text \<open>C12: A file that is written in any number of chunks and closed is the container's header with
  the size of the body, the client's header, and the body itself or its zstd frame; opened
  again with the same magic and header size, it gives back the header and the whole body.\<close>

theorem compressed_file_round_trip:
  assumes "compressor_ok z frame m" and "decompressor_ok z frame" and "hdr \<noteq> []" and "length hdr < 2 ^ 64"
    and "length (concat chunks) < 2 ^ 64" and "m < fuel" and "\<forall>b\<in>set chunks. Suc (length b) * Suc m \<le> fuel"
    and "level = 0 \<longrightarrow> chunks \<noteq> [] \<and> [] \<notin> set chunks"
  shows "\<exists>w. save_file z cores fuel magic hdr level workers chunks =
        Inr (saved_bytes magic hdr (level \<noteq> 0) (length (concat chunks)) w) \<and>
      (if level \<noteq> 0 then frame w (concat chunks) else w = concat chunks) \<and>
      (\<forall>timer > length w + length (concat chunks).
        fetch_file z timer (of_nat (length hdr)) magic
          (saved_bytes magic hdr (level \<noteq> 0) (length (concat chunks)) w) = Inr (hdr, concat chunks))"
proof -
  have "level \<noteq> 0 \<or> [] \<notin> set chunks" using assms(8) by auto
  from save_layout [OF assms(1,3,6) _ this] assms(7) obtain w where
    w: "save_file z cores fuel magic hdr level workers chunks =
        Inr (saved_bytes magic hdr (level \<noteq> 0) (length (concat chunks)) w)"
    "if level \<noteq> 0 then frame w (concat chunks) else w = concat chunks"
    by blast
  have "concat chunks \<noteq> []" if "level = 0" using assms(8) that by (cases chunks) auto
  with w(2) have "if level \<noteq> 0 then frame w (concat chunks) else w = concat chunks \<and> concat chunks \<noteq> []"
    by auto
  from fetch_saved [OF assms(3,4,5,2) this] w show ?thesis by blast
qed

theorem compressed_file_round_trip_witness:
  "\<exists>w. save_file store_zstd 8 100 7 [1, 2] 3 0 [[10, 11, 12, 13, 14], [], [15]] =
      Inr (saved_bytes 7 [1, 2] True (length [10, 11, 12, 13, 14, 15 :: byte]) w) \<and> store_frame w [10, 11, 12, 13, 14, 15] \<and>
    (\<forall>timer > length w + length [10, 11, 12, 13, 14, 15 :: byte].
       fetch_file store_zstd timer 2 7 (saved_bytes 7 [1, 2] True (length [10, 11, 12, 13, 14, 15 :: byte]) w) =
       Inr ([1, 2], [10, 11, 12, 13, 14, 15]))"
  using compressed_file_round_trip [OF store_compressor_ok store_decompressor_ok,
    of "[1, 2]" "[[10, 11, 12, 13, 14], [], [15]]" 100 3 8 7 0]
  by simp

text \<open>A compressed file that fits one read of the input buffer cannot be read in parts: asking
  for fewer bytes than the body has writes past the end of the caller's buffer.\<close>

lemma partial_read_overflows:
  assumes "decompressor_ok z frame" and "hdr \<noteq> []" and "length hdr < 2 ^ 64" and "length x < 2 ^ 64"
    and "frame w x" and "length w \<le> zstd_d_in_size z" and "0 < sz" and "sz < length x"
    and "length w + length x < timer"
  shows "and_then (cf_open_read z (Some (saved_bytes magic hdr True (length x) w)) (of_nat (length hdr)) magic)
     (cf_read_n z timer sz) = Inl Out_Of_Bounds"
proof -
  obtain dinv d where dinv: "dctx_ok z frame dinv" "zstd_dctx z = Some d" "dinv d [] []"
    and zs: "zstd_d_in_size z > 0" "zstd_d_out_size z > 0" and "\<forall>x. \<not> frame [] x"
    by (rule decompressor_okE [OF assms(1)])
  then have ne: "w \<noteq> []" using assms(5) by auto
  from open_saved [of hdr "length x" True z d magic w, OF assms(2-4) dinv(2)] obtain f where
    f: "cf_open_read z (Some (saved_bytes magic hdr True (length x) w)) (of_nat (length hdr)) magic = Inr f"
    "drop (f_pos (cf_fh f)) (f_bytes (cf_fh f)) = w" "cf_is_read f" "cf_decomp_ctx f = Some d"
    "cf_in_size f = zstd_d_in_size z" "cf_out_size f = zstd_d_out_size z"
    by auto
  have rd: "reading (zstd_d_in_size z) dinv w x d (zstd_d_in_size z) [] []"
    using dinv(3) zs(1) ne by (simp add: reading_def)
  obtain fuel where fuel: "timer = Suc fuel" using assms(9) by (cases timer) auto
  have rb: "fread_bytes (cf_in_size f) (cf_fh f) = (w, (cf_fh f)\<lparr>f_pos := f_pos (cf_fh f) + length w\<rparr>)"
    using f(2,5) assms(6) by (simp add: fread_bytes_def)
  have "decompress_loop z timer sz timer d (cf_in_size f) [] f = Inl Out_Of_Bounds"
    unfolding fuel using assms(7,9) ne f(5,6) zs fuel rd
    by (simp add: rb [unfolded f(5)] Let_def decompress_chunk_overflows [OF dinv(1) assms(5,8) rd]
        del: decompress_chunk.simps)
  then show ?thesis using f by (simp add: cf_read_n_def)
qed

lemma partial_read_overflows_witness:
  "and_then (cf_open_read store_zstd (Some (saved_bytes 7 [1, 2] True (length [5, 6, 7 :: byte]) [5, 6, 7, 0])) 2 7)
     (cf_read_n store_zstd 100 2) = Inl Out_Of_Bounds"
  using partial_read_overflows [OF store_decompressor_ok, of "[1, 2]" "[5, 6, 7]" "[5, 6, 7, 0]" 2 100 7]
  by (simp add: store_frame_def store_d_in_size)

text \<open>With level 0 an empty chunk ends the program, wherever it comes in the body: \<^verbatim>\<open>fwrite\<close> of
  an empty item returns 0, which is asserted to be 1.  A body with no chunk at all can be
  saved, but not read back.\<close>

lemma empty_chunks_abort:
  assumes "hdr \<noteq> []" and "length hdr < 2 ^ 64"
  shows "([] \<in> set chunks \<longrightarrow> save_file z cores fuel magic hdr 0 workers chunks = Inl Assertion_Failed) \<and>
    (\<exists>bytes. save_file z cores fuel magic hdr 0 workers [] = Inr bytes \<and>
       fetch_file z timer (of_nat (length hdr)) magic bytes = Inl Assertion_Failed)"
  using save_empty_chunk [OF assms(1)] fetch_empty [OF assms] by blast

lemma empty_chunks_abort_witness:
  "save_file store_zstd 8 0 7 [1, 2] 0 0 [[3], [], [4]] = Inl Assertion_Failed \<and>
   (\<exists>bytes. save_file store_zstd 8 0 7 [1, 2] 0 0 [] = Inr bytes \<and>
     fetch_file store_zstd 5 2 7 bytes = Inl Assertion_Failed)"
  using empty_chunks_abort [of "[1, 2]" "[[3], [], [4]]" store_zstd 8 0 7 0 5] by simp

end
