(* ===== verification/Target.thy ===== *)
theory Target
  imports CompressedFile IntTypes
begin

text \<open>
  What the tracer reads out of the traced task: its memory (\<^verbatim>\<open>lib/xnu-trace/mach.cpp\<close>), its
  VM regions (\<^verbatim>\<open>VMRegions.cpp\<close>), the segments of a Mach-O image (\<^verbatim>\<open>macho.cpp\<close>) and the
  list of loaded images (\<^verbatim>\<open>dyld.cpp\<close>).

  The kernel is a parameter: \<open>target\<close> holds the answers of its calls for one task, None for
  a call that fails.  So is the layout of dyld's structures, \<open>dyld_abi\<close>, which the system's
  headers define.  Sizes and offsets of Mach-O are those of \<^verbatim>\<open><mach-o/loader.h>\<close>.
\<close>

record region =
  r_base :: u64
  r_size :: u64
  r_depth :: u32
  r_prot :: u32
  r_tag :: u32
  r_submap :: bool

record target =
  vm_read_overwrite :: "u64 \<Rightarrow> u64 \<Rightarrow> buffer option"
  vm_region_recurse_64 :: "u64 \<Rightarrow> u32 \<Rightarrow> region option"
  task_dyld_info :: "(bool \<times> u64 \<times> u64) option"  \<comment> \<open>is the format 64 bit; address; size\<close>
  symbol_owner_uuid :: "u64 \<Rightarrow> buffer option"
  symbolicator :: bool
  task_given :: bool                          \<comment> \<open>\<^verbatim>\<open>m_target_task\<close> is not the null port\<close>
  target_is_self :: bool
  can_suspend :: bool
  can_resume :: bool

section \<open>Memory\<close>

definition read_target :: "target \<Rightarrow> u64 \<Rightarrow> u64 \<Rightarrow> buffer res" where
  "read_target t target_addr sz =
     and_then (check (vm_read_overwrite t target_addr sz)) (\<lambda>res.
     and_then (assert_that (length res = unat sz)) (\<lambda>_. Inr res))"

text \<open>
  The loop reads up to the end of a page at a time and stops at the first page with a zero
  byte; the string ends at the first zero byte.
\<close>

definition next_page :: "u64 \<Rightarrow> u64" where
  "next_page target_addr =
     (if target_addr mod PAGE_SZ \<noteq> 0 then roundup_pow2_mul target_addr PAGE_SZ else target_addr + PAGE_SZ)"

primrec read_cstr_loop :: "target \<Rightarrow> nat \<Rightarrow> buffer \<Rightarrow> u64 \<Rightarrow> buffer res" where
  "read_cstr_loop t 0 buf target_addr = Inl Out_Of_Fuel"
| "read_cstr_loop t (Suc fuel) buf target_addr =
     (let end_addr = next_page target_addr
      in and_then (read_target t target_addr (end_addr - target_addr)) (\<lambda>smol_buf.
         let buf = buf @ smol_buf
         in if 0 \<notin> set buf then read_cstr_loop t fuel buf end_addr
            else Inr (takeWhile (\<lambda>b. b \<noteq> 0) buf)))"

definition read_cstr_target :: "target \<Rightarrow> nat \<Rightarrow> u64 \<Rightarrow> buffer res" where
  "read_cstr_target t fuel target_addr = read_cstr_loop t fuel [] target_addr"

section \<open>VM regions\<close>

text \<open>
  The kernel answers with the first region that ends after \<open>addr\<close>, at the given depth; the
  loop goes into a submap by asking again one level deeper.  It ends when the call fails.
\<close>

primrec vm_regions_loop :: "target \<Rightarrow> nat \<Rightarrow> u64 \<Rightarrow> u32 \<Rightarrow> region list res" where
  "vm_regions_loop t 0 addr depth = Inl Out_Of_Fuel"
| "vm_regions_loop t (Suc fuel) addr depth =
     (case vm_region_recurse_64 t addr depth of
        None \<Rightarrow> Inr []
      | Some r \<Rightarrow>
          and_then (if r_submap r then vm_regions_loop t fuel (r_base r) (r_depth r + 1)
                    else vm_regions_loop t fuel (r_base r + r_size r) (r_depth r)) (\<lambda>rs. Inr (r # rs)))"

definition get_vm_regions :: "target \<Rightarrow> nat \<Rightarrow> region list res" where
  "get_vm_regions t fuel = and_then (vm_regions_loop t fuel 0 0) (\<lambda>res. Inr (sort_key r_base res))"

definition suspend_target :: "target \<Rightarrow> unit res" where
  "suspend_target t = (if target_is_self t \<or> can_suspend t then Inr () else Inl Process_Exit)"

definition resume_target :: "target \<Rightarrow> unit res" where
  "resume_target t = (if target_is_self t \<or> can_resume t then Inr () else Inl Process_Exit)"

text \<open>\<^verbatim>\<open>VMRegions::reset\<close>: the task is suspended while its regions are listed.\<close>

definition vm_regions_reset :: "target \<Rightarrow> nat \<Rightarrow> region list res" where
  "vm_regions_reset t fuel =
     and_then (suspend_target t) (\<lambda>_. and_then (get_vm_regions t fuel) (\<lambda>m_all_regions.
     and_then (resume_target t) (\<lambda>_. Inr m_all_regions)))"

section \<open>Mach-O segments\<close>

record segment_command_64 =
  segname :: buffer
  vmaddr :: u64
  vmsize :: u64
  maxprot :: u32

definition sizeof_mach_header_64 :: u64 where "sizeof_mach_header_64 = 32"
definition sizeof_segment_command_64 :: nat where "sizeof_segment_command_64 = 72"
definition LC_SEGMENT_64 :: u32 where "LC_SEGMENT_64 = 0x19"
definition VM_PROT_EXECUTE :: u32 where "VM_PROT_EXECUTE = 4"

text \<open>\<^verbatim>\<open>strncmp(seg->segname, "__PAGEZERO", 16)\<close> is 0.\<close>

definition is_pagezero :: "buffer \<Rightarrow> bool" where
  "is_pagezero name \<longleftrightarrow> takeWhile (\<lambda>b. b \<noteq> 0) name = map of_char ''__PAGEZERO''"

definition load_segment :: "buffer \<Rightarrow> nat \<Rightarrow> segment_command_64 res" where
  "load_segment buf p =
     (if p + sizeof_segment_command_64 \<le> length buf then
        and_then (load_bytes 16 buf (p + 8)) (\<lambda>nm.
        and_then (load buf (p + 24)) (\<lambda>addr. and_then (load buf (p + 32)) (\<lambda>sz.
        and_then (load buf (p + 56)) (\<lambda>prot.
        Inr \<lparr>segname = nm, vmaddr = addr, vmsize = sz, maxprot = prot\<rparr>))))
      else Inl Out_Of_Bounds)"

text \<open>\<open>p\<close> is the offset of \<^verbatim>\<open>lc\<close> into the buffer of load commands, which ends at its length.\<close>

primrec macho_segs_loop :: "buffer \<Rightarrow> nat \<Rightarrow> nat \<Rightarrow> segment_command_64 list res" where
  "macho_segs_loop cmd_buf 0 p = Inl Out_Of_Fuel"
| "macho_segs_loop cmd_buf (Suc fuel) p =
     (if p < length cmd_buf then
        and_then (load cmd_buf p) (\<lambda>cmd.
        and_then
          (if cmd \<noteq> LC_SEGMENT_64 then Inr []
           else and_then (load_bytes 16 cmd_buf (p + 8)) (\<lambda>nm.
             if is_pagezero nm then Inr [] else and_then (load_segment cmd_buf p) (\<lambda>seg. Inr [seg])))
          (\<lambda>segs. and_then (load cmd_buf (p + 4)) (\<lambda>cmdsize :: u32.
             and_then (macho_segs_loop cmd_buf fuel (p + unat cmdsize)) (\<lambda>rest. Inr (segs @ rest)))))
      else Inr [])"

definition read_macho_segs_target :: "target \<Rightarrow> nat \<Rightarrow> u64 \<Rightarrow> segment_command_64 list res" where
  "read_macho_segs_target t fuel macho_hdr_addr =
     and_then (read_target t macho_hdr_addr sizeof_mach_header_64) (\<lambda>hdr_buf.
     and_then (load hdr_buf 20) (\<lambda>sizeofcmds :: u32.
     and_then (read_target t (macho_hdr_addr + sizeof_mach_header_64) (ucast sizeofcmds)) (\<lambda>cmd_buf.
     macho_segs_loop cmd_buf fuel 0)))"

definition exec_segments :: "segment_command_64 list \<Rightarrow> segment_command_64 list" where
  "exec_segments segments = filter (\<lambda>seg. maxprot seg AND VM_PROT_EXECUTE \<noteq> 0) segments"

definition get_text_size :: "segment_command_64 list \<Rightarrow> u64 res" where
  "get_text_size segments =
     and_then (assert_that (length (exec_segments segments) = 1)) (\<lambda>_.
     Inr (vmsize (last (exec_segments segments))))"

definition get_text_base :: "segment_command_64 list \<Rightarrow> u64 res" where
  "get_text_base segments =
     and_then (assert_that (length (exec_segments segments) = 1)) (\<lambda>_.
     Inr (vmaddr (last (exec_segments segments))))"

section \<open>Images\<close>

record image_info =
  img_base :: u64
  img_size :: u64
  img_slide :: u64
  img_path :: buffer
  img_uuid :: buffer
  img_bytes :: buffer
  img_digest :: buffer
  img_is_jit :: bool

record dyld_abi =
  off_infoArrayCount :: nat
  off_infoArray :: nat
  off_dyldImageLoadAddress :: nat
  off_dyldPath :: nat
  sizeof_dyld_image_info :: nat
  off_imageLoadAddress :: nat
  off_imageFilePath :: nat

definition image_at :: "target \<Rightarrow> nat \<Rightarrow> u64 \<Rightarrow> u64 \<Rightarrow> image_info res" where
  "image_at t fuel base path_addr =
     and_then (read_macho_segs_target t fuel base) (\<lambda>segs.
     and_then (get_text_size segs) (\<lambda>sz. and_then (get_text_base segs) (\<lambda>text_base.
     and_then (read_cstr_target t fuel path_addr) (\<lambda>path.
     Inr \<lparr>img_base = base, img_size = sz, img_slide = base - text_base, img_path = path,
          img_uuid = replicate 16 0, img_bytes = [], img_digest = replicate 32 0, img_is_jit = False\<rparr>))))"

definition get_dyld_image_infos :: "dyld_abi \<Rightarrow> target \<Rightarrow> nat \<Rightarrow> image_info list res" where
  "get_dyld_image_infos abi t fuel =
     and_then (check (task_dyld_info t)) (\<lambda>(is_64, info_addr, info_size).
     and_then (assert_that is_64) (\<lambda>_.
     and_then (read_target t info_addr info_size) (\<lambda>all.
     and_then (load all (off_infoArray abi)) (\<lambda>infoArray :: u64.
     if infoArray = 0 then Inr []
     else
       and_then (load all (off_dyldImageLoadAddress abi)) (\<lambda>dyld_base.
       and_then (load all (off_dyldPath abi)) (\<lambda>dyldPath.
       and_then (image_at t fuel dyld_base dyldPath) (\<lambda>dyld.
       and_then (load all (off_infoArrayCount abi)) (\<lambda>n :: u32.
       and_then (read_target t infoArray (ucast n * of_nat (sizeof_dyld_image_info abi))) (\<lambda>infos_buf.
       and_then (map_res (\<lambda>i.
           and_then (load infos_buf (i * sizeof_dyld_image_info abi + off_imageLoadAddress abi)) (\<lambda>base.
           and_then (load infos_buf (i * sizeof_dyld_image_info abi + off_imageFilePath abi)) (\<lambda>path.
           image_at t fuel base path))) [0..<unat n]) (\<lambda>images.
       Inr (sort_key img_base (dyld # images))))))))))))"

end
