(* ===== verification/TargetProps.thy ===== *)
theory TargetProps
  imports Target
begin

text \<open>
  What reading the traced task gives: a C string whatever pages it spans, the regions of a
  task whose address space is a list of regions, and the executable segments of an image.
\<close>

section \<open>Pages\<close>

text \<open>How many bytes are left in the page of an address.\<close>

definition page_rest :: "u64 \<Rightarrow> nat" where
  "page_rest a = 4096 - unat a mod 4096"

lemma page_rest_pos: "page_rest a > 0"
  by (simp add: page_rest_def)

lemma diff_and: "(y :: u64) - (y AND c) = y AND NOT c"
proof -
  have "y - (y AND c) = y AND NOT (y AND c)" by (rule disjunctive_diff) (simp add: bit_and_iff)
  also have "\<dots> = y AND NOT c" by (rule bit_word_eqI) (auto simp: bit_simps)
  finally show ?thesis .
qed

lemma page_end:
  "unat (next_page a - a) = page_rest a"
proof -
  have m: "unat (a mod PAGE_SZ) = unat a mod 4096" by (simp add: PAGE_SZ_def unat_mod)
  show ?thesis
  proof (cases "a mod PAGE_SZ = 0")
    case True
    then have "unat a mod 4096 = 0" using m by simp
    with True show ?thesis by (simp add: next_page_def page_rest_def PAGE_SZ_def)
  next
    case False
    then have nz: "unat a mod 4096 \<noteq> 0" using m by (metis unat_eq_0)
    let ?y = "a + 4095"
    have "?y AND NOT 4095 = ?y - (?y AND 4095)"
      using diff_and [of ?y 4095] by simp
    then have e: "roundup_pow2_mul a PAGE_SZ - a = 4095 - (?y AND 4095)"
      by (simp add: roundup_pow2_mul_def PAGE_SZ_def)
    have "(4095 :: u64) = mask 12" by (simp add: mask_eq_exp_minus_1)
    then have "?y AND 4095 = take_bit 12 ?y" by (simp add: take_bit_eq_mask)
    then have "unat (?y AND 4095) = unat ?y mod 4096" by (simp add: unat_mod take_bit_eq_mod)
    also have "\<dots> = (unat a + 4095) mod 4096" by (simp add: unat_word_ariths mod_mod_cancel)
    also have "\<dots> = unat a mod 4096 - 1"
    proof -
      obtain r where r: "unat a mod 4096 = Suc r" using nz by (cases "unat a mod 4096") auto
      then have "r < 4096" using mod_less_divisor [of 4096 "unat a"] by linarith
      have "(unat a + 4095) mod 4096 = (unat a mod 4096 + 4095) mod 4096" by (simp add: mod_add_left_eq)
      also have "\<dots> = (r + 4096) mod 4096" by (simp add: r)
      also have "\<dots> = unat a mod 4096 - 1" using \<open>r < 4096\<close> by (simp add: r)
      finally show ?thesis .
    qed
    finally have u: "unat (?y AND 4095) = unat a mod 4096 - 1" .
    have lt: "unat a mod 4096 < 4096" by simp
    have "?y AND 4095 \<le> 4095" by (rule word_and_le1)
    then have "unat (4095 - (?y AND 4095)) = 4095 - unat (?y AND 4095)" by (simp add: unat_sub)
    with False e u nz lt show ?thesis by (simp add: next_page_def page_rest_def)
  qed
qed

section \<open>C strings\<close>

text \<open>The bytes \<open>m\<close> of memory can be read from \<open>a\<close> to the end of the page of \<open>a + k\<close>.\<close>

definition readable :: "target \<Rightarrow> (u64 \<Rightarrow> byte) \<Rightarrow> u64 \<Rightarrow> nat \<Rightarrow> bool" where
  "readable t m a k \<longleftrightarrow>
     (\<forall>j \<le> k. \<forall>n. unat n \<le> page_rest (a + of_nat j) \<longrightarrow>
        vm_read_overwrite t (a + of_nat j) n = Some (map (\<lambda>i. m (a + of_nat j + of_nat i)) [0..<unat n]))"

lemma takeWhile_upto:
  assumes "f k = (0 :: byte)" and "\<And>i. i < k \<Longrightarrow> f i \<noteq> 0" and "k < n"
  shows "takeWhile (\<lambda>b. b \<noteq> 0) (map f [0..<n]) = map f [0..<k]"
proof -
  have "map f [0..<n] = map f [0..<k] @ 0 # map f [Suc k..<n]"
    using assms(1,3) by (metis (no_types, lifting) list.simps(9) map_append upt_add_eq_append
        upt_conv_Cons le_add_diff_inverse less_imp_le_nat zero_le)
  then show ?thesis using assms(2) by (simp add: takeWhile_append)
qed

lemma cstr_loop:
  assumes t: "readable t m a k" and k: "m (a + of_nat k) = 0" "\<And>i. i < k \<Longrightarrow> m (a + of_nat i) \<noteq> 0"
  shows "n \<le> k \<Longrightarrow> k - n < fuel \<Longrightarrow>
      read_cstr_loop t fuel (map (\<lambda>i. m (a + of_nat i)) [0..<n]) (a + of_nat n) =
        Inr (map (\<lambda>i. m (a + of_nat i)) [0..<k])"
proof (induction fuel arbitrary: n)
  case 0
  then show ?case by simp
next
  case (Suc fuel)
  let ?a = "a + of_nat n" and ?f = "\<lambda>i. m (a + of_nat i)"
  let ?e = "next_page ?a"
  let ?r = "page_rest ?a"
  have sz: "unat (?e - ?a) = ?r" by (rule page_end)
  have "vm_read_overwrite t ?a (?e - ?a) = Some (map (\<lambda>i. m (?a + of_nat i)) [0..<?r])"
    using t Suc.prems(1) sz unfolding readable_def by (metis order_refl)
  then have rd: "read_target t ?a (?e - ?a) = Inr (map (\<lambda>i. m (?a + of_nat i)) [0..<?r])"
    by (simp add: read_target_def check_def sz)
  have e: "?e = a + of_nat (n + ?r)"
  proof -
    have "?e - ?a = of_nat ?r" unfolding sz [symmetric] by simp
    then have "?e = of_nat ?r + ?a" by (simp only: diff_eq_eq)
    then show ?thesis by (simp only: of_nat_add ac_simps)
  qed
  have "map (\<lambda>i. m (?a + of_nat i)) [0..<?r] = map ?f [n..<n + ?r]"
    by (rule nth_equalityI) (simp_all add: add.assoc)
  then have buf: "map ?f [0..<n] @ map (\<lambda>i. m (?a + of_nat i)) [0..<?r] = map ?f [0..<n + ?r]"
    by (metis map_append upt_add_eq_append zero_le)
  show ?case
  proof (cases "k < n + ?r")
    case True
    then have "0 \<in> set (map ?f [0..<n + ?r])" using k(1) by force
    then show ?thesis
      using takeWhile_upto [of ?f k "n + ?r"] k True rd buf by (simp add: Let_def del: upt_Suc set_append)
  next
    case False
    then have "0 \<notin> set (map ?f [0..<n + ?r])" using k(2) by force
    moreover have "read_cstr_loop t fuel (map ?f [0..<n + ?r]) (a + of_nat (n + ?r)) = Inr (map ?f [0..<k])"
      by (rule Suc.IH) (use False Suc.prems(2) page_rest_pos [of ?a] in simp_all)
    ultimately show ?thesis using rd buf e by (simp add: Let_def del: upt_Suc set_append of_nat_add)
  qed
qed

text \<open>C35: The string at an address is read whole, however many pages it spans, when the memory from
  there to the end of the page of its terminator can be read; nothing beyond that page is
  touched, and one round per byte is enough.\<close>

theorem cstr_read_whole:
  assumes "readable t m a k" and "m (a + of_nat k) = 0" and "\<And>i. i < k \<Longrightarrow> m (a + of_nat i) \<noteq> 0"
    and "k < fuel"
  shows "read_cstr_target t fuel a = Inr (map (\<lambda>i. m (a + of_nat i)) [0..<k])"
  using cstr_loop [OF assms(1-3), of 0 fuel] assms(4) by (simp add: read_cstr_target_def)

theorem cstr_read_whole_witness:
  "read_cstr_target \<lparr>vm_read_overwrite = \<lambda>a n. Some (map (\<lambda>i. if a + of_nat i = 0x1001 then 0 else 65) [0..<unat n]),
     vm_region_recurse_64 = \<lambda>_ _. None, task_dyld_info = None, symbol_owner_uuid = \<lambda>_. None,
     symbolicator = False, task_given = True, target_is_self = True, can_suspend = True, can_resume = True\<rparr> 4 0xFFE = Inr [65, 65, 65]"
proof -
  let ?m = "\<lambda>a :: u64. if a = 0x1001 then 0 else 65 :: byte"
  let ?t = "\<lparr>vm_read_overwrite = \<lambda>a n. Some (map (\<lambda>i. if a + of_nat i = (0x1001 :: u64) then 0 else 65 :: byte) [0..<unat (n :: u64)]),
     vm_region_recurse_64 = \<lambda>_ _. None, task_dyld_info = None, symbol_owner_uuid = \<lambda>_. None,
     symbolicator = False, task_given = True, target_is_self = True, can_suspend = True, can_resume = True\<rparr> :: target"
  have r: "readable ?t ?m 0xFFE 3" by (simp add: readable_def)
  have ne: "?m (0xFFE + of_nat i) \<noteq> 0" if "i < 3" for i
    using that by (auto simp: less_Suc_eq numeral_3_eq_3)
  have "read_cstr_target ?t 4 0xFFE = Inr (map (\<lambda>i. ?m (0xFFE + of_nat i)) [0..<3])"
    by (rule cstr_read_whole [OF r _ ne]) simp_all
  then show ?thesis by (simp add: upt_rec)
qed

section \<open>Regions\<close>

text \<open>An address space without submaps: the kernel finds the first region that ends after an address.\<close>

definition region_end :: "region \<Rightarrow> nat" where
  "region_end r = unat (r_base r) + unat (r_size r)"

definition flat_space :: "target \<Rightarrow> region list \<Rightarrow> bool" where
  "flat_space t rs \<longleftrightarrow>
     (\<forall>addr. vm_region_recurse_64 t addr 0 = find (\<lambda>r. unat addr < region_end r) rs) \<and>
     sorted_wrt (\<lambda>r s. region_end r \<le> unat (r_base s)) rs \<and>
     (\<forall>r \<in> set rs. \<not> r_submap r \<and> r_depth r = 0 \<and> r_size r > 0 \<and> region_end r < 2 ^ 64)"

lemma find_append_skip: "(\<And>x. x \<in> set xs \<Longrightarrow> \<not> P x) \<Longrightarrow> find P (xs @ ys) = find P ys"
  by (induction xs) auto

lemma vm_regions_suffix:
  assumes t: "flat_space t (pre @ suf)"
    and "\<forall>r \<in> set pre. region_end r \<le> unat addr" and "\<forall>r \<in> set suf. unat addr < region_end r"
    and "length suf < fuel"
  shows "vm_regions_loop t fuel addr 0 = Inr suf"
  using assms
proof (induction suf arbitrary: pre addr fuel)
  case Nil
  obtain f where "fuel = Suc f" using Nil.prems(4) by (cases fuel) auto
  moreover have "vm_region_recurse_64 t addr 0 = find (\<lambda>r. unat addr < region_end r) (pre @ [])"
    using Nil.prems(1) by (simp add: flat_space_def)
  then have "vm_region_recurse_64 t addr 0 = None"
    using Nil.prems(2) by (auto simp: find_None_iff leD)
  ultimately show ?case by simp
next
  case (Cons r suf)
  obtain f where f: "fuel = Suc f" "length suf < f" using Cons.prems(4) by (cases fuel) auto
  have "vm_region_recurse_64 t addr 0 = find (\<lambda>r. unat addr < region_end r) (pre @ r # suf)"
    using Cons.prems(1) by (simp add: flat_space_def)
  also have "\<dots> = Some r"
    using Cons.prems(2,3) by (subst find_append_skip) (auto simp: leD)
  finally have k: "vm_region_recurse_64 t addr 0 = Some r" .
  have r: "\<not> r_submap r" "r_depth r = 0" "region_end r < 2 ^ 64"
    and ord: "\<forall>s \<in> set suf. region_end r \<le> unat (r_base s)" "\<forall>s \<in> set pre. region_end s \<le> unat (r_base r)"
    and pos: "\<forall>s \<in> set (r # suf). r_size s > 0"
    using Cons.prems(1) by (auto simp: flat_space_def sorted_wrt_append)
  have u: "unat (r_base r + r_size r) = region_end r"
    using r(3) by (simp add: region_end_def unat_word_ariths)
  have less: "unat (r_base s) < region_end s" if "s \<in> set (r # suf)" for s
  proof -
    have "unat (r_size s) \<noteq> 0" using pos that by (metis unat_eq_0 less_irrefl)
    then show ?thesis by (simp add: region_end_def)
  qed
  have "vm_regions_loop t f (r_base r + r_size r) 0 = Inr suf"
  proof (rule Cons.IH [of "pre @ [r]"])
    show "flat_space t ((pre @ [r]) @ suf)" using Cons.prems(1) by simp
    show "\<forall>s \<in> set (pre @ [r]). region_end s \<le> unat (r_base r + r_size r)"
      using ord(2) less [of r] by (auto simp: u intro: order_trans less_imp_le)
    show "\<forall>s \<in> set suf. unat (r_base r + r_size r) < region_end s"
      using ord(1) less by (auto simp: u intro: le_less_trans)
    show "length suf < f" by (rule f(2))
  qed
  then show ?case using k r by (simp add: f(1))
qed

text \<open>C36: The regions of an address space without submaps are listed exactly, in order, with one
  call per region and one to end.\<close>

theorem vm_regions_listed:
  assumes "flat_space t rs" and "length rs < fuel"
  shows "get_vm_regions t fuel = Inr rs"
proof -
  have pos: "unat (r_base r) < region_end r" if "r \<in> set rs" for r
  proof -
    have "r_size r > 0" using assms(1) that by (auto simp: flat_space_def)
    then have "unat (r_size r) \<noteq> 0" by (metis unat_eq_0 less_irrefl)
    then show ?thesis by (simp add: region_end_def)
  qed
  then have "vm_regions_loop t fuel 0 0 = Inr rs"
    using assms by (intro vm_regions_suffix [of t "[]"]) (auto intro: le_less_trans)
  moreover have "sorted (map r_base rs)"
  proof -
    have "sorted_wrt (\<lambda>r s. region_end r \<le> unat (r_base s)) rs" using assms(1) by (simp add: flat_space_def)
    then have "sorted_wrt (\<lambda>r s. r_base r \<le> r_base s) rs"
      by (rule sorted_wrt_mono_rel [rotated]) (meson less_imp_le less_le_trans pos word_le_nat_alt)
    then show ?thesis by (simp add: sorted_map)
  qed
  then have "sort_key r_base rs = rs" by (rule sort_key_id_if_sorted)
  ultimately show ?thesis by (simp add: get_vm_regions_def)
qed

theorem vm_regions_listed_witness:
  "get_vm_regions \<lparr>vm_read_overwrite = \<lambda>_ _. None,
     vm_region_recurse_64 = \<lambda>addr _. find (\<lambda>r. unat addr < region_end r)
       [\<lparr>r_base = 0x1000, r_size = 0x1000, r_depth = 0, r_prot = 5, r_tag = 0, r_submap = False\<rparr>,
        \<lparr>r_base = 0x3000, r_size = 0x2000, r_depth = 0, r_prot = 3, r_tag = 0xFF, r_submap = False\<rparr>],
     task_dyld_info = None, symbol_owner_uuid = \<lambda>_. None, symbolicator = False, task_given = True, target_is_self = True,
     can_suspend = True, can_resume = True\<rparr> 3 =
   Inr [\<lparr>r_base = 0x1000, r_size = 0x1000, r_depth = 0, r_prot = 5, r_tag = 0, r_submap = False\<rparr>,
        \<lparr>r_base = 0x3000, r_size = 0x2000, r_depth = 0, r_prot = 3, r_tag = 0xFF, r_submap = False\<rparr>]"
  by (rule vm_regions_listed) (simp_all add: flat_space_def region_end_def)


section \<open>Mach-O segments\<close>

text \<open>
  A list of load commands as the file format lays them out: a segment's command has its
  name, addresses and protections, then \<open>sects\<close>; any other command has a body.  \<open>fil\<close> and
  \<open>prot\<close> are the fields the code does not read.
\<close>

datatype macho_cmd =
    Segment segment_command_64 (fil: buffer) (prot: buffer) (sects: buffer)
  | Other u32 buffer

primrec cmd_bytes :: "macho_cmd \<Rightarrow> buffer" where
  "cmd_bytes (Segment s f p ss) =
     le_bytes 4 LC_SEGMENT_64 @ le_bytes 4 (of_nat (72 + length ss) :: u32) @ segname s @ le_bytes 8 (vmaddr s) @
     le_bytes 8 (vmsize s) @ f @ le_bytes 4 (maxprot s) @ p @ ss"
| "cmd_bytes (Other c b) = le_bytes 4 c @ le_bytes 4 (of_nat (8 + length b) :: u32) @ b"

primrec wf_cmd :: "macho_cmd \<Rightarrow> bool" where
  "wf_cmd (Segment s f p ss) \<longleftrightarrow> length (segname s) = 16 \<and> length f = 16 \<and> length p = 12 \<and> 72 + length ss < 2 ^ 32"
| "wf_cmd (Other c b) \<longleftrightarrow> c \<noteq> LC_SEGMENT_64 \<and> 8 + length b < 2 ^ 32"

primrec cmd_segs :: "macho_cmd \<Rightarrow> segment_command_64 list" where
  "cmd_segs (Segment s f p ss) = (if is_pagezero (segname s) then [] else [s])"
| "cmd_segs (Other c b) = []"

lemma length_cmd_bytes:
  "wf_cmd c \<Longrightarrow> length (cmd_bytes c) = (case c of Segment s f p ss \<Rightarrow> 72 + length ss | Other c b \<Rightarrow> 8 + length b)"
  by (cases c) simp_all

lemma cmd_header:
  assumes "wf_cmd c" and "has_bytes mem p (cmd_bytes c)"
  shows "(load mem p :: u32 res) = Inr (case c of Segment s f p ss \<Rightarrow> LC_SEGMENT_64 | Other c b \<Rightarrow> c)"
    and "(load mem (p + 4) :: u32 res) = Inr (of_nat (length (cmd_bytes c)))"
    and "length (cmd_bytes c) < 2 ^ 32"
  using assms
  by (cases c; auto simp: has_bytes_append load_has_bytes add.assoc simp del: load_ok)+

lemma load_segment_ok:
  assumes "has_bytes mem p (cmd_bytes (Segment s f pr ss))" and "wf_cmd (Segment s f pr ss)"
  shows "load_bytes 16 mem (p + 8) = Inr (segname s)" and "load_segment mem p = Inr s"
proof -
  have h: "has_bytes mem (p + 8) (segname s)" "has_bytes mem (p + 24) (le_bytes 8 (vmaddr s))"
    "has_bytes mem (p + 32) (le_bytes 8 (vmsize s))" "has_bytes mem (p + 56) (le_bytes 4 (maxprot s))"
    using assms by (simp_all add: has_bytes_append add.assoc)
  have len: "p + 72 \<le> length mem"
    using has_bytes_bound [OF assms(1)] length_cmd_bytes [OF assms(2)] by simp
  show n: "load_bytes 16 mem (p + 8) = Inr (segname s)"
    using h(1) assms(2) by (simp add: load_bytes_has_bytes)
  show "load_segment mem p = Inr s"
    using n h(2-4) len
    by (cases s) (simp add: load_segment_def sizeof_segment_command_64_def load_has_bytes del: load_ok)
qed

lemma macho_segs_suffix:
  assumes "list_all wf_cmd cmds" and "buf = pre @ concat (map cmd_bytes cmds)" and "length cmds < fuel"
  shows "macho_segs_loop buf fuel (length pre) = Inr (concat (map cmd_segs cmds))"
  using assms
proof (induction cmds arbitrary: pre fuel)
  case Nil
  then show ?case by (cases fuel) simp_all
next
  case (Cons c cmds)
  obtain f where f: "fuel = Suc f" "length cmds < f" using Cons.prems(3) by (cases fuel) auto
  have wf: "wf_cmd c" using Cons.prems(1) by simp
  have hb: "has_bytes buf (length pre) (cmd_bytes c)"
    using has_bytes_at [of pre "cmd_bytes c"] Cons.prems(2) by simp
  have hd: "(load buf (length pre) :: u32 res) = Inr (case c of Segment s f p ss \<Rightarrow> LC_SEGMENT_64 | Other c b \<Rightarrow> c)"
    and sz: "(load buf (length pre + 4) :: u32 res) = Inr (of_nat (length (cmd_bytes c)))"
    and small: "length (cmd_bytes c) < 2 ^ 32"
    using cmd_header [OF wf hb] by blast+
  have u: "unat (of_nat (length (cmd_bytes c)) :: u32) = length (cmd_bytes c)"
    using small by (simp add: unat_of_nat take_bit_nat_eq_self)
  have lt: "length pre < length buf"
    using has_bytes_bound [OF hb] length_cmd_bytes [OF wf] by (cases c) auto
  have "macho_segs_loop buf f (length (pre @ cmd_bytes c)) = Inr (concat (map cmd_segs cmds))"
    by (rule Cons.IH) (use Cons.prems f in simp_all)
  then have ih: "macho_segs_loop buf f (length pre + length (cmd_bytes c)) = Inr (concat (map cmd_segs cmds))"
    by simp
  show ?case
  proof (cases c)
    case (Segment s g p ss)
    then show ?thesis
      using hd sz lt u ih load_segment_ok [of buf "length pre" s g p ss] hb wf f(1) by simp
  next
    case (Other k b)
    then show ?thesis
      using hd sz lt u ih wf f(1) by simp
  qed
qed

text \<open>C38: When the target's memory holds a Mach-O header and its load commands, the segments are
  read back in order, without \<^verbatim>\<open>__PAGEZERO\<close> and whatever other commands are in between; one
  round per command is enough.\<close>

theorem macho_segments_read:
  fixes n :: u32
  assumes "vm_read_overwrite t a 32 = Some hdr" and "length hdr = 32" and "has_bytes hdr 20 (le_bytes 4 (n :: u32))"
    and "vm_read_overwrite t (a + 32) (ucast n) = Some (concat (map cmd_bytes cmds))"
    and "unat n = length (concat (map cmd_bytes cmds))"
    and "list_all wf_cmd cmds" and "length cmds < fuel"
  shows "read_macho_segs_target t fuel a = Inr (concat (map cmd_segs cmds))"
proof -
  have n: "(load hdr 20 :: u32 res) = Inr n" using assms(3) by (simp add: load_has_bytes del: load_ok)
  have "unat n < 2 ^ 32" using unsigned_less [of n, where 'a = nat] by simp
  then have "unat n < 2 ^ 64" by simp
  then have "unat (ucast n :: u64) = unat n" by (simp add: unsigned_ucast_eq take_bit_nat_eq_self)
  moreover have "macho_segs_loop (concat (map cmd_bytes cmds)) fuel 0 = Inr (concat (map cmd_segs cmds))"
    using macho_segs_suffix [OF assms(6), of _ "[]"] assms(7) by simp
  ultimately show ?thesis
    using assms(1,2,4,5) n by (simp add: read_macho_segs_target_def read_target_def check_def sizeof_mach_header_64_def)
qed

theorem macho_segments_read_witness:
  "read_macho_segs_target \<lparr>vm_read_overwrite = \<lambda>a n. if a = 0 then Some (replicate 20 0 @ le_bytes 4 (80 :: u32) @ replicate 8 0)
       else Some (le_bytes 4 (0x1B :: u32) @ le_bytes 4 (8 :: u32) @ le_bytes 4 LC_SEGMENT_64 @ le_bytes 4 (72 :: u32) @
         replicate 16 65 @ le_bytes 8 (0x1000 :: u64) @ le_bytes 8 (0x4000 :: u64) @ replicate 16 0 @ le_bytes 4 (5 :: u32) @ replicate 12 0),
     vm_region_recurse_64 = \<lambda>_ _. None, task_dyld_info = None, symbol_owner_uuid = \<lambda>_. None,
     symbolicator = False, task_given = True, target_is_self = True, can_suspend = True, can_resume = True\<rparr> 3 0 =
   Inr [\<lparr>segname = replicate 16 65, vmaddr = 0x1000, vmsize = 0x4000, maxprot = 5\<rparr>]"
proof -
  let ?s = "\<lparr>segname = replicate 16 65, vmaddr = 0x1000, vmsize = 0x4000, maxprot = 5\<rparr>"
  let ?cmds = "[Other 0x1B [], Segment ?s (replicate 16 0) (replicate 12 0) []]"
  have seg: "\<not> is_pagezero (replicate 16 65)" by code_simp
  have "has_bytes (replicate 20 0 @ le_bytes 4 (80 :: u32) @ replicate 8 0) (length (replicate 20 (0 :: byte))) (le_bytes 4 (80 :: u32))"
    by (rule has_bytes_at)
  then have hb: "has_bytes (replicate 20 0 @ le_bytes 4 (80 :: u32) @ replicate 8 0) 20 (le_bytes 4 (80 :: u32))" by simp
  show ?thesis
    using seg by (subst macho_segments_read [where n = 80 and cmds = ?cmds, OF _ _ hb]) (simp_all add: LC_SEGMENT_64_def)
qed

text \<open>A load command that is not a segment and gives its size as 0 keeps the loop where it is:
  it never ends, however many rounds it is given.\<close>

lemma empty_load_command_never_ends:
  assumes "has_bytes buf p (le_bytes 4 (cmd :: u32) @ le_bytes 4 (0 :: u32))" and "cmd \<noteq> LC_SEGMENT_64"
  shows "macho_segs_loop buf fuel p = Inl Out_Of_Fuel"
proof -
  have h: "has_bytes buf p (le_bytes 4 cmd)" "has_bytes buf (p + 4) (le_bytes 4 (0 :: u32))"
    using assms(1) by (simp_all add: has_bytes_append)
  have "p < length buf" using has_bytes_bound [OF h(1)] by simp
  moreover have "(load buf p :: u32 res) = Inr cmd" "(load buf (p + 4) :: u32 res) = Inr 0"
    using h by (simp_all add: load_has_bytes del: load_ok)
  ultimately show ?thesis using assms(2) by (induction fuel) (simp_all del: load_ok)
qed

lemma empty_load_command_never_ends_witness:
  "macho_segs_loop [1, 0, 0, 0, 0, 0, 0, 0] 10 0 = Inl Out_Of_Fuel"
proof -
  have "le_bytes 4 (1 :: u32) @ le_bytes 4 (0 :: u32) = [1, 0, 0, 0, 0, 0, 0, 0]" by code_simp
  then have "has_bytes [1, 0, 0, 0, 0, 0, 0, 0] 0 (le_bytes 4 (1 :: u32) @ le_bytes 4 (0 :: u32))"
    by (simp add: has_bytes_def)
  from empty_load_command_never_ends [OF this] show ?thesis by (simp add: LC_SEGMENT_64_def)
qed


end
