(* ===== verification/Regions.thy ===== *)
theory Regions
  imports Target MphMap
begin

text \<open>
  The code of the traced program, \<^verbatim>\<open>lib/xnu-trace/MachORegions.cpp\<close>: the image and JIT regions,
  taken from the target or from the metadata of a log, and the hash from pages to their
  bytes that finds the instruction at an address.

  A pointer into the bytes of a region is the region's index and an offset; None is the null
  pointer.  Where regions share a base, the order \<^verbatim>\<open>std::sort\<close> leaves them in is taken to be
  the one they came in.
\<close>

section \<open>Names\<close>

text \<open>\<^verbatim>\<open>path.filename()\<close>, and the numbers of \<^verbatim>\<open>fmt::format\<close>.\<close>

definition filename :: "buffer \<Rightarrow> buffer" where
  "filename path = rev (takeWhile (\<lambda>b. b \<noteq> 0x2F) (rev path))"

definition ascii :: "string \<Rightarrow> buffer" where
  "ascii s = map of_char s"

fun decimal :: "nat \<Rightarrow> buffer" where
  "decimal n = (if n < 10 then [of_nat (48 + n)] else decimal (n div 10) @ [of_nat (48 + n mod 10)])"

declare decimal.simps [simp del]

definition hex_digit :: "byte \<Rightarrow> byte" where
  "hex_digit d = (if d < 10 then 0x30 + d else 0x57 + d)"

definition hex2 :: "byte \<Rightarrow> buffer" where
  "hex2 b = [hex_digit (drop_bit 4 b), hex_digit (b AND 0xF)]"

definition log_path :: "image_info \<Rightarrow> buffer" where
  "log_path img = ascii ''macho-region-'' @ filename (img_path img) @ ascii ''-'' @
     concat (map hex2 (take 4 (img_digest img))) @ ascii ''.bin''"

definition jit_path :: "nat \<Rightarrow> u32 \<Rightarrow> buffer" where
  "jit_path n tag = ascii ''/tmp/jit-region-'' @ decimal n @ ascii ''-tag-'' @ hex2 (ucast tag)"

section \<open>The page hash\<close>

type_synonym code_ptr = "(nat \<times> nat) option"

record macho_regions =
  mr_regions :: "image_info list"
  mr_pa2buf :: "code_ptr mph_map_static"

definition num_pages :: "image_info \<Rightarrow> nat" where
  "num_pages r = (unat (img_size r) + 4095) div 4096"

text \<open>The loops over a region's offsets, by pages.\<close>

definition region_pages :: "nat \<times> image_info \<Rightarrow> (u64 \<times> code_ptr) list" where
  "region_pages ir = (case ir of (i, r) \<Rightarrow>
     map (\<lambda>k. (drop_bit PAGE_SZ_LOG2 (img_base r + of_nat (4096 * k)), Some (i, 4096 * k))) [0..<num_pages r])"

definition base_pages :: "image_info list \<Rightarrow> (u64 \<times> code_ptr) list" where
  "base_pages regions = concat (map region_pages (filter (\<lambda>(i, r). \<not> img_is_jit r) (enumerate 0 regions)))"

definition jit_pages :: "image_info list \<Rightarrow> (u64 \<times> code_ptr) list" where
  "jit_pages regions = concat (map region_pages (filter (\<lambda>(i, r). img_is_jit r) (enumerate 0 regions)))"

text \<open>A page of a JIT region replaces the first entry for its page, or is added.\<close>

primrec put_page :: "u64 \<times> code_ptr \<Rightarrow> (u64 \<times> code_ptr) list \<Rightarrow> (u64 \<times> code_ptr) list" where
  "put_page p [] = [p]"
| "put_page p (x # xs) = (if fst x = fst p then p # xs else x # put_page p xs)"

definition pa2buf_vec :: "image_info list \<Rightarrow> (u64 \<times> code_ptr) list" where
  "pa2buf_vec regions = fold put_page (jit_pages regions) (base_pages regions)"

definition create_hash ::
    "hash_lib \<Rightarrow> nat \<Rightarrow> code_ptr mph_map_static \<Rightarrow> image_info list \<Rightarrow> macho_regions res" where
  "create_hash e timer old regions =
     and_then (static_build e timer None old (pa2buf_vec regions)) (\<lambda>h.
     Inr \<lparr>mr_regions = regions, mr_pa2buf = h\<rparr>)"

definition lookup_inst :: "hash_lib \<Rightarrow> macho_regions \<Rightarrow> u64 \<Rightarrow> u32 res" where
  "lookup_inst e mr addr =
     and_then (static_get e (mr_pa2buf mr) (drop_bit PAGE_SZ_LOG2 addr)) (\<lambda>p. case p of
       None \<Rightarrow> Inl Out_Of_Bounds
     | Some (i, off) \<Rightarrow>
         and_then (at (mr_regions mr) i) (\<lambda>r.
         load (img_bytes r) (off + unat (addr AND (PAGE_SZ - 1)))))"

section \<open>Lookups\<close>

definition covers :: "image_info \<Rightarrow> u64 \<Rightarrow> bool" where
  "covers r addr \<longleftrightarrow> img_base r \<le> addr \<and> addr < img_base r + img_size r"

definition lookup_region :: "macho_regions \<Rightarrow> u64 \<Rightarrow> image_info res" where
  "lookup_region mr addr = assert_some (find (\<lambda>r. covers r addr) (mr_regions mr))"

definition lookup_idx :: "macho_regions \<Rightarrow> u64 \<Rightarrow> (image_info \<times> nat) res" where
  "lookup_idx mr addr =
     assert_some (map_option (\<lambda>(i, r). (r, i)) (find (\<lambda>(i, r). covers r addr) (enumerate 0 (mr_regions mr))))"

definition lookup_name :: "macho_regions \<Rightarrow> buffer \<Rightarrow> image_info res" where
  "lookup_name mr image_name =
     (let matches = filter (\<lambda>r. filename (img_path r) = image_name) (mr_regions mr)
      in and_then (assert_that (length matches = 1)) (\<lambda>_. Inr (hd matches)))"

section \<open>Regions of the target\<close>

definition set_uuid :: "target \<Rightarrow> image_info \<Rightarrow> image_info res" where
  "set_uuid t r = and_then (assert_some (symbol_owner_uuid t (img_base r))) (\<lambda>u. Inr (r\<lparr>img_uuid := u\<rparr>))"

definition read_image :: "(buffer \<Rightarrow> buffer) \<Rightarrow> target \<Rightarrow> image_info \<Rightarrow> image_info res" where
  "read_image sha256 t r =
     (let sz = roundup_pow2_mul (img_size r) PAGE_SZ
      in and_then (read_target t (img_base r) sz) (\<lambda>bytes.
         Inr (r\<lparr>img_size := sz, img_bytes := bytes, img_digest := sha256 bytes\<rparr>)))"

definition VM_PROT_READ :: u32 where "VM_PROT_READ = 1"

text \<open>The loop over the VM regions: executable regions with the JIT's tag that are no image.\<close>

primrec jit_regions ::
    "(buffer \<Rightarrow> buffer) \<Rightarrow> target \<Rightarrow> u64 list \<Rightarrow> nat \<Rightarrow> region list \<Rightarrow> image_info list res" where
  "jit_regions sha256 t bases n [] = Inr []"
| "jit_regions sha256 t bases n (v # vs) =
     (if r_prot v AND VM_PROT_EXECUTE = 0 \<or> r_base v \<in> set bases \<or> r_tag v \<noteq> 0xFF
      then jit_regions sha256 t bases n vs
      else and_then (read_target t (r_base v) (r_size v)) (\<lambda>bytes.
           and_then (jit_regions sha256 t bases (Suc n) vs) (\<lambda>rest.
           Inr (\<lparr>img_base = r_base v, img_size = r_size v, img_slide = 0, img_path = jit_path n (r_tag v),
                 img_uuid = replicate 16 0, img_bytes = bytes, img_digest = sha256 bytes, img_is_jit = True\<rparr> # rest))))"

definition regions_collect ::
    "hash_lib \<Rightarrow> nat \<Rightarrow> dyld_abi \<Rightarrow> (buffer \<Rightarrow> buffer) \<Rightarrow> nat \<Rightarrow> target \<Rightarrow> code_ptr mph_map_static \<Rightarrow> macho_regions res" where
  "regions_collect e timer abi sha256 fuel t old =
     and_then (get_dyld_image_infos abi t fuel) (\<lambda>images.
     and_then (assert_that (symbolicator t)) (\<lambda>_.
     and_then (map_res (set_uuid t) images) (\<lambda>images.
     and_then (map_res (read_image sha256 t) images) (\<lambda>images.
     and_then (get_vm_regions t fuel) (\<lambda>vm.
     and_then (jit_regions sha256 t (map img_base images) 0 vm) (\<lambda>jit.
     create_hash e timer old (sort_key img_base (images @ jit))))))))"

text \<open>The target is suspended meanwhile.\<close>

definition regions_reset ::
    "hash_lib \<Rightarrow> nat \<Rightarrow> dyld_abi \<Rightarrow> (buffer \<Rightarrow> buffer) \<Rightarrow> nat \<Rightarrow> target \<Rightarrow> code_ptr mph_map_static \<Rightarrow> macho_regions res" where
  "regions_reset e timer abi sha256 fuel t old =
     and_then (assert_that (task_given t)) (\<lambda>_.
     and_then (suspend_target t) (\<lambda>_.
     and_then (regions_collect e timer abi sha256 fuel t old) (\<lambda>mr.
     and_then (resume_target t) (\<lambda>_. Inr mr))))"

section \<open>Regions of a log\<close>

definition sizeof_log_region :: nat where "sizeof_log_region = 88"

text \<open>The \<^verbatim>\<open>log_region\<close> of a region, which its path follows.\<close>

definition log_region_bytes :: "image_info \<Rightarrow> buffer" where
  "log_region_bytes r = le_bytes 8 (img_base r) @ le_bytes 8 (img_size r) @ le_bytes 8 (img_slide r) @ img_uuid r @
     img_digest r @ le_bytes 8 (of_bool (img_is_jit r) :: u64) @ le_bytes 8 (of_nat (length (img_path r)) :: u64)"

text \<open>A \<^verbatim>\<open>log_region\<close> without the bytes of the region, and the length of its path.\<close>

definition load_log_region :: "buffer \<Rightarrow> nat \<Rightarrow> (image_info \<times> nat) res" where
  "load_log_region mem p =
     and_then (load mem p) (\<lambda>base. and_then (load mem (p + 8)) (\<lambda>sz. and_then (load mem (p + 16)) (\<lambda>slide.
     and_then (load_bytes 16 mem (p + 24)) (\<lambda>uuid. and_then (load_bytes 32 mem (p + 40)) (\<lambda>digest.
     and_then (load mem (p + 72)) (\<lambda>is_jit :: u64. and_then (load mem (p + 80)) (\<lambda>path_len :: u64.
     and_then (load_bytes (unat path_len) mem (p + sizeof_log_region)) (\<lambda>path.
     Inr (\<lparr>img_base = base, img_size = sz, img_slide = slide, img_path = path, img_uuid = uuid,
           img_bytes = [], img_digest = digest, img_is_jit = is_jit \<noteq> 0\<rparr>, unat path_len)))))))))"

text \<open>
  The constructor's loop: the bytes of a region are moved out of the map, which keeps an
  empty entry for the digest.
\<close>

primrec regions_loop ::
    "buffer \<Rightarrow> nat \<Rightarrow> nat \<Rightarrow> (buffer \<rightharpoonup> buffer) \<Rightarrow> (image_info list \<times> nat) res" where
  "regions_loop mem 0 p regions_bytes = Inr ([], p)"
| "regions_loop mem (Suc n) p regions_bytes =
     and_then (load_log_region mem p) (\<lambda>(img, path_len).
     let bytes = (case regions_bytes (img_digest img) of None \<Rightarrow> [] | Some b \<Rightarrow> b) in
     and_then (assert_that (of_nat (length bytes) = img_size img)) (\<lambda>_.
     and_then (regions_loop mem n (p + sizeof_log_region + path_len) (regions_bytes(img_digest img \<mapsto> []))) (\<lambda>(imgs, q).
     Inr (img\<lparr>img_bytes := bytes\<rparr> # imgs, q))))"

definition regions_from_log ::
    "hash_lib \<Rightarrow> nat \<Rightarrow> buffer \<Rightarrow> nat \<Rightarrow> nat \<Rightarrow> (buffer \<rightharpoonup> buffer) \<Rightarrow> macho_regions res" where
  "regions_from_log e timer mem p num_regions regions_bytes =
     and_then (regions_loop mem num_regions p regions_bytes) (\<lambda>(imgs, _).
     create_hash e timer \<lparr>ms_mph = mph_empty, m_values = []\<rparr> (sort_key img_base imgs))"

end
