(* ===== verification/RegionsProps.thy ===== *)
theory RegionsProps
  imports Regions
begin

text \<open>
  What the regions promise: the instruction found through the page hash is the word in the
  target's memory, and the regions written to a log are read back.
\<close>

section \<open>Pages\<close>

lemma page_index: "unat (drop_bit PAGE_SZ_LOG2 (a :: u64)) = unat a div 4096"
proof -
  have "unat (drop_bit n a) = unat a div 2 ^ n" for n
    using take_bit_nat_eq_self [OF unsigned_less [of a, where 'a = nat]]
    by (simp only: unsigned_drop_bit_eq) (simp only: drop_bit_eq_div)
  from this [of PAGE_SZ_LOG2] show ?thesis by (simp add: PAGE_SZ_LOG2_def)
qed

lemma page_offset: "unat (a AND (PAGE_SZ - 1)) = unat a mod 4096"
proof -
  have "PAGE_SZ - 1 = mask 12" by (simp add: PAGE_SZ_def mask_eq_exp_minus_1)
  then show ?thesis by (simp add: take_bit_eq_mask [symmetric] take_bit_eq_mod unat_mod)
qed

text \<open>A region that starts and ends at a page, holds its bytes and does not wrap around.\<close>

definition page_region :: "image_info \<Rightarrow> bool" where
  "page_region r \<longleftrightarrow> unat (img_base r) mod 4096 = 0 \<and> unat (img_size r) mod 4096 = 0 \<and>
     unat (img_base r) + unat (img_size r) \<le> 2 ^ 64 \<and> length (img_bytes r) = unat (img_size r)"

text \<open>An entry of the page list points at the bytes of its page.\<close>

definition good_page :: "image_info list \<Rightarrow> u64 \<times> code_ptr \<Rightarrow> bool" where
  "good_page rs e \<longleftrightarrow> (\<exists>i off. snd e = Some (i, off) \<and> i < length rs \<and>
     off + 4096 \<le> length (img_bytes (rs ! i)) \<and>
     unat (fst e) * 4096 = unat (img_base (rs ! i)) + off)"

definition has_page :: "u64 \<Rightarrow> (u64 \<times> code_ptr) list \<Rightarrow> bool" where
  "has_page pa v \<longleftrightarrow> pa \<in> fst ` set v"

lemma put_page_keys: "fst ` set (put_page p v) = insert (fst p) (fst ` set v)"
  by (induction v) auto

lemma put_page_set: "set (put_page p v) \<subseteq> insert p (set v)"
  by (induction v) auto

lemma fold_put_page_keys: "fst ` set (fold put_page ps v) = fst ` set ps \<union> fst ` set v"
  by (induction ps arbitrary: v) (auto simp: put_page_keys)

lemma fold_put_page_set: "set (fold put_page ps v) \<subseteq> set ps \<union> set v"
proof (induction ps arbitrary: v)
  case Nil
  then show ?case by simp
next
  case (Cons p ps)
  show ?case using Cons.IH [of "put_page p v"] put_page_set [of p v] by auto
qed

lemma set_pages:
  "set (base_pages rs) \<union> set (jit_pages rs) = (\<Union>i<length rs. set (region_pages (i, rs ! i)))"
proof -
  let ?I = "\<lambda>P. \<Union>(i, r) \<in> {x \<in> set (enumerate 0 rs). P x}. set (region_pages (i, r))"
  have "set (base_pages rs) = ?I (\<lambda>(i, r). \<not> img_is_jit r)" "set (jit_pages rs) = ?I (\<lambda>(i, r). img_is_jit r)"
    by (auto simp: base_pages_def jit_pages_def)
  then have "set (base_pages rs) \<union> set (jit_pages rs) = (\<Union>(i, r) \<in> set (enumerate 0 rs). set (region_pages (i, r)))"
    by auto
  also have "\<dots> = (\<Union>i<length rs. set (region_pages (i, rs ! i)))"
  proof (intro set_eqI iffI)
    fix x assume "x \<in> (\<Union>i<length rs. set (region_pages (i, rs ! i)))"
    then obtain i where i: "i < length rs" "x \<in> set (region_pages (i, rs ! i))" by blast
    then have "(i, rs ! i) \<in> set (enumerate 0 rs)" by (simp add: in_set_enumerate_eq)
    with i(2) show "x \<in> (\<Union>(i, r) \<in> set (enumerate 0 rs). set (region_pages (i, r)))" by blast
  qed (auto simp: in_set_enumerate_eq)
  finally show ?thesis .
qed

lemma pa2buf_keys: "fst ` set (pa2buf_vec rs) = (\<Union>i<length rs. fst ` set (region_pages (i, rs ! i)))"
proof -
  have "fst ` set (pa2buf_vec rs) = fst ` (set (base_pages rs) \<union> set (jit_pages rs))"
    by (auto simp: pa2buf_vec_def fold_put_page_keys)
  then show ?thesis by (simp only: set_pages image_UN)
qed

lemma pa2buf_entries: "set (pa2buf_vec rs) \<subseteq> (\<Union>i<length rs. set (region_pages (i, rs ! i)))"
  using fold_put_page_set [of "jit_pages rs" "base_pages rs"] unfolding pa2buf_vec_def set_pages [symmetric] by auto

lemma page_number:
  assumes "page_region r" and "k < num_pages r"
  shows "unat (drop_bit PAGE_SZ_LOG2 (img_base r + of_nat (4096 * k))) * 4096 = unat (img_base r) + 4096 * k"
    and "4096 * k + 4096 \<le> length (img_bytes r)"
proof -
  obtain b where b: "unat (img_base r) = 4096 * b" using assms(1) by (auto simp: page_region_def mod_eq_0_iff_dvd elim!: dvdE)
  obtain s where s: "unat (img_size r) = 4096 * s" using assms(1) by (auto simp: page_region_def mod_eq_0_iff_dvd elim!: dvdE)
  have n: "num_pages r = s" by (simp add: num_pages_def s)
  with assms(2) have k: "k < s" by simp
  then show "4096 * k + 4096 \<le> length (img_bytes r)"
    using assms(1) s by (simp add: page_region_def)
  have le: "4096 * b + 4096 * s \<le> 2 ^ 64" using assms(1) b s by (simp add: page_region_def)
  then have "4096 * b + 4096 * k < 2 ^ 64" using k by simp
  then have "unat (img_base r + of_nat (4096 * k)) = 4096 * (b + k)"
    using b by (simp add: unat_word_ariths unat_of_nat take_bit_eq_mod)
  then show "unat (drop_bit PAGE_SZ_LOG2 (img_base r + of_nat (4096 * k))) * 4096 = unat (img_base r) + 4096 * k"
    by (simp add: page_index b)
qed

lemma pa2buf_good:
  assumes "\<forall>r \<in> set rs. page_region r" and "e \<in> set (pa2buf_vec rs)"
  shows "good_page rs e"
proof -
  from pa2buf_entries assms(2) obtain i where i: "i < length rs" "e \<in> set (region_pages (i, rs ! i))" by blast
  then obtain k where k: "k < num_pages (rs ! i)"
    "e = (drop_bit PAGE_SZ_LOG2 (img_base (rs ! i) + of_nat (4096 * k)), Some (i, 4096 * k))"
    by (auto simp: region_pages_def)
  have "page_region (rs ! i)" using assms(1) i(1) by simp
  from page_number [OF this k(1)] show ?thesis
    unfolding good_page_def k(2) using i(1) by simp
qed

lemma pa2buf_complete:
  assumes "page_region r" and "r \<in> set rs" and "unat (img_base r) \<le> unat a" and "unat a < unat (img_base r) + unat (img_size r)"
  shows "has_page (drop_bit PAGE_SZ_LOG2 a) (pa2buf_vec rs)"
proof -
  obtain i where i: "i < length rs" "rs ! i = r" using assms(2) by (auto simp: in_set_conv_nth)
  obtain b where b: "unat (img_base r) = 4096 * b" using assms(1) by (auto simp: page_region_def mod_eq_0_iff_dvd elim!: dvdE)
  obtain s where s: "unat (img_size r) = 4096 * s" using assms(1) by (auto simp: page_region_def mod_eq_0_iff_dvd elim!: dvdE)
  let ?k = "unat a div 4096 - b"
  have k: "b \<le> unat a div 4096" "unat a div 4096 < b + s" using assms(3,4) b s by auto
  then have kn: "?k < num_pages r" by (simp add: num_pages_def s)
  have "unat (drop_bit PAGE_SZ_LOG2 (img_base r + of_nat (4096 * ?k))) * 4096 = unat a div 4096 * 4096"
    using page_number(1) [OF assms(1) kn] k(1) by (simp add: b diff_mult_distrib2)
  then have "unat (drop_bit PAGE_SZ_LOG2 (img_base r + of_nat (4096 * ?k))) = unat a div 4096" by simp
  also have "\<dots> = unat (drop_bit PAGE_SZ_LOG2 a)"
    by (simp add: page_index)
  finally have "drop_bit PAGE_SZ_LOG2 (img_base r + of_nat (4096 * ?k)) = drop_bit PAGE_SZ_LOG2 a"
    by (simp add: word_unat_eq_iff)
  then have "drop_bit PAGE_SZ_LOG2 a \<in> fst ` set (region_pages (i, r))"
    using kn by (force simp: region_pages_def)
  then show ?thesis using i by (auto simp: has_page_def pa2buf_keys)
qed

section \<open>Instructions\<close>

text \<open>The bytes of the regions are those of one memory \<open>m\<close>.\<close>

definition coherent :: "(u64 \<Rightarrow> byte) \<Rightarrow> image_info list \<Rightarrow> bool" where
  "coherent m rs \<longleftrightarrow> (\<forall>r \<in> set rs. img_bytes r = map (\<lambda>o'. m (img_base r + of_nat o')) [0..<length (img_bytes r)])"

lemma lookup_inst_memory:
  assumes env: "fastmod_ok e" "sort_ok e" and n: "length (pa2buf_vec rs) < 2 ^ 31"
    and fresh: "m_salts (ms_mph old) = []"
    and ch: "create_hash e timer old rs = Inr mr" and pr: "\<forall>r \<in> set rs. page_region r" and m: "coherent m rs"
    and r: "r \<in> set rs" "unat (img_base r) \<le> unat a" "unat a < unat (img_base r) + unat (img_size r)"
    and off: "unat a mod 4096 \<le> 4092"
  shows "lookup_inst e mr a = Inr (le_word (map (\<lambda>k. m (a + of_nat k)) [0..<4]))"
proof -
  from ch obtain h where h: "static_build e timer None old (pa2buf_vec rs) = Inr h" "mr = \<lparr>mr_regions = rs, mr_pa2buf = h\<rparr>"
    by (auto simp: create_hash_def res_simps)
  from pa2buf_complete [OF _ r] pr r(1) obtain p where p: "(drop_bit PAGE_SZ_LOG2 a, p) \<in> set (pa2buf_vec rs)"
    by (force simp: has_page_def)
  from pa2buf_good [OF pr p] obtain i off where io: "p = Some (i, off)" "i < length rs"
    "off + 4096 \<le> length (img_bytes (rs ! i))"
    "unat (drop_bit PAGE_SZ_LOG2 a) * 4096 = unat (img_base (rs ! i)) + off"
    by (auto simp: good_page_def)
  have get: "static_get e h (drop_bit PAGE_SZ_LOG2 a) = Inr (Some (i, off))"
    using static_build_correct [OF env n fresh h(1) p] io(1) by simp
  have po: "unat (a AND (PAGE_SZ - 1)) = unat a mod 4096" by (rule page_offset)
  let ?o = "off + unat a mod 4096" and ?b = "img_base (rs ! i)"
  have len: "?o + 4 \<le> length (img_bytes (rs ! i))" using io(3) off by simp
  have "unat a = unat a div 4096 * 4096 + unat a mod 4096" by simp
  also have "unat a div 4096 * 4096 = unat ?b + off"
    using io(4) by (simp add: page_index)
  finally have ua: "unat a = unat ?b + ?o" by simp
  have a: "a = ?b + of_nat ?o" using arg_cong [OF ua, of "of_nat :: nat \<Rightarrow> u64"] by simp
  have "take 4 (drop ?o (img_bytes (rs ! i))) = map (\<lambda>k. m (a + of_nat k)) [0..<4]"
  proof (rule nth_equalityI)
    show "length (take 4 (drop ?o (img_bytes (rs ! i)))) = length (map (\<lambda>k. m (a + of_nat k)) [0..<4])"
      using len by simp
    fix k assume k: "k < length (take 4 (drop ?o (img_bytes (rs ! i))))"
    then have "take 4 (drop ?o (img_bytes (rs ! i))) ! k = img_bytes (rs ! i) ! (?o + k)" using len by simp
    also have "\<dots> = m (?b + of_nat (?o + k))"
    proof -
      have "img_bytes (rs ! i) = map (\<lambda>o'. m (?b + of_nat o')) [0..<length (img_bytes (rs ! i))]"
        using m io(2) by (simp add: coherent_def)
      moreover have "?o + k < length (img_bytes (rs ! i))" using k len by simp
      ultimately show ?thesis by (metis (no_types, lifting) add_0 nth_map_upt diff_zero)
    qed
    also have "?b + of_nat (?o + k) = a + of_nat k" by (subst a) simp
    finally show "take 4 (drop ?o (img_bytes (rs ! i))) ! k = map (\<lambda>k. m (a + of_nat k)) [0..<4] ! k"
      using k len by simp
  qed
  then show ?thesis
    using get io(2) len by (simp add: lookup_inst_def h(2) po)
qed

section \<open>Addresses outside every region\<close>

text \<open>The hash gives some entry's value for any key.\<close>

lemma static_get_any:
  assumes env: "fastmod_ok e" "sort_ok e" and n: "length kvs < 2 ^ 31" "kvs \<noteq> []"
    and fresh: "m_salts (ms_mph st0) = []" and b: "static_build e t d st0 kvs = Inr st"
  shows "\<exists>v \<in> snd ` set kvs. static_get e st k = Inr v"
proof -
  obtain m where m: "mph_build e t (ms_mph st0) (map fst kvs) = Inr m" "ms_mph st = m"
    using b by (auto simp: static_build_def Let_def res_simps)
  have bt: "mph_built e (map fst kvs) m"
    using env n m fresh by (auto simp: mph_built_def salts_ok_def intro!: exI [of _ "ms_mph st0"])
  have ne: "map fst kvs \<noteq> []" using n by simp
  have slots: "\<exists>x. mph_lookup e m l = Inr x \<and> unat x = mph.slot e m l \<and> mph.slot e m l < length kvs" for l
    using mph.slot [OF bt ne, of l] by auto
  have "mph.slot e m ` set (map fst kvs) = {..<length kvs}"
  proof (rule card_subset_eq)
    show "mph.slot e m ` set (map fst kvs) \<subseteq> {..<length kvs}" using slots by blast
    have "card (mph.slot e m ` set (map fst kvs)) = card (set (map fst kvs))"
      by (rule card_image [OF mph.slot_inj [OF bt]])
    also have "\<dots> = length kvs" using distinct_card [OF mph.no_dups [OF bt]] by simp
    finally show "card (mph.slot e m ` set (map fst kvs)) = card {..<length kvs}" by simp
  qed simp
  then have "mph.slot e m k \<in> mph.slot e m ` fst ` set kvs" using slots [of k] by auto
  then obtain l v where l: "(l, v) \<in> set kvs" "mph.slot e m k = mph.slot e m l" by auto
  have "static_get e st l = Inr v" by (rule static_build_correct [OF env n(1) fresh b l(1)])
  moreover have "mph_lookup e m k = mph_lookup e m l"
    using slots [of k] slots [of l] l(2) by (metis word_unat_eq_iff)
  ultimately show ?thesis using l(1) m(2) by (force simp: static_get_def)
qed

section \<open>Resetting from the target\<close>

text \<open>Reads of the target see the memory \<open>m\<close>.\<close>

definition reads_from :: "target \<Rightarrow> (u64 \<Rightarrow> byte) \<Rightarrow> bool" where
  "reads_from t m \<longleftrightarrow> (\<forall>a n bs. vm_read_overwrite t a n = Some bs \<longrightarrow> bs = map (\<lambda>i. m (a + of_nat i)) [0..<unat n])"

definition image_of :: "(u64 \<Rightarrow> byte) \<Rightarrow> image_info \<Rightarrow> bool" where
  "image_of m r \<longleftrightarrow> img_bytes r = map (\<lambda>i. m (img_base r + of_nat i)) [0..<unat (img_size r)]"

lemma read_target_from:
  "reads_from t m \<Longrightarrow> read_target t a n = Inr bs \<Longrightarrow> bs = map (\<lambda>i. m (a + of_nat i)) [0..<unat n]"
  by (auto simp: reads_from_def read_target_def check_def res_simps split: option.splits)

lemma jit_regions_of:
  assumes "reads_from t m"
  shows "jit_regions sha t bases n vs = Inr rs \<Longrightarrow> r \<in> set rs \<Longrightarrow> image_of m r"
proof (induction vs arbitrary: n rs)
  case Nil
  then show ?case by simp
next
  case (Cons v vs)
  show ?case
  proof (cases "r_prot v AND VM_PROT_EXECUTE = 0 \<or> r_base v \<in> set bases \<or> r_tag v \<noteq> 0xFF")
    case True
    then show ?thesis using Cons by simp
  next
    case False
    with Cons.prems(1) obtain bytes rest where b: "read_target t (r_base v) (r_size v) = Inr bytes"
      "jit_regions sha t bases (Suc n) vs = Inr rest"
      "rs = \<lparr>img_base = r_base v, img_size = r_size v, img_slide = 0, img_path = jit_path n (r_tag v),
        img_uuid = replicate 16 0, img_bytes = bytes, img_digest = sha bytes, img_is_jit = True\<rparr> # rest"
      by (auto simp: res_simps)
    then show ?thesis
      using Cons.IH [OF b(2)] Cons.prems(2) read_target_from [OF assms b(1)] by (auto simp: image_of_def)
  qed
qed

lemma images_of:
  assumes "reads_from t m" and "map_res (read_image sha t) images = Inr images'" and "r \<in> set images'"
  shows "image_of m r"
proof -
  from assms(3) obtain i where i: "i < length images'" "r = images' ! i" by (auto simp: in_set_conv_nth)
  with map_res_InrD [OF assms(2)] have "read_image sha t (images ! i) = Inr r" by simp
  then show ?thesis
    using read_target_from [OF assms(1)] by (auto simp: read_image_def Let_def res_simps image_of_def)
qed

lemma reset_images:
  assumes "reads_from t m" and "regions_reset e timer abi sha fuel t old = Inr mr"
  shows "\<forall>r \<in> set (mr_regions mr). image_of m r" and "create_hash e timer old (mr_regions mr) = Inr mr"
proof -
  from assms(2) obtain im1 images vm jit where
    h: "map_res (read_image sha t) im1 = Inr images" "jit_regions sha t (map img_base images) 0 vm = Inr jit"
    "create_hash e timer old (sort_key img_base (images @ jit)) = Inr mr"
    by (auto simp: regions_reset_def regions_collect_def res_simps)
  then have rs: "mr_regions mr = sort_key img_base (images @ jit)" by (auto simp: create_hash_def res_simps)
  with h show "create_hash e timer old (mr_regions mr) = Inr mr" by simp
  show "\<forall>r \<in> set (mr_regions mr). image_of m r"
    using images_of [OF assms(1) h(1)] jit_regions_of [OF assms(1) h(2)] unfolding rs by auto
qed

section \<open>A target\<close>

text \<open>A task without images and with one JIT page, whose memory is all zero.\<close>

definition zero_target :: target where
  "zero_target = \<lparr>vm_read_overwrite = \<lambda>_ n. Some (map (\<lambda>_. 0) [0..<unat n]),
     vm_region_recurse_64 = \<lambda>addr _. if addr < 0x2000
       then Some \<lparr>r_base = 0x1000, r_size = 0x1000, r_depth = 0, r_prot = 5, r_tag = 0xFF, r_submap = False\<rparr> else None,
     task_dyld_info = Some (True, 0x5000, 64), symbol_owner_uuid = \<lambda>_. None, symbolicator = True,
     task_given = True, target_is_self = False, can_suspend = True, can_resume = True\<rparr>"

lemma zero_task [simp]: "task_given zero_target"
  by (simp add: zero_target_def)

definition zero_abi :: dyld_abi where
  "zero_abi = \<lparr>off_infoArrayCount = 4, off_infoArray = 8, off_dyldImageLoadAddress = 32, off_dyldPath = 56,
     sizeof_dyld_image_info = 24, off_imageLoadAddress = 0, off_imageFilePath = 8\<rparr>"

definition zero_region :: image_info where
  "zero_region = \<lparr>img_base = 0x1000, img_size = 0x1000, img_slide = 0, img_path = jit_path 0 0xFF,
     img_uuid = replicate 16 0, img_bytes = replicate 4096 0, img_digest = replicate 32 0, img_is_jit = True\<rparr>"

definition no_pages :: "code_ptr mph_map_static" where
  "no_pages = \<lparr>ms_mph = mph_empty, m_values = []\<rparr>"

lemma le_word_zeros: "le_word (replicate n 0) = 0"
  by (induction n) simp_all

lemma zero_pages: "pa2buf_vec [zero_region] = [(1, Some (0, 0))]"
  by (simp add: pa2buf_vec_def base_pages_def jit_pages_def region_pages_def zero_region_def num_pages_def PAGE_SZ_LOG2_def)

lemma zero_hash: "\<exists>mr. create_hash reference_lib 10 no_pages [zero_region] = Inr mr \<and> mr_regions mr = [zero_region]"
proof -
  have "static_build reference_lib 10 None no_pages [(1, Some (0, 0))] =
      Inr \<lparr>ms_mph = \<lparr>m_salts = [- 1], m_fastmod_u32_M = 0, m_nkeys = 1\<rparr>, m_values = [Some (0, 0)]\<rparr>"
    by code_simp
  then show ?thesis by (simp add: create_hash_def zero_pages)
qed

lemma zero_vm: "get_vm_regions zero_target 3 =
    Inr [\<lparr>r_base = 0x1000, r_size = 0x1000, r_depth = 0, r_prot = 5, r_tag = 0xFF, r_submap = False\<rparr>]"
  by (simp add: get_vm_regions_def zero_target_def numeral_3_eq_3)

lemma zero_images: "get_dyld_image_infos zero_abi zero_target 3 = Inr []"
  by (simp add: get_dyld_image_infos_def zero_target_def zero_abi_def check_def read_target_def
      map_replicate_const le_word_zeros)

lemma zero_reset:
  "\<exists>mr. regions_reset reference_lib 10 zero_abi (\<lambda>_. replicate 32 0) 3 zero_target no_pages = Inr mr \<and>
     mr_regions mr = [zero_region]"
proof -
  have sp: "suspend_target zero_target = Inr ()" "resume_target zero_target = Inr ()" "symbolicator zero_target"
    by (simp_all add: suspend_target_def resume_target_def zero_target_def)
  have "read_target zero_target 0x1000 0x1000 = Inr (replicate 4096 0)"
    by (simp add: read_target_def zero_target_def check_def map_replicate_const)
  then have "jit_regions (\<lambda>_. replicate 32 0) zero_target [] 0
      [\<lparr>r_base = 0x1000, r_size = 0x1000, r_depth = 0, r_prot = 5, r_tag = 0xFF, r_submap = False\<rparr>] = Inr [zero_region]"
    by (simp add: VM_PROT_EXECUTE_def zero_region_def)
  with zero_hash show ?thesis by (auto simp: regions_reset_def regions_collect_def sp zero_images zero_vm)
qed

lemma reset_lookup:
  assumes "fastmod_ok e" and "sort_ok e" and "reads_from t m" and "m_salts (ms_mph old) = []"
    and "regions_reset e timer abi sha fuel t old = Inr mr"
    and "length (pa2buf_vec (mr_regions mr)) < 2 ^ 31"
    and "\<forall>r \<in> set (mr_regions mr). unat (img_base r) mod 4096 = 0 \<and> unat (img_size r) mod 4096 = 0 \<and>
           unat (img_base r) + unat (img_size r) \<le> 2 ^ 64"
    and "r \<in> set (mr_regions mr)" and "unat (img_base r) \<le> unat a" and "unat a < unat (img_base r) + unat (img_size r)"
    and "unat a mod 4096 \<le> 4092"
  shows "lookup_inst e mr a = Inr (le_word (map (\<lambda>k. m (a + of_nat k)) [0..<4]))"
proof -
  have im: "\<forall>r \<in> set (mr_regions mr). image_of m r" and ch: "create_hash e timer old (mr_regions mr) = Inr mr"
    using reset_images [OF assms(3,5)] by blast+
  have "coherent m (mr_regions mr)" using im by (simp add: coherent_def image_of_def)
  moreover have "\<forall>r \<in> set (mr_regions mr). page_region r" using assms(7) im by (simp add: page_region_def image_of_def)
  ultimately show ?thesis using lookup_inst_memory [OF assms(1,2,6,4) ch _ _ assms(8-11)] by blast
qed

text \<open>C21: After the regions are reset from the target, the instruction looked up at any address of
  any region, image or JIT, is the word the target's memory holds there, provided the
  regions consist of whole pages.\<close>

theorem reset_finds_instructions:
  assumes "fastmod_ok e" and "sort_ok e" and "reads_from t m" and "m_salts (ms_mph old) = []"
    and "regions_reset e timer abi sha fuel t old = Inr mr"
    and "length (pa2buf_vec (mr_regions mr)) < 2 ^ 31"
    and "\<forall>r \<in> set (mr_regions mr). unat (img_base r) mod 4096 = 0 \<and> unat (img_size r) mod 4096 = 0 \<and>
           unat (img_base r) + unat (img_size r) \<le> 2 ^ 64"
    and "r \<in> set (mr_regions mr)" and "unat (img_base r) \<le> unat a" and "unat a < unat (img_base r) + unat (img_size r)"
    and "unat a mod 4096 \<le> 4092"
  shows "lookup_inst e mr a = Inr (le_word (map (\<lambda>k. m (a + of_nat k)) [0..<4]))"
  using assms by (rule reset_lookup)

theorem reset_finds_instructions_witness:
  "\<exists>mr. regions_reset reference_lib 10 zero_abi (\<lambda>_. replicate 32 0) 3 zero_target no_pages = Inr mr \<and>
     lookup_inst reference_lib mr 0x1A04 = Inr (le_word (map (\<lambda>k. 0) [0..<4]))"
proof -
  obtain mr where mr: "regions_reset reference_lib 10 zero_abi (\<lambda>_. replicate 32 0) 3 zero_target no_pages = Inr mr"
    "mr_regions mr = [zero_region]" using zero_reset by blast
  have "reads_from zero_target (\<lambda>_. 0)" by (simp add: reads_from_def zero_target_def)
  from reset_finds_instructions [OF reference_lib_ok(1,2) this _ mr(1), of zero_region "0x1A04"]
  have "lookup_inst reference_lib mr 0x1A04 = Inr (le_word (map (\<lambda>k. 0) [0..<4]))"
    by (simp add: mr(2) zero_pages no_pages_def mph_empty_def) (simp add: zero_region_def)
  with mr(1) show ?thesis by blast
qed

text \<open>Looking up an instruction at an address that is in no region does not fail: it returns a
  word of some page of the regions, since the hash does not know its keys.\<close>

lemma unmapped_instruction_found:
  assumes "fastmod_ok e" and "sort_ok e" and "length (pa2buf_vec rs) < 2 ^ 31" and "m_salts (ms_mph old) = []"
    and "create_hash e timer old rs = Inr mr" and "\<forall>r \<in> set rs. page_region r"
    and "pa2buf_vec rs \<noteq> []" and "unat a mod 4096 \<le> 4092"
  shows "\<exists>r \<in> set rs. \<exists>off. off + 4 \<le> length (img_bytes r) \<and>
    lookup_inst e mr a = Inr (le_word (take 4 (drop off (img_bytes r))))"
proof -
  from assms(5) obtain h where h: "static_build e timer None old (pa2buf_vec rs) = Inr h" "mr = \<lparr>mr_regions = rs, mr_pa2buf = h\<rparr>"
    by (auto simp: create_hash_def res_simps)
  from static_get_any [OF assms(1,2,3,7,4) h(1), of "drop_bit PAGE_SZ_LOG2 a"] obtain p where
    p: "p \<in> set (pa2buf_vec rs)" "static_get e h (drop_bit PAGE_SZ_LOG2 a) = Inr (snd p)" by auto
  from pa2buf_good [OF assms(6) p(1)] obtain i off where io: "snd p = Some (i, off)" "i < length rs"
    "off + 4096 \<le> length (img_bytes (rs ! i))"
    by (auto simp: good_page_def)
  have "unat (a AND (PAGE_SZ - 1)) = unat a mod 4096" by (rule page_offset)
  then show ?thesis
    using p(2) io assms(8)
    by (intro bexI [of _ "rs ! i"] exI [of _ "off + unat a mod 4096"]) (simp_all add: lookup_inst_def h(2))
qed


lemma unmapped_instruction_found_witness:
  "\<exists>mr off. create_hash reference_lib 10 no_pages [zero_region] = Inr mr \<and>
     lookup_inst reference_lib mr 0x7777000 = Inr (le_word (take 4 (drop off (img_bytes zero_region))))"
proof -
  obtain mr where mr: "create_hash reference_lib 10 no_pages [zero_region] = Inr mr" using zero_hash by blast
  have "page_region zero_region" by (simp add: page_region_def zero_region_def)
  then show ?thesis
    using unmapped_instruction_found [OF reference_lib_ok(1,2) _ _ mr, of "0x7777000"] mr
    by (auto simp: zero_pages no_pages_def mph_empty_def)
qed

section \<open>Regions in a log\<close>

text \<open>A region as \<^verbatim>\<open>TraceLog::write\<close> puts it into the metadata.\<close>

definition region_log_bytes :: "image_info \<Rightarrow> buffer" where
  "region_log_bytes r = log_region_bytes r @ img_path r"

definition wf_image :: "image_info \<Rightarrow> bool" where
  "wf_image r \<longleftrightarrow> length (img_uuid r) = 16 \<and> length (img_digest r) = 32 \<and> length (img_path r) < 2 ^ 64"

lemma length_region_log_bytes: "wf_image r \<Longrightarrow> length (region_log_bytes r) = 88 + length (img_path r)"
  by (simp add: region_log_bytes_def log_region_bytes_def wf_image_def)

lemma load_region_log:
  assumes "has_bytes mem p (region_log_bytes r)" and "wf_image r"
  shows "load_log_region mem p = Inr (r\<lparr>img_bytes := []\<rparr>, length (img_path r))"
proof -
  have h: "has_bytes mem p (le_bytes 8 (img_base r))" "has_bytes mem (p + 8) (le_bytes 8 (img_size r))"
    "has_bytes mem (p + 16) (le_bytes 8 (img_slide r))" "has_bytes mem (p + 24) (img_uuid r)"
    "has_bytes mem (p + 40) (img_digest r)" "has_bytes mem (p + 72) (le_bytes 8 (of_bool (img_is_jit r) :: u64))"
    "has_bytes mem (p + 80) (le_bytes 8 (of_nat (length (img_path r)) :: u64))" "has_bytes mem (p + 88) (img_path r)"
    using assms by (simp_all add: region_log_bytes_def log_region_bytes_def wf_image_def has_bytes_append add.assoc)
  have len: "unat (of_nat (length (img_path r)) :: u64) = length (img_path r)"
    using assms(2) by (simp add: wf_image_def unat_of_nat take_bit_nat_eq_self)
  have "load_bytes 16 mem (p + 24) = Inr (img_uuid r)" "load_bytes 32 mem (p + 40) = Inr (img_digest r)"
    "load_bytes (length (img_path r)) mem (p + 88) = Inr (img_path r)"
    using h assms(2) by (simp_all add: load_bytes_has_bytes wf_image_def)
  then show ?thesis
    using h by (simp add: load_log_region_def load_has_bytes len sizeof_log_region_def del: load_ok)
qed

text \<open>One round of the loop.\<close>

lemma regions_loop_step:
  assumes "has_bytes mem p (region_log_bytes r)" and "wf_image r"
  shows "regions_loop mem (Suc n) p M =
    and_then (assert_that (of_nat (length (case M (img_digest r) of None \<Rightarrow> [] | Some b \<Rightarrow> b)) = img_size r)) (\<lambda>_.
    and_then (regions_loop mem n (p + length (region_log_bytes r)) (M(img_digest r \<mapsto> []))) (\<lambda>(imgs, q).
    Inr (r\<lparr>img_bytes := case M (img_digest r) of None \<Rightarrow> [] | Some b \<Rightarrow> b\<rparr> # imgs, q)))"
  using load_region_log [OF assms] length_region_log_bytes [OF assms(2)]
  by (simp add: Let_def sizeof_log_region_def add.assoc)

lemma regions_loop_ok:
  assumes "has_bytes mem p (concat (map region_log_bytes imgs))" and "\<forall>r \<in> set imgs. wf_image r"
    and "distinct (map img_digest imgs)"
    and "\<forall>r \<in> set imgs. M (img_digest r) = Some (img_bytes r) \<and> img_size r = of_nat (length (img_bytes r))"
  shows "regions_loop mem (length imgs) p M = Inr (imgs, p + length (concat (map region_log_bytes imgs)))"
  using assms
proof (induction imgs arbitrary: p M)
  case Nil
  then show ?case by simp
next
  case (Cons r imgs)
  have h: "has_bytes mem p (region_log_bytes r)"
    "has_bytes mem (p + length (region_log_bytes r)) (concat (map region_log_bytes imgs))" and wf: "wf_image r"
    using Cons.prems(1,2) by (simp_all add: has_bytes_append)
  have "regions_loop mem (length imgs) (p + length (region_log_bytes r)) (M(img_digest r \<mapsto> [])) =
      Inr (imgs, p + length (region_log_bytes r) + length (concat (map region_log_bytes imgs)))"
    using Cons.prems h(2) by (intro Cons.IH) (auto simp: image_iff)
  moreover have "r\<lparr>img_bytes := img_bytes r\<rparr> = r" by simp
  ultimately show ?case
    using Cons.prems(4) by (simp add: regions_loop_step [OF h(1) wf] add.assoc del: regions_loop.simps)
qed

text \<open>A region whose bytes are gone from the map ends the loop with an assertion.\<close>

lemma regions_loop_missing:
  assumes "has_bytes mem p (concat (map region_log_bytes imgs))" and "\<forall>r \<in> set imgs. wf_image r"
    and "\<exists>r \<in> set imgs. img_size r \<noteq> 0 \<and> M (img_digest r) \<in> {None, Some []}"
  shows "regions_loop mem (length imgs) p M = Inl Assertion_Failed"
  using assms
proof (induction imgs arbitrary: p M)
  case Nil
  then show ?case by simp
next
  case (Cons r imgs)
  have h: "has_bytes mem p (region_log_bytes r)"
    "has_bytes mem (p + length (region_log_bytes r)) (concat (map region_log_bytes imgs))" and wf: "wf_image r"
    using Cons.prems(1,2) by (simp_all add: has_bytes_append)
  have step: "regions_loop mem (length (r # imgs)) p M = Inl Assertion_Failed"
    if "regions_loop mem (length imgs) (p + length (region_log_bytes r)) (M(img_digest r \<mapsto> [])) = Inl Assertion_Failed \<or>
        img_size r \<noteq> 0 \<and> M (img_digest r) \<in> {None, Some []}"
    using that by (auto simp: regions_loop_step [OF h(1) wf] assert_that_def simp del: regions_loop.simps)
  show ?case
  proof (cases "img_size r \<noteq> 0 \<and> M (img_digest r) \<in> {None, Some []}")
    case True
    then show ?thesis by (intro step) blast
  next
    case False
    with Cons.prems(3) obtain s where "s \<in> set imgs" "img_size s \<noteq> 0" "M (img_digest s) \<in> {None, Some []}" by auto
    then have "\<exists>s \<in> set imgs. img_size s \<noteq> 0 \<and> (M(img_digest r \<mapsto> [])) (img_digest s) \<in> {None, Some []}"
      by (intro bexI [of _ s]) auto
    with Cons.IH [OF h(2)] Cons.prems(2) show ?thesis by (intro step) auto
  qed
qed

lemma regions_loop_equal_digests:
  assumes "has_bytes mem p (concat (map region_log_bytes (pre @ r # mid)))" and "\<forall>r \<in> set (pre @ r # mid). wf_image r"
    and "s \<in> set mid" "img_digest s = img_digest r" "img_size s \<noteq> 0"
  shows "regions_loop mem (length (pre @ r # mid)) p M = Inl Assertion_Failed"
  using assms
proof (induction pre arbitrary: p M)
  case Nil
  have h: "has_bytes mem p (region_log_bytes r)"
    "has_bytes mem (p + length (region_log_bytes r)) (concat (map region_log_bytes mid))" and wf: "wf_image r"
    using Nil.prems(1,2) by (simp_all add: has_bytes_append)
  have "regions_loop mem (length mid) (p + length (region_log_bytes r)) (M(img_digest r \<mapsto> [])) = Inl Assertion_Failed"
    using Nil.prems by (intro regions_loop_missing [OF h(2)]) auto
  then show ?case by (simp add: regions_loop_step [OF h(1) wf] assert_that_def del: regions_loop.simps)
next
  case (Cons q pre)
  have h: "has_bytes mem p (region_log_bytes q)"
    "has_bytes mem (p + length (region_log_bytes q)) (concat (map region_log_bytes (pre @ r # mid)))" and wf: "wf_image q"
    using Cons.prems(1,2) by (simp_all add: has_bytes_append add.assoc)
  have "regions_loop mem (length (pre @ r # mid)) (p + length (region_log_bytes q)) (M(img_digest q \<mapsto> [])) = Inl Assertion_Failed"
    by (rule Cons.IH [OF h(2)]) (use Cons.prems in auto)
  then show ?case by (simp add: regions_loop_step [OF h(1) wf] assert_that_def del: regions_loop.simps)
qed

text \<open>C37: The regions of a log are read back from the metadata and the region files, in order, when
  their digests differ; when two regions of a log have the same digest, the second one finds
  its bytes moved away and reading the log ends in an assertion.\<close>

theorem log_regions_read_back:
  assumes "has_bytes mem p (concat (map region_log_bytes imgs))" and "\<forall>r \<in> set imgs. wf_image r"
  shows "(distinct (map img_digest imgs) \<and>
      (\<forall>r \<in> set imgs. M (img_digest r) = Some (img_bytes r) \<and> img_size r = of_nat (length (img_bytes r))) \<longrightarrow>
      regions_loop mem (length imgs) p M = Inr (imgs, p + length (concat (map region_log_bytes imgs)))) \<and>
    (\<forall>pre r mid s. imgs = pre @ r # mid \<and> s \<in> set mid \<and> img_digest s = img_digest r \<and> img_size s \<noteq> 0 \<longrightarrow>
      regions_from_log e timer mem p (length imgs) M = Inl Assertion_Failed)"
proof (intro conjI allI impI)
  show "regions_loop mem (length imgs) p M = Inr (imgs, p + length (concat (map region_log_bytes imgs)))"
    if "distinct (map img_digest imgs) \<and>
      (\<forall>r \<in> set imgs. M (img_digest r) = Some (img_bytes r) \<and> img_size r = of_nat (length (img_bytes r)))"
    using regions_loop_ok [OF assms] that by blast
  fix pre r mid s
  assume eq: "imgs = pre @ r # mid \<and> s \<in> set mid \<and> img_digest s = img_digest r \<and> img_size s \<noteq> 0"
  then have "regions_loop mem (length (pre @ r # mid)) p M = Inl Assertion_Failed"
    using assms by (intro regions_loop_equal_digests [where s = s]) auto
  with eq show "regions_from_log e timer mem p (length imgs) M = Inl Assertion_Failed"
    by (simp add: regions_from_log_def)
qed

theorem log_regions_read_back_witness:
  "regions_loop (region_log_bytes zero_region) 1 0 [replicate 32 0 \<mapsto> replicate 4096 0] =
     Inr ([zero_region], length (region_log_bytes zero_region)) \<and>
   regions_from_log reference_lib 10 (region_log_bytes zero_region @ region_log_bytes zero_region) 0 2
     [replicate 32 0 \<mapsto> replicate 4096 0] = Inl Assertion_Failed"
proof
  have "decimal 0 = [48]" by (simp add: decimal.simps)
  then have wf: "wf_image zero_region"
    by (simp add: wf_image_def zero_region_def jit_path_def ascii_def hex2_def)
  have "has_bytes (region_log_bytes zero_region) 0 (concat (map region_log_bytes [zero_region]))" by (simp add: has_bytes_def)
  from log_regions_read_back [OF this, of "[replicate 32 0 \<mapsto> replicate 4096 0]"] wf
  show "regions_loop (region_log_bytes zero_region) 1 0 [replicate 32 0 \<mapsto> replicate 4096 0] =
      Inr ([zero_region], length (region_log_bytes zero_region))"
    by (simp add: zero_region_def del: regions_loop.simps)
  have sz: "img_size zero_region \<noteq> 0" by (simp add: zero_region_def)
  let ?mem = "region_log_bytes zero_region @ region_log_bytes zero_region"
  have "has_bytes ?mem 0 (concat (map region_log_bytes [zero_region, zero_region]))" by (simp add: has_bytes_def)
  from log_regions_read_back [OF this, of "[replicate 32 0 \<mapsto> replicate 4096 0]" reference_lib 10] wf
  have "\<forall>pre r mid s. [zero_region, zero_region] = pre @ r # mid \<and> s \<in> set mid \<and> img_digest s = img_digest r \<and> img_size s \<noteq> 0 \<longrightarrow>
      regions_from_log reference_lib 10 ?mem 0 (length [zero_region, zero_region])
        [replicate 32 0 \<mapsto> replicate 4096 0] = Inl Assertion_Failed" by simp
  from this [rule_format, of "[]" zero_region "[zero_region]" zero_region]
  show "regions_from_log reference_lib 10 ?mem 0 2 [replicate 32 0 \<mapsto> replicate 4096 0] = Inl Assertion_Failed"
    using sz by (simp add: numeral_2_eq_2)
qed

end
