(* ===== verification/Symbols.thy ===== *)
theory Symbols
  imports Target
begin

text \<open>
  Symbols, \<^verbatim>\<open>lib/xnu-trace/Symbols.cpp\<close>: listing those of the target, choosing the ones that
  overlap a set of intervals, reading them from the metadata of a log, and looking one up.

  CoreSymbolication is a parameter, the list of symbols it enumerates; so is the interval
  tree, as the question whether an interval overlaps one of its own.  Symbols that share a
  base are left in the order they came in.
\<close>

record sym_info =
  sym_base :: u64
  sym_size :: u64
  sym_name :: buffer
  sym_path :: buffer

text \<open>A symbol of CoreSymbolication; its owner is null, or has a path or none.\<close>

record cs_symbol =
  cs_location :: u64
  cs_length :: u64
  cs_mangled_name :: "buffer option"
  cs_owner :: "buffer option option"

definition not_available :: buffer where
  "not_available = map of_char ''n/a''"

definition get_symbols :: "target \<Rightarrow> cs_symbol list \<Rightarrow> sym_info list res" where
  "get_symbols t cs =
     and_then (assert_that (symbolicator t)) (\<lambda>_.
     and_then (map_res (\<lambda>s.
         and_then (assert_some (cs_owner s)) (\<lambda>path.
         Inr \<lparr>sym_base = cs_location s, sym_size = cs_length s,
              sym_name = case_option not_available id (cs_mangled_name s),
              sym_path = case_option not_available id path\<rparr>)) cs) (\<lambda>res.
     Inr (sort_key sym_base res)))"

definition get_symbols_in_intervals :: "sym_info list \<Rightarrow> (u64 \<times> u64 \<Rightarrow> bool) \<Rightarrow> sym_info list" where
  "get_symbols_in_intervals syms overlaps =
     sort_key sym_base (filter (\<lambda>s. overlaps (sym_base s, sym_base s + sym_size s)) syms)"

definition symbols_reset :: "target \<Rightarrow> cs_symbol list \<Rightarrow> sym_info list res" where
  "symbols_reset t cs =
     and_then (assert_that (task_given t)) (\<lambda>_.
     and_then (suspend_target t) (\<lambda>_. and_then (get_symbols t cs) (\<lambda>m_syms.
     and_then (resume_target t) (\<lambda>_. Inr (sort_key sym_base m_syms)))))"

definition lookup_symbol :: "sym_info list \<Rightarrow> u64 \<Rightarrow> sym_info option" where
  "lookup_symbol m_syms addr =
     find (\<lambda>s. sym_base s \<le> addr \<and> addr < sym_base s + sym_size s) m_syms"

section \<open>Symbols of a log\<close>

definition sizeof_log_sym :: nat where "sizeof_log_sym = 32"

text \<open>The \<^verbatim>\<open>log_sym\<close> of a symbol, which its name and path follow.\<close>

definition log_sym_bytes :: "sym_info \<Rightarrow> buffer" where
  "log_sym_bytes s = le_bytes 8 (sym_base s) @ le_bytes 8 (sym_size s) @
     le_bytes 8 (of_nat (length (sym_name s)) :: u64) @ le_bytes 8 (of_nat (length (sym_path s)) :: u64)"

text \<open>One symbol, and the sum of the lengths of its name and path.\<close>

definition load_log_sym :: "buffer \<Rightarrow> nat \<Rightarrow> (sym_info \<times> nat) res" where
  "load_log_sym mem p =
     and_then (load mem p) (\<lambda>base. and_then (load mem (p + 8)) (\<lambda>sz.
     and_then (load mem (p + 16)) (\<lambda>name_len :: u64. and_then (load mem (p + 24)) (\<lambda>path_len :: u64.
     and_then (load_bytes (unat name_len) mem (p + sizeof_log_sym)) (\<lambda>name.
     and_then (load_bytes (unat path_len) mem (p + sizeof_log_sym + unat name_len)) (\<lambda>path.
     Inr (\<lparr>sym_base = base, sym_size = sz, sym_name = name, sym_path = path\<rparr>, unat name_len + unat path_len)))))))"

primrec symbols_loop :: "buffer \<Rightarrow> nat \<Rightarrow> nat \<Rightarrow> sym_info list res" where
  "symbols_loop mem 0 p = Inr []"
| "symbols_loop mem (Suc n) p =
     and_then (load_log_sym mem p) (\<lambda>(sym, len).
     and_then (symbols_loop mem n (p + sizeof_log_sym + len)) (\<lambda>syms. Inr (sym # syms)))"

definition symbols_from_log :: "buffer \<Rightarrow> nat \<Rightarrow> nat \<Rightarrow> sym_info list res" where
  "symbols_from_log mem p num_syms =
     and_then (symbols_loop mem num_syms p) (\<lambda>m_syms. Inr (sort_key sym_base m_syms))"

section \<open>Lemmas\<close>

text \<open>A symbol as \<^verbatim>\<open>TraceLog::write\<close> puts it into the metadata.\<close>

definition sym_log_bytes :: "sym_info \<Rightarrow> buffer" where
  "sym_log_bytes s = log_sym_bytes s @ sym_name s @ sym_path s"

definition wf_sym :: "sym_info \<Rightarrow> bool" where
  "wf_sym s \<longleftrightarrow> length (sym_name s) < 2 ^ 64 \<and> length (sym_path s) < 2 ^ 64"

lemma length_sym_log_bytes: "length (sym_log_bytes s) = 32 + length (sym_name s) + length (sym_path s)"
  by (simp add: sym_log_bytes_def log_sym_bytes_def)

lemma load_sym_log:
  assumes "has_bytes mem p (sym_log_bytes s)" and "wf_sym s"
  shows "load_log_sym mem p = Inr (s, length (sym_name s) + length (sym_path s))"
proof -
  let ?n = "length (sym_name s)"
  have h: "has_bytes mem p (le_bytes 8 (sym_base s))" "has_bytes mem (p + 8) (le_bytes 8 (sym_size s))"
    "has_bytes mem (p + 16) (le_bytes 8 (of_nat ?n :: u64))"
    "has_bytes mem (p + 24) (le_bytes 8 (of_nat (length (sym_path s)) :: u64))"
    "has_bytes mem (p + 32) (sym_name s)" "has_bytes mem (p + 32 + ?n) (sym_path s)"
    using assms(1) by (simp_all add: sym_log_bytes_def log_sym_bytes_def has_bytes_append add.assoc)
  have len: "unat (of_nat ?n :: u64) = ?n" "unat (of_nat (length (sym_path s)) :: u64) = length (sym_path s)"
    using assms(2) by (simp_all add: wf_sym_def unat_of_nat take_bit_nat_eq_self)
  have "load_bytes ?n mem (p + 32) = Inr (sym_name s)" "load_bytes (length (sym_path s)) mem (p + 32 + ?n) = Inr (sym_path s)"
    using h by (simp_all add: load_bytes_has_bytes)
  then show ?thesis
    using h by (simp add: load_log_sym_def load_has_bytes len sizeof_log_sym_def del: load_ok)
qed

lemma symbols_loop_ok:
  assumes "has_bytes mem p (concat (map sym_log_bytes syms))" and "\<forall>s \<in> set syms. wf_sym s"
  shows "symbols_loop mem (length syms) p = Inr syms"
  using assms
proof (induction syms arbitrary: p)
  case Nil
  then show ?case by simp
next
  case (Cons s syms)
  have h: "has_bytes mem p (sym_log_bytes s)"
    "has_bytes mem (p + length (sym_log_bytes s)) (concat (map sym_log_bytes syms))" and wf: "wf_sym s"
    using Cons.prems(1,2) by (simp_all add: has_bytes_append)
  have "symbols_loop mem (length syms) (p + length (sym_log_bytes s)) = Inr syms"
    using Cons.IH [OF h(2)] Cons.prems(2) by simp
  then show ?case
    using load_sym_log [OF h(1) wf] by (simp add: length_sym_log_bytes sizeof_log_sym_def add.assoc)
qed

end
