(* ===== verification/TraceFiles.thy ===== *)
theory TraceFiles
  imports RegionsProps Symbols CompressedFileProps TraceLogger TraceReader "HOL-Library.AList"
begin

text \<open>
  The directory of a trace, \<^verbatim>\<open>TraceLog::write\<close> and the reading constructor of
  \<^verbatim>\<open>lib/xnu-trace/TraceLog.cpp\<close>: the metadata with the regions and symbols, one file per
  region with its bytes, one file per thread with its log.

  A directory is the list of its files in the order it is enumerated.  A file that is open
  when another is written is put in place when it is closed.  The interval tree is the
  parameter \<open>tree\<close>: given the inserted intervals, whether an interval overlaps one of them.
\<close>

type_synonym directory = "(buffer \<times> buffer) list"

definition META_magic :: u64 where "META_magic = 0x8d3adfb84154454d"
definition MACH_magic :: u64 where "MACH_magic = 0x8d3adfb84843414d"
definition THRD_magic :: u64 where "THRD_magic = 0x8d3adfb844524854"

definition sizeof_meta_hdr :: u64 where "sizeof_meta_hdr = 16"
definition sizeof_macho_hdr :: u64 where "sizeof_macho_hdr = 32"
definition sizeof_thread_hdr :: u64 where "sizeof_thread_hdr = 16"

definition meta_name :: buffer where "meta_name = ascii ''meta.bin''"
definition region_prefix :: buffer where "region_prefix = ascii ''macho-region-''"
definition thread_prefix :: buffer where "thread_prefix = ascii ''thread-''"

definition thread_name :: "u32 \<Rightarrow> buffer" where
  "thread_name tid = thread_prefix @ decimal (unat tid) @ ascii ''.bin''"

text \<open>A \<^verbatim>\<open>log_thread_hdr\<close> and a \<^verbatim>\<open>log_meta_hdr\<close> are two words.\<close>

definition hdr2_bytes :: "u64 \<Rightarrow> u64 \<Rightarrow> buffer" where
  "hdr2_bytes a b = le_bytes 8 a @ le_bytes 8 b"

definition load_hdr2 :: "buffer \<Rightarrow> (u64 \<times> u64) res" where
  "load_hdr2 hdr = and_then (load hdr 0) (\<lambda>a. and_then (load hdr 8) (\<lambda>b. Inr (a, b)))"

section \<open>Starting a log\<close>

text \<open>The writing constructor empties the directory, except for the region files.\<close>

definition trace_log_start :: "bool \<Rightarrow> directory \<Rightarrow> trace_log \<times> directory" where
  "trace_log_start stream dir =
     (\<lparr>m_num_inst = 0, m_stream = stream, m_thread_ctxs = \<lparr>m_mph = mph_empty, m_key_vals = []\<rparr>\<rparr>,
      filter (\<lambda>(nm, _). prefix region_prefix nm) dir)"

definition trace_log_num_bytes :: "trace_log \<Rightarrow> nat" where
  "trace_log_num_bytes lg =
     sum_list (map (\<lambda>(tid, c). case log_stream c of
        None \<Rightarrow> length (log_buf c) | Some s \<Rightarrow> length s) (m_key_vals (m_thread_ctxs lg)))"

section \<open>Writing\<close>

text \<open>The contexts of a log with the threads they belong to.\<close>

definition log_ctxs :: "trace_log \<Rightarrow> (u32 \<times> thread_ctx) list" where
  "log_ctxs lg = map (\<lambda>(k, c). (ucast k, c)) (m_key_vals (m_thread_ctxs lg))"

definition thread_bufs :: "buffer \<Rightarrow> (u32 \<times> thread_ctx) list \<Rightarrow> log_thread_buf list" where
  "thread_bufs after ctxs =
     map (\<lambda>(tid, c). \<lparr>lb_mem = log_buf c @ after, lb_size = length (log_buf c), lb_num_inst = num_inst c\<rparr>) ctxs"

definition pc_intervals ::
    "bool \<Rightarrow> buffer \<Rightarrow> (u32 \<times> thread_ctx) list \<Rightarrow> image_info list \<Rightarrow> (u64 \<times> u64) list res" where
  "pc_intervals stream after ctxs regions =
     (if \<not> stream then
        and_then (map_res extract_pcs_from_trace (thread_bufs after ctxs)) (\<lambda>pcs.
        Inr (map (\<lambda>pc. (pc, pc + 4)) (remdups (concat pcs))))
      else Inr (map (\<lambda>r. (img_base r, img_base r + img_size r)) regions))"

definition meta_chunks :: "image_info list \<Rightarrow> sym_info list \<Rightarrow> buffer list" where
  "meta_chunks regions syms =
     concat (map (\<lambda>r. [log_region_bytes r, img_path r]) regions) @
     concat (map (\<lambda>s. [log_sym_bytes s, sym_name s, sym_path s]) syms)"

text \<open>The symbols that overlap the intervals, when symbols are given at all.\<close>

definition chosen_syms ::
    "((u64 \<times> u64) list \<Rightarrow> u64 \<times> u64 \<Rightarrow> bool) \<Rightarrow> sym_info list option \<Rightarrow> (u64 \<times> u64) list \<Rightarrow> sym_info list" where
  "chosen_syms tree symbols pcs =
     (case symbols of None \<Rightarrow> [] | Some all_syms \<Rightarrow> get_symbols_in_intervals all_syms (tree pcs))"

text \<open>The region files already there that have the region's digest.\<close>

definition reused_regions :: "('c, 'd) zstd_lib \<Rightarrow> directory \<Rightarrow> image_info list \<Rightarrow> buffer list res" where
  "reused_regions z dir regions =
     and_then (map_res (\<lambda>r. case map_of dir (log_path r) of
         None \<Rightarrow> Inr []
       | Some bytes \<Rightarrow>
           and_then (cf_open_read z (Some bytes) sizeof_macho_hdr MACH_magic) (\<lambda>f.
           Inr (if cf_hdr_buf f = img_digest r then [log_path r] else []))) regions) (\<lambda>ps. Inr (concat ps))"

text \<open>Opening for writing, writing and closing; a body of several writes for the metadata.\<close>

definition write_regions ::
    "('c, 'd) zstd_lib \<Rightarrow> int \<Rightarrow> nat \<Rightarrow> buffer list \<Rightarrow> image_info list \<Rightarrow> directory \<Rightarrow> directory res" where
  "write_regions z cores fuel reused regions dir =
     fold_res (\<lambda>r dir.
       if log_path r \<in> set reused then Inr dir
       else and_then (save_file z cores fuel MACH_magic (img_digest r) 1 0 [img_bytes r]) (\<lambda>bytes.
            Inr (AList.update (log_path r) bytes dir))) regions dir"

definition write_threads ::
    "('c, 'd) zstd_lib \<Rightarrow> int \<Rightarrow> nat \<Rightarrow> int \<Rightarrow> (u32 \<times> thread_ctx) list \<Rightarrow> directory \<Rightarrow> directory res" where
  "write_threads z cores fuel level ctxs dir =
     fold_res (\<lambda>(tid, c) dir.
       and_then (save_file z cores fuel THRD_magic (hdr2_bytes (ucast tid) (num_inst c)) level 0 [log_buf c]) (\<lambda>bytes.
       Inr (AList.update (thread_name tid) bytes dir))) ctxs dir"

text \<open>
  The whole of \<^verbatim>\<open>write\<close>: the directory afterwards and, for a log that is streamed, the
  headers the threads' files have from now on.
\<close>

definition trace_log_write ::
    "('c, 'd) zstd_lib \<Rightarrow> int \<Rightarrow> nat \<Rightarrow> ((u64 \<times> u64) list \<Rightarrow> u64 \<times> u64 \<Rightarrow> bool) \<Rightarrow> buffer \<Rightarrow> bool \<Rightarrow> int \<Rightarrow>
       (u32 \<times> thread_ctx) list \<Rightarrow> image_info list \<Rightarrow> sym_info list option \<Rightarrow> directory \<Rightarrow>
       (directory \<times> (u32 \<times> buffer) list) res" where
  "trace_log_write z cores fuel tree after stream level ctxs regions symbols dir =
     and_then (pc_intervals stream after ctxs regions) (\<lambda>pcs.
     let syms = chosen_syms tree symbols pcs in
     and_then (save_file z cores fuel META_magic
         (hdr2_bytes (of_nat (length regions)) (of_nat (length syms))) 0 0 (meta_chunks regions syms)) (\<lambda>meta.
     and_then (reused_regions z dir regions) (\<lambda>reused.
     let dir = filter (\<lambda>(nm, _). \<not> prefix region_prefix nm \<or> nm \<in> set reused) dir in
     and_then (write_regions z cores fuel reused regions dir) (\<lambda>dir.
     and_then (if stream then Inr dir else write_threads z cores fuel level ctxs dir) (\<lambda>dir.
     Inr (AList.update meta_name meta dir,
          if stream then map (\<lambda>(tid, c). (tid, hdr2_bytes (ucast tid) (num_inst c))) ctxs else []))))))"

text \<open>
  What a \<^verbatim>\<open>write\<close> that does not return leaves: the files that are complete.  A file that is being
  written when the program ends holds some part of its bytes and is not listed; the metadata
  is such a file from its opening to the end of \<^verbatim>\<open>write\<close>.  Nothing is opened before the program
  counters have been extracted.
\<close>

primrec until_fault ::
    "('a \<Rightarrow> buffer) \<Rightarrow> ('a \<Rightarrow> directory \<Rightarrow> directory res) \<Rightarrow> 'a list \<Rightarrow> directory \<Rightarrow> bool \<times> directory" where
  "until_fault name write [] dir = (True, dir)"
| "until_fault name write (x # xs) dir =
     (case write x dir of
        Inl _ \<Rightarrow> (False, AList.delete (name x) dir)
      | Inr dir \<Rightarrow> until_fault name write xs dir)"

lemma until_fault_written: "until_fault name write xs dir = (True, dir') \<longleftrightarrow> fold_res write xs dir = Inr dir'"
  by (induction xs arbitrary: dir) (auto simp: and_then_def split: sum.split)

definition write_interrupted ::
    "('c, 'd) zstd_lib \<Rightarrow> int \<Rightarrow> nat \<Rightarrow> ((u64 \<times> u64) list \<Rightarrow> u64 \<times> u64 \<Rightarrow> bool) \<Rightarrow> buffer \<Rightarrow> bool \<Rightarrow> int \<Rightarrow>
       (u32 \<times> thread_ctx) list \<Rightarrow> image_info list \<Rightarrow> sym_info list option \<Rightarrow> directory \<Rightarrow> directory" where
  "write_interrupted z cores fuel tree after stream level ctxs regions symbols dir =
     (case pc_intervals stream after ctxs regions of
        Inl _ \<Rightarrow> dir
      | Inr pcs \<Rightarrow>
          let syms = chosen_syms tree symbols pcs; opened = AList.delete meta_name dir in
          case and_then (save_file z cores fuel META_magic
                 (hdr2_bytes (of_nat (length regions)) (of_nat (length syms))) 0 0 (meta_chunks regions syms))
                 (\<lambda>_. reused_regions z dir regions) of
            Inl _ \<Rightarrow> opened
          | Inr reused \<Rightarrow>
              (case until_fault log_path (\<lambda>r. write_regions z cores fuel reused [r]) regions
                      (filter (\<lambda>(nm, _). \<not> prefix region_prefix nm \<or> nm \<in> set reused) opened) of
                 (finished, dir) \<Rightarrow>
                   if finished \<and> \<not> stream
                   then snd (until_fault (\<lambda>tc. thread_name (fst tc)) (\<lambda>tc. write_threads z cores fuel level [tc]) ctxs dir)
                   else dir))"

section \<open>Reading\<close>

record parsed_log =
  pl_regions :: macho_regions
  pl_symbols :: "sym_info list"
  pl_num_inst :: u64
  pl_logs :: "(u32 \<times> log_thread_buf) list"

definition fetch_named ::
    "('c, 'd) zstd_lib \<Rightarrow> nat \<Rightarrow> u64 \<Rightarrow> u64 \<Rightarrow> directory \<Rightarrow> buffer \<Rightarrow> (buffer \<times> buffer) res" where
  "fetch_named z fuel hdr_sz magic dir nm =
     and_then (check (map_of dir nm)) (fetch_file z fuel hdr_sz magic)"

text \<open>The walk over the regions of the metadata to the first symbol.\<close>

primrec skip_regions :: "buffer \<Rightarrow> nat \<Rightarrow> nat \<Rightarrow> nat res" where
  "skip_regions mem 0 p = Inr p"
| "skip_regions mem (Suc n) p =
     and_then (load mem (p + 80)) (\<lambda>path_len :: u64. skip_regions mem n (p + sizeof_log_region + unat path_len))"

text \<open>The first file with a digest counts; the parsed logs are a map ordered by thread.\<close>

definition read_thread ::
    "('c, 'd) zstd_lib \<Rightarrow> nat \<Rightarrow> buffer \<Rightarrow> directory \<Rightarrow> buffer \<Rightarrow> (u32 \<times> log_thread_buf) res" where
  "read_thread z fuel after dir nm =
     and_then (fetch_named z fuel sizeof_thread_hdr THRD_magic dir nm) (\<lambda>(hdr, buf).
     and_then (load_hdr2 hdr) (\<lambda>(tid, n).
     Inr (ucast tid, \<lparr>lb_mem = buf @ after, lb_size = length buf, lb_num_inst = n\<rparr>)))"

definition trace_log_read ::
    "('c, 'd) zstd_lib \<Rightarrow> hash_lib \<Rightarrow> nat \<Rightarrow> nat \<Rightarrow> buffer \<Rightarrow> directory \<Rightarrow> parsed_log res" where
  "trace_log_read z e timer fuel after dir =
     and_then (fetch_named z fuel sizeof_meta_hdr META_magic dir meta_name) (\<lambda>(hdr, meta).
     and_then (load_hdr2 hdr) (\<lambda>(num_regions, num_syms).
     let regions_paths = filter (prefix region_prefix) (map fst dir) in
     and_then (assert_that (of_nat (length regions_paths) = num_regions)) (\<lambda>_.
     and_then (map_res (fetch_named z fuel sizeof_macho_hdr MACH_magic dir) regions_paths) (\<lambda>regions_bytes.
     and_then (regions_from_log e timer meta 0 (unat num_regions) (map_of regions_bytes)) (\<lambda>regions.
     and_then (skip_regions meta (unat num_regions) 0) (\<lambda>p.
     and_then (symbols_from_log meta p (unat num_syms)) (\<lambda>syms.
     let thread_paths = filter (\<lambda>nm. nm \<noteq> meta_name \<and> \<not> prefix region_prefix nm) (map fst dir) in
     and_then (assert_that (list_all (prefix thread_prefix) thread_paths)) (\<lambda>_.
     and_then (map_res (read_thread z fuel after dir) thread_paths) (\<lambda>logs.
     Inr \<lparr>pl_regions = regions, pl_symbols = syms, pl_num_inst = sum_list (map (lb_num_inst \<circ> snd) logs),
          pl_logs = sort_key fst (fold (\<lambda>(tid, b) m. if tid \<in> fst ` set m then m else m @ [(tid, b)]) logs [])\<rparr>)))))))))"

end
