(* ===== verification/TraceFilesProps.thy ===== *)
theory TraceFilesProps
  imports TraceFiles TraceProps
begin

text \<open>
  A log directory that is written is read back: regions, symbols and threads.
\<close>

section \<open>Names\<close>

definition undecimal :: "buffer \<Rightarrow> nat" where
  "undecimal bs = foldl (\<lambda>n b. 10 * n + (unat b - 48)) 0 bs"

lemma undecimal_decimal: "undecimal (decimal n) = n"
proof (induction n rule: decimal.induct)
  case (1 n)
  have digit: "unat (of_nat (48 + d) :: byte) - 48 = d" if "d < 10" for d
    using that by (simp add: unat_of_nat take_bit_nat_eq_self del: of_nat_add)
  show ?case
  proof (cases "n < 10")
    case True
    then show ?thesis using digit [of n] by (simp add: decimal.simps [of n] undecimal_def del: of_nat_add)
  next
    case False
    then have "undecimal (decimal n) = 10 * undecimal (decimal (n div 10)) + n mod 10"
      using digit [of "n mod 10"] by (simp add: decimal.simps [of n] undecimal_def del: of_nat_add)
    also have "\<dots> = n" using "1.IH" False by simp
    finally show ?thesis .
  qed
qed

lemma thread_name_inj: "thread_name a = thread_name b \<Longrightarrow> a = b"
proof -
  assume "thread_name a = thread_name b"
  then have "decimal (unat a) = decimal (unat b)" by (simp add: thread_name_def)
  then have "unat a = unat b" by (metis undecimal_decimal)
  then show "a = b" by (simp only: word_unat_eq_iff)
qed

lemma name_kinds:
  "prefix region_prefix (log_path r)" "\<not> prefix region_prefix (thread_name tid)" "\<not> prefix region_prefix meta_name"
  "prefix thread_prefix (thread_name tid)" "thread_name tid \<noteq> meta_name" "log_path r \<noteq> meta_name"
  "log_path r \<noteq> thread_name tid"
  by (simp_all add: log_path_def region_prefix_def thread_name_def thread_prefix_def meta_name_def ascii_def)

section \<open>Files\<close>

lemma save_fetch:
  assumes sv: "save_file z cores fuel magic hdr level workers chunks = Inr bytes"
    and z: "level \<noteq> 0 \<Longrightarrow> compressor_ok z frame m" "decompressor_ok z frame"
    and hdr: "hdr \<noteq> []" "length hdr < 2 ^ 64" and n: "length (concat chunks) < 2 ^ 64"
    and fuel: "level \<noteq> 0 \<Longrightarrow> m < fuel" "\<And>b. b \<in> set chunks \<Longrightarrow> Suc (length b) * Suc m \<le> fuel"
    and ne: "level \<noteq> 0 \<or> chunks \<noteq> []" and timer: "length bytes + length (concat chunks) < timer"
  shows "fetch_file z timer (of_nat (length hdr)) magic bytes = Inr (hdr, concat chunks)"
proof -
  have full: "level \<noteq> 0 \<or> [] \<notin> set chunks"     using save_empty_chunk [OF hdr(1), of chunks z cores fuel magic workers] sv by (cases "level = 0") auto
  from save_layout [OF z(1) hdr(1) fuel(1) fuel(2) full] sv obtain w where
    w: "bytes = saved_bytes magic hdr (level \<noteq> 0) (length (concat chunks)) w"
    "if level \<noteq> 0 then frame w (concat chunks) else w = concat chunks"
    by (metis sum.inject(2))
  have "level = 0 \<Longrightarrow> concat chunks \<noteq> []" using full ne by (cases chunks) auto
  with w(2) have "if level \<noteq> 0 then frame w (concat chunks) else w = concat chunks \<and> concat chunks \<noteq> []" by auto
  moreover have "length w + length (concat chunks) < timer" using timer w(1) by (simp add: saved_bytes_def)
  ultimately show ?thesis unfolding w(1) by (intro fetch_saved [OF hdr n z(2)])
qed

text \<open>Writing files under fresh names appends them.\<close>

lemma update_fresh: "k \<notin> fst ` set d \<Longrightarrow> AList.update k b d = d @ [(k, b)]"
  by (induction d) auto

lemma fold_update:
  assumes "fold_res (\<lambda>x d. and_then (g x) (\<lambda>b. Inr (AList.update (k x) b d))) xs d = Inr d'"
    and "distinct (map k xs)" and "\<forall>x \<in> set xs. k x \<notin> fst ` set d"
  shows "d' = d @ map (\<lambda>x. (k x, projr (g x))) xs \<and> (\<forall>x \<in> set xs. g x = Inr (projr (g x)))"
  using assms
proof (induction xs arbitrary: d)
  case Nil
  then show ?case by simp
next
  case (Cons x xs)
  then obtain b where b: "g x = Inr b" by (auto simp: res_simps)
  have u: "AList.update (k x) b d = d @ [(k x, b)]" using Cons.prems(3) by (simp add: update_fresh)
  have "d' = (d @ [(k x, b)]) @ map (\<lambda>x. (k x, projr (g x))) xs \<and> (\<forall>x \<in> set xs. g x = Inr (projr (g x)))"
    by (rule Cons.IH) (use Cons.prems b u in \<open>auto simp: image_iff\<close>)
  then show ?case by (simp add: b)
qed

section \<open>The metadata\<close>

lemma concat_meta_chunks:
  "concat (meta_chunks regions syms) = concat (map region_log_bytes regions) @ concat (map sym_log_bytes syms)"
proof -
  have "concat (concat (map (\<lambda>r. [log_region_bytes r, img_path r]) rs)) = concat (map region_log_bytes rs)" for rs
    by (induction rs) (simp_all add: region_log_bytes_def)
  moreover have "concat (concat (map (\<lambda>s. [log_sym_bytes s, sym_name s, sym_path s]) ss)) = concat (map sym_log_bytes ss)" for ss
    by (induction ss) (simp_all add: sym_log_bytes_def)
  ultimately show ?thesis by (simp add: meta_chunks_def)
qed

lemma skip_regions_ok:
  assumes "has_bytes mem p (concat (map region_log_bytes rs))" and "\<forall>r \<in> set rs. wf_image r"
  shows "skip_regions mem (length rs) p = Inr (p + length (concat (map region_log_bytes rs)))"
  using assms
proof (induction rs arbitrary: p)
  case Nil
  then show ?case by simp
next
  case (Cons r rs)
  have h: "has_bytes mem p (region_log_bytes r)"
    "has_bytes mem (p + length (region_log_bytes r)) (concat (map region_log_bytes rs))" and wf: "wf_image r"
    using Cons.prems by (simp_all add: has_bytes_append)
  have "has_bytes mem (p + 80) (le_bytes 8 (of_nat (length (img_path r)) :: u64))"
    using h(1) wf by (simp add: region_log_bytes_def log_region_bytes_def wf_image_def has_bytes_append add.assoc)
  then have ld: "load mem (p + 80) = Inr (of_nat (length (img_path r)) :: u64)"
    by (simp add: load_has_bytes del: load_ok)
  have "unat (of_nat (length (img_path r)) :: u64) = length (img_path r)"
    using wf by (simp add: wf_image_def unat_of_nat take_bit_nat_eq_self)
  with ld Cons.IH [OF h(2)] Cons.prems(2) show ?case
    by (simp add: length_region_log_bytes [OF wf] sizeof_log_region_def add.assoc)
qed

lemma load_hdr2_ok: "load_hdr2 (hdr2_bytes a b) = Inr (a, b)"
proof -
  have "has_bytes (hdr2_bytes a b) 0 (le_bytes 8 a)" "has_bytes (hdr2_bytes a b) 8 (le_bytes 8 b)"
    by (simp_all add: hdr2_bytes_def has_bytes_def)
  then show ?thesis by (simp add: load_hdr2_def load_has_bytes del: load_ok)
qed

lemma length_hdr2 [simp]: "length (hdr2_bytes a b) = 16"
  by (simp add: hdr2_bytes_def)

lemma hdr2_not_Nil: "hdr2_bytes a b \<noteq> []"
  by (metis length_hdr2 list.size(3) zero_neq_numeral)

lemma map_res_map: "map_res f (map g xs) = map_res (\<lambda>x. f (g x)) xs"
  by (induction xs) simp_all

section \<open>Writing into an empty directory\<close>

abbreviation region_file :: "('c, 'd) zstd_lib \<Rightarrow> int \<Rightarrow> nat \<Rightarrow> image_info \<Rightarrow> buffer" where
  "region_file z cores fuel r \<equiv> projr (save_file z cores fuel MACH_magic (img_digest r) 1 0 [img_bytes r])"

abbreviation thread_file :: "('c, 'd) zstd_lib \<Rightarrow> int \<Rightarrow> nat \<Rightarrow> int \<Rightarrow> u32 \<times> thread_ctx \<Rightarrow> buffer" where
  "thread_file z cores fuel level tc \<equiv> projr (save_file z cores fuel THRD_magic
     (hdr2_bytes (ucast (fst tc)) (num_inst (snd tc))) level 0 [log_buf (snd tc)])"

definition log_files ::
    "('c, 'd) zstd_lib \<Rightarrow> int \<Rightarrow> nat \<Rightarrow> int \<Rightarrow> (u32 \<times> thread_ctx) list \<Rightarrow> image_info list \<Rightarrow> buffer \<Rightarrow> directory" where
  "log_files z cores fuel level ctxs regions meta =
     map (\<lambda>r. (log_path r, region_file z cores fuel r)) regions @
     map (\<lambda>tc. (thread_name (fst tc), thread_file z cores fuel level tc)) ctxs @ [(meta_name, meta)]"

lemma no_reuse: "reused_regions z [] regions = Inr []"
proof -
  have "map_res (\<lambda>r. case map_of [] (log_path r) of None \<Rightarrow> Inr [] | Some bytes \<Rightarrow>
           and_then (cf_open_read z (Some bytes) sizeof_macho_hdr MACH_magic) (\<lambda>f.
           Inr (if cf_hdr_buf f = img_digest r then [log_path r] else []))) regions = Inr (map (\<lambda>r. []) regions)"
    by (rule map_res_total) simp
  then show ?thesis by (simp add: reused_regions_def)
qed

lemma write_regions_ok:
  assumes "write_regions z cores fuel [] regions [] = Inr d" and "distinct (map log_path regions)"
  shows "d = map (\<lambda>r. (log_path r, region_file z cores fuel r)) regions \<and>
    (\<forall>r \<in> set regions. save_file z cores fuel MACH_magic (img_digest r) 1 0 [img_bytes r] = Inr (region_file z cores fuel r))"
  using fold_update [of "\<lambda>r. save_file z cores fuel MACH_magic (img_digest r) 1 0 [img_bytes r]" log_path regions "[]" d] assms
  by (simp add: write_regions_def)

lemma write_threads_ok:
  assumes "write_threads z cores fuel level ctxs d0 = Inr d" and "distinct (map fst ctxs)"
    and "\<forall>tid. thread_name tid \<notin> fst ` set d0"
  shows "d = d0 @ map (\<lambda>tc. (thread_name (fst tc), thread_file z cores fuel level tc)) ctxs \<and>
    (\<forall>tc \<in> set ctxs. save_file z cores fuel THRD_magic (hdr2_bytes (ucast (fst tc)) (num_inst (snd tc))) level 0
       [log_buf (snd tc)] = Inr (thread_file z cores fuel level tc))"
proof -
  have "distinct (map (\<lambda>tc. thread_name (fst tc)) ctxs)"
    using assms(2) by (simp add: distinct_map inj_on_def) (metis thread_name_inj)
  then show ?thesis
    using fold_update [of "\<lambda>tc. save_file z cores fuel THRD_magic
        (hdr2_bytes (ucast (fst tc)) (num_inst (snd tc))) level 0 [log_buf (snd tc)]"
        "\<lambda>tc. thread_name (fst tc)" ctxs d0 d] assms(1,3)
    by (simp add: write_threads_def case_prod_unfold)
qed

lemma written_log:
  assumes "trace_log_write z cores fuel tree after False level ctxs regions symbols [] = Inr (dir, hs)"
    and "distinct (map log_path regions)" and "distinct (map fst ctxs)"
    and "pc_intervals False after ctxs regions = Inr pcs" and syms: "syms = chosen_syms tree symbols pcs"
  shows "\<exists>meta. save_file z cores fuel META_magic (hdr2_bytes (of_nat (length regions)) (of_nat (length syms))) 0 0
        (meta_chunks regions syms) = Inr meta \<and>
    dir = log_files z cores fuel level ctxs regions meta \<and>
    (\<forall>r \<in> set regions. save_file z cores fuel MACH_magic (img_digest r) 1 0 [img_bytes r] = Inr (region_file z cores fuel r)) \<and>
    (\<forall>tc \<in> set ctxs. save_file z cores fuel THRD_magic (hdr2_bytes (ucast (fst tc)) (num_inst (snd tc))) level 0
       [log_buf (snd tc)] = Inr (thread_file z cores fuel level tc))"
proof -
  from assms(1,4) obtain meta d1 d2 where
    m: "save_file z cores fuel META_magic (hdr2_bytes (of_nat (length regions)) (of_nat (length syms))) 0 0
        (meta_chunks regions syms) = Inr meta"
    and d: "write_regions z cores fuel [] regions [] = Inr d1" "write_threads z cores fuel level ctxs d1 = Inr d2"
    "dir = AList.update meta_name meta d2"
    by (auto simp: trace_log_write_def Let_def res_simps no_reuse syms)
  note w1 = write_regions_ok [OF d(1) assms(2)]
  have "\<forall>tid. thread_name tid \<notin> fst ` set d1" using w1 by (auto simp: name_kinds(7) [THEN not_sym])
  note w2 = write_threads_ok [OF d(2) assms(3) this]
  have "meta_name \<notin> fst ` set d2"
    using w1 w2 by (auto simp: name_kinds(5,6) [THEN not_sym])
  then have "dir = d2 @ [(meta_name, meta)]" using d(3) by (simp add: update_fresh)
  then have "dir = log_files z cores fuel level ctxs regions meta" using w1 w2 by (simp add: log_files_def)
  with m w1 w2 show ?thesis by blast
qed

lemma log_files_distinct:
  assumes "distinct (map log_path regions)" and "distinct (map fst ctxs)"
  shows "distinct (map fst (log_files z cores fuel level ctxs regions meta))"
proof -
  have "distinct (map (\<lambda>tc. thread_name (fst tc)) ctxs)"
    using assms(2) by (simp add: distinct_map inj_on_def) (metis thread_name_inj)
  then show ?thesis
    using assms(1) by (auto simp: log_files_def comp_def name_kinds name_kinds(5-7) [THEN not_sym])
qed

lemma log_files_names:
  "filter (prefix region_prefix) (map fst (log_files z cores fuel level ctxs regions meta)) = map log_path regions"
  "filter (\<lambda>nm. nm \<noteq> meta_name \<and> \<not> prefix region_prefix nm) (map fst (log_files z cores fuel level ctxs regions meta)) =
     map (\<lambda>tc. thread_name (fst tc)) ctxs"
  by (simp_all add: log_files_def name_kinds comp_def filter_map)


section \<open>Reading it back\<close>

definition thread_log :: "buffer \<Rightarrow> u32 \<times> thread_ctx \<Rightarrow> u32 \<times> log_thread_buf" where
  "thread_log after tc = (fst tc, \<lparr>lb_mem = log_buf (snd tc) @ after, lb_size = length (log_buf (snd tc)),
     lb_num_inst = num_inst (snd tc)\<rparr>)"

lemma emplace_all:
  assumes "distinct (map fst logs)"
  shows "fold (\<lambda>(tid, b) m. if tid \<in> fst ` set m then m else m @ [(tid, b)]) logs [] = logs"
proof -
  have "distinct (map fst (m @ logs)) \<Longrightarrow>
      fold (\<lambda>(tid, b) m. if tid \<in> fst ` set m then m else m @ [(tid, b)]) logs m = m @ logs" for m
  proof (induction logs arbitrary: m)
    case Nil
    then show ?case by simp
  next
    case (Cons p logs)
    then have "fst p \<notin> fst ` set m" by auto
    then show ?case using Cons.IH [of "m @ [p]"] Cons.prems by (cases p) auto
  qed
  from this [of "[]"] assms show ?thesis by simp
qed

text \<open>The bound \<open>n\<close> on the bodies and the fuel for the compressor go with a log to be written.\<close>

definition log_fits ::
    "(u32 \<times> thread_ctx) list \<Rightarrow> image_info list \<Rightarrow> sym_info list \<Rightarrow> nat \<Rightarrow> bool" where
  "log_fits ctxs regions syms n \<longleftrightarrow> n < 2 ^ 64 \<and>
     (\<forall>r \<in> set regions. wf_image r \<and> img_size r = of_nat (length (img_bytes r)) \<and> length (img_bytes r) \<le> n) \<and>
     (\<forall>s \<in> set syms. wf_sym s) \<and> (\<forall>tc \<in> set ctxs. length (log_buf (snd tc)) \<le> n) \<and>
     length (concat (meta_chunks regions syms)) \<le> n \<and> regions \<noteq> [] \<and>
     length regions < 2 ^ 64 \<and> length syms < 2 ^ 64 \<and>
     distinct (map img_digest regions) \<and> distinct (map log_path regions) \<and> distinct (map fst ctxs)"

lemma fetch_log_file:
  assumes z: "compressor_ok z frame m" "decompressor_ok z frame"
    and n: "n < 2 ^ 64" and fuel: "Suc n * Suc m \<le> fuel" "m < fuel"
    and dir: "distinct (map fst dir)" "(nm, bytes) \<in> set dir"
    and sv: "save_file z cores fuel magic hdr level 0 chunks = Inr bytes"
    and b: "length (concat chunks) \<le> n" "chunks \<noteq> []" and timer: "length bytes + n < timer"
    and hdr: "hdr \<noteq> []" "length hdr < 2 ^ 64" "sz = of_nat (length hdr)"
  shows "fetch_named z timer sz magic dir nm = Inr (hdr, concat chunks)"
proof -
  have "Suc (length c) * Suc m \<le> fuel" if "c \<in> set chunks" for c
  proof -
    have "length c \<le> length (concat chunks)" using split_list [OF that] by auto
    then have "Suc (length c) * Suc m \<le> Suc n * Suc m" using b(1) by (intro mult_le_mono) simp_all
    then show ?thesis using fuel(1) by simp
  qed
  then have "fetch_file z timer (of_nat (length hdr)) magic bytes = Inr (hdr, concat chunks)"
    using b timer n by (intro save_fetch [OF sv z hdr(1,2)]) (simp_all add: fuel(2))
  moreover have "map_of dir nm = Some bytes" using dir by (rule map_of_is_SomeI)
  ultimately show ?thesis by (simp add: fetch_named_def check_def hdr(3))
qed

lemma read_log_threads:
  assumes z: "compressor_ok z frame m" "decompressor_ok z frame"
    and fits: "log_fits ctxs regions syms n" and fuel: "Suc n * Suc m \<le> fuel" "m < fuel"
    and dir: "dir = log_files z cores fuel level ctxs regions meta" "\<forall>(nm, bytes) \<in> set dir. length bytes + n < timer"
    and sv: "\<forall>tc \<in> set ctxs. save_file z cores fuel THRD_magic (hdr2_bytes (ucast (fst tc)) (num_inst (snd tc))) level 0
       [log_buf (snd tc)] = Inr (thread_file z cores fuel level tc)"
  shows "map_res (read_thread z timer after dir) (map (\<lambda>tc. thread_name (fst tc)) ctxs) = Inr (map (thread_log after) ctxs)"
proof -
  have "read_thread z timer after dir (thread_name (fst tc)) = Inr (thread_log after tc)" if tc: "tc \<in> set ctxs" for tc
  proof -
    have mem: "(thread_name (fst tc), thread_file z cores fuel level tc) \<in> set dir"
      using tc by (auto simp: dir(1) log_files_def)
    have dist: "distinct (map fst dir)"
      unfolding dir(1) using fits by (intro log_files_distinct) (simp_all add: log_fits_def)
    have "fetch_named z timer sizeof_thread_hdr THRD_magic dir (thread_name (fst tc)) =
        Inr (hdr2_bytes (ucast (fst tc)) (num_inst (snd tc)), concat [log_buf (snd tc)])"
      using fits tc bspec [OF sv tc] dir(2) mem
      by (intro fetch_log_file [OF z _ fuel dist mem]) (auto simp: log_fits_def sizeof_thread_hdr_def hdr2_not_Nil)
    moreover have "ucast (ucast (fst tc) :: u64) = fst tc" by (rule bit_word_eqI) (simp add: bit_simps)
    ultimately show ?thesis
      by (simp add: read_thread_def load_hdr2_ok thread_log_def)
  qed
  then have "map_res (\<lambda>tc. read_thread z timer after dir (thread_name (fst tc))) ctxs = Inr (map (thread_log after) ctxs)"
    by (intro map_res_total) simp
  then show ?thesis by (simp add: map_res_map)
qed

lemma read_log_regions:
  assumes z: "compressor_ok z frame m" "decompressor_ok z frame"
    and fits: "log_fits ctxs regions syms n" and fuel: "Suc n * Suc m \<le> fuel" "m < fuel"
    and dir: "distinct (map fst dir)" "\<forall>r \<in> set regions. (log_path r, region_file z cores fuel r) \<in> set dir"
      "\<forall>(nm, bytes) \<in> set dir. length bytes + n < timer"
    and sv: "\<forall>r \<in> set regions. save_file z cores fuel MACH_magic (img_digest r) 1 0 [img_bytes r] = Inr (region_file z cores fuel r)"
  shows "map_res (fetch_named z timer sizeof_macho_hdr MACH_magic dir) (map log_path regions) =
      Inr (map (\<lambda>r. (img_digest r, img_bytes r)) regions)"
proof -
  have "fetch_named z timer sizeof_macho_hdr MACH_magic dir (log_path r) = Inr (img_digest r, img_bytes r)"
    if r: "r \<in> set regions" for r
  proof -
    note mem = bspec [OF dir(2) r]
    have d: "length (img_digest r) = 32" using fits r by (auto simp: log_fits_def wf_image_def)
    have "fetch_named z timer sizeof_macho_hdr MACH_magic dir (log_path r) = Inr (img_digest r, concat [img_bytes r])"
      using fits r bspec [OF sv r] dir(3) mem d
      by (intro fetch_log_file [OF z _ fuel dir(1) mem]) (auto simp: log_fits_def sizeof_macho_hdr_def)
    then show ?thesis by simp
  qed
  then have "map_res (\<lambda>r. fetch_named z timer sizeof_macho_hdr MACH_magic dir (log_path r)) regions =
      Inr (map (\<lambda>r. (img_digest r, img_bytes r)) regions)"
    by (intro map_res_total) simp
  then show ?thesis by (simp add: map_res_map)
qed


lemma read_log_meta:
  assumes fits: "log_fits ctxs regions syms n"
    and b: "regions_bytes = map (\<lambda>r. (img_digest r, img_bytes r)) regions"
  defines "meta \<equiv> concat (meta_chunks regions syms)"
  shows "regions_from_log e timer meta 0 (length regions) (map_of regions_bytes) =
      create_hash e timer no_pages (sort_key img_base regions)"
    and "skip_regions meta (length regions) 0 = Inr (length (concat (map region_log_bytes regions)))"
    and "symbols_from_log meta (length (concat (map region_log_bytes regions))) (length syms) = Inr (sort_key sym_base syms)"
proof -
  let ?rb = "concat (map region_log_bytes regions)" and ?sb = "concat (map sym_log_bytes syms)"
  have m: "meta = ?rb @ ?sb" by (simp add: meta_def concat_meta_chunks)
  have hr: "has_bytes meta 0 ?rb" and hs: "has_bytes meta (length ?rb) ?sb"
    by (simp_all add: m has_bytes_def)
  have wf: "\<forall>r \<in> set regions. wf_image r" "\<forall>s \<in> set syms. wf_sym s" using fits by (auto simp: log_fits_def)
  have "map_of regions_bytes (img_digest r) = Some (img_bytes r)" if "r \<in> set regions" for r
    using fits that by (intro map_of_is_SomeI) (auto simp: b log_fits_def comp_def)
  then have "\<forall>r \<in> set regions. map_of regions_bytes (img_digest r) = Some (img_bytes r) \<and>
      img_size r = of_nat (length (img_bytes r))"
    using fits by (auto simp: log_fits_def)
  then have "regions_loop meta (length regions) 0 (map_of regions_bytes) = Inr (regions, 0 + length ?rb)"
    using fits by (intro regions_loop_ok [OF hr wf(1)]) (simp_all add: log_fits_def)
  then show "regions_from_log e timer meta 0 (length regions) (map_of regions_bytes) =
      create_hash e timer no_pages (sort_key img_base regions)"
    by (simp add: regions_from_log_def no_pages_def)
  show "skip_regions meta (length regions) 0 = Inr (length ?rb)"
    using skip_regions_ok [OF hr wf(1)] by simp
  show "symbols_from_log meta (length ?rb) (length syms) = Inr (sort_key sym_base syms)"
    using symbols_loop_ok [OF hs wf(2)] by (simp add: symbols_from_log_def)
qed

text \<open>Reading, from what each of the directory's files holds.\<close>

lemma read_directory:
  assumes "fetch_named z timer sizeof_meta_hdr META_magic dir meta_name =
      Inr (hdr2_bytes (of_nat (length regions)) (of_nat (length syms)), concat (meta_chunks regions syms))"
    and names: "filter (prefix region_prefix) (map fst dir) = map log_path regions"
      "filter (\<lambda>nm. nm \<noteq> meta_name \<and> \<not> prefix region_prefix nm) (map fst dir) = map (\<lambda>tc. thread_name (fst tc)) ctxs"
    and "map_res (fetch_named z timer sizeof_macho_hdr MACH_magic dir) (map log_path regions) =
      Inr (map (\<lambda>r. (img_digest r, img_bytes r)) regions)"
    and "map_res (read_thread z timer after' dir) (map (\<lambda>tc. thread_name (fst tc)) ctxs) = Inr (map (thread_log after') ctxs)"
    and fits: "log_fits ctxs regions syms n"
  shows "trace_log_read z e t timer after' dir =
    and_then (create_hash e t no_pages (sort_key img_base regions)) (\<lambda>mr.
    Inr \<lparr>pl_regions = mr, pl_symbols = sort_key sym_base syms,
         pl_num_inst = sum_list (map (num_inst \<circ> snd) ctxs), pl_logs = sort_key fst (map (thread_log after') ctxs)\<rparr>)"
proof -
  have u: "unat (of_nat (length regions) :: u64) = length regions" "unat (of_nat (length syms) :: u64) = length syms"
    using fits by (simp_all add: log_fits_def unat_of_nat take_bit_nat_eq_self)
  note rm = read_log_meta [OF fits refl]
  have "list_all (prefix thread_prefix) (map (\<lambda>tc. thread_name (fst tc)) ctxs)"
    by (simp add: list_all_iff name_kinds)
  moreover have "distinct (map fst (map (thread_log after') ctxs))"
    using fits by (simp add: comp_def thread_log_def log_fits_def)
  note emplace_all [OF this]
  moreover have "lb_num_inst \<circ> snd \<circ> thread_log after' = num_inst \<circ> snd"
    by (rule ext) (simp add: thread_log_def)
  ultimately show ?thesis
    by (simp add: trace_log_read_def Let_def assms(1,4,5) load_hdr2_ok names rm u)
qed

text \<open>Writing succeeds when nothing that goes uncompressed into a file is empty.\<close>

definition log_writable :: "int \<Rightarrow> (u32 \<times> thread_ctx) list \<Rightarrow> image_info list \<Rightarrow> sym_info list \<Rightarrow> bool" where
  "log_writable level ctxs regions syms \<longleftrightarrow>
     (\<forall>r \<in> set regions. img_path r \<noteq> []) \<and> (\<forall>s \<in> set syms. sym_name s \<noteq> [] \<and> sym_path s \<noteq> []) \<and>
     (level = 0 \<longrightarrow> (\<forall>tc \<in> set ctxs. log_buf (snd tc) \<noteq> []))"

lemma fold_res_total:
  assumes "\<And>x s. x \<in> set xs \<Longrightarrow> \<exists>s'. f x s = Inr s'"
  shows "\<exists>s'. fold_res f xs s = Inr s'"
  using assms
proof (induction xs arbitrary: s)
  case Nil
  then show ?case by simp
next
  case (Cons x xs)
  obtain s' where "f x s = Inr s'" using Cons.prems [of x] by auto
  moreover obtain s'' where "fold_res f xs s' = Inr s''" using Cons by (metis list.set_intros(2))
  ultimately show ?case by simp
qed

lemma save_ok:
  assumes z: "compressor_ok z frame m" and fuel: "Suc n * Suc m \<le> fuel" "m < fuel"
    and b: "length (concat chunks) \<le> n" and hdr: "hdr \<noteq> []" and ne: "level \<noteq> 0 \<or> [] \<notin> set chunks"
  shows "\<exists>bytes. save_file z cores fuel magic hdr level 0 chunks = Inr bytes"
proof -
  have "Suc (length c) * Suc m \<le> fuel" if "c \<in> set chunks" for c
  proof -
    have "length c \<le> length (concat chunks)" using split_list [OF that] by auto
    then have "Suc (length c) * Suc m \<le> Suc n * Suc m" using b by (intro mult_le_mono) simp_all
    then show ?thesis using fuel(1) by simp
  qed
  then show ?thesis using save_layout [OF z hdr fuel(2) _ ne] by blast
qed

lemma write_succeeds:
  assumes z: "compressor_ok z frame m" and pcs: "pc_intervals False after ctxs regions = Inr pcs"
    and syms: "syms = chosen_syms tree symbols pcs" and fits: "log_fits ctxs regions syms n"
    and wr: "log_writable level ctxs regions syms" and fuel: "Suc n * Suc m \<le> fuel" "m < fuel"
  shows "\<exists>dir hs. trace_log_write z cores fuel tree after False level ctxs regions symbols [] = Inr (dir, hs)"
proof -
  have "[] \<notin> set (meta_chunks regions syms)"
  proof -
    have "log_region_bytes r \<noteq> []" for r
    proof
      assume "log_region_bytes r = []"
      from arg_cong [OF this, of length] show False by (simp add: log_region_bytes_def)
    qed
    moreover have "log_sym_bytes s \<noteq> []" for s
    proof
      assume "log_sym_bytes s = []"
      from arg_cong [OF this, of length] show False by (simp add: log_sym_bytes_def)
    qed
    ultimately show ?thesis
      using wr unfolding meta_chunks_def log_writable_def by (auto dest: sym [of "[]"])
  qed
  moreover have "length (concat (meta_chunks regions syms)) \<le> n" using fits by (simp add: log_fits_def)
  ultimately obtain meta where m: "save_file z cores fuel META_magic
      (hdr2_bytes (of_nat (length regions)) (of_nat (length syms))) 0 0 (meta_chunks regions syms) = Inr meta"
    using save_ok [OF z fuel _ hdr2_not_Nil] by blast
  have "\<exists>d1. write_regions z cores fuel [] regions [] = Inr d1"
    unfolding write_regions_def
  proof (rule fold_res_total)
    fix r d assume r: "r \<in> set regions"
    then have "img_digest r \<noteq> []" using fits by (auto simp: log_fits_def wf_image_def)
    moreover have "length (concat [img_bytes r]) \<le> n" using fits r by (simp add: log_fits_def)
    moreover have "(1 :: int) \<noteq> 0 \<or> [] \<notin> set [img_bytes r]" by simp
    ultimately obtain bytes where "save_file z cores fuel MACH_magic (img_digest r) 1 0 [img_bytes r] = Inr bytes"
      using save_ok [OF z fuel] by blast
    then show "\<exists>s'. (if log_path r \<in> set [] then Inr d
        else and_then (save_file z cores fuel MACH_magic (img_digest r) 1 0 [img_bytes r]) (\<lambda>bytes.
             Inr (AList.update (log_path r) bytes d))) = Inr s'" by simp
  qed
  then obtain d1 where d1: "write_regions z cores fuel [] regions [] = Inr d1" by blast
  have "\<exists>d2. write_threads z cores fuel level ctxs d1 = Inr d2"
    unfolding write_threads_def
  proof (rule fold_res_total)
    fix tc d assume tc: "tc \<in> set ctxs"
    have "level \<noteq> 0 \<or> [] \<notin> set [log_buf (snd tc)]" using wr tc by (auto simp: log_writable_def)
    moreover have "length (concat [log_buf (snd tc)]) \<le> n" using fits tc by (simp add: log_fits_def)
    ultimately obtain bytes where "save_file z cores fuel THRD_magic (hdr2_bytes (ucast (fst tc)) (num_inst (snd tc))) level 0
        [log_buf (snd tc)] = Inr bytes"
      using save_ok [OF z fuel _ hdr2_not_Nil] by blast
    then show "\<exists>s'. (case tc of (tid, c) \<Rightarrow> \<lambda>dir.
        and_then (save_file z cores fuel THRD_magic (hdr2_bytes (ucast tid) (num_inst c)) level 0 [log_buf c]) (\<lambda>bytes.
        Inr (AList.update (thread_name tid) bytes dir))) d = Inr s'" by (cases tc) simp
  qed
  then show ?thesis
    using pcs m d1 by (auto simp: trace_log_write_def Let_def no_reuse syms [symmetric])
qed

lemma read_written_log:
  assumes "compressor_ok z frame m" and "decompressor_ok z frame"
    and "trace_log_write z cores fuel tree after False level ctxs regions symbols [] = Inr (dir, hs)"
    and "pc_intervals False after ctxs regions = Inr pcs" and "syms = chosen_syms tree symbols pcs"
    and "log_fits ctxs regions syms n" and "Suc n * Suc m \<le> fuel" and "m < fuel"
    and "\<forall>(nm, bytes) \<in> set dir. length bytes + n < timer"
  shows "trace_log_read z e t timer after' dir =
    and_then (create_hash e t no_pages (sort_key img_base regions)) (\<lambda>mr.
    Inr \<lparr>pl_regions = mr, pl_symbols = sort_key sym_base syms,
         pl_num_inst = sum_list (map (num_inst \<circ> snd) ctxs), pl_logs = sort_key fst (map (thread_log after') ctxs)\<rparr>)"
proof -
  note fits = assms(6)
  have dist: "distinct (map log_path regions)" "distinct (map fst ctxs)" using fits by (simp_all add: log_fits_def)
  from written_log [OF assms(3) dist assms(4,5)] obtain meta where
    sm: "save_file z cores fuel META_magic (hdr2_bytes (of_nat (length regions)) (of_nat (length syms))) 0 0
        (meta_chunks regions syms) = Inr meta" and
    dir: "dir = log_files z cores fuel level ctxs regions meta" and
    sr: "\<forall>r \<in> set regions. save_file z cores fuel MACH_magic (img_digest r) 1 0 [img_bytes r] = Inr (region_file z cores fuel r)" and
    st: "\<forall>tc \<in> set ctxs. save_file z cores fuel THRD_magic (hdr2_bytes (ucast (fst tc)) (num_inst (snd tc))) level 0
       [log_buf (snd tc)] = Inr (thread_file z cores fuel level tc)"
    by blast
  have mem: "(meta_name, meta) \<in> set dir" by (simp add: dir log_files_def)
  have dd: "distinct (map fst dir)" unfolding dir by (rule log_files_distinct [OF dist])
  have "meta_chunks regions syms \<noteq> []" using fits by (auto simp: log_fits_def meta_chunks_def)
  then have fm: "fetch_named z timer sizeof_meta_hdr META_magic dir meta_name =
      Inr (hdr2_bytes (of_nat (length regions)) (of_nat (length syms)), concat (meta_chunks regions syms))"
    using fits assms(9) mem
    by (intro fetch_log_file [OF assms(1,2) _ assms(7,8) dd mem sm])
      (auto simp: log_fits_def sizeof_meta_hdr_def hdr2_not_Nil)
  note names = log_files_names [of z cores fuel level ctxs regions meta, folded dir]
  have "\<forall>r \<in> set regions. (log_path r, region_file z cores fuel r) \<in> set dir" by (simp add: dir log_files_def)
  note rr = read_log_regions [OF assms(1,2) fits assms(7,8) dd this assms(9) sr]
  note rt = read_log_threads [OF assms(1,2) fits assms(7,8) dir assms(9) st, of after']
  show ?thesis by (rule read_directory [OF fm names rr rt fits])
qed

section \<open>A log\<close>

lemma zero_wf: "wf_image zero_region" and zero_path: "img_path zero_region \<noteq> []"
proof -
  have "decimal 0 = [48]" by (simp add: decimal.simps)
  then show "wf_image zero_region" "img_path zero_region \<noteq> []"
    by (simp_all add: wf_image_def zero_region_def jit_path_def ascii_def hex2_def)
qed

text \<open>The context of a thread that has logged one instruction.\<close>

definition sample_thread_ctx :: thread_ctx where
  "sample_thread_ctx = (new_thread_ctx False)\<lparr>num_inst := 1,
     log_buf := trace_bytes 0 (sync_every + 1) (sample_ctx 0x1000 0 0) [sample_ctx 0x1000 0 0]\<rparr>"

lemma sample_log_length: "length (log_buf sample_thread_ctx) \<le> 2000"
proof -
  have "sync_every \<le> sync_every + 1" by code_simp
  then show ?thesis
    by (simp add: sample_thread_ctx_def length_sync_bytes [OF sample_wf] diff_same length_message_bytes
        size_full_ctx_def sync_frame_sz_def length_sync_hdr sizeof_ctx_def)
qed

lemma sample_pcs:
  "pc_intervals False (replicate 16 0) [(7, sample_thread_ctx)] [zero_region] = Inr [(0x1000, 0x1004)]"
proof -
  have "encodable_run (sample_ctx 0x1000 0 0) []" by simp
  then have "extract_pcs_from_trace \<lparr>lb_mem = log_buf sample_thread_ctx @ replicate 16 0,
      lb_size = length (log_buf sample_thread_ctx), lb_num_inst = num_inst sample_thread_ctx\<rparr> = Inr [0x1000, 0x1000]"
    using pcs_read_back [OF sample_wf, of "0x1000" 0 0 "[]" "replicate 16 0" "num_inst sample_thread_ctx"]
    by (simp add: sample_thread_ctx_def sample_pc)
  then show ?thesis by (simp add: pc_intervals_def thread_bufs_def)
qed

section \<open>Properties\<close>



end
