(* ===== verification/Steps.thy ===== *)
theory Steps
  imports Prelude
begin

text \<open>
  Runs of a component whose behaviour is a step relation, and the two things proved about them:
  an invariant of every state reached, and a bound on the number of steps from a measure that
  each step lowers, up to the cost of its action.
\<close>

inductive runs :: "('a \<Rightarrow> 's \<Rightarrow> 's \<Rightarrow> bool) \<Rightarrow> 'a list \<Rightarrow> 's \<Rightarrow> 's \<Rightarrow> bool" for step where
  none: "runs step [] s s"
| more: "runs step acts s t \<Longrightarrow> step a t u \<Longrightarrow> runs step (acts @ [a]) s u"

lemma runs_front: "runs step acts t u \<Longrightarrow> step a s t \<Longrightarrow> runs step (a # acts) s u"
proof (induction rule: runs.induct)
  case (none s')
  show ?case
    using runs.more [of step "[]" s s a s'] none runs.none by fastforce
next
  case (more acts t u b v)
  then show ?case
    using runs.more [of step "a # acts" s u b v] by simp
qed

text \<open>A run of a step function.\<close>

primrec exec_run :: "('a \<Rightarrow> 's \<Rightarrow> 's option) \<Rightarrow> 'a list \<Rightarrow> 's \<Rightarrow> 's option" where
  "exec_run f [] s = Some s"
| "exec_run f (a # acts) s = Option.bind (f a s) (exec_run f acts)"

lemma runs_exec:
  assumes "\<And>a s t. f a s = Some t \<Longrightarrow> step a s t" and "exec_run f acts s = Some t"
  shows "runs step acts s t"
  using assms(2) by (induction acts arbitrary: s) (auto simp: bind_eq_Some_conv intro: runs.none runs_front assms(1))

locale step_system =
  fixes step :: "'a \<Rightarrow> 's \<Rightarrow> 's \<Rightarrow> bool" and inv :: "'s \<Rightarrow> bool"
  assumes inv_step: "step a s t \<Longrightarrow> inv s \<Longrightarrow> inv t"
begin

lemma runs_inv: "runs step acts s t \<Longrightarrow> inv s \<Longrightarrow> inv t"
  by (induction rule: runs.induct) (auto intro: inv_step)

end

locale measured_system = step_system step inv
  for step :: "'a \<Rightarrow> 's \<Rightarrow> 's \<Rightarrow> bool" and inv :: "'s \<Rightarrow> bool" +
  fixes measure_of :: "'s \<Rightarrow> nat" and cost :: "'a \<Rightarrow> nat"
  assumes measure_step: "step a s t \<Longrightarrow> inv s \<Longrightarrow> measure_of t + 1 \<le> measure_of s + cost a"
begin

lemma runs_bound: "runs step acts s t \<Longrightarrow> inv s \<Longrightarrow> length acts + measure_of t \<le> measure_of s + sum_list (map cost acts)"
proof (induction rule: runs.induct)
  case (none s)
  then show ?case by simp
next
  case (more acts s t a u)
  have "inv t"
    using more.hyps(1) more.prems by (rule runs_inv)
  from measure_step [OF more.hyps(2) this] more.IH [OF more.prems] show ?case
    by simp
qed

end

end
