(* ===== verification/ThreadPool.thy ===== *)
theory ThreadPool
  imports Steps
begin

text \<open>
  \<^verbatim>\<open>include/xnu-trace/ThreadPool.h\<close> and \<^verbatim>\<open>Atomic.h\<close>: a caller pushes tasks to the pool and waits
  on a counter that each task decrements when its block has returned.

  The pool of the library \<^verbatim>\<open>BS::thread_pool\<close> is the environment: \<open>p\<close> workers take pushed
  tasks in any order.  The blocks themselves are modelled by the order they return in.  Each
  atomic operation is one step; \<^verbatim>\<open>std::atomic::wait\<close> compares and goes to sleep in one step,
  and a sleeping thread may wake up without a cause, as the standard allows.
\<close>

section \<open>Steps\<close>

datatype task_pc = Unpushed | Queued | Running | Ran | Released | Finished
datatype waiter_pc = Pushing nat | Loading | Checking u64 | Blocked u64 | Returned
datatype action = Push | Push_End | Start nat | Run nat | Decrement nat | Notify nat | Load | Check | Spurious

text \<open>\<open>m_cnt\<close> is the counter of the \<^verbatim>\<open>AtomicWaiter\<close>, \<open>ran\<close> the blocks that have returned.\<close>

record pool =
  tasks :: "task_pc list"
  m_cnt :: u64
  waiter :: waiter_pc
  ran :: "nat list"

definition pool_init :: "u64 \<Rightarrow> pool" where
  "pool_init n = \<lparr>tasks = replicate (unat n) Unpushed, m_cnt = n, waiter = Pushing 0, ran = []\<rparr>"

definition in_state :: "pool \<Rightarrow> nat \<Rightarrow> task_pc \<Rightarrow> bool" where
  "in_state s i t \<longleftrightarrow> i < length (tasks s) \<and> tasks s ! i = t"

definition set_task :: "nat \<Rightarrow> task_pc \<Rightarrow> pool \<Rightarrow> pool" where
  "set_task i t s = s\<lparr>tasks := (tasks s)[i := t]\<rparr>"

definition busy :: "pool \<Rightarrow> nat" where
  "busy s = length (filter (\<lambda>t. t \<in> {Running, Ran, Released}) (tasks s))"

text \<open>\<^verbatim>\<open>notify_all\<close> lets a sleeping waiter compare again.\<close>

definition wake :: "waiter_pc \<Rightarrow> waiter_pc" where
  "wake w = (case w of Blocked c \<Rightarrow> Checking c | _ \<Rightarrow> w)"

inductive pool_step :: "nat \<Rightarrow> action \<Rightarrow> pool \<Rightarrow> pool \<Rightarrow> bool" for p where
  push: "waiter s = Pushing i \<Longrightarrow> i < length (tasks s) \<Longrightarrow>
    pool_step p Push s (set_task i Queued (s\<lparr>waiter := Pushing (i + 1)\<rparr>))"
| push_end: "waiter s = Pushing i \<Longrightarrow> i = length (tasks s) \<Longrightarrow> pool_step p Push_End s (s\<lparr>waiter := Loading\<rparr>)"
| start: "in_state s i Queued \<Longrightarrow> busy s < p \<Longrightarrow> pool_step p (Start i) s (set_task i Running s)"
| run: "in_state s i Running \<Longrightarrow> pool_step p (Run i) s (set_task i Ran (s\<lparr>ran := ran s @ [i]\<rparr>))"
| decrement: "in_state s i Ran \<Longrightarrow> pool_step p (Decrement i) s (set_task i Released (s\<lparr>m_cnt := m_cnt s - 1\<rparr>))"
| notify: "in_state s i Released \<Longrightarrow> pool_step p (Notify i) s (set_task i Finished (s\<lparr>waiter := wake (waiter s)\<rparr>))"
| load: "waiter s = Loading \<Longrightarrow>
    pool_step p Load s (s\<lparr>waiter := (if m_cnt s = 0 then Returned else Checking (m_cnt s))\<rparr>)"
| check: "waiter s = Checking c \<Longrightarrow>
    pool_step p Check s (s\<lparr>waiter := (if m_cnt s = c then Blocked c else Loading)\<rparr>)"
| spurious: "waiter s = Blocked c \<Longrightarrow> pool_step p Spurious s (s\<lparr>waiter := Checking c\<rparr>)"

inductive_simps pool_step_simps:
  "pool_step p Push s t" "pool_step p Push_End s t" "pool_step p (Start i) s t" "pool_step p (Run i) s t"
  "pool_step p (Decrement i) s t" "pool_step p (Notify i) s t" "pool_step p Load s t" "pool_step p Check s t"
  "pool_step p Spurious s t"

text \<open>The steps as a function of the action, and a run of it.\<close>

fun pool_exec :: "nat \<Rightarrow> action \<Rightarrow> pool \<Rightarrow> pool option" where
  "pool_exec p Push s = (case waiter s of
     Pushing i \<Rightarrow> if i < length (tasks s) then Some (set_task i Queued (s\<lparr>waiter := Pushing (i + 1)\<rparr>)) else None
   | _ \<Rightarrow> None)"
| "pool_exec p Push_End s = (if waiter s = Pushing (length (tasks s)) then Some (s\<lparr>waiter := Loading\<rparr>) else None)"
| "pool_exec p (Start i) s = (if in_state s i Queued \<and> busy s < p then Some (set_task i Running s) else None)"
| "pool_exec p (Run i) s = (if in_state s i Running then Some (set_task i Ran (s\<lparr>ran := ran s @ [i]\<rparr>)) else None)"
| "pool_exec p (Decrement i) s =
     (if in_state s i Ran then Some (set_task i Released (s\<lparr>m_cnt := m_cnt s - 1\<rparr>)) else None)"
| "pool_exec p (Notify i) s =
     (if in_state s i Released then Some (set_task i Finished (s\<lparr>waiter := wake (waiter s)\<rparr>)) else None)"
| "pool_exec p Load s =
     (if waiter s = Loading then Some (s\<lparr>waiter := (if m_cnt s = 0 then Returned else Checking (m_cnt s))\<rparr>) else None)"
| "pool_exec p Check s = (case waiter s of
     Checking c \<Rightarrow> Some (s\<lparr>waiter := (if m_cnt s = c then Blocked c else Loading)\<rparr>) | _ \<Rightarrow> None)"
| "pool_exec p Spurious s = (case waiter s of Blocked c \<Rightarrow> Some (s\<lparr>waiter := Checking c\<rparr>) | _ \<Rightarrow> None)"

lemma pool_step_iff_exec: "pool_step p a s t \<longleftrightarrow> pool_exec p a s = Some t"
  by (cases a) (auto simp: pool_step_simps split: waiter_pc.splits)

lemma pool_run_exec: "exec_run (pool_exec p) acts s = Some t \<Longrightarrow> runs (pool_step p) acts s t"
  by (rule runs_exec) (simp_all add: pool_step_iff_exec)

section \<open>Callers\<close>

text \<open>
  \<^verbatim>\<open>parallelize_indexed_loop\<close>: \<open>blocks\<close> is \<^verbatim>\<open>BS::blocks\<close>, the total size and the start and end
  of each block for a range and a number of blocks; an empty range has no task at all.
\<close>

definition loop_blocks ::
    "(nat \<Rightarrow> nat \<Rightarrow> nat \<Rightarrow> nat \<times> (nat \<times> nat) list) \<Rightarrow> nat \<Rightarrow> nat \<Rightarrow> nat \<Rightarrow> nat \<Rightarrow> (nat \<times> nat) list" where
  "loop_blocks blocks thread_count first after num_blocks =
     (case blocks first after (if num_blocks \<noteq> 0 then num_blocks else thread_count) of
        (total_size, blks) \<Rightarrow> if total_size = 0 then [] else blks)"

section \<open>Invariant\<close>

definition pending :: "task_pc \<Rightarrow> nat" where
  "pending t = (if t \<in> {Released, Finished} then 0 else 1)"

definition pool_inv :: "nat \<Rightarrow> pool \<Rightarrow> bool" where
  "pool_inv n s \<longleftrightarrow>
     length (tasks s) = n \<and> unat (m_cnt s) = sum_list (map pending (tasks s)) \<and>
     distinct (ran s) \<and> set (ran s) = {i. i < n \<and> tasks s ! i \<in> {Ran, Released, Finished}} \<and>
     (\<forall>i < n. tasks s ! i = Unpushed \<longleftrightarrow> (\<exists>j. waiter s = Pushing j \<and> j \<le> i)) \<and>
     (\<forall>j. waiter s = Pushing j \<longrightarrow> j \<le> n) \<and>
     (\<forall>c. waiter s = Checking c \<or> waiter s = Blocked c \<longrightarrow> c \<noteq> 0 \<and> m_cnt s \<le> c) \<and>
     (\<forall>c. waiter s = Blocked c \<and> m_cnt s \<noteq> c \<longrightarrow> Released \<in> set (tasks s)) \<and>
     (waiter s = Returned \<longrightarrow> m_cnt s = 0)"

lemma sum_list_map_update:
  fixes f :: "'a \<Rightarrow> nat"
  shows "i < length xs \<Longrightarrow> sum_list (map f (xs[i := y])) + f (xs ! i) = sum_list (map f xs) + f y"
  by (induction xs arbitrary: i) (auto simp: nth_Cons split: nat.split)

lemma pool_inv_init: "pool_inv (unat n) (pool_init n)"
  by (auto simp: pool_inv_def pool_init_def pending_def sum_list_replicate)


text \<open>What a step does to a sum over the tasks, with the task it moves named.\<close>

lemma pending_simps [simp]:
  "pending Unpushed = 1" "pending Queued = 1" "pending Running = 1" "pending Ran = 1"
  "pending Released = 0" "pending Finished = 0"
  by (simp_all add: pending_def)

lemma pending_kept:
  assumes "i < length (tasks s)" and "pending t = pending (tasks s ! i)"
  shows "sum_list (map pending ((tasks s)[i := t])) = sum_list (map pending (tasks s))"
  using sum_list_map_update [OF assms(1), of pending t] assms(2) by simp

lemma released_kept [simp]:
  "tasks s ! i \<noteq> Released \<Longrightarrow> Released \<in> set (tasks s) \<Longrightarrow> Released \<in> set ((tasks s)[i := t])"
  by (metis in_set_conv_nth length_list_update nth_list_update_neq)

lemma pending_decremented:
  assumes "i < length (tasks s)" and "tasks s ! i = Ran" and "unat (m_cnt s) = sum_list (map pending (tasks s))"
  shows "unat (m_cnt s - 1) = sum_list (map pending ((tasks s)[i := Released]))" and "m_cnt s - 1 < m_cnt s"
proof -
  have sum: "sum_list (map pending ((tasks s)[i := Released])) + 1 = unat (m_cnt s)"
    using sum_list_map_update [OF assms(1), of pending Released] assms(2,3) by simp
  then have "1 \<le> m_cnt s"
    by (simp add: word_le_nat_alt)
  then have "unat (m_cnt s - 1) = unat (m_cnt s) - 1"
    by (simp add: unat_sub)
  with sum show "unat (m_cnt s - 1) = sum_list (map pending ((tasks s)[i := Released]))" and "m_cnt s - 1 < m_cnt s"
    by (simp_all add: word_less_nat_alt)
qed

lemma pool_inv_step:
  assumes "pool_step p a s t" and "pool_inv n s"
  shows "pool_inv n t"
  using assms
proof (cases rule: pool_step.cases)
  case (push i)
  then show ?thesis
    using assms(2) by (auto simp: pool_inv_def set_task_def pending_kept nth_list_update)
next
  case (push_end i)
  then show ?thesis
    using assms(2) by (auto simp: pool_inv_def)
next
  case (start i)
  then show ?thesis
    using assms(2) by (auto simp: pool_inv_def set_task_def in_state_def pending_kept nth_list_update)
next
  case (run i)
  then show ?thesis
    using assms(2) by (auto simp: pool_inv_def set_task_def in_state_def pending_kept nth_list_update)
next
  case (decrement i)
  then show ?thesis
    using assms(2) pending_decremented [of i s]
    by (auto simp: pool_inv_def set_task_def in_state_def nth_list_update intro: set_update_memI)
next
  case (notify i)
  then show ?thesis
    using assms(2)
    by (auto simp: pool_inv_def set_task_def in_state_def pending_kept nth_list_update wake_def split: waiter_pc.splits)
next
  case load
  then show ?thesis
    using assms(2) by (auto simp: pool_inv_def)
next
  case (check c)
  then show ?thesis
    using assms(2) by (auto simp: pool_inv_def)
next
  case (spurious c)
  then show ?thesis
    using assms(2) by (auto simp: pool_inv_def)
qed


interpretation pool: step_system "pool_step p" "pool_inv n" for p n
  by unfold_locales (rule pool_inv_step)

lemma pool_inv_run: "runs (pool_step p) acts (pool_init n) s \<Longrightarrow> pool_inv (unat n) s"
  using pool.runs_inv pool_inv_init by blast

section \<open>Waiting\<close>

lemma all_released:
  assumes "pool_inv n s" and "m_cnt s = 0" and "i < n"
  shows "tasks s ! i = Released \<or> tasks s ! i = Finished"
proof -
  have "pending (tasks s ! i) = 0"
    using assms by (simp add: pool_inv_def)
  then show ?thesis
    by (auto simp: pending_def split: if_splits)
qed

text \<open>C17: When \<^verbatim>\<open>wait\<close> has returned, the block of every task has returned, and no block ran twice,
  whatever the order in which the workers and the waiting thread took their steps, and with
  spurious wake-ups.\<close>

theorem wait_returns_after_blocks:
  assumes "runs (pool_step p) acts (pool_init n) s" and "waiter s = Returned"
  shows "distinct (ran s) \<and> set (ran s) = {..<unat n}"
proof -
  have inv: "pool_inv (unat n) s"
    using assms(1) by (rule pool_inv_run)
  then have "m_cnt s = 0"
    using assms(2) by (simp add: pool_inv_def)
  from all_released [OF inv this] show ?thesis
    using inv by (auto simp: pool_inv_def)
qed

text \<open>A run of one task on one worker; the waiter sleeps, and is woken by the task.\<close>

definition sample_schedule :: "action list" where
  "sample_schedule = [Push, Push_End, Load, Check, Start 0, Run 0, Decrement 0, Notify 0, Check, Load]"

definition done_pool :: pool where
  "done_pool = \<lparr>tasks = [Finished], m_cnt = 0, waiter = Returned, ran = [0]\<rparr>"

lemma sample_schedule_ok: "runs (pool_step 1) sample_schedule (pool_init 1) done_pool"
  unfolding sample_schedule_def
  by (rule pool_run_exec) (simp add: pool_init_def set_task_def in_state_def busy_def wake_def done_pool_def)

lemma wait_returns_after_blocks_witness:
  "distinct (ran done_pool) \<and> set (ran done_pool) = {..<unat (1 :: u64)}"
  by (rule wait_returns_after_blocks [OF sample_schedule_ok]) (simp add: done_pool_def)


section \<open>Progress\<close>

primrec weight :: "task_pc \<Rightarrow> nat" where
  "weight Unpushed = 8"
| "weight Queued = 7"
| "weight Running = 6"
| "weight Ran = 5"
| "weight Released = 2"
| "weight Finished = 0"

text \<open>A waiter that has loaded a value the counter no longer has goes on.\<close>

primrec waiter_weight :: "u64 \<Rightarrow> waiter_pc \<Rightarrow> nat" where
  "waiter_weight cnt (Pushing i) = 4"
| "waiter_weight cnt Loading = 3"
| "waiter_weight cnt (Checking c) = (if cnt = c then 2 else 4)"
| "waiter_weight cnt (Blocked c) = (if cnt = c then 1 else 3)"
| "waiter_weight cnt Returned = 0"

definition work_left :: "pool \<Rightarrow> nat" where
  "work_left s = sum_list (map weight (tasks s)) + waiter_weight (m_cnt s) (waiter s)"

lemma work_moved:
  assumes "i < length (tasks s)"
  shows "sum_list (map weight ((tasks s)[i := t])) + weight (tasks s ! i) = sum_list (map weight (tasks s)) + weight t"
  using sum_list_map_update [OF assms] .

lemma waiter_weight_decrement:
  assumes "\<forall>c. w = Checking c \<or> w = Blocked c \<longrightarrow> m \<le> c" and "m - 1 < m"
  shows "waiter_weight (m - 1) w \<le> waiter_weight m w + 2"
  using assms by (cases w) auto

lemma work_left_step:
  assumes "pool_step p a s t" and "pool_inv n s"
  shows "work_left t + 1 \<le> work_left s + (if a = Spurious then 2 else 0)"
  using assms
proof (cases rule: pool_step.cases)
  case (push i)
  then have "tasks s ! i = Unpushed"
    using assms(2) by (simp add: pool_inv_def)
  then show ?thesis
    using push work_moved [of i s Queued] by (simp add: work_left_def set_task_def)
next
  case (start i)
  then show ?thesis
    using work_moved [of i s Running] by (simp add: work_left_def set_task_def in_state_def)
next
  case (run i)
  then show ?thesis
    using work_moved [of i s Ran] by (simp add: work_left_def set_task_def in_state_def)
next
  case (decrement i)
  have "waiter_weight (m_cnt s - 1) (waiter s) \<le> waiter_weight (m_cnt s) (waiter s) + 2"
    using assms(2) decrement pending_decremented [of i s]
    by (intro waiter_weight_decrement) (auto simp: pool_inv_def in_state_def)
  then show ?thesis
    using decrement work_moved [of i s Released] by (simp add: work_left_def set_task_def in_state_def)
next
  case (notify i)
  have "waiter_weight (m_cnt s) (wake (waiter s)) \<le> waiter_weight (m_cnt s) (waiter s) + 1"
    by (cases "waiter s") (simp_all add: wake_def)
  then show ?thesis
    using notify work_moved [of i s Finished] by (simp add: work_left_def set_task_def in_state_def)
qed (auto simp: work_left_def)

definition wakeup_cost :: "action \<Rightarrow> nat" where
  "wakeup_cost a = (if a = Spurious then 2 else 0)"

interpretation pool_work: measured_system "pool_step p" "pool_inv n" work_left wakeup_cost for p n
  by unfold_locales (use work_left_step in \<open>auto simp: wakeup_cost_def\<close>)

lemma run_length:
  assumes "runs (pool_step p) acts (pool_init n) s"
  shows "length acts + work_left s \<le> 8 * unat n + 4 + 2 * count_list acts Spurious"
proof -
  have "sum_list (map wakeup_cost acts) = 2 * count_list acts Spurious"
    by (induction acts) (auto simp: wakeup_cost_def)
  moreover have "work_left (pool_init n) = 8 * unat n + 4"
    by (simp add: work_left_def pool_init_def sum_list_replicate)
  ultimately show ?thesis
    using pool_work.runs_bound [OF assms pool_inv_init] by simp
qed

lemma busy_task:
  assumes "pool_inv n s" and "i < n" and "tasks s ! i \<in> {Running, Ran, Released}"
  shows "\<exists>a t. pool_step p a s t \<and> a \<noteq> Spurious"
  using assms pool_step.run [of s i p] pool_step.decrement [of s i p] pool_step.notify [of s i p]
  by (fastforce simp: in_state_def pool_inv_def)

lemma unfinished_task:
  assumes "pool_inv n s" and "i < n" and "tasks s ! i \<noteq> Unpushed" and "tasks s ! i \<noteq> Finished" and "0 < p"
  shows "\<exists>a t. pool_step p a s t \<and> a \<noteq> Spurious"
proof (cases "tasks s ! i = Queued")
  case True
  show ?thesis
  proof (cases "busy s < p")
    case True
    then show ?thesis
      using \<open>tasks s ! i = Queued\<close> assms(1,2) pool_step.start [of s i p] by (auto simp: in_state_def pool_inv_def)
  next
    case False
    then have "filter (\<lambda>t. t \<in> {Running, Ran, Released}) (tasks s) \<noteq> []"
      using assms(5) by (auto simp: busy_def)
    then obtain t where "t \<in> set (tasks s)" and t: "t \<in> {Running, Ran, Released}"
      by (auto simp: filter_empty_conv)
    then obtain j where "j < n" and "tasks s ! j = t"
      using assms(1) by (auto simp: pool_inv_def in_set_conv_nth)
    then show ?thesis
      using busy_task [OF assms(1)] t by blast
  qed
next
  case False
  then have "tasks s ! i \<in> {Running, Ran, Released}"
    using assms(3,4) by (cases "tasks s ! i") auto
  then show ?thesis
    using busy_task [OF assms(1,2)] by blast
qed

text \<open>Only the end has no step: a waiting thread is woken, or will be.\<close>

lemma stuck_only_when_done:
  assumes inv: "pool_inv n s" and "0 < p" and stuck: "\<And>a t. pool_step p a s t \<Longrightarrow> a = Spurious"
  shows "waiter s = Returned \<and> (\<forall>i < n. tasks s ! i = Finished)"
proof -
  have unf: "tasks s ! i = Unpushed \<or> tasks s ! i = Finished" if "i < n" for i
    using unfinished_task [OF inv that _ _ assms(2)] stuck by blast
  have w: "waiter s = Returned"
  proof (cases "waiter s")
    case (Pushing j)
    then have "j < length (tasks s) \<or> j = length (tasks s)"
      using inv by (auto simp: pool_inv_def)
    then show ?thesis
      using Pushing stuck pool_step.push pool_step.push_end by blast
  next
    case (Blocked c)
    then have all: "\<forall>i < n. tasks s ! i = Finished"
      using inv unf by (auto simp: pool_inv_def)
    then have "sum_list (map pending (tasks s)) = 0"
      using inv by (auto simp: pool_inv_def in_set_conv_nth)
    then have "unat (m_cnt s) = 0"
      using inv by (simp only: pool_inv_def)
    then have "m_cnt s \<noteq> c"
      using inv Blocked by (auto simp: pool_inv_def unat_eq_0)
    then have "Released \<in> set (tasks s)"
      using inv Blocked by (simp add: pool_inv_def)
    then show ?thesis
      using all inv by (auto simp: pool_inv_def in_set_conv_nth)
  qed (use stuck pool_step.load pool_step.check in blast)+
  then show ?thesis
    using unf inv by (auto simp: pool_inv_def)
qed

text \<open>C18: With at least one worker the caller is never left waiting: a state in which no thread can
  take a step, spurious wake-ups apart, is one where \<^verbatim>\<open>wait\<close> has returned and every task is
  finished, and a run without spurious wake-ups is at most eight steps per task and four more
  long; each such wake-up adds two.\<close>

theorem wait_always_returns:
  assumes "runs (pool_step p) acts (pool_init n) s" and "0 < p"
  shows "((\<forall>a t. pool_step p a s t \<longrightarrow> a = Spurious) \<longrightarrow>
            waiter s = Returned \<and> (\<forall>i < unat n. tasks s ! i = Finished)) \<and>
         length acts \<le> 8 * unat n + 4 + 2 * count_list acts Spurious"
proof (intro conjI impI)
  have inv: "pool_inv (unat n) s"
    using assms(1) by (rule pool_inv_run)
  assume "\<forall>a t. pool_step p a s t \<longrightarrow> a = Spurious"
  with stuck_only_when_done [OF inv assms(2)] show "waiter s = Returned" and "\<forall>i < unat n. tasks s ! i = Finished"
    by blast+
next
  show "length acts \<le> 8 * unat n + 4 + 2 * count_list acts Spurious"
    using run_length [OF assms(1)] by simp
qed

lemma done_pool_stuck: "pool_step 1 a done_pool t \<Longrightarrow> a = Spurious"
  by (cases a) (auto simp: pool_step_iff_exec done_pool_def in_state_def nth_Cons split: if_splits nat.splits)

lemma wait_always_returns_witness:
  "waiter done_pool = Returned \<and> tasks done_pool ! 0 = Finished \<and>
   length sample_schedule \<le> 8 * unat (1 :: u64) + 4 + 2 * count_list sample_schedule Spurious"
  using wait_always_returns [OF sample_schedule_ok zero_less_one] done_pool_stuck by simp

section \<open>The counter's life\<close>

text \<open>
  \<^verbatim>\<open>release\<close> decrements and then notifies.  The waiter can return between the two, which ends
  the life of the counter on its stack: the notification reaches a destroyed object.
\<close>

lemma notify_after_wait_returned:
  "\<exists>acts s. runs (pool_step 1) acts (pool_init 1) s \<and> waiter s = Returned \<and> in_state s 0 Released"
proof (intro exI conjI)
  show "runs (pool_step 1) [Push, Push_End, Start 0, Run 0, Decrement 0, Load] (pool_init 1)
      \<lparr>tasks = [Released], m_cnt = 0, waiter = Returned, ran = [0]\<rparr>"
    by (rule pool_run_exec) (simp add: pool_init_def set_task_def in_state_def busy_def)
qed (simp_all add: in_state_def)

section \<open>The blocks that have run\<close>

lemma returned_ran_all:
  assumes "runs (pool_step p) acts (pool_init (of_nat n)) s" and "waiter s = Returned" and "n < 2 ^ 64"
  shows "set (ran s) = {..<n}"
proof -
  have inv: "pool_inv (unat (of_nat n :: u64)) s"
    using assms(1) by (rule pool_inv_run)
  have "m_cnt s = 0"
    using inv assms(2) by (simp add: pool_inv_def)
  then show ?thesis
    using inv all_released [OF inv] assms(3) by (auto simp: pool_inv_def unat_of_nat take_bit_nat_eq_self)
qed

end
