(* ===== verification/Mach.thy ===== *)
theory Mach
  imports Complex_Main Regions Symbols TraceLogger
begin

text \<open>
  The tracer's use of the kernel: the functions of \<^verbatim>\<open>lib/xnu-trace/mach.cpp\<close> that look at and
  change the state of the traced task, \<^verbatim>\<open>pid_for_name\<close> of \<^verbatim>\<open>proc.cpp\<close> and the exception
  handlers of \<^verbatim>\<open>exception_handlers.cpp\<close>.

  The kernel is a parameter: \<open>'k\<close> is its state, \<open>'k sys\<close> its calls, each None where the call
  fails.  \<open>kernel_ok\<close> is what their documentation promises; it is a hypothesis of the theorems
  that need it.
\<close>

section \<open>The kernel\<close>

record arm_debug_state64 =
  dbg_regs :: "u64 list"  \<comment> \<open>the breakpoint and watchpoint registers\<close>
  mdscr_el1 :: u64

definition zero_debug_state :: arm_debug_state64 where
  "zero_debug_state = \<lparr>dbg_regs = replicate 64 0, mdscr_el1 = 0\<rparr>"

record exc_action =
  exc_port :: u32
  exc_behavior :: u32
  exc_flavor :: u32

record timespec =
  tv_sec :: int
  tv_nsec :: int

text \<open>What the kernel tells about a task that exists.\<close>

record ktask =
  kt_pid :: u32
  suspend_count :: int
  breakpoint_exc :: exc_action
  debug_state :: arm_debug_state64
  threads :: "(u32 \<times> arm_debug_state64) list"

datatype source = Source_Mach_Recv u32 | Source_Proc_Exit u32 | Source_Read u32 | Source_Signal u32

datatype posix_call =
    Spawnattr_Init | Spawnattr_Setflags u16 | File_Actions_Init | Adddup2 u32 u32
  | File_Actions_Destroy | Spawnattr_Destroy

record 'k sys =
  k_task :: "'k \<Rightarrow> u32 \<Rightarrow> ktask option"
  k_task_suspend :: "u32 \<Rightarrow> 'k \<Rightarrow> 'k option"
  k_task_resume :: "u32 \<Rightarrow> 'k \<Rightarrow> 'k option"
  k_get_exception_ports :: "'k \<Rightarrow> u32 \<Rightarrow> (nat \<times> u32 \<times> exc_action) option"
  k_set_exception_ports :: "u32 \<Rightarrow> exc_action \<Rightarrow> 'k \<Rightarrow> 'k option"
  k_task_set_state :: "u32 \<Rightarrow> arm_debug_state64 \<Rightarrow> 'k \<Rightarrow> 'k option"
  k_thread_set_state :: "u32 \<Rightarrow> arm_debug_state64 \<Rightarrow> 'k \<Rightarrow> 'k option"
  k_vm_deallocate :: "nat \<Rightarrow> 'k \<Rightarrow> 'k option"
  k_port_allocate :: "'k \<Rightarrow> (u32 \<times> 'k) option"
  k_insert_right :: "u32 \<Rightarrow> 'k \<Rightarrow> 'k option"
  k_queue_create :: "'k \<Rightarrow> (u32 \<times> 'k) option"
  k_source_create :: "source \<Rightarrow> 'k \<Rightarrow> (u32 \<times> 'k) option"
  k_task_for_pid :: "u32 \<Rightarrow> 'k \<Rightarrow> (u32 \<times> 'k) option"
  k_clock :: "'k \<Rightarrow> timespec option"
  k_pti_csw :: "'k \<Rightarrow> u32 \<Rightarrow> u32"  \<comment> \<open>the field after \<^verbatim>\<open>proc_pidinfo\<close>, also when that fails\<close>
  k_target :: "'k \<Rightarrow> u32 \<Rightarrow> target"
  k_cs_symbols :: "'k \<Rightarrow> u32 \<Rightarrow> cs_symbol list"
  k_read :: "u32 \<Rightarrow> 'k \<Rightarrow> (byte \<times> 'k) option"
  k_write :: "u32 \<Rightarrow> byte \<Rightarrow> 'k \<Rightarrow> 'k option"
  k_pipe :: "'k \<Rightarrow> (u32 \<times> u32 \<times> 'k) option"
  k_posix :: "posix_call \<Rightarrow> 'k \<Rightarrow> 'k option"
  k_posix_spawnp :: "buffer \<Rightarrow> buffer list \<Rightarrow> 'k \<Rightarrow> (u32 \<times> 'k) option"
  k_task_self :: u32
  k_pid_self :: u32
  k_round :: "real \<Rightarrow> real"  \<comment> \<open>rounding to a \<^verbatim>\<open>double\<close>\<close>
  k_hash :: hash_lib
  k_timer :: nat
  k_abi :: dyld_abi
  k_sha256 :: "buffer \<Rightarrow> buffer"
  k_fuel :: nat

section \<open>\<^verbatim>\<open>mach.cpp\<close>\<close>

definition MACH_PORT_VALID :: "u32 \<Rightarrow> bool" where
  "MACH_PORT_VALID port \<longleftrightarrow> port \<noteq> 0 \<and> port \<noteq> 0xFFFFFFFF"

definition task_is_valid :: "'k sys \<Rightarrow> 'k \<Rightarrow> u32 \<Rightarrow> bool" where
  "task_is_valid m k task \<longleftrightarrow> MACH_PORT_VALID task \<and> k_task m k task \<noteq> None"

definition get_suspend_count :: "'k sys \<Rightarrow> 'k \<Rightarrow> u32 \<Rightarrow> int res" where
  "get_suspend_count m k task = and_then (check (k_task m k task)) (\<lambda>info. Inr (suspend_count info))"

definition pid_for_task :: "'k sys \<Rightarrow> 'k \<Rightarrow> u32 \<Rightarrow> u32 res" where
  "pid_for_task m k task =
     and_then (assert_that (task \<noteq> 0)) (\<lambda>_. and_then (check (k_task m k task)) (\<lambda>info. Inr (kt_pid info)))"

definition step_bit :: "bool \<Rightarrow> arm_debug_state64 \<Rightarrow> arm_debug_state64" where
  "step_bit do_ss dbg_state = dbg_state\<lparr>mdscr_el1 := (mdscr_el1 dbg_state AND NOT 1) OR of_bool do_ss\<rparr>"

text \<open>The thread's state is not read first: \<^verbatim>\<open>READ_DEBUG_STATE\<close> is not defined.\<close>

definition set_single_step_thread :: "'k sys \<Rightarrow> u32 \<Rightarrow> bool \<Rightarrow> 'k \<Rightarrow> 'k res" where
  "set_single_step_thread m thread do_ss k =
     assert_some (k_thread_set_state m thread (step_bit do_ss zero_debug_state) k)"

definition set_single_step_task :: "'k sys \<Rightarrow> u32 \<Rightarrow> bool \<Rightarrow> 'k \<Rightarrow> 'k res" where
  "set_single_step_task m task do_ss k =
     and_then (check (k_task m k task)) (\<lambda>info.
     and_then (check (k_task_set_state m task (step_bit do_ss (debug_state info)) k)) (\<lambda>k.
     and_then (check (k_task m k task)) (\<lambda>info.
     and_then (fold_res (\<lambda>thread. set_single_step_thread m thread do_ss) (map fst (threads info)) k) (\<lambda>k.
     check (k_vm_deallocate m (4 * length (threads info)) k)))))"

text \<open>
  A task's registers are read while its thread is suspended; \<open>gpr\<close> and \<open>vec\<close> are what the
  kernel holds, None where a call fails.
\<close>

record arm_thread_state64 =
  ts_x :: "u64 list"  \<comment> \<open>\<^verbatim>\<open>x0\<close> to \<^verbatim>\<open>x28\<close>\<close>
  ts_fp :: u64
  ts_lr :: u64
  ts_sp :: u64
  ts_pc :: u64
  ts_cpsr :: u32

definition read_target_thread_cpu_context ::
    "u32 \<Rightarrow> bool \<Rightarrow> arm_thread_state64 option \<Rightarrow> u128 list option \<Rightarrow> bool \<Rightarrow> u32 \<Rightarrow> log_arm64_cpu_context res" where
  "read_target_thread_cpu_context self suspended gpr vec resumed thread =
     and_then (assert_that (thread \<noteq> self)) (\<lambda>_.
     and_then (assert_that suspended) (\<lambda>_.
     and_then (assert_some gpr) (\<lambda>gpr.
     and_then (assert_some vec) (\<lambda>vec.
     and_then (assert_that resumed) (\<lambda>_.
     Inr \<lparr>ctx_pc = ts_pc gpr, ctx_sp = ts_sp gpr, ctx_nzcv = 0,
          ctx_x = take 29 (ts_x gpr) @ [ts_fp gpr, ts_lr gpr], ctx_v = take 32 vec\<rparr>)))))"

section \<open>\<^verbatim>\<open>proc.cpp\<close>\<close>

text \<open>\<open>procs\<close> are the processes with their path, None where \<^verbatim>\<open>proc_pidpath\<close> gives none.\<close>

definition pid_for_name :: "(u32 \<times> buffer option) list \<Rightarrow> buffer \<Rightarrow> u32 res" where
  "pid_for_name procs process_name =
     and_then (assert_that (procs \<noteq> [])) (\<lambda>_.
     let matches = filter (\<lambda>(pid, path). pid \<noteq> 0 \<and> map_option filename path = Some process_name) procs
     in if length matches = 1 then Inr (fst (hd matches)) else Inl Process_Exit)"

section \<open>Resetting what is known of the target\<close>

text \<open>The body runs while the target is suspended, unless it is the tracer itself.\<close>

definition while_suspended :: "'k sys \<Rightarrow> u32 \<Rightarrow> ('k \<Rightarrow> 'a res) \<Rightarrow> 'k \<Rightarrow> ('a \<times> 'k) res" where
  "while_suspended m task body k =
     and_then (if task \<noteq> k_task_self m then check (k_task_suspend m task k) else Inr k) (\<lambda>k.
     and_then (body k) (\<lambda>x.
     and_then (if task \<noteq> k_task_self m then check (k_task_resume m task k) else Inr k) (\<lambda>k.
     Inr (x, k))))"

definition reset_macho_regions ::
    "'k sys \<Rightarrow> u32 \<Rightarrow> code_ptr mph_map_static \<Rightarrow> 'k \<Rightarrow> (macho_regions \<times> 'k) res" where
  "reset_macho_regions m task old k =
     and_then (assert_that (task \<noteq> 0)) (\<lambda>_.
     while_suspended m task
       (\<lambda>k. regions_collect (k_hash m) (k_timer m) (k_abi m) (k_sha256 m) (k_fuel m) (k_target m k task) old) k)"

definition reset_vm_regions :: "'k sys \<Rightarrow> u32 \<Rightarrow> 'k \<Rightarrow> (region list \<times> 'k) res" where
  "reset_vm_regions m task k = while_suspended m task (\<lambda>k. get_vm_regions (k_target m k task) (k_fuel m)) k"

definition reset_symbols :: "'k sys \<Rightarrow> u32 \<Rightarrow> 'k \<Rightarrow> (sym_info list \<times> 'k) res" where
  "reset_symbols m task k =
     and_then (assert_that (task \<noteq> 0)) (\<lambda>_.
     while_suspended m task (\<lambda>k.
       and_then (get_symbols (k_target m k task) (k_cs_symbols m k task)) (\<lambda>syms. Inr (sort_key sym_base syms))) k)"

end
