(* ===== verification/Tracer.thy ===== *)
theory Tracer
  imports Mach TraceFiles
begin

text \<open>
  \<^verbatim>\<open>XNUTracer\<close> of \<^verbatim>\<open>lib/xnu-trace/XNUTracer.cpp\<close>, the object that suspends, single-steps and
  resumes a task, measures the time it ran and logs each instruction, and the exception
  handlers of \<^verbatim>\<open>exception_handlers.cpp\<close> that it installs.

  A function of the class takes the object and returns it updated; \<open>os\<close> is the state of the
  kernel.  A null object of the dispatch library or a null port is 0.  \<open>m_blocks\<close> are the
  blocks the pipe's handler has put on the serial queue and that have not run yet, the byte
  read standing for its block.
\<close>

record 'k tracer =
  os :: 'k
  m_target_task :: u32
  m_breakpoint_exc_port :: u32
  m_orig_breakpoint_exc :: exc_action
  m_queue :: u32
  m_proc_source :: u32
  m_breakpoint_exc_source :: u32
  m_pipe_source :: u32
  m_target2tracer_fd :: "u32 option"
  m_tracer2target_fd :: "u32 option"
  m_single_stepping :: bool
  m_measuring_stats :: bool
  m_log :: trace_log
  m_elapsed_time :: real
  m_start_time :: timespec
  m_target_total_csw :: u64
  m_target_start_num_csw :: u32
  m_self_total_csw :: u64
  m_self_start_num_csw :: u32
  m_macho_regions :: "macho_regions option"
  m_vm_regions :: "region list"
  m_symbols :: "sym_info list option"
  m_blocks :: "bool list"
  g_tracer :: bool

definition new_tracer :: "'k \<Rightarrow> trace_log \<Rightarrow> bool \<Rightarrow> 'k tracer" where
  "new_tracer k lg g =
     \<lparr>os = k, m_target_task = 0, m_breakpoint_exc_port = 0,
      m_orig_breakpoint_exc = \<lparr>exc_port = 0, exc_behavior = 0, exc_flavor = 0\<rparr>,
      m_queue = 0, m_proc_source = 0, m_breakpoint_exc_source = 0, m_pipe_source = 0,
      m_target2tracer_fd = None, m_tracer2target_fd = None, m_single_stepping = False,
      m_measuring_stats = False, m_log = lg, m_elapsed_time = 0, m_start_time = \<lparr>tv_sec = 0, tv_nsec = 0\<rparr>,
      m_target_total_csw = 0, m_target_start_num_csw = 0, m_self_total_csw = 0, m_self_start_num_csw = 0,
      m_macho_regions = None, m_vm_regions = [], m_symbols = None, m_blocks = [], g_tracer = g\<rparr>"

section \<open>Measuring\<close>

definition i64 :: "int \<Rightarrow> int res" where
  "i64 z = (if - (2 ^ 63) \<le> z \<and> z < 2 ^ 63 then Inr z else Inl Signed_Overflow)"

definition i32 :: "int \<Rightarrow> int res" where
  "i32 z = (if - (2 ^ 31) \<le> z \<and> z < 2 ^ 31 then Inr z else Inl Signed_Overflow)"

definition timespec_sub :: "timespec \<Rightarrow> timespec \<Rightarrow> timespec res" where
  "timespec_sub a b =
     and_then (i64 (tv_sec a - tv_sec b)) (\<lambda>s.
     and_then (i64 (tv_nsec a - tv_nsec b)) (\<lambda>ns.
     if ns < 0 then and_then (i64 (s - 1)) (\<lambda>s. Inr \<lparr>tv_sec = s, tv_nsec = ns + 1000000000\<rparr>)
     else Inr \<lparr>tv_sec = s, tv_nsec = ns\<rparr>))"

definition timespec_diff :: "(real \<Rightarrow> real) \<Rightarrow> timespec \<Rightarrow> timespec \<Rightarrow> real res" where
  "timespec_diff rnd a b =
     and_then (timespec_sub a b) (\<lambda>c.
     Inr (rnd (rnd (of_int (tv_sec c)) + rnd (rnd (of_int (tv_nsec c)) / rnd 1000000000))))"

text \<open>A difference of two 32-bit counters, converted and added to a 64-bit one.\<close>

definition add_csw :: "u64 \<Rightarrow> u32 \<Rightarrow> u32 \<Rightarrow> u64 res" where
  "add_csw total_csw now start = and_then (i32 (sint now - sint start)) (\<lambda>d. Inr (total_csw + word_of_int d))"

definition tracer_pid :: "'k sys \<Rightarrow> 'k tracer \<Rightarrow> u32 res" where
  "tracer_pid m tr = pid_for_task m (os tr) (m_target_task tr)"

definition target_valid :: "'k sys \<Rightarrow> 'k tracer \<Rightarrow> bool" where
  "target_valid m tr = task_is_valid m (os tr) (m_target_task tr)"

definition start_measuring_stats :: "'k sys \<Rightarrow> 'k tracer \<Rightarrow> 'k tracer res" where
  "start_measuring_stats m tr =
     (if \<not> m_measuring_stats tr then
        and_then (check (k_clock m (os tr))) (\<lambda>now.
        and_then (tracer_pid m tr) (\<lambda>pid.
        Inr (tr\<lparr>m_start_time := now, m_self_start_num_csw := k_pti_csw m (os tr) (k_pid_self m),
                m_target_start_num_csw := k_pti_csw m (os tr) pid, m_measuring_stats := True\<rparr>)))
      else Inr tr)"

definition stop_measuring_stats :: "'k sys \<Rightarrow> 'k tracer \<Rightarrow> 'k tracer res" where
  "stop_measuring_stats m tr =
     (if m_measuring_stats tr then
        and_then (check (k_clock m (os tr))) (\<lambda>now.
        and_then (timespec_diff (k_round m) now (m_start_time tr)) (\<lambda>d.
        and_then (add_csw (m_self_total_csw tr) (k_pti_csw m (os tr) (k_pid_self m)) (m_self_start_num_csw tr)) (\<lambda>self_csw.
        and_then
          (if target_valid m tr then
             and_then (tracer_pid m tr) (\<lambda>pid.
             add_csw (m_target_total_csw tr) (k_pti_csw m (os tr) pid) (m_target_start_num_csw tr))
           else Inr (m_target_total_csw tr)) (\<lambda>target_csw.
        Inr (tr\<lparr>m_elapsed_time := k_round m (m_elapsed_time tr + d), m_self_total_csw := self_csw,
                m_target_total_csw := target_csw, m_measuring_stats := False\<rparr>)))))
      else Inr tr)"

section \<open>Suspending and resuming\<close>

definition suspend :: "'k sys \<Rightarrow> 'k tracer \<Rightarrow> 'k tracer res" where
  "suspend m tr =
     and_then (assert_that (m_target_task tr \<noteq> 0)) (\<lambda>_.
     if \<not> target_valid m tr then Inr tr
     else
       and_then (get_suspend_count m (os tr) (m_target_task tr)) (\<lambda>suspend_cnt.
       and_then (check (k_task_suspend m (m_target_task tr) (os tr))) (\<lambda>k.
       let tr = tr\<lparr>os := k\<rparr>
       in if m_single_stepping tr \<and> suspend_cnt = 1 then stop_measuring_stats m tr else Inr tr)))"

definition resume :: "'k sys \<Rightarrow> 'k tracer \<Rightarrow> 'k tracer res" where
  "resume m tr =
     and_then (assert_that (m_target_task tr \<noteq> 0)) (\<lambda>_.
     if \<not> target_valid m tr then Inr tr
     else
       and_then (get_suspend_count m (os tr) (m_target_task tr)) (\<lambda>suspend_cnt.
       and_then (if m_single_stepping tr \<and> suspend_cnt = 1 then start_measuring_stats m tr else Inr tr) (\<lambda>tr.
       and_then (check (k_task_resume m (m_target_task tr) (os tr))) (\<lambda>k. Inr (tr\<lparr>os := k\<rparr>)))))"

section \<open>Breakpoint exceptions\<close>

definition EXC_MASK_BREAKPOINT :: u32 where "EXC_MASK_BREAKPOINT = 0x40"
definition EXCEPTION_STATE_IDENTITY :: u32 where "EXCEPTION_STATE_IDENTITY = 3"
definition MACH_EXCEPTION_CODES :: u32 where "MACH_EXCEPTION_CODES = 0x80000000"
definition ARM_THREAD_STATE64 :: u32 where "ARM_THREAD_STATE64 = 6"

definition setup_breakpoint_exception_handler :: "'k sys \<Rightarrow> 'k tracer \<Rightarrow> 'k tracer res" where
  "setup_breakpoint_exception_handler m tr =
     and_then (check (k_port_allocate m (os tr))) (\<lambda>(port, k).
     and_then (check (k_insert_right m port k)) (\<lambda>k.
     and_then (check (k_get_exception_ports m k (m_target_task tr))) (\<lambda>(old_exc_count, old_exc_mask, old).
     and_then (assert_that (old_exc_count = 1 \<and> old_exc_mask = EXC_MASK_BREAKPOINT)) (\<lambda>_.
     Inr (tr\<lparr>os := k, m_breakpoint_exc_port := port, m_orig_breakpoint_exc := old\<rparr>)))))"

definition tracer_action :: "u32 \<Rightarrow> exc_action" where
  "tracer_action port =
     \<lparr>exc_port = port, exc_behavior = EXCEPTION_STATE_IDENTITY OR MACH_EXCEPTION_CODES, exc_flavor = ARM_THREAD_STATE64\<rparr>"

definition install_breakpoint_exception_handler :: "'k sys \<Rightarrow> 'k tracer \<Rightarrow> 'k tracer res" where
  "install_breakpoint_exception_handler m tr =
     and_then (assert_that (m_breakpoint_exc_port tr \<noteq> 0)) (\<lambda>_.
     and_then (check (k_set_exception_ports m (m_target_task tr) (tracer_action (m_breakpoint_exc_port tr)) (os tr))) (\<lambda>k.
     Inr (tr\<lparr>os := k\<rparr>)))"

definition uninstall_breakpoint_exception_handler :: "'k sys \<Rightarrow> 'k tracer \<Rightarrow> 'k tracer res" where
  "uninstall_breakpoint_exception_handler m tr =
     (if \<not> target_valid m tr then Inr tr
      else and_then (check (k_set_exception_ports m (m_target_task tr) (m_orig_breakpoint_exc tr) (os tr))) (\<lambda>k.
           Inr (tr\<lparr>os := k\<rparr>)))"

section \<open>Single-stepping\<close>

text \<open>The regions, and the symbols if there are any, are listed again before stepping starts.\<close>

definition tracer_reset :: "'k sys \<Rightarrow> 'k tracer \<Rightarrow> 'k tracer res" where
  "tracer_reset m tr =
     and_then (assert_some (m_macho_regions tr)) (\<lambda>old.
     and_then (reset_macho_regions m (m_target_task tr) (mr_pa2buf old) (os tr)) (\<lambda>(mr, k).
     and_then (reset_vm_regions m (m_target_task tr) k) (\<lambda>(vm, k).
     and_then (case m_symbols tr of
         None \<Rightarrow> Inr (None, k)
       | Some _ \<Rightarrow> and_then (reset_symbols m (m_target_task tr) k) (\<lambda>(syms, k). Inr (Some syms, k))) (\<lambda>(syms, k).
     Inr (tr\<lparr>os := k, m_macho_regions := Some mr, m_vm_regions := vm, m_symbols := syms\<rparr>)))))"

definition set_single_step :: "'k sys \<Rightarrow> bool \<Rightarrow> 'k tracer \<Rightarrow> 'k tracer res" where
  "set_single_step m do_single_step tr =
     and_then (suspend m tr) (\<lambda>tr.
     and_then
       (if do_single_step then
          and_then (tracer_reset m tr) (\<lambda>tr.
          and_then (install_breakpoint_exception_handler m tr) (\<lambda>tr.
          and_then (set_single_step_task m (m_target_task tr) True (os tr)) (\<lambda>k. Inr (tr\<lparr>os := k\<rparr>))))
        else
          and_then (set_single_step_task m (m_target_task tr) False (os tr)) (\<lambda>k.
          uninstall_breakpoint_exception_handler m (tr\<lparr>os := k\<rparr>))) (\<lambda>tr.
     and_then (resume m tr) (\<lambda>tr. Inr (tr\<lparr>m_single_stepping := do_single_step\<rparr>))))"

text \<open>
  The handler of a single-step exception: the new state is the old one, the program counter is
  logged, and the thread is told to stop again after one instruction.
\<close>

definition exception_raise_state_identity ::
    "'k sys \<Rightarrow> u32 \<Rightarrow> arm_thread_state64 \<Rightarrow> 'k tracer \<Rightarrow> (arm_thread_state64 \<times> 'k tracer) res" where
  "exception_raise_state_identity m thread old_state tr =
     and_then (trace_log_pc (k_hash m) (k_timer m) thread (ts_pc old_state) (m_log tr)) (\<lambda>lg.
     and_then (set_single_step_thread m thread True (os tr)) (\<lambda>k.
     Inr (old_state, tr\<lparr>m_log := lg, os := k\<rparr>)))"

definition exception_raise :: "'k tracer \<Rightarrow> 'k tracer res" where
  "exception_raise tr = Inl Assertion_Failed"

definition exception_raise_state :: "'k tracer \<Rightarrow> 'k tracer res" where
  "exception_raise_state tr = Inl Assertion_Failed"

section \<open>Setting up\<close>

definition setup_proc_dispath_source :: "'k sys \<Rightarrow> 'k tracer \<Rightarrow> 'k tracer res" where
  "setup_proc_dispath_source m tr =
     and_then (tracer_pid m tr) (\<lambda>pid.
     and_then (assert_some (k_source_create m (Source_Proc_Exit pid) (os tr))) (\<lambda>(src, k).
     Inr (tr\<lparr>os := k, m_proc_source := src\<rparr>)))"

definition setup_pipe_dispatch_source :: "'k sys \<Rightarrow> 'k tracer \<Rightarrow> 'k tracer res" where
  "setup_pipe_dispatch_source m tr =
     (case m_target2tracer_fd tr of
        None \<Rightarrow> Inl Out_Of_Bounds
      | Some fd \<Rightarrow>
          and_then (assert_some (k_source_create m (Source_Read fd) (os tr))) (\<lambda>(src, k).
          Inr (tr\<lparr>os := k, m_pipe_source := src\<rparr>)))"

definition setup_breakpoint_exception_port_dispath_source :: "'k sys \<Rightarrow> 'k tracer \<Rightarrow> 'k tracer res" where
  "setup_breakpoint_exception_port_dispath_source m tr =
     and_then (assert_some (k_source_create m (Source_Mach_Recv (m_breakpoint_exc_port tr)) (os tr))) (\<lambda>(src, k).
     Inr (tr\<lparr>os := k, m_breakpoint_exc_source := src\<rparr>))"

definition no_regions :: macho_regions where
  "no_regions = \<lparr>mr_regions = [], mr_pa2buf = \<lparr>ms_mph = mph_empty, m_values = []\<rparr>\<rparr>"

definition common_ctor :: "'k sys \<Rightarrow> bool \<Rightarrow> bool \<Rightarrow> 'k tracer \<Rightarrow> 'k tracer res" where
  "common_ctor m pipe_ctrl symbolicate tr =
     and_then (tracer_pid m tr) (\<lambda>_.
     and_then (assert_that (\<not> g_tracer tr)) (\<lambda>_.
     and_then (tracer_reset m (tr\<lparr>g_tracer := True, m_macho_regions := Some no_regions,
                                m_symbols := (if symbolicate then Some [] else None)\<rparr>)) (\<lambda>tr.
     and_then (assert_some (k_queue_create m (os tr))) (\<lambda>(q, k).
     and_then (setup_proc_dispath_source m (tr\<lparr>os := k, m_queue := q\<rparr>)) (\<lambda>tr.
     and_then (setup_breakpoint_exception_handler m tr) (\<lambda>tr.
     and_then (if pipe_ctrl then setup_pipe_dispatch_source m tr else Inr tr) (\<lambda>tr.
     and_then (setup_breakpoint_exception_port_dispath_source m tr) (\<lambda>tr.
     if \<not> pipe_ctrl then set_single_step m True tr else Inr tr))))))))"

section \<open>Attaching and spawning\<close>

definition attach_task :: "'k sys \<Rightarrow> u32 \<Rightarrow> bool \<Rightarrow> 'k tracer \<Rightarrow> 'k tracer res" where
  "attach_task m target_task symbolicate tr =
     and_then (suspend m (tr\<lparr>m_target_task := target_task\<rparr>)) (common_ctor m False symbolicate)"

definition attach_pid :: "'k sys \<Rightarrow> u32 \<Rightarrow> bool \<Rightarrow> 'k tracer \<Rightarrow> 'k tracer res" where
  "attach_pid m target_pid symbolicate tr =
     and_then (check (k_task_for_pid m target_pid (os tr))) (\<lambda>(task, k).
     and_then (suspend m (tr\<lparr>os := k, m_target_task := task\<rparr>)) (common_ctor m False symbolicate))"

definition attach_name :: "'k sys \<Rightarrow> (u32 \<times> buffer option) list \<Rightarrow> buffer \<Rightarrow> bool \<Rightarrow> 'k tracer \<Rightarrow> 'k tracer res" where
  "attach_name m procs target_name symbolicate tr =
     and_then (pid_for_name procs target_name) (\<lambda>target_pid.
     and_then (check (k_task_for_pid m target_pid (os tr))) (\<lambda>(task, k).
     and_then (suspend m (tr\<lparr>os := k, m_target_task := task\<rparr>)) (common_ctor m False symbolicate)))"

definition PIPE_TARGET2TRACER_FD :: u32 where "PIPE_TARGET2TRACER_FD = 4"
definition PIPE_TRACER2TARGET_FD :: u32 where "PIPE_TRACER2TARGET_FD = 3"

text \<open>\<^verbatim>\<open>POSIX_SPAWN_START_SUSPENDED | POSIX_SPAWN_CLOEXEC_DEFAULT\<close> and the flag against ASLR.\<close>

definition spawn_flags :: "bool \<Rightarrow> u16" where
  "spawn_flags disable_aslr = (0x0080 OR 0x4000) OR (if disable_aslr then 0x0100 else 0)"

definition posix_calls :: "'k sys \<Rightarrow> posix_call list \<Rightarrow> 'k \<Rightarrow> 'k res" where
  "posix_calls m calls k = fold_res (\<lambda>c k. check (k_posix m c k)) calls k"

definition spawn_with_args ::
    "'k sys \<Rightarrow> buffer list \<Rightarrow> bool \<Rightarrow> bool \<Rightarrow> 'k tracer \<Rightarrow> (u32 \<times> 'k tracer) res" where
  "spawn_with_args m spawn_args pipe_ctrl disable_aslr tr =
     and_then (posix_calls m
       [Spawnattr_Init, Spawnattr_Setflags (spawn_flags disable_aslr), File_Actions_Init,
        Adddup2 0 0, Adddup2 1 1, Adddup2 2 2] (os tr)) (\<lambda>k.
     and_then
       (if pipe_ctrl then
          and_then (assert_some (k_pipe m k)) (\<lambda>(t2t_r, t2t_w, k).
          and_then (assert_some (k_pipe m k)) (\<lambda>(t2c_r, t2c_w, k).
          and_then (posix_calls m [Adddup2 t2t_w PIPE_TARGET2TRACER_FD, Adddup2 t2c_r PIPE_TRACER2TARGET_FD] k) (\<lambda>k.
          Inr (tr\<lparr>os := k, m_target2tracer_fd := Some t2t_r, m_tracer2target_fd := Some t2c_w\<rparr>))))
        else Inr (tr\<lparr>os := k\<rparr>)) (\<lambda>tr.
     and_then (assert_that (1 \<le> length spawn_args)) (\<lambda>_.
     and_then (check (k_posix_spawnp m (hd spawn_args) spawn_args (os tr))) (\<lambda>(pid, k).
     and_then (posix_calls m [File_Actions_Destroy, Spawnattr_Destroy] k) (\<lambda>k.
     Inr (pid, tr\<lparr>os := k\<rparr>))))))"

definition spawn_tracer ::
    "'k sys \<Rightarrow> buffer list \<Rightarrow> bool \<Rightarrow> bool \<Rightarrow> bool \<Rightarrow> 'k tracer \<Rightarrow> 'k tracer res" where
  "spawn_tracer m spawn_args pipe_ctrl disable_aslr symbolicate tr =
     and_then (spawn_with_args m spawn_args pipe_ctrl disable_aslr tr) (\<lambda>(pid, tr).
     and_then (check (k_task_for_pid m pid (os tr))) (\<lambda>(task, k).
     common_ctor m pipe_ctrl symbolicate (tr\<lparr>os := k, m_target_task := task\<rparr>)))"

section \<open>The pipe\<close>

text \<open>The event handler reads a byte and puts a block on the queue; the block runs later.\<close>

definition pipe_readable :: "'k sys \<Rightarrow> 'k tracer \<Rightarrow> 'k tracer res" where
  "pipe_readable m tr =
     (case m_target2tracer_fd tr of
        None \<Rightarrow> Inl Out_Of_Bounds
      | Some fd \<Rightarrow>
          and_then (assert_some (k_read m fd (os tr))) (\<lambda>(rbuf, k).
          if rbuf = of_char (CHR ''y'') then Inr (tr\<lparr>os := k, m_blocks := m_blocks tr @ [True]\<rparr>)
          else if rbuf = of_char (CHR ''n'') then Inr (tr\<lparr>os := k, m_blocks := m_blocks tr @ [False]\<rparr>)
          else Inl Assertion_Failed))"

definition pipe_ack :: "'k sys \<Rightarrow> 'k tracer \<Rightarrow> 'k tracer res" where
  "pipe_ack m tr =
     (case m_tracer2target_fd tr of
        None \<Rightarrow> Inl Out_Of_Bounds
      | Some fd \<Rightarrow> and_then (assert_some (k_write m fd (of_char (CHR ''c'')) (os tr))) (\<lambda>k. Inr (tr\<lparr>os := k\<rparr>)))"

definition pipe_start :: "'k sys \<Rightarrow> 'k tracer \<Rightarrow> 'k tracer res" where
  "pipe_start m tr =
     and_then (set_single_step m True tr) (\<lambda>tr.
     and_then (get_suspend_count m (os tr) (m_target_task tr)) (\<lambda>cnt.
     and_then (if cnt = 0 \<and> \<not> m_measuring_stats tr then start_measuring_stats m tr else Inr tr) (pipe_ack m)))"

definition pipe_stop :: "'k sys \<Rightarrow> 'k tracer \<Rightarrow> 'k tracer res" where
  "pipe_stop m tr =
     and_then (set_single_step m False tr) (\<lambda>tr.
     and_then (get_suspend_count m (os tr) (m_target_task tr)) (\<lambda>cnt.
     and_then (if cnt = 0 \<and> m_measuring_stats tr then stop_measuring_stats m tr else Inr tr) (pipe_ack m)))"

definition pipe_block :: "'k sys \<Rightarrow> 'k tracer \<Rightarrow> 'k tracer res" where
  "pipe_block m tr =
     (case m_blocks tr of
        [] \<Rightarrow> Inr tr
      | b # bs \<Rightarrow> if b then pipe_start m (tr\<lparr>m_blocks := bs\<rparr>) else pipe_stop m (tr\<lparr>m_blocks := bs\<rparr>))"

text \<open>
  The other end, in the traced program: \<^verbatim>\<open>pipe_set_single_step\<close> up to and after the answer, with
  the calls of that process.
\<close>

definition pipe_request :: "(u32 \<Rightarrow> byte \<Rightarrow> 'p \<Rightarrow> 'p option) \<Rightarrow> bool \<Rightarrow> 'p \<Rightarrow> 'p res" where
  "pipe_request wr do_ss k =
     assert_some (wr PIPE_TARGET2TRACER_FD (of_char (if do_ss then CHR ''y'' else CHR ''n'')) k)"

definition pipe_answer :: "(u32 \<Rightarrow> 'p \<Rightarrow> (byte \<times> 'p) option) \<Rightarrow> 'p \<Rightarrow> 'p res" where
  "pipe_answer rd k =
     and_then (assert_some (rd PIPE_TRACER2TARGET_FD k)) (\<lambda>(rbuf, k).
     and_then (assert_that (rbuf = of_char (CHR ''c''))) (\<lambda>_. Inr k))"

section \<open>The end of a trace\<close>

text \<open>
  The destructor: the directory it leaves, also when the program ends in it, and the result.
  The statistics it prints are left out.
\<close>

definition delete_tracer ::
    "'k sys \<Rightarrow> ('c, 'd) zstd_lib \<Rightarrow> int \<Rightarrow> nat \<Rightarrow> ((u64 \<times> u64) list \<Rightarrow> u64 \<times> u64 \<Rightarrow> bool) \<Rightarrow> buffer \<Rightarrow> int \<Rightarrow>
       directory \<Rightarrow> 'k tracer \<Rightarrow> directory \<times> ((u32 \<times> buffer) list \<times> 'k) res" where
  "delete_tracer m z cores fuel tree after level dir tr =
     (case and_then (if target_valid m tr then set_single_step m False tr else Inr tr) (\<lambda>tr.
           and_then (stop_measuring_stats m tr) (\<lambda>tr.
           and_then (assert_some (m_macho_regions tr)) (\<lambda>mr. Inr (mr, tr)))) of
        Inl e \<Rightarrow> (dir, Inl e)
      | Inr (mr, tr) \<Rightarrow>
          (case trace_log_write z cores fuel tree after (m_stream (m_log tr)) level (log_ctxs (m_log tr))
                  (mr_regions mr) (m_symbols tr) dir of
             Inl e \<Rightarrow> (write_interrupted z cores fuel tree after (m_stream (m_log tr)) level (log_ctxs (m_log tr))
                         (mr_regions mr) (m_symbols tr) dir, Inl e)
           | Inr (dir, hdrs) \<Rightarrow>
               (dir, and_then (resume m (tr\<lparr>g_tracer := False\<rparr>)) (\<lambda>tr. Inr (hdrs, os tr)))))"

end
