(* ===== verification/TracerProps.thy ===== *)
theory TracerProps
  imports Tracer Steps
begin

text \<open>
  What the tracer does to the traced task and what it measures, for a kernel that keeps the
  documented promises \<open>kernel_ok\<close>: suspending and resuming are counted, the exception port of
  breakpoints and the single-step bit are what was set last, and no call changes anything
  else of the task.
\<close>

section \<open>The kernel's promises\<close>

text \<open>A call that succeeds changes the task as \<open>g\<close> says; a task that is gone stays gone.\<close>

definition changes :: "'k sys \<Rightarrow> u32 \<Rightarrow> ('k \<Rightarrow> 'k option) \<Rightarrow> (ktask \<Rightarrow> ktask) \<Rightarrow> bool" where
  "changes m task call g \<longleftrightarrow> (\<forall>k k'. call k = Some k' \<longrightarrow> k_task m k' task = map_option g (k_task m k task))"

definition add_suspend :: "int \<Rightarrow> ktask \<Rightarrow> ktask" where
  "add_suspend d i = i\<lparr>suspend_count := suspend_count i + d\<rparr>"

definition set_thread :: "u32 \<Rightarrow> arm_debug_state64 \<Rightarrow> ktask \<Rightarrow> ktask" where
  "set_thread th d i = i\<lparr>threads := map (\<lambda>(t, d0). (t, if t = th then d else d0)) (threads i)\<rparr>"

definition kernel_ok :: "'k sys \<Rightarrow> u32 \<Rightarrow> bool" where
  "kernel_ok m task \<longleftrightarrow>
     changes m task (k_task_suspend m task) (add_suspend 1) \<and>
     changes m task (k_task_resume m task) (add_suspend (- 1)) \<and>
     (\<forall>a. changes m task (k_set_exception_ports m task a) (breakpoint_exc_update (\<lambda>_. a))) \<and>
     (\<forall>d. changes m task (k_task_set_state m task d) (debug_state_update (\<lambda>_. d))) \<and>
     (\<forall>th d. changes m task (k_thread_set_state m th d) (set_thread th d)) \<and>
     (\<forall>n. changes m task (k_vm_deallocate m n) id) \<and>
     (\<forall>fd b. changes m task (k_write m fd b) id) \<and>
     (\<forall>fd. changes m task (\<lambda>k. map_option snd (k_read m fd k)) id) \<and>
     (\<forall>k i. k_task m k task = Some i \<longrightarrow>
        k_task_suspend m task k \<noteq> None \<and> (k_task_resume m task k \<noteq> None \<longleftrightarrow> 0 < suspend_count i))"

lemma kernel_okD:
  assumes "kernel_ok m task"
  shows "changes m task (k_task_suspend m task) (add_suspend 1)"
    and "changes m task (k_task_resume m task) (add_suspend (- 1))"
    and "changes m task (k_set_exception_ports m task a) (breakpoint_exc_update (\<lambda>_. a))"
    and "changes m task (k_task_set_state m task d) (debug_state_update (\<lambda>_. d))"
    and "changes m task (k_thread_set_state m th d) (set_thread th d)"
    and "changes m task (k_vm_deallocate m n) id"
    and "changes m task (k_write m fd b) id"
    and "changes m task (\<lambda>k. map_option snd (k_read m fd k)) id"
  using assms by (simp_all add: kernel_ok_def)

lemma resume_needs_suspend:
  "kernel_ok m task \<Longrightarrow> k_task m k task = Some i \<Longrightarrow> k_task_resume m task k \<noteq> None \<longleftrightarrow> 0 < suspend_count i"
  by (simp add: kernel_ok_def)

lemma changesD: "changes m task call g \<Longrightarrow> call k = Some k' \<Longrightarrow> k_task m k' task = map_option g (k_task m k task)"
  by (simp add: changes_def)

lemma check_Inr_iff [res_simps]: "check r = Inr x \<longleftrightarrow> r = Some x"
  by (cases r) (simp_all add: check_def)

lemma assert_some_Inr_iff [res_simps]: "assert_some r = Inr x \<longleftrightarrow> r = Some x"
  by (cases r) (simp_all add: assert_some_def)

lemma add_suspend_add_suspend [simp]: "add_suspend a (add_suspend b i) = add_suspend (a + b) i"
  by (simp add: add_suspend_def algebra_simps)

lemma add_suspend_0 [simp]: "add_suspend 0 = id"
  by (auto simp: add_suspend_def)

lemma map_add_suspend [simp]:
  "map_option (add_suspend a) (map_option (add_suspend b) x) = map_option (add_suspend (a + b)) x"
  by (cases x) simp_all

lemma map_option_id_fun [simp]: "map_option id x = x"
  by (simp add: option.map_id)

text \<open>Listing the target's regions suspends and resumes it.\<close>

lemma while_suspended_task:
  assumes "kernel_ok m task" and "while_suspended m task act k = Inr (x, k')"
  shows "k_task m k' task = k_task m k task"
  using assms(2) changesD [OF kernel_okD(1) [OF assms(1)]] changesD [OF kernel_okD(2) [OF assms(1)]]
  by (auto simp: while_suspended_def res_simps split: if_splits)

lemma resets_task:
  assumes "kernel_ok m task"
  shows "reset_macho_regions m task old k = Inr (mr, k') \<Longrightarrow> k_task m k' task = k_task m k task"
    and "reset_vm_regions m task k = Inr (vm, k') \<Longrightarrow> k_task m k' task = k_task m k task"
    and "reset_symbols m task k = Inr (syms, k') \<Longrightarrow> k_task m k' task = k_task m k task"
  by (auto simp: reset_macho_regions_def reset_vm_regions_def reset_symbols_def res_simps dest: while_suspended_task [OF assms])

section \<open>Single-stepping a task\<close>

definition step_all :: "bool \<Rightarrow> ktask \<Rightarrow> ktask" where
  "step_all b i = i\<lparr>debug_state := step_bit b (debug_state i),
     threads := map (\<lambda>(t, _). (t, step_bit b zero_debug_state)) (threads i)\<rparr>"

lemma set_threads_task:
  assumes "kernel_ok m task" and "fold_res (\<lambda>th. set_single_step_thread m th b) ths k = Inr k'"
  shows "k_task m k' task = map_option (\<lambda>i. i\<lparr>threads :=
      map (\<lambda>(t, d). (t, if t \<in> set ths then step_bit b zero_debug_state else d)) (threads i)\<rparr>) (k_task m k task)"
  using assms(2)
proof (induction ths arbitrary: k)
  case Nil
  then show ?case by (cases "k_task m k task") (auto simp: case_prod_unfold)
next
  case (Cons th ths)
  then obtain k1 where k1: "set_single_step_thread m th b k = Inr k1"
    and rest: "fold_res (\<lambda>th. set_single_step_thread m th b) ths k1 = Inr k'"
    by (auto simp: res_simps)
  from k1 have "k_task m k1 task = map_option (set_thread th (step_bit b zero_debug_state)) (k_task m k task)"
    using changesD [OF kernel_okD(5) [OF assms(1)]] by (auto simp: set_single_step_thread_def res_simps)
  then show ?case
    using Cons.IH [OF rest] by (cases "k_task m k task") (auto simp: set_thread_def case_prod_unfold)
qed

lemma set_single_step_task_task:
  assumes "kernel_ok m task" and "set_single_step_task m task b k = Inr k'"
  shows "k_task m k' task = map_option (step_all b) (k_task m k task)"
proof -
  from assms(2) obtain i k1 i1 k2 where i: "k_task m k task = Some i"
    and k1: "k_task_set_state m task (step_bit b (debug_state i)) k = Some k1" and i1: "k_task m k1 task = Some i1"
    and k2: "fold_res (\<lambda>th. set_single_step_thread m th b) (map fst (threads i1)) k1 = Inr k2"
    and k': "k_vm_deallocate m (4 * length (threads i1)) k2 = Some k'"
    by (auto simp: set_single_step_task_def res_simps)
  have "i1 = i\<lparr>debug_state := step_bit b (debug_state i)\<rparr>"
    using changesD [OF kernel_okD(4) [OF assms(1)] k1] i i1 by simp
  moreover have "k_task m k' task = k_task m k2 task"
    using changesD [OF kernel_okD(6) [OF assms(1)] k'] by simp
  ultimately show ?thesis
    using set_threads_task [OF assms(1) k2] i i1
    by (auto simp: step_all_def case_prod_unfold intro!: arg_cong [where f = "\<lambda>ts. threads_update (\<lambda>_. ts) _"])
qed

section \<open>What each operation does to the target\<close>

definition target_info :: "'k sys \<Rightarrow> 'k tracer \<Rightarrow> ktask option" where
  "target_info m tr = k_task m (os tr) (m_target_task tr)"

definition ids :: "'k tracer \<Rightarrow> u32 \<times> u32 \<times> exc_action" where
  "ids tr = (m_target_task tr, m_breakpoint_exc_port tr, m_orig_breakpoint_exc tr)"

definition tracer_kernel_ok :: "'k sys \<Rightarrow> 'k tracer \<Rightarrow> bool" where
  "tracer_kernel_ok m tr \<longleftrightarrow> kernel_ok m (m_target_task tr) \<and> MACH_PORT_VALID (m_target_task tr)"

text \<open>An operation that keeps the tracer's ports and does \<open>g\<close> to the target.\<close>

definition acts_as :: "'k sys \<Rightarrow> (ktask \<Rightarrow> ktask) \<Rightarrow> 'k tracer \<Rightarrow> 'k tracer \<Rightarrow> bool" where
  "acts_as m g tr tr' \<longleftrightarrow> ids tr' = ids tr \<and> target_info m tr' = map_option g (target_info m tr)"

lemma acts_as_trans: "acts_as m g tr tr' \<Longrightarrow> acts_as m h tr' tr'' \<Longrightarrow> acts_as m (h \<circ> g) tr tr''"
  by (simp add: acts_as_def option.map_comp)

lemma acts_as_ok: "acts_as m g tr tr' \<Longrightarrow> tracer_kernel_ok m tr' \<longleftrightarrow> tracer_kernel_ok m tr"
  by (simp add: acts_as_def ids_def tracer_kernel_ok_def)

lemma target_gone:
  "tracer_kernel_ok m tr \<Longrightarrow> \<not> target_valid m tr \<longleftrightarrow> target_info m tr = None"
  by (simp add: tracer_kernel_ok_def target_valid_def task_is_valid_def target_info_def)

text \<open>An operation on the measurement alone.\<close>

definition measures :: "'k tracer \<Rightarrow> 'k tracer \<Rightarrow> bool" where
  "measures tr tr' \<longleftrightarrow> ids tr' = ids tr \<and> os tr' = os tr \<and> m_single_stepping tr' = m_single_stepping tr"

lemma measures_acts_as: "measures tr tr' \<Longrightarrow> acts_as m id tr tr'"
  by (simp add: measures_def acts_as_def target_info_def ids_def)

lemma measures_stepping: "measures tr tr' \<Longrightarrow> m_single_stepping tr' = m_single_stepping tr"
  by (simp add: measures_def)

lemma measuring_measures:
  "start_measuring_stats m tr = Inr tr' \<Longrightarrow> measures tr tr'"
  "stop_measuring_stats m tr = Inr tr' \<Longrightarrow> measures tr tr'"
  by (auto simp: start_measuring_stats_def stop_measuring_stats_def measures_def ids_def res_simps split: if_splits)

lemma measuring_keeps:
  assumes "start_measuring_stats m tr = Inr tr' \<or> stop_measuring_stats m tr = Inr tr' \<or> tr' = tr"
  shows "ids tr' = ids tr" and "target_info m tr' = target_info m tr" and "m_single_stepping tr' = m_single_stepping tr"
  using assms measuring_measures [of m tr tr'] by (auto simp: measures_def target_info_def ids_def)

lemma suspend_acts:
  assumes "tracer_kernel_ok m tr" and "suspend m tr = Inr tr'"
  shows "acts_as m (add_suspend 1) tr tr'" and "m_single_stepping tr' = m_single_stepping tr"
proof -
  have k: "kernel_ok m (m_target_task tr)"
    using assms(1) by (simp add: tracer_kernel_ok_def)
  show "acts_as m (add_suspend 1) tr tr'"
    using assms(2) target_gone [OF assms(1)] changesD [OF kernel_okD(1) [OF k]]
    by (auto simp: suspend_def res_simps acts_as_def target_info_def ids_def measures_def Let_def
        split: if_splits dest!: measuring_measures)
  show "m_single_stepping tr' = m_single_stepping tr"
    using assms(2)
    by (auto simp: suspend_def res_simps Let_def split: if_splits dest!: measuring_measures measures_stepping)
qed

lemma resume_acts:
  assumes "tracer_kernel_ok m tr" and "resume m tr = Inr tr'"
  shows "acts_as m (add_suspend (- 1)) tr tr'" and "m_single_stepping tr' = m_single_stepping tr"
proof -
  have k: "kernel_ok m (m_target_task tr)"
    using assms(1) by (simp add: tracer_kernel_ok_def)
  show "acts_as m (add_suspend (- 1)) tr tr'"
    using assms(2) target_gone [OF assms(1)] changesD [OF kernel_okD(2) [OF k]]
    by (auto simp: resume_def res_simps acts_as_def target_info_def ids_def measures_def
        split: if_splits dest!: measuring_measures)
  show "m_single_stepping tr' = m_single_stepping tr"
    using assms(2)
    by (auto simp: resume_def res_simps split: if_splits dest!: measuring_measures measures_stepping)
qed

lemma tracer_reset_acts:
  assumes "tracer_kernel_ok m tr" and "tracer_reset m tr = Inr tr'"
  shows "acts_as m id tr tr'" and "m_single_stepping tr' = m_single_stepping tr"
proof -
  have k: "kernel_ok m (m_target_task tr)"
    using assms(1) by (simp add: tracer_kernel_ok_def)
  show "acts_as m id tr tr'"
    using assms(2)
    by (auto simp: tracer_reset_def res_simps acts_as_def target_info_def ids_def
        dest!: resets_task [OF k] split: option.splits)
  show "m_single_stepping tr' = m_single_stepping tr"
    using assms(2) by (auto simp: tracer_reset_def res_simps)
qed

text \<open>
  Stepping on and off: the exception port, the single-step bit of the task and of each of its
  threads; the suspend count is what it was.
\<close>

definition step_target :: "u32 \<Rightarrow> exc_action \<Rightarrow> bool \<Rightarrow> ktask \<Rightarrow> ktask" where
  "step_target port orig b i = (step_all b i)\<lparr>breakpoint_exc := (if b then tracer_action port else orig)\<rparr>"

lemma set_single_step_acts:
  assumes ok: "tracer_kernel_ok m tr" and "set_single_step m b tr = Inr tr'"
  shows "acts_as m (step_target (m_breakpoint_exc_port tr) (m_orig_breakpoint_exc tr) b) tr tr'"
    and "m_single_stepping tr' = b"
proof -
  from assms(2) obtain tr1 tr2 tr3 where tr1: "suspend m tr = Inr tr1" and tr3: "resume m tr2 = Inr tr3"
    and tr': "tr' = tr3\<lparr>m_single_stepping := b\<rparr>"
    and mid: "(if b then and_then (tracer_reset m tr1) (\<lambda>tr. and_then (install_breakpoint_exception_handler m tr) (\<lambda>tr.
          and_then (set_single_step_task m (m_target_task tr) True (os tr)) (\<lambda>k. Inr (tr\<lparr>os := k\<rparr>))))
        else and_then (set_single_step_task m (m_target_task tr1) False (os tr1)) (\<lambda>k.
          uninstall_breakpoint_exception_handler m (tr1\<lparr>os := k\<rparr>))) = Inr tr2"
    by (auto simp: set_single_step_def res_simps)
  note a1 = suspend_acts(1) [OF ok tr1]
  then have ok1: "tracer_kernel_ok m tr1"
    using ok acts_as_ok by blast
  have k: "kernel_ok m (m_target_task tr1)"
    using ok1 by (simp add: tracer_kernel_ok_def)
  have a2: "acts_as m (step_target (m_breakpoint_exc_port tr1) (m_orig_breakpoint_exc tr1) b) tr1 tr2"
  proof (cases b)
    case True
    then obtain tr4 k5 k6 where tr4: "tracer_reset m tr1 = Inr tr4"
      and k5: "k_set_exception_ports m (m_target_task tr4) (tracer_action (m_breakpoint_exc_port tr4)) (os tr4) = Some k5"
      and k6: "set_single_step_task m (m_target_task tr4) True k5 = Inr k6" and tr2: "tr2 = tr4\<lparr>os := k6\<rparr>"
      using mid by (auto simp: install_breakpoint_exception_handler_def res_simps)
    have a: "acts_as m id tr1 tr4"
      by (rule tracer_reset_acts(1) [OF ok1 tr4])
    then have "m_target_task tr4 = m_target_task tr1" and p: "m_breakpoint_exc_port tr4 = m_breakpoint_exc_port tr1"
      by (simp_all add: acts_as_def ids_def)
    with changesD [OF kernel_okD(3) [OF k] k5 [unfolded this]] set_single_step_task_task [OF k k6 [unfolded this]] a
    show ?thesis
      using True tr2
      by (auto simp: acts_as_def ids_def target_info_def step_target_def step_all_def option.map_comp intro!: option.map_cong0)
  next
    case False
    then obtain k5 where k5: "set_single_step_task m (m_target_task tr1) False (os tr1) = Inr k5"
      and un: "uninstall_breakpoint_exception_handler m (tr1\<lparr>os := k5\<rparr>) = Inr tr2"
      using mid by (auto simp: res_simps)
    have t: "k_task m k5 (m_target_task tr1) = map_option (step_all False) (target_info m tr1)"
      using set_single_step_task_task [OF k k5] by (simp add: target_info_def)
    show ?thesis
      using un t False changesD [OF kernel_okD(3) [OF k], of _ k5] ok1
      by (auto simp: uninstall_breakpoint_exception_handler_def res_simps acts_as_def ids_def target_info_def step_target_def
          target_valid_def task_is_valid_def tracer_kernel_ok_def option.map_comp split: if_splits intro!: option.map_cong0)
  qed
  have ok2: "tracer_kernel_ok m tr2"
    using a2 ok1 acts_as_ok by blast
  have "acts_as m (add_suspend (- 1) \<circ> (step_target (m_breakpoint_exc_port tr1) (m_orig_breakpoint_exc tr1) b \<circ> add_suspend 1)) tr tr3"
    using acts_as_trans [OF acts_as_trans [OF a1 a2] resume_acts(1) [OF ok2 tr3]] by (simp add: comp_assoc)
  moreover have "m_breakpoint_exc_port tr1 = m_breakpoint_exc_port tr" "m_orig_breakpoint_exc tr1 = m_orig_breakpoint_exc tr"
    using a1 by (simp_all add: acts_as_def ids_def)
  moreover have "add_suspend (- 1) \<circ> (step_target p a b \<circ> add_suspend 1) = step_target p a b" for p a
    by (auto simp: add_suspend_def step_target_def step_all_def)
  ultimately show "acts_as m (step_target (m_breakpoint_exc_port tr) (m_orig_breakpoint_exc tr) b) tr tr'"
    using tr' by (auto simp: acts_as_def ids_def target_info_def)
  show "m_single_stepping tr' = b"
    using tr' by simp
qed

lemma target_id_fun: "acts_as m id tr tr' \<longleftrightarrow> ids tr' = ids tr \<and> target_info m tr' = target_info m tr"
  by (simp add: acts_as_def)

lemma pipe_ack_acts:
  assumes "tracer_kernel_ok m tr" and "pipe_ack m tr = Inr tr'"
  shows "acts_as m id tr tr'" and "m_single_stepping tr' = m_single_stepping tr"
  using assms changesD [OF kernel_okD(7), of m "m_target_task tr"]
  by (auto simp: pipe_ack_def res_simps target_id_fun ids_def target_info_def tracer_kernel_ok_def split: option.splits)

lemma pipe_readable_acts:
  assumes "tracer_kernel_ok m tr" and "pipe_readable m tr = Inr tr'"
  shows "acts_as m id tr tr'" and "m_single_stepping tr' = m_single_stepping tr"
proof -
  from assms(2) obtain fd b k' where r: "k_read m fd (os tr) = Some (b, k')"
    and tr': "os tr' = k'" "ids tr' = ids tr" "m_single_stepping tr' = m_single_stepping tr"
    by (auto simp: pipe_readable_def res_simps ids_def split: option.splits if_splits)
  have "k_task m k' (m_target_task tr) = k_task m (os tr) (m_target_task tr)"
    using changesD [OF kernel_okD(8), of m "m_target_task tr" fd "os tr" k'] assms(1) r by (simp add: tracer_kernel_ok_def)
  then show "acts_as m id tr tr'" and "m_single_stepping tr' = m_single_stepping tr"
    using tr' by (simp_all add: target_id_fun target_info_def ids_def)
qed

lemma pipe_start_acts:
  assumes ok: "tracer_kernel_ok m tr" and "pipe_start m tr = Inr tr'"
  shows "acts_as m (step_target (m_breakpoint_exc_port tr) (m_orig_breakpoint_exc tr) True) tr tr'"
    and "m_single_stepping tr'"
proof -
  from assms(2) obtain tr1 tr2 where tr1: "set_single_step m True tr = Inr tr1"
    and tr2: "start_measuring_stats m tr1 = Inr tr2 \<or> tr2 = tr1" and tr': "pipe_ack m tr2 = Inr tr'"
    by (auto simp: pipe_start_def res_simps split: if_splits)
  note a1 = set_single_step_acts [OF ok tr1]
  have a2: "acts_as m id tr1 tr2" "m_single_stepping tr2 = m_single_stepping tr1"
    using tr2 measuring_keeps [of m tr1 tr2] by (auto simp: target_id_fun)
  have "tracer_kernel_ok m tr2"
    using ok a1(1) a2(1) acts_as_ok by metis
  from pipe_ack_acts [OF this tr'] a1 a2
  show "acts_as m (step_target (m_breakpoint_exc_port tr) (m_orig_breakpoint_exc tr) True) tr tr'" and "m_single_stepping tr'"
    by (auto simp: acts_as_def)
qed

lemma pipe_stop_acts:
  assumes ok: "tracer_kernel_ok m tr" and "pipe_stop m tr = Inr tr'"
  shows "acts_as m (step_target (m_breakpoint_exc_port tr) (m_orig_breakpoint_exc tr) False) tr tr'"
    and "\<not> m_single_stepping tr'"
proof -
  from assms(2) obtain tr1 tr2 where tr1: "set_single_step m False tr = Inr tr1"
    and tr2: "stop_measuring_stats m tr1 = Inr tr2 \<or> tr2 = tr1" and tr': "pipe_ack m tr2 = Inr tr'"
    by (auto simp: pipe_stop_def res_simps split: if_splits)
  note a1 = set_single_step_acts [OF ok tr1]
  have a2: "acts_as m id tr1 tr2" "m_single_stepping tr2 = m_single_stepping tr1"
    using tr2 measuring_keeps [of m tr1 tr2] by (auto simp: target_id_fun)
  have "tracer_kernel_ok m tr2"
    using ok a1(1) a2(1) acts_as_ok by metis
  from pipe_ack_acts [OF this tr'] a1 a2
  show "acts_as m (step_target (m_breakpoint_exc_port tr) (m_orig_breakpoint_exc tr) False) tr tr'" and "\<not> m_single_stepping tr'"
    by (auto simp: acts_as_def)
qed

section \<open>Every order of events\<close>

text \<open>
  What can happen to a tracer: its callers' operations, its dispatch sources, an exception of
  the target, and anything outside that leaves the target's suspend count and breakpoint
  port alone, its exit included.
\<close>

datatype 'k event =
    Suspend | Resume | Single_Step bool | Pipe_Readable | Pipe_Block
  | Breakpoint u32 arm_thread_state64 | Outside 'k

definition same_control :: "ktask option \<Rightarrow> ktask option \<Rightarrow> bool" where
  "same_control before after \<longleftrightarrow> (case after of None \<Rightarrow> True | Some j \<Rightarrow>
     (case before of None \<Rightarrow> False | Some i \<Rightarrow>
        suspend_count j = suspend_count i \<and> breakpoint_exc j = breakpoint_exc i))"

inductive tracer_step :: "'k sys \<Rightarrow> 'k event \<Rightarrow> 'k tracer \<Rightarrow> 'k tracer \<Rightarrow> bool" for m where
  suspend: "suspend m tr = Inr tr' \<Longrightarrow> tracer_step m Suspend tr tr'"
| resume: "resume m tr = Inr tr' \<Longrightarrow> tracer_step m Resume tr tr'"
| single_step: "set_single_step m b tr = Inr tr' \<Longrightarrow> tracer_step m (Single_Step b) tr tr'"
| pipe_readable: "pipe_readable m tr = Inr tr' \<Longrightarrow> tracer_step m Pipe_Readable tr tr'"
| pipe_block: "pipe_block m tr = Inr tr' \<Longrightarrow> tracer_step m Pipe_Block tr tr'"
| breakpoint: "exception_raise_state_identity m th st tr = Inr (st', tr') \<Longrightarrow> tracer_step m (Breakpoint th st) tr tr'"
| outside: "same_control (target_info m tr) (k_task m k (m_target_task tr)) \<Longrightarrow> tracer_step m (Outside k) tr (tr\<lparr>os := k\<rparr>)"

inductive_cases tracer_stepE [elim!]:
  "tracer_step m Suspend tr tr'" "tracer_step m Resume tr tr'" "tracer_step m (Single_Step b) tr tr'"
  "tracer_step m Pipe_Readable tr tr'" "tracer_step m Pipe_Block tr tr'" "tracer_step m (Breakpoint th st) tr tr'"
  "tracer_step m (Outside k) tr tr'"

fun suspends :: "'k event \<Rightarrow> int" where
  "suspends Suspend = 1"
| "suspends Resume = - 1"
| "suspends _ = 0"

text \<open>The target's breakpoints go to the tracer exactly while it is single-stepping.\<close>

definition exceptions_inv :: "'k sys \<Rightarrow> 'k tracer \<Rightarrow> bool" where
  "exceptions_inv m tr \<longleftrightarrow>
     tracer_kernel_ok m tr \<and>
     (\<forall>i. target_info m tr = Some i \<longrightarrow>
        breakpoint_exc i = (if m_single_stepping tr then tracer_action (m_breakpoint_exc_port tr) else m_orig_breakpoint_exc tr))"

text \<open>One step: the exception port is right again, and the suspend count moved as the event says.\<close>

definition good_step :: "'k sys \<Rightarrow> int \<Rightarrow> 'k tracer \<Rightarrow> 'k tracer \<Rightarrow> bool" where
  "good_step m d tr tr' \<longleftrightarrow>
     exceptions_inv m tr' \<and> ids tr' = ids tr \<and>
     (\<forall>j. target_info m tr' = Some j \<longrightarrow>
        (\<exists>i. target_info m tr = Some i \<and> suspend_count j = suspend_count i + d))"

lemma good_stepI:
  assumes "exceptions_inv m tr" and a: "acts_as m g tr tr'"
    and "\<And>i. suspend_count (g i) = suspend_count i + d"
    and "(\<forall>i. breakpoint_exc (g i) = breakpoint_exc i) \<and> m_single_stepping tr' = m_single_stepping tr \<or>
      (\<forall>i. breakpoint_exc (g i) = (if m_single_stepping tr' then tracer_action (m_breakpoint_exc_port tr) else m_orig_breakpoint_exc tr))"
  shows "good_step m d tr tr'"
proof -
  have i: "m_breakpoint_exc_port tr' = m_breakpoint_exc_port tr" "m_orig_breakpoint_exc tr' = m_orig_breakpoint_exc tr"
    using a by (simp_all add: acts_as_def ids_def)
  show ?thesis
    using assms acts_as_ok [OF a] i
    by (auto simp: good_step_def exceptions_inv_def acts_as_def)
qed

lemma exception_acts:
  assumes "tracer_kernel_ok m tr" and "exception_raise_state_identity m th st tr = Inr (st', tr')"
  shows "acts_as m (set_thread th (step_bit True zero_debug_state)) tr tr'"
    and "m_single_stepping tr' = m_single_stepping tr"
  using assms changesD [OF kernel_okD(5), of m "m_target_task tr"]
  by (auto simp: exception_raise_state_identity_def set_single_step_thread_def res_simps acts_as_def ids_def target_info_def
      tracer_kernel_ok_def)

lemma blocks_irrelevant:
  "tracer_kernel_ok m (tr\<lparr>m_blocks := bs\<rparr>) = tracer_kernel_ok m tr"
  "acts_as m g (tr\<lparr>m_blocks := bs\<rparr>) tr' = acts_as m g tr tr'"
  by (simp_all add: tracer_kernel_ok_def acts_as_def ids_def target_info_def)

lemma pipe_block_good:
  assumes inv: "exceptions_inv m tr" and "pipe_block m tr = Inr tr'"
  shows "good_step m 0 tr tr'"
proof (cases "m_blocks tr")
  case Nil
  then show ?thesis
    using assms by (auto simp: pipe_block_def good_step_def)
next
  case (Cons b bs)
  let ?tr = "tr\<lparr>m_blocks := bs\<rparr>"
  have ok: "tracer_kernel_ok m ?tr"
    using inv by (simp add: exceptions_inv_def blocks_irrelevant)
  show ?thesis
  proof (cases b)
    case True
    then have "pipe_start m ?tr = Inr tr'"
      using assms(2) Cons by (simp add: pipe_block_def)
    from pipe_start_acts [OF ok this] good_stepI [OF inv, of _ tr' 0] show ?thesis
      by (simp add: blocks_irrelevant step_target_def step_all_def)
  next
    case False
    then have "pipe_stop m ?tr = Inr tr'"
      using assms(2) Cons by (simp add: pipe_block_def)
    from pipe_stop_acts [OF ok this] good_stepI [OF inv, of _ tr' 0] show ?thesis
      by (simp add: blocks_irrelevant step_target_def step_all_def)
  qed
qed

lemma tracer_step_good:
  assumes "tracer_step m e tr tr'" and inv: "exceptions_inv m tr"
  shows "good_step m (suspends e) tr tr'"
proof -
  have ok: "tracer_kernel_ok m tr"
    using inv by (simp add: exceptions_inv_def)
  show ?thesis
    using assms(1)
  proof (cases rule: tracer_step.cases)
    case suspend
    then show ?thesis
      using good_stepI [OF inv suspend_acts(1) [OF ok]] suspend_acts(2) [OF ok] by (simp add: add_suspend_def)
  next
    case resume
    then show ?thesis
      using good_stepI [OF inv resume_acts(1) [OF ok]] resume_acts(2) [OF ok] by (simp add: add_suspend_def)
  next
    case (single_step b)
    then show ?thesis
      using good_stepI [OF inv set_single_step_acts(1) [OF ok]] set_single_step_acts(2) [OF ok]
      by (simp add: step_target_def step_all_def)
  next
    case pipe_readable
    then show ?thesis
      using good_stepI [OF inv pipe_readable_acts(1) [OF ok]] pipe_readable_acts(2) [OF ok] by simp
  next
    case pipe_block
    then show ?thesis
      using pipe_block_good [OF inv] by simp
  next
    case (breakpoint th st st')
    then show ?thesis
      using good_stepI [OF inv exception_acts(1) [OF ok]] exception_acts(2) [OF ok] by (simp add: set_thread_def)
  next
    case (outside k)
    then show ?thesis
      using inv
      by (auto simp: good_step_def exceptions_inv_def tracer_kernel_ok_def same_control_def ids_def target_info_def
          split: option.splits)
  qed
qed

interpretation tracer: step_system "tracer_step m" "exceptions_inv m" for m
  by unfold_locales (use tracer_step_good in \<open>auto simp: good_step_def\<close>)

lemma tracer_runs_control:
  assumes "runs (tracer_step m) es tr tr'" and "exceptions_inv m tr" and "target_info m tr' = Some j"
  shows "\<exists>i. target_info m tr = Some i \<and> suspend_count j = suspend_count i + sum_list (map suspends es)"
  using assms
proof (induction arbitrary: j rule: runs.induct)
  case (none s)
  then show ?case by simp
next
  case (more es s t e u)
  have "exceptions_inv m t"
    using more.hyps(1) more.prems(1) by (rule tracer.runs_inv)
  from tracer_step_good [OF more.hyps(2) this] more.prems(2) obtain i' where
    "target_info m t = Some i'" "suspend_count j = suspend_count i' + suspends e"
    by (auto simp: good_step_def)
  with more.IH [OF more.prems(1)] show ?case by auto
qed

text \<open>C3: In every order of suspends, resumes, requests for single-stepping (by a call or through the
  pipe), breakpoint exceptions and outside changes, while the target exists its breakpoint
  exceptions go to the tracer's port exactly when the tracer is single-stepping and to the
  original handler otherwise, and its suspend count has moved by the calls of \<^verbatim>\<open>suspend\<close> minus
  those of \<^verbatim>\<open>resume\<close>: the pairs inside \<^verbatim>\<open>set_single_step\<close> and the resets are balanced.\<close>

theorem tracer_keeps_control:
  assumes "kernel_ok m (m_target_task tr)" and "MACH_PORT_VALID (m_target_task tr)"
    and "target_info m tr = Some i" and "\<not> m_single_stepping tr" and "breakpoint_exc i = m_orig_breakpoint_exc tr"
    and "runs (tracer_step m) es tr tr'" and "target_info m tr' = Some j"
  shows "breakpoint_exc j = (if m_single_stepping tr' then tracer_action (m_breakpoint_exc_port tr) else m_orig_breakpoint_exc tr) \<and>
    suspend_count j = suspend_count i + sum_list (map suspends es)"
proof -
  have inv: "exceptions_inv m tr"
    using assms(1-5) by (simp add: exceptions_inv_def tracer_kernel_ok_def)
  have "ids tr' = ids tr"
    using assms(6) inv
  proof (induction rule: runs.induct)
    case (none s)
    then show ?case by simp
  next
    case (more es s t e u)
    have "exceptions_inv m t"
      using more.hyps(1) more.prems by (rule tracer.runs_inv)
    from tracer_step_good [OF more.hyps(2) this] more.IH [OF more.prems] show ?case
      by (simp add: good_step_def)
  qed
  moreover have "exceptions_inv m tr'"
    using tracer.runs_inv [OF assms(6) inv] .
  ultimately show ?thesis
    using tracer_runs_control [OF assms(6) inv assms(7)] assms(3,7) by (auto simp: exceptions_inv_def ids_def)
qed

section \<open>Constructing a tracer\<close>

text \<open>The calls that set up ports and sources leave the target alone; the old handler is told as it is.\<close>

definition setup_ok :: "'k sys \<Rightarrow> u32 \<Rightarrow> bool" where
  "setup_ok m task \<longleftrightarrow>
     changes m task (\<lambda>k. map_option snd (k_port_allocate m k)) id \<and>
     (\<forall>p. changes m task (k_insert_right m p) id) \<and>
     changes m task (\<lambda>k. map_option snd (k_queue_create m k)) id \<and>
     (\<forall>s. changes m task (\<lambda>k. map_option snd (k_source_create m s k)) id) \<and>
     (\<forall>k n mask a i. k_get_exception_ports m k task = Some (n, mask, a) \<longrightarrow> k_task m k task = Some i \<longrightarrow> a = breakpoint_exc i)"

lemma changes_snd:
  "changes m task (\<lambda>k. map_option snd (f k)) id \<Longrightarrow> f k = Some (x, k') \<Longrightarrow> k_task m k' task = k_task m k task"
  by (auto simp: changes_def)

definition set_up :: "'k sys \<Rightarrow> 'k tracer \<Rightarrow> 'k tracer \<Rightarrow> bool" where
  "set_up m tr tr' \<longleftrightarrow> m_target_task tr' = m_target_task tr \<and> target_info m tr' = target_info m tr \<and>
     m_single_stepping tr' = m_single_stepping tr"

lemma set_up_parts:
  assumes "setup_ok m (m_target_task tr)"
  shows "setup_proc_dispath_source m tr = Inr tr' \<Longrightarrow> set_up m tr tr'"
    and "setup_pipe_dispatch_source m tr = Inr tr' \<Longrightarrow> set_up m tr tr' \<and> ids tr' = ids tr"
    and "setup_breakpoint_exception_port_dispath_source m tr = Inr tr' \<Longrightarrow> set_up m tr tr' \<and> ids tr' = ids tr"
  using assms changes_snd [of m "m_target_task tr" "\<lambda>k. k_source_create m s k" for s]
  by (auto simp: setup_ok_def setup_proc_dispath_source_def setup_pipe_dispatch_source_def ids_def
      setup_breakpoint_exception_port_dispath_source_def set_up_def target_info_def res_simps split: option.splits)

lemma set_up_handler:
  assumes "setup_ok m (m_target_task tr)" and "setup_breakpoint_exception_handler m tr = Inr tr'"
  shows "set_up m tr tr' \<and> (\<forall>i. target_info m tr' = Some i \<longrightarrow> m_orig_breakpoint_exc tr' = breakpoint_exc i)"
proof -
  from assms(2) obtain port k1 k2 n mask old where "k_port_allocate m (os tr) = Some (port, k1)"
    and k2: "k_insert_right m port k1 = Some k2" and old: "k_get_exception_ports m k2 (m_target_task tr) = Some (n, mask, old)"
    and tr': "tr' = tr\<lparr>os := k2, m_breakpoint_exc_port := port, m_orig_breakpoint_exc := old\<rparr>"
    by (auto simp: setup_breakpoint_exception_handler_def res_simps)
  then have "k_task m k1 (m_target_task tr) = k_task m (os tr) (m_target_task tr)"
    using assms(1) changes_snd [of m "m_target_task tr" "k_port_allocate m"] by (auto simp: setup_ok_def)
  moreover have "k_task m k2 (m_target_task tr) = k_task m k1 (m_target_task tr)"
    using assms(1) changesD [of m "m_target_task tr" "k_insert_right m port" id, OF _ k2] by (auto simp: setup_ok_def)
  moreover have "\<forall>i. k_task m k2 (m_target_task tr) = Some i \<longrightarrow> old = breakpoint_exc i"
    using assms(1) old by (auto simp: setup_ok_def)
  ultimately show ?thesis
    using tr' by (simp add: set_up_def target_info_def)
qed

text \<open>A constructed tracer satisfies the invariant of all that follows.\<close>

lemma common_ctor_inv:
  assumes "tracer_kernel_ok m tr" and su: "setup_ok m (m_target_task tr)" and "\<not> m_single_stepping tr"
    and "common_ctor m pipe_ctrl symbolicate tr = Inr tr'"
  shows "exceptions_inv m tr' \<and> m_single_stepping tr' = (\<not> pipe_ctrl) \<and> m_target_task tr' = m_target_task tr \<and>
    map_option suspend_count (target_info m tr') = map_option suspend_count (target_info m tr)"
proof -
  let ?tr0 = "tr\<lparr>g_tracer := True, m_macho_regions := Some no_regions, m_symbols := (if symbolicate then Some [] else None)\<rparr>"
  from assms(4) obtain tr1 q k tr2 tr3 tr4 tr5 where tr1: "tracer_reset m ?tr0 = Inr tr1"
    and q: "k_queue_create m (os tr1) = Some (q, k)"
    and tr2: "setup_proc_dispath_source m (tr1\<lparr>os := k, m_queue := q\<rparr>) = Inr tr2"
    and tr3: "setup_breakpoint_exception_handler m tr2 = Inr tr3"
    and tr4: "(if pipe_ctrl then setup_pipe_dispatch_source m tr3 else Inr tr3) = Inr tr4"
    and tr5: "setup_breakpoint_exception_port_dispath_source m tr4 = Inr tr5"
    and tr': "(if \<not> pipe_ctrl then set_single_step m True tr5 else Inr tr5) = Inr tr'"
    by (auto simp: common_ctor_def res_simps)
  have "tracer_kernel_ok m ?tr0"
    using assms(1) by (simp add: tracer_kernel_ok_def)
  from tracer_reset_acts [OF this tr1] have s1: "set_up m tr tr1"
    by (auto simp: set_up_def acts_as_def ids_def target_info_def)
  then have "k_task m k (m_target_task tr) = k_task m (os tr1) (m_target_task tr)"
    using su q changes_snd [of m "m_target_task tr" "k_queue_create m"] by (simp add: setup_ok_def)
  with s1 have s1': "set_up m tr (tr1\<lparr>os := k, m_queue := q\<rparr>)"
    by (auto simp: set_up_def target_info_def)
  have t: "setup_ok m (m_target_task t)" if "set_up m tr t" for t
    using su that by (simp add: set_up_def)
  have s2: "set_up m tr tr2"
    using set_up_parts(1) [OF t [OF s1'] tr2] s1' by (simp add: set_up_def)
  have h: "set_up m tr2 tr3" "\<forall>i. target_info m tr3 = Some i \<longrightarrow> m_orig_breakpoint_exc tr3 = breakpoint_exc i"
    using set_up_handler [OF t [OF s2] tr3] by blast+
  have s3: "set_up m tr tr3"
    using s2 h(1) by (simp add: set_up_def)
  have s4: "set_up m tr tr4" "ids tr4 = ids tr3"
    using set_up_parts(2) [OF t [OF s3], of tr4] tr4 s3 by (auto simp: set_up_def split: if_splits)
  have s5: "set_up m tr tr5" "ids tr5 = ids tr3"
    using set_up_parts(3) [OF t [OF s4(1)] tr5] s4 by (auto simp: set_up_def)
  have ok5: "tracer_kernel_ok m tr5"
    using assms(1) s5(1) by (simp add: set_up_def tracer_kernel_ok_def)
  have inv5: "exceptions_inv m tr5"
    using ok5 s5 s3 h(2) assms(3) by (simp add: exceptions_inv_def set_up_def ids_def)
  show ?thesis
  proof (cases pipe_ctrl)
    case True
    then show ?thesis
      using inv5 tr' s5 assms(3) by (simp add: set_up_def)
  next
    case False
    then have tr': "set_single_step m True tr5 = Inr tr'"
      using tr' by simp
    have "good_step m 0 tr5 tr'"
      using tracer_step_good [OF tracer_step.single_step [OF tr'] inv5] by simp
    moreover have "map_option suspend_count (target_info m tr') = map_option suspend_count (target_info m tr5)"
      using set_single_step_acts(1) [OF ok5 tr'] by (simp add: acts_as_def option.map_comp comp_def step_target_def step_all_def)
    ultimately show ?thesis
      using False set_single_step_acts(2) [OF ok5 tr'] s5 by (simp add: good_step_def set_up_def ids_def)
  qed
qed

section \<open>What is measured\<close>

definition clock_of :: "'k tracer \<Rightarrow> bool \<times> timespec \<times> real" where
  "clock_of tr = (m_measuring_stats tr, m_start_time tr, m_elapsed_time tr)"

lemma suspend_quiet:
  assumes "suspend m tr = Inr tr'"
    and "\<not> m_single_stepping tr \<or> (\<forall>i. target_info m tr = Some i \<longrightarrow> suspend_count i \<noteq> 1)"
  shows "clock_of tr' = clock_of tr"
  using assms
  by (auto simp: suspend_def res_simps clock_of_def get_suspend_count_def target_info_def Let_def split: if_splits)

lemma resume_quiet:
  assumes "resume m tr = Inr tr'" and "\<not> m_single_stepping tr \<or> m_measuring_stats tr"
  shows "clock_of tr' = clock_of tr"
  using assms by (auto simp: resume_def res_simps clock_of_def start_measuring_stats_def split: if_splits)

text \<open>Switching single-stepping while the target runs does not touch the measurement.\<close>

lemma set_single_step_quiet:
  assumes ok: "tracer_kernel_ok m tr" and "set_single_step m b tr = Inr tr'"
    and "\<not> m_single_stepping tr \<or> m_measuring_stats tr \<and> (\<forall>i. target_info m tr = Some i \<longrightarrow> suspend_count i \<noteq> 1)"
  shows "clock_of tr' = clock_of tr"
proof -
  from assms(2) obtain tr1 tr2 tr3 where tr1: "suspend m tr = Inr tr1" and tr3: "resume m tr2 = Inr tr3"
    and tr': "tr' = tr3\<lparr>m_single_stepping := b\<rparr>"
    and same: "clock_of tr2 = clock_of tr1" "m_single_stepping tr2 = m_single_stepping tr1"
    by (auto simp: set_single_step_def res_simps tracer_reset_def install_breakpoint_exception_handler_def
        uninstall_breakpoint_exception_handler_def clock_of_def split: if_splits)
  have c1: "clock_of tr1 = clock_of tr"
    using suspend_quiet [OF tr1] assms(3) by blast
  then have "clock_of tr3 = clock_of tr2"
    using resume_quiet [OF tr3] assms(3) same suspend_acts(2) [OF ok tr1] by (auto simp: clock_of_def)
  with c1 same tr' show ?thesis
    by (simp add: clock_of_def)
qed

text \<open>
  A request to suspend that finds the target running leaves the measurement on: the count that
  \<^verbatim>\<open>suspend\<close> compares with 1 is the one from before its own suspension.
\<close>

lemma suspend_keeps_measuring:
  assumes "tracer_kernel_ok m tr" and "target_info m tr = Some i" and "suspend_count i = 0"
    and "m_measuring_stats tr" and "suspend m tr = Inr tr'"
  shows "m_measuring_stats tr' \<and> m_start_time tr' = m_start_time tr \<and>
    target_info m tr' = Some (i\<lparr>suspend_count := 1\<rparr>)"
  using suspend_quiet [OF assms(5)] suspend_acts(1) [OF assms(1,5)] assms(2-4)
  by (auto simp: clock_of_def acts_as_def add_suspend_def)

text \<open>A target that runs is measured from the end of the request to start on.\<close>

lemma pipe_start_measures:
  assumes ok: "tracer_kernel_ok m tr" and i: "target_info m tr = Some i" "suspend_count i = 0"
    and "\<not> m_single_stepping tr" and "\<not> m_measuring_stats tr" and "pipe_start m tr = Inr tr'"
  shows "m_single_stepping tr' \<and> m_measuring_stats tr' \<and> m_elapsed_time tr' = m_elapsed_time tr \<and>
    (\<exists>fd k t. k_clock m k = Some t \<and> k_write m fd (of_char (CHR ''c'')) k = Some (os tr') \<and> m_start_time tr' = t)"
proof -
  from assms(6) obtain tr1 cnt tr2 where tr1: "set_single_step m True tr = Inr tr1"
    and cnt: "get_suspend_count m (os tr1) (m_target_task tr1) = Inr cnt"
    and tr2: "(if cnt = 0 \<and> \<not> m_measuring_stats tr1 then start_measuring_stats m tr1 else Inr tr1) = Inr tr2"
    and tr': "pipe_ack m tr2 = Inr tr'"
    by (auto simp: pipe_start_def res_simps)
  have c1: "clock_of tr1 = clock_of tr"
    using set_single_step_quiet [OF ok tr1] assms(4) by simp
  have "target_info m tr1 = Some (step_target (m_breakpoint_exc_port tr) (m_orig_breakpoint_exc tr) True i)"
    using set_single_step_acts(1) [OF ok tr1] i by (simp add: acts_as_def)
  then have "cnt = 0"
    using cnt i(2) by (auto simp: get_suspend_count_def target_info_def res_simps step_target_def step_all_def)
  then have tr2': "start_measuring_stats m tr1 = Inr tr2"
    using tr2 c1 assms(5) by (simp add: clock_of_def)
  then show ?thesis
    using tr' c1 assms(5) set_single_step_acts(2) [OF ok tr1]
    by (auto simp: start_measuring_stats_def pipe_ack_def clock_of_def res_simps split: option.splits if_splits) blast
qed

lemma pipe_stop_measures:
  assumes ok: "tracer_kernel_ok m tr" and i: "target_info m tr = Some i" "suspend_count i = 0"
    and "m_measuring_stats tr" and "pipe_stop m tr = Inr tr'"
  shows "\<not> m_single_stepping tr' \<and> \<not> m_measuring_stats tr' \<and>
    (\<exists>fd k t d. k_clock m k = Some t \<and> k_write m fd (of_char (CHR ''c'')) k = Some (os tr') \<and>
       timespec_diff (k_round m) t (m_start_time tr) = Inr d \<and>
       m_elapsed_time tr' = k_round m (m_elapsed_time tr + d))"
proof -
  from assms(5) obtain tr1 cnt tr2 where tr1: "set_single_step m False tr = Inr tr1"
    and cnt: "get_suspend_count m (os tr1) (m_target_task tr1) = Inr cnt"
    and tr2: "(if cnt = 0 \<and> m_measuring_stats tr1 then stop_measuring_stats m tr1 else Inr tr1) = Inr tr2"
    and tr': "pipe_ack m tr2 = Inr tr'"
    by (auto simp: pipe_stop_def res_simps)
  have c1: "clock_of tr1 = clock_of tr"
    using set_single_step_quiet [OF ok tr1] assms(4) i by simp
  have "target_info m tr1 = Some (step_target (m_breakpoint_exc_port tr) (m_orig_breakpoint_exc tr) False i)"
    using set_single_step_acts(1) [OF ok tr1] i by (simp add: acts_as_def)
  then have "cnt = 0"
    using cnt i(2) by (auto simp: get_suspend_count_def target_info_def res_simps step_target_def step_all_def)
  then have tr2': "stop_measuring_stats m tr1 = Inr tr2"
    using tr2 c1 assms(4) by (simp add: clock_of_def)
  from tr2' c1 assms(4) obtain t d where "k_clock m (os tr1) = Some t" "timespec_diff (k_round m) t (m_start_time tr) = Inr d"
    and "os tr2 = os tr1" "m_elapsed_time tr2 = k_round m (m_elapsed_time tr + d)" "\<not> m_measuring_stats tr2"
      "m_single_stepping tr2 = m_single_stepping tr1"
    by (auto simp: stop_measuring_stats_def clock_of_def res_simps)
  then show ?thesis
    using tr' set_single_step_acts(2) [OF ok tr1]
    by (fastforce simp: pipe_ack_def res_simps split: option.splits)
qed

text \<open>What may happen meanwhile: exceptions, bytes on the pipe and outside changes.\<close>

fun uncontrolled :: "'k event \<Rightarrow> bool" where
  "uncontrolled Pipe_Readable = True"
| "uncontrolled (Breakpoint th st) = True"
| "uncontrolled (Outside k) = True"
| "uncontrolled _ = False"

lemma acts_as_count:
  assumes "acts_as m g tr tr'" and "\<And>i. suspend_count (g i) = suspend_count i" and "tracer_kernel_ok m tr"
  shows "tracer_kernel_ok m tr' \<and>
    (\<forall>j. target_info m tr' = Some j \<longrightarrow> (\<exists>i. target_info m tr = Some i \<and> suspend_count j = suspend_count i))"
  using assms acts_as_ok [OF assms(1)] by (auto simp: acts_as_def)

lemma uncontrolled_step:
  assumes "tracer_step m e tr tr'" and "uncontrolled e" and "tracer_kernel_ok m tr"
  shows "clock_of tr' = clock_of tr \<and> tracer_kernel_ok m tr' \<and>
    (\<forall>j. target_info m tr' = Some j \<longrightarrow> (\<exists>i. target_info m tr = Some i \<and> suspend_count j = suspend_count i))"
  using assms(1)
proof (cases rule: tracer_step.cases)
  case pipe_readable
  have "clock_of tr' = clock_of tr"
    using pipe_readable by (auto simp: pipe_readable_def res_simps clock_of_def split: option.splits if_splits)
  then show ?thesis
    using acts_as_count [OF pipe_readable_acts(1) [OF assms(3)]] pipe_readable assms(3) by simp
next
  case (breakpoint th st st')
  have "clock_of tr' = clock_of tr"
    using breakpoint by (auto simp: exception_raise_state_identity_def res_simps clock_of_def)
  then show ?thesis
    using acts_as_count [OF exception_acts(1) [OF assms(3)]] breakpoint assms(3) by (simp add: set_thread_def)
next
  case (outside k)
  then show ?thesis
    using assms(3)
    by (auto simp: clock_of_def tracer_kernel_ok_def same_control_def target_info_def split: option.splits)
qed (use assms(2) in simp_all)

lemma uncontrolled_runs:
  assumes "runs (tracer_step m) es tr tr'" and "\<forall>e \<in> set es. uncontrolled e" and "tracer_kernel_ok m tr"
  shows "clock_of tr' = clock_of tr \<and> tracer_kernel_ok m tr' \<and>
    (\<forall>j. target_info m tr' = Some j \<longrightarrow> (\<exists>i. target_info m tr = Some i \<and> suspend_count j = suspend_count i))"
  using assms
proof (induction rule: runs.induct)
  case (none s)
  then show ?case by simp
next
  case (more es s t e u)
  then show ?case
    using uncontrolled_step [OF more.hyps(2)] by fastforce
qed

text \<open>C19: A session of the control pipe measures the target once: after the request to start is
  handled the tracer is single-stepping and measuring, and after the request to stop it does
  neither and has added to the elapsed time exactly the interval between the clock before the
  first answer and the clock before the second, whatever exceptions, bytes on the pipe or
  outside changes came in between.\<close>

theorem pipe_session_measures_once:
  assumes "kernel_ok m (m_target_task tr)" and "MACH_PORT_VALID (m_target_task tr)"
    and "target_info m tr = Some i" and "suspend_count i = 0"
    and "\<not> m_single_stepping tr" and "\<not> m_measuring_stats tr"
    and "pipe_start m tr = Inr tr1" and "runs (tracer_step m) es tr1 tr2" and "\<forall>e \<in> set es. uncontrolled e"
    and "target_info m tr2 \<noteq> None" and "pipe_stop m tr2 = Inr tr3"
  shows "m_single_stepping tr1 \<and> m_measuring_stats tr1 \<and> \<not> m_single_stepping tr3 \<and> \<not> m_measuring_stats tr3 \<and>
    (\<exists>fd1 fd2 k1 k2 t1 t2 d.
       k_clock m k1 = Some t1 \<and> k_write m fd1 (of_char (CHR ''c'')) k1 = Some (os tr1) \<and>
       k_clock m k2 = Some t2 \<and> k_write m fd2 (of_char (CHR ''c'')) k2 = Some (os tr3) \<and>
       timespec_diff (k_round m) t2 t1 = Inr d \<and> m_elapsed_time tr3 = k_round m (m_elapsed_time tr + d))"
proof -
  have ok: "tracer_kernel_ok m tr"
    using assms(1,2) by (simp add: tracer_kernel_ok_def)
  note start = pipe_start_measures [OF ok assms(3-7)]
  have a1: "acts_as m (step_target (m_breakpoint_exc_port tr) (m_orig_breakpoint_exc tr) True) tr tr1"
    by (rule pipe_start_acts(1) [OF ok assms(7)])
  then have ok1: "tracer_kernel_ok m tr1"
    using ok acts_as_ok by blast
  note mid = uncontrolled_runs [OF assms(8,9) ok1]
  obtain j where j: "target_info m tr2 = Some j"
    using assms(10) by blast
  have "suspend_count j = 0"
    using mid j a1 assms(3,4) by (auto simp: acts_as_def step_target_def step_all_def)
  with pipe_stop_measures [OF _ j _ _ assms(11)] mid start show ?thesis
    by (auto simp: clock_of_def) blast
qed

section \<open>The end of a trace\<close>

lemma delete_running_fails:
  assumes ok: "tracer_kernel_ok m tr" and i: "target_info m tr = Some i" "suspend_count i = 0"
  shows "snd (delete_tracer m z cores fuel tree after level dir tr) \<noteq> Inr r"
proof
  assume "snd (delete_tracer m z cores fuel tree after level dir tr) = Inr r"
  then obtain tr1 tr2 tr3 where tr1: "set_single_step m False tr = Inr tr1"
    and tr2: "stop_measuring_stats m tr1 = Inr tr2" and tr3: "resume m (tr2\<lparr>g_tracer := False\<rparr>) = Inr tr3"
    using target_gone [OF ok] i by (auto simp: delete_tracer_def res_simps split: if_splits sum.splits prod.splits)
  note a = set_single_step_acts(1) [OF ok tr1]
  let ?tr = "tr2\<lparr>g_tracer := False\<rparr>"
  have b: "acts_as m id tr1 ?tr"
    using measuring_keeps [of m tr1 tr2] tr2 by (simp add: target_id_fun ids_def target_info_def)
  have "tracer_kernel_ok m ?tr"
    using ok acts_as_ok [OF a] acts_as_ok [OF b] by blast
  moreover have "target_info m ?tr = Some (step_target (m_breakpoint_exc_port tr) (m_orig_breakpoint_exc tr) False i)"
    using a b i by (simp add: acts_as_def)
  ultimately have "k_task_resume m (m_target_task ?tr) (os ?tr) = None" and "target_valid m ?tr"
    using resume_needs_suspend [of m "m_target_task ?tr" "os ?tr"] i(2) target_gone [of m ?tr]
    by (auto simp: tracer_kernel_ok_def target_info_def step_target_def step_all_def)
  with tr3 measuring_keeps(1,2) show False
    by (auto simp: resume_def res_simps start_measuring_stats_def split: if_splits)
qed

text \<open>Deleting the tracer while the target runs never completes: after any run of events whose
  suspends and resumes leave the target running, the \<^verbatim>\<open>resume\<close> at the end of the destructor
  finds nothing to resume, and its check ends the process, unless something failed before.\<close>

lemma deletion_needs_suspended_target:
  assumes "kernel_ok m (m_target_task tr)" and "MACH_PORT_VALID (m_target_task tr)"
    and "target_info m tr = Some i" and "\<not> m_single_stepping tr" and "breakpoint_exc i = m_orig_breakpoint_exc tr"
    and "runs (tracer_step m) es tr tr'" and "target_info m tr' \<noteq> None"
    and "suspend_count i + sum_list (map suspends es) = 0"
  shows "\<exists>e. snd (delete_tracer m z cores fuel tree after level dir tr') = Inl e"
proof -
  have inv: "exceptions_inv m tr"
    using assms(1-5) by (simp add: exceptions_inv_def tracer_kernel_ok_def)
  obtain j where j: "target_info m tr' = Some j"
    using assms(7) by blast
  have "suspend_count j = 0"
    using tracer_runs_control [OF assms(6) inv j] assms(3,8) by auto
  moreover have "tracer_kernel_ok m tr'"
    using tracer.runs_inv [OF assms(6) inv] by (simp add: exceptions_inv_def)
  ultimately show ?thesis
    using delete_running_fails [OF _ j, where z = z] by (cases "snd (delete_tracer m z cores fuel tree after level dir tr')") auto
qed

section \<open>A small kernel\<close>

text \<open>One task, whose port is 7, a clock and what was written; its memory is that of \<open>zero_target\<close>.\<close>

type_synonym mini = "ktask \<times> int \<times> byte list"

definition mini_task :: "int \<Rightarrow> ktask" where
  "mini_task cnt = \<lparr>kt_pid = 100, suspend_count = cnt, breakpoint_exc = \<lparr>exc_port = 0, exc_behavior = 0, exc_flavor = 0\<rparr>,
     debug_state = zero_debug_state, threads = [(3, zero_debug_state)]\<rparr>"

definition mini_sys :: "mini sys" where
  "mini_sys =
     \<lparr>k_task = \<lambda>(i, _, _) t. if t = 7 then Some i else None,
      k_task_suspend = \<lambda>_ (i, c, out). Some (add_suspend 1 i, c, out),
      k_task_resume = \<lambda>_ (i, c, out). if 0 < suspend_count i then Some (add_suspend (- 1) i, c, out) else None,
      k_get_exception_ports = \<lambda>(i, _, _) _. Some (1, EXC_MASK_BREAKPOINT, breakpoint_exc i),
      k_set_exception_ports = \<lambda>_ a (i, c, out). Some (i\<lparr>breakpoint_exc := a\<rparr>, c, out),
      k_task_set_state = \<lambda>_ d (i, c, out). Some (i\<lparr>debug_state := d\<rparr>, c, out),
      k_thread_set_state = \<lambda>th d (i, c, out). Some (set_thread th d i, c, out),
      k_vm_deallocate = \<lambda>_ k. Some k, k_port_allocate = \<lambda>k. Some (9, k), k_insert_right = \<lambda>_ k. Some k,
      k_queue_create = \<lambda>k. Some (1, k), k_source_create = \<lambda>_ k. Some (2, k), k_task_for_pid = \<lambda>_ k. Some (7, k),
      k_clock = \<lambda>(_, c, _). Some \<lparr>tv_sec = c, tv_nsec = 0\<rparr>, k_pti_csw = \<lambda>_ _. 0,
      k_target = \<lambda>_ _. zero_target, k_cs_symbols = \<lambda>_ _. [],
      k_read = \<lambda>_ k. Some (of_char (CHR ''y''), k), k_write = \<lambda>_ b (i, c, out). Some (i, c, out @ [b]),
      k_pipe = \<lambda>k. Some (10, 11, k), k_posix = \<lambda>_ k. Some k, k_posix_spawnp = \<lambda>_ _ (_, c, out). Some (100, mini_task 1, c, out),
      k_task_self = 5, k_pid_self = 99, k_round = id, k_hash = reference_lib, k_timer = 10, k_abi = zero_abi,
      k_sha256 = \<lambda>_. replicate 32 0, k_fuel = 3\<rparr>"

definition mini_tracer :: "int \<Rightarrow> mini tracer" where
  "mini_tracer cnt = (new_tracer (mini_task cnt, 50, []) \<lparr>m_num_inst = 0, m_stream = False,
       m_thread_ctxs = \<lparr>m_mph = mph_empty, m_key_vals = []\<rparr>\<rparr> True)
     \<lparr>m_target_task := 7, m_breakpoint_exc_port := 9, m_macho_regions := Some no_regions,
      m_target2tracer_fd := Some 10, m_tracer2target_fd := Some 11\<rparr>"

lemma mini_kernel_ok: "kernel_ok mini_sys 7"
  by (auto simp: kernel_ok_def changes_def mini_sys_def split: if_splits)

lemma mini_collect: "\<exists>mr. regions_collect reference_lib 10 zero_abi (\<lambda>_. replicate 32 0) 3 zero_target no_pages = Inr mr"
  using zero_reset by (auto simp: regions_reset_def res_simps)

text \<open>Starting to step evaluates, up to the regions found.\<close>

lemma mini_reset:
  assumes "os tr = (i, c, out)" and "m_target_task tr = 7" and "m_macho_regions tr = Some no_regions"
    and "m_symbols tr = None" and "0 \<le> suspend_count i"
  shows "\<exists>mr vm. tracer_reset mini_sys tr = Inr (tr\<lparr>m_macho_regions := Some mr, m_vm_regions := vm\<rparr>)"
proof -
  obtain mr where "regions_collect reference_lib 10 zero_abi (\<lambda>_. replicate 32 0) 3 zero_target no_pages = Inr mr"
    using mini_collect by blast
  then show ?thesis
    using assms zero_vm
    by (cases tr) (auto simp: tracer_reset_def reset_macho_regions_def reset_vm_regions_def while_suspended_def mini_sys_def
        no_regions_def no_pages_def check_def assert_some_def add_suspend_def)
qed

definition stepping_task :: "int \<Rightarrow> ktask" where
  "stepping_task cnt = step_target 9 \<lparr>exc_port = 0, exc_behavior = 0, exc_flavor = 0\<rparr> True (mini_task cnt)"

lemma mini_step_on:
  assumes "0 \<le> cnt"
  shows "\<exists>mr vm. set_single_step mini_sys True (mini_tracer cnt) = Inr ((mini_tracer cnt)
    \<lparr>os := (stepping_task cnt, 50, []), m_macho_regions := Some mr, m_vm_regions := vm, m_single_stepping := True\<rparr>)"
proof -
  let ?tr = "(mini_tracer cnt)\<lparr>os := (mini_task (cnt + 1), 50, [])\<rparr>"
  have s: "suspend mini_sys (mini_tracer cnt) = Inr ?tr"
    by (simp add: suspend_def mini_tracer_def new_tracer_def target_valid_def task_is_valid_def MACH_PORT_VALID_def
        get_suspend_count_def check_def mini_sys_def add_suspend_def mini_task_def)
  obtain mr vm where r: "tracer_reset mini_sys ?tr = Inr (?tr\<lparr>m_macho_regions := Some mr, m_vm_regions := vm\<rparr>)"
    using mini_reset [of ?tr "mini_task (cnt + 1)" 50 "[]"] assms
    by (auto simp: mini_tracer_def new_tracer_def mini_task_def)
  show ?thesis
    using assms
    by (auto simp: set_single_step_def s r)
      (simp add: install_breakpoint_exception_handler_def set_single_step_task_def set_single_step_thread_def
        resume_def mini_tracer_def new_tracer_def target_valid_def task_is_valid_def MACH_PORT_VALID_def assert_some_def
        get_suspend_count_def check_def mini_sys_def add_suspend_def mini_task_def set_thread_def
        stepping_task_def step_target_def step_all_def)
qed

lemmas mini_eval =
  mini_tracer_def new_tracer_def target_valid_def task_is_valid_def MACH_PORT_VALID_def assert_some_def check_def
  mini_sys_def add_suspend_def mini_task_def stepping_task_def step_target_def step_all_def get_suspend_count_def
  tracer_pid_def pid_for_task_def target_info_def

lemma mini_start:
  "MACH_PORT_VALID (m_target_task (mini_tracer 0)) \<and> target_info mini_sys (mini_tracer 0) = Some (mini_task 0) \<and>
   m_target_task (mini_tracer 0) = 7 \<and> \<not> m_single_stepping (mini_tracer 0) \<and> \<not> m_measuring_stats (mini_tracer 0) \<and>
   breakpoint_exc (mini_task 0) = m_orig_breakpoint_exc (mini_tracer 0) \<and> suspend_count (mini_task 0) = 0"
  by (simp add: mini_eval)

lemma mini_stepping:
  "\<exists>tr. runs (tracer_step mini_sys) [Single_Step True] (mini_tracer 0) tr \<and> target_info mini_sys tr = Some (stepping_task 0) \<and>
     os tr = (stepping_task 0, 50, []) \<and> m_target_task tr = 7 \<and> m_single_stepping tr \<and> \<not> m_measuring_stats tr"
proof -
  obtain mr vm where "set_single_step mini_sys True (mini_tracer 0) = Inr ((mini_tracer 0)
      \<lparr>os := (stepping_task 0, 50, []), m_macho_regions := Some mr, m_vm_regions := vm, m_single_stepping := True\<rparr>)"
      (is "_ = Inr ?tr")
    using mini_step_on [of 0] by auto
  then have "runs (tracer_step mini_sys) [Single_Step True] (mini_tracer 0) ?tr"
    by (intro runs_front [OF runs.none] tracer_step.single_step)
  then show ?thesis
    by (intro exI [of _ ?tr]) (simp add: target_info_def mini_sys_def mini_tracer_def new_tracer_def)
qed

theorem tracer_keeps_control_witness:
  "\<exists>tr. runs (tracer_step mini_sys) [Single_Step True] (mini_tracer 0) tr \<and>
     breakpoint_exc (stepping_task 0) = tracer_action 9 \<and> suspend_count (stepping_task 0) = 0 + 0"
proof -
  obtain tr where r: "runs (tracer_step mini_sys) [Single_Step True] (mini_tracer 0) tr"
    and t: "target_info mini_sys tr = Some (stepping_task 0)" "m_single_stepping tr"
    using mini_stepping by blast
  have "m_breakpoint_exc_port (mini_tracer 0) = 9"
    by (simp add: mini_tracer_def)
  with tracer_keeps_control [OF _ _ _ _ _ r t(1)] mini_start mini_kernel_ok t(2) r show ?thesis
    by auto
qed

lemma deletion_needs_suspended_target_witness:
  "\<exists>tr e. runs (tracer_step mini_sys) [Single_Step True] (mini_tracer 0) tr \<and>
     snd (delete_tracer mini_sys store_zstd 2 10 (\<lambda>_ _. False) [] 1 [] tr) = Inl e"
proof -
  obtain tr where r: "runs (tracer_step mini_sys) [Single_Step True] (mini_tracer 0) tr"
    and t: "target_info mini_sys tr = Some (stepping_task 0)"
    using mini_stepping by blast
  have "\<exists>e. snd (delete_tracer mini_sys store_zstd 2 10 (\<lambda>_ _. False) [] 1 [] tr) = Inl e"
    by (rule deletion_needs_suspended_target [OF _ _ _ _ _ r]) (use mini_start mini_kernel_ok t in auto)
  with r show ?thesis
    by blast
qed

lemma mini_pipe_start:
  "\<exists>mr vm. pipe_start mini_sys (mini_tracer 0) = Inr ((mini_tracer 0)
     \<lparr>os := (stepping_task 0, 50, [of_char (CHR ''c'')]), m_macho_regions := Some mr, m_vm_regions := vm,
      m_single_stepping := True, m_measuring_stats := True, m_start_time := \<lparr>tv_sec = 50, tv_nsec = 0\<rparr>\<rparr>)"
proof -
  obtain mr vm where "set_single_step mini_sys True (mini_tracer 0) = Inr ((mini_tracer 0)
      \<lparr>os := (stepping_task 0, 50, []), m_macho_regions := Some mr, m_vm_regions := vm, m_single_stepping := True\<rparr>)"
    using mini_step_on [of 0] by auto
  then show ?thesis
    by (auto simp: pipe_start_def start_measuring_stats_def pipe_ack_def mini_eval)
qed

theorem pipe_session_measures_once_witness:
  "\<exists>tr1 tr2 tr3. pipe_start mini_sys (mini_tracer 0) = Inr tr1 \<and>
     runs (tracer_step mini_sys) [Outside (stepping_task 0, 60, [])] tr1 tr2 \<and> pipe_stop mini_sys tr2 = Inr tr3 \<and>
     m_measuring_stats tr1 \<and> \<not> m_measuring_stats tr3 \<and> m_elapsed_time tr3 = 10"
proof -
  obtain mr vm where start: "pipe_start mini_sys (mini_tracer 0) = Inr ((mini_tracer 0)
      \<lparr>os := (stepping_task 0, 50, [of_char (CHR ''c'')]), m_macho_regions := Some mr, m_vm_regions := vm,
       m_single_stepping := True, m_measuring_stats := True, m_start_time := \<lparr>tv_sec = 50, tv_nsec = 0\<rparr>\<rparr>)"
      (is "_ = Inr ?tr1")
    using mini_pipe_start by blast
  let ?tr2 = "?tr1\<lparr>os := (stepping_task 0, 60, [])\<rparr>"
  have "tracer_step mini_sys (Outside (stepping_task 0, 60, [])) ?tr1 ?tr2"
    by (rule tracer_step.outside) (simp add: same_control_def mini_eval)
  then have r: "runs (tracer_step mini_sys) [Outside (stepping_task 0, 60, [])] ?tr1 ?tr2"
    by (intro runs_front [OF runs.none])
  obtain tr3 where stop: "pipe_stop mini_sys ?tr2 = Inr tr3" and e: "m_elapsed_time tr3 = 10"
    by (simp add: pipe_stop_def set_single_step_def suspend_def resume_def set_single_step_task_def
        set_single_step_thread_def set_thread_def uninstall_breakpoint_exception_handler_def start_measuring_stats_def
        stop_measuring_stats_def timespec_diff_def timespec_sub_def i64_def i32_def add_csw_def pipe_ack_def mini_eval)
  have "target_info mini_sys ?tr2 \<noteq> None"
    by (simp add: mini_eval)
  from pipe_session_measures_once [OF _ _ _ _ _ _ start r _ this stop] mini_start mini_kernel_ok start r stop e
  show ?thesis
    by auto
qed

end
