(* ===== verification/Histogram.thy ===== *)
theory Histogram
  imports MphMap CompressedFile
begin

text \<open>
  \<^verbatim>\<open>lib/xnu-trace/ARM64InstrHistogram.cpp\<close>: how often each operation occurs, with a table from
  the upper 22 bits of an instruction to its operation so that it is decoded once.

  The disassembler is the parameter \<open>decode\<close>: the number of an instruction's operation, None
  when it does not decode.
\<close>

definition UINT16_MAX :: u16 where "UINT16_MAX = 0xFFFF"

record histogram =
  m_instr_to_op_lut :: "u16 list"
  m_op_count_lut :: "u64 list"

definition new_histogram :: "bool \<Rightarrow> histogram" where
  "new_histogram add_only =
     \<lparr>m_instr_to_op_lut = (if add_only then [] else replicate (2 ^ 22) UINT16_MAX),
      m_op_count_lut = replicate 65535 0\<rparr>"

definition hist_plus_assign :: "histogram \<Rightarrow> histogram \<Rightarrow> histogram res" where
  "hist_plus_assign h other =
     and_then (map_res (\<lambda>i. and_then (at (m_op_count_lut other) i) (\<lambda>c. Inr (m_op_count_lut h ! i + c)))
       [0..<length (m_op_count_lut h)]) (\<lambda>counts. Inr (h\<lparr>m_op_count_lut := counts\<rparr>))"

text \<open>The sum is an object that can only be added to.\<close>

definition hist_plus :: "histogram \<Rightarrow> histogram \<Rightarrow> histogram res" where
  "hist_plus h other =
     (let res = new_histogram True in
      and_then (map_res (\<lambda>i.
          and_then (at (m_op_count_lut res) i) (\<lambda>_.
          and_then (at (m_op_count_lut other) i) (\<lambda>c. Inr (m_op_count_lut h ! i + c))))
        [0..<length (m_op_count_lut h)]) (\<lambda>counts.
      Inr (res\<lparr>m_op_count_lut := counts @ drop (length counts) (m_op_count_lut res)\<rparr>)))"

definition hist_add :: "(u32 \<Rightarrow> u32 option) \<Rightarrow> u32 \<Rightarrow> histogram \<Rightarrow> histogram res" where
  "hist_add decode instr h =
     (let k = unat (drop_bit 10 instr) in
      and_then (at (m_instr_to_op_lut h) k) (\<lambda>op.
      and_then
        (if op = UINT16_MAX then
           and_then (assert_some (decode instr)) (\<lambda>operation.
           Inr (ucast operation, (m_instr_to_op_lut h)[k := ucast operation]))
         else Inr (op, m_instr_to_op_lut h)) (\<lambda>(op :: u16, lut).
      and_then (at (m_op_count_lut h) (unat op)) (\<lambda>c.
      Inr \<lparr>m_instr_to_op_lut = lut, m_op_count_lut = (m_op_count_lut h)[unat op := c + 1]\<rparr>))))"

text \<open>
  The rows \<^verbatim>\<open>print\<close> puts out, with the largest count.  Operations that occur equally often are
  left in the order of their numbers.
\<close>

definition op_counts :: "histogram \<Rightarrow> (u16 \<times> u64) list" where
  "op_counts h =
     map (\<lambda>(i, c). (of_nat i, c)) (filter (\<lambda>(i, c). c \<noteq> 0) (enumerate 0 (m_op_count_lut h)))"

definition resize_rows :: "nat \<Rightarrow> (u16 \<times> u64) list \<Rightarrow> (u16 \<times> u64) list" where
  "resize_rows n rows = take n rows @ replicate (n - length rows) (0, 0)"

definition print_rows :: "int \<Rightarrow> histogram \<Rightarrow> ((u16 \<times> u64) list \<times> u64) res" where
  "print_rows max_num h =
     (let ops = op_counts h;
          max_num = (if max_num < 0 then length ops else nat max_num);
          sorted = resize_rows max_num (rev (sort_key snd (rev ops)))
      in and_then (at sorted 0) (\<lambda>(_, max_count). Inr (sorted, max_count)))"

section \<open>What is counted\<close>

text \<open>The operation an instruction is counted as: that of the first one with the same upper bits.\<close>

definition counted_as :: "(u32 \<Rightarrow> u32 option) \<Rightarrow> u32 list \<Rightarrow> u32 \<Rightarrow> u16" where
  "counted_as decode instrs instr =
     (case find (\<lambda>j. drop_bit 10 j = drop_bit 10 instr) instrs of
        None \<Rightarrow> UINT16_MAX
      | Some j \<Rightarrow> (case decode j of None \<Rightarrow> UINT16_MAX | Some op \<Rightarrow> ucast op))"

definition decodable :: "(u32 \<Rightarrow> u32 option) \<Rightarrow> u32 \<Rightarrow> bool" where
  "decodable decode instr \<longleftrightarrow> (\<exists>op. decode instr = Some op \<and> (ucast op :: u16) \<noteq> UINT16_MAX)"

definition hist_after :: "(u32 \<Rightarrow> u32 option) \<Rightarrow> u32 list \<Rightarrow> histogram \<Rightarrow> bool" where
  "hist_after decode instrs h \<longleftrightarrow>
     length (m_instr_to_op_lut h) = 2 ^ 22 \<and> length (m_op_count_lut h) = 65535 \<and>
     (\<forall>i. m_instr_to_op_lut h ! unat (drop_bit 10 i) = counted_as decode instrs i) \<and>
     (\<forall>op < 65535. m_op_count_lut h ! op =
        of_nat (length (filter (\<lambda>i. unat (counted_as decode instrs i) = op) instrs)))"

lemma upper_bits_bound: "unat (drop_bit 10 (i :: u32)) < 2 ^ 22"
proof -
  have "unat i < 2 ^ 32"
    using unsigned_less [of i, where 'a = nat] by simp
  then show ?thesis
    by (simp only: unat_drop_bit_eq, simp only: drop_bit_eq_div) (simp add: less_mult_imp_div_less)
qed

lemma hist_after_new: "hist_after decode [] (new_histogram False)"
  using upper_bits_bound by (simp add: hist_after_def new_histogram_def counted_as_def)

lemma counted_as_bits:
  "drop_bit 10 i = drop_bit 10 j \<Longrightarrow> counted_as decode instrs i = counted_as decode instrs j"
  by (simp add: counted_as_def)

lemma counted_as_append:
  "counted_as decode (instrs @ [x]) i =
     (if \<exists>j \<in> set instrs. drop_bit 10 j = drop_bit 10 i then counted_as decode instrs i
      else if drop_bit 10 x = drop_bit 10 i then (case decode x of None \<Rightarrow> UINT16_MAX | Some op \<Rightarrow> ucast op)
      else UINT16_MAX)"
  by (induction instrs) (auto simp: counted_as_def)

text \<open>An operation is known for the bits of an instruction exactly when one with them was counted.\<close>

lemma counted_as_known:
  assumes "\<forall>i \<in> set instrs. decodable decode i"
  shows "counted_as decode instrs i = UINT16_MAX \<longleftrightarrow> \<not> (\<exists>j \<in> set instrs. drop_bit 10 j = drop_bit 10 i)"
proof (cases "find (\<lambda>j. drop_bit 10 j = drop_bit 10 i) instrs")
  case None
  then have "\<not> (\<exists>j \<in> set instrs. drop_bit 10 j = drop_bit 10 i)"
    by (simp add: find_None_iff)
  with None show ?thesis by (simp add: counted_as_def)
next
  case (Some j)
  then have "j \<in> set instrs" "drop_bit 10 j = drop_bit 10 i"
    by (auto simp: find_Some_iff)
  with Some assms show ?thesis
    by (auto simp: counted_as_def decodable_def)
qed

text \<open>An instruction that is counted changes nothing about those before it.\<close>

lemma counted_as_kept:
  assumes "i \<in> set instrs"
  shows "counted_as decode (instrs @ [x]) i = counted_as decode instrs i"
  using assms by (auto simp: counted_as_append)

lemma counted_as_new:
  assumes "\<forall>i \<in> set instrs. decodable decode i" and "decode x = Some op"
  shows "counted_as decode (instrs @ [x]) x =
    (if counted_as decode instrs x = UINT16_MAX then ucast op else counted_as decode instrs x)"
  using assms(2) counted_as_known [OF assms(1), of x] by (auto simp: counted_as_append)

lemma hist_add_step:
  assumes "hist_after decode instrs h" and "\<forall>i \<in> set instrs. decodable decode i" and "decodable decode x"
  shows "\<exists>h'. hist_add decode x h = Inr h' \<and> hist_after decode (instrs @ [x]) h'"
proof -
  let ?k = "unat (drop_bit 10 x)" and ?c = "counted_as decode (instrs @ [x]) x"
  obtain op where op: "decode x = Some op" "(ucast op :: u16) \<noteq> UINT16_MAX"
    using assms(3) by (auto simp: decodable_def)
  have lut: "m_instr_to_op_lut h ! ?k = counted_as decode instrs x" "?k < length (m_instr_to_op_lut h)"
    using assms(1) upper_bits_bound [of x] by (simp_all add: hist_after_def)
  have c: "?c = (if counted_as decode instrs x = UINT16_MAX then ucast op else counted_as decode instrs x)"
    using counted_as_new [OF assms(2) op(1)] .
  then have "?c \<noteq> UINT16_MAX"
    using op(2) by auto
  then have bound: "unat ?c < 65535"
    using unsigned_less [of ?c, where 'a = nat] by (auto simp: UINT16_MAX_def word_unat_eq_iff)
  let ?h = "\<lparr>m_instr_to_op_lut = (m_instr_to_op_lut h)[?k := ?c],
      m_op_count_lut = (m_op_count_lut h)[unat ?c := m_op_count_lut h ! unat ?c + 1]\<rparr>"
  have counts: "unat ?c < length (m_op_count_lut h)"
    using bound assms(1) by (simp add: hist_after_def)
  have "hist_add decode x h = Inr ?h"
  proof (cases "counted_as decode instrs x = UINT16_MAX")
    case True
    then show ?thesis
      using lut op c counts by (simp add: hist_add_def at_def assert_some_def Let_def)
  next
    case False
    have same: "(m_instr_to_op_lut h)[?k := counted_as decode instrs x] = m_instr_to_op_lut h"
      using lut(1) list_update_id [of "m_instr_to_op_lut h" ?k] by simp
    show ?thesis
      using False lut c counts by (simp add: hist_add_def at_def Let_def same)
  qed
  moreover have "hist_after decode (instrs @ [x]) ?h"
    unfolding hist_after_def
  proof (intro conjI allI impI)
    fix i :: u32
    show "m_instr_to_op_lut ?h ! unat (drop_bit 10 i) = counted_as decode (instrs @ [x]) i"
    proof (cases "drop_bit 10 i = drop_bit 10 x")
      case True
      then show ?thesis
        using lut(2) counted_as_bits [OF True, of decode "instrs @ [x]"] by simp
    next
      case False
      then have "unat (drop_bit 10 i) \<noteq> ?k"
        by (simp add: word_unat_eq_iff)
      moreover have "counted_as decode (instrs @ [x]) i = counted_as decode instrs i"
        using False counted_as_known [OF assms(2), of i] by (auto simp: counted_as_append)
      ultimately show ?thesis
        using assms(1) by (simp add: hist_after_def)
    qed
  next
    fix op :: nat
    assume o: "op < 65535"
    show "m_op_count_lut ?h ! op =
        of_nat (length (filter (\<lambda>i. unat (counted_as decode (instrs @ [x]) i) = op) (instrs @ [x])))"
    proof -
      have "filter (\<lambda>i. unat (counted_as decode (instrs @ [x]) i) = op) instrs =
          filter (\<lambda>i. unat (counted_as decode instrs i) = op) instrs"
        by (rule filter_cong) (simp_all add: counted_as_kept)
      then show ?thesis
        using assms(1) counts o by (auto simp: hist_after_def nth_list_update)
    qed
  qed (use assms(1) in \<open>simp_all add: hist_after_def\<close>)
  ultimately show ?thesis by blast
qed

lemma hist_fold:
  assumes "\<forall>i \<in> set instrs. decodable decode i"
  shows "\<exists>h. fold_res (hist_add decode) instrs (new_histogram False) = Inr h \<and> hist_after decode instrs h"
  using assms
proof (induction instrs rule: rev_induct)
  case Nil
  then show ?case
    using hist_after_new by simp
next
  case (snoc x instrs)
  then obtain h where "fold_res (hist_add decode) instrs (new_histogram False) = Inr h" "hist_after decode instrs h"
    by auto
  with hist_add_step [of decode instrs h x] snoc.prems show ?case
    by (auto simp: fold_res_append)
qed

text \<open>The true number of occurrences of an operation.\<close>

definition op_count :: "(u32 \<Rightarrow> u32 option) \<Rightarrow> u32 list \<Rightarrow> nat \<Rightarrow> u64" where
  "op_count decode instrs op =
     of_nat (length (filter (\<lambda>i. map_option (\<lambda>o'. unat (ucast o' :: u16)) (decode i) = Some op) instrs))"

text \<open>Among the given instructions, those with the same upper 22 bits are of the same operation.\<close>

definition upper_bits_decide :: "(u32 \<Rightarrow> u32 option) \<Rightarrow> u32 list \<Rightarrow> bool" where
  "upper_bits_decide decode instrs \<longleftrightarrow>
     (\<forall>i \<in> set instrs. \<forall>j \<in> set instrs. drop_bit 10 i = drop_bit 10 j \<longrightarrow> decode i = decode j)"

lemma upper_bits_subset: "upper_bits_decide decode instrs \<Longrightarrow> set is \<subseteq> set instrs \<Longrightarrow> upper_bits_decide decode is"
  by (auto simp: upper_bits_decide_def)

lemma counted_as_true:
  assumes "upper_bits_decide decode instrs" and "\<forall>i \<in> set instrs. decodable decode i" and "i \<in> set instrs"
  shows "(unat (counted_as decode instrs i) = op) = (map_option (\<lambda>o'. unat (ucast o' :: u16)) (decode i) = Some op)"
proof -
  have "find (\<lambda>j. drop_bit 10 j = drop_bit 10 i) instrs \<noteq> None"
    using assms(3) unfolding find_None_iff by blast
  then obtain j where j: "find (\<lambda>j. drop_bit 10 j = drop_bit 10 i) instrs = Some j"
    by blast
  then have "drop_bit 10 j = drop_bit 10 i" "j \<in> set instrs"
    unfolding find_Some_iff by auto
  then have "decode j = decode i"
    using assms(1,3) unfolding upper_bits_decide_def by blast
  moreover obtain o' where "decode i = Some o'"
    using assms(2,3) by (auto simp: decodable_def)
  ultimately show ?thesis
    using j by (simp add: counted_as_def)
qed

lemma hist_after_op_count:
  assumes "hist_after decode instrs h" and "upper_bits_decide decode instrs" and "\<forall>i \<in> set instrs. decodable decode i" and "op < 65535"
  shows "m_op_count_lut h ! op = op_count decode instrs op"
proof -
  have "filter (\<lambda>i. unat (counted_as decode instrs i) = op) instrs =
      filter (\<lambda>i. map_option (\<lambda>o'. unat (ucast o' :: u16)) (decode i) = Some op) instrs"
    by (rule filter_cong) (simp_all add: counted_as_true [OF assms(2,3)])
  then show ?thesis
    using assms(1,4) by (simp add: hist_after_def op_count_def)
qed

text \<open>
  A histogram of any instructions that decode counts each of them under the operation of the
  first instruction with its upper 22 bits; these are the true counts when no two of them with
  the same upper 22 bits are of different operations.
\<close>

lemma histogram_counts:
  assumes "\<forall>i \<in> set instrs. decodable decode i"
  shows "\<exists>h. fold_res (hist_add decode) instrs (new_histogram False) = Inr h \<and>
    (\<forall>op < 65535. m_op_count_lut h ! op =
       of_nat (length (filter (\<lambda>i. unat (counted_as decode instrs i) = op) instrs))) \<and>
    (upper_bits_decide decode instrs \<longrightarrow> (\<forall>op < 65535. m_op_count_lut h ! op = op_count decode instrs op))"
proof -
  obtain h where "fold_res (hist_add decode) instrs (new_histogram False) = Inr h" "hist_after decode instrs h"
    using hist_fold [OF assms] by blast
  then show ?thesis
    using hist_after_op_count [OF _ _ assms] by (auto simp: hist_after_def)
qed

text \<open>The hints \<^verbatim>\<open>nop\<close> (operation 1 below) and \<^verbatim>\<open>yield\<close> (2) agree in their upper 22 bits.\<close>

definition sample_decode :: "u32 \<Rightarrow> u32 option" where
  "sample_decode i = (if i = 0xD503201F then Some 1 else if i = 0xD503203F then Some 2 else Some 3)"

lemma hints_counted_together:
  "\<exists>h. fold_res (hist_add sample_decode) [0xD503201F, 0xD503203F, 0xD503203F, 0x8B000000] (new_histogram False) = Inr h \<and>
     m_op_count_lut h ! 1 = 3 \<and> m_op_count_lut h ! 2 = 0 \<and> m_op_count_lut h ! 3 = 1"
proof -
  have "\<forall>i \<in> set [0xD503201F, 0xD503203F, 0xD503203F, 0x8B000000 :: u32]. decodable sample_decode i"
    by (simp add: decodable_def sample_decode_def UINT16_MAX_def)
  from histogram_counts [OF this] obtain h where
    h: "fold_res (hist_add sample_decode) [0xD503201F, 0xD503203F, 0xD503203F, 0x8B000000] (new_histogram False) = Inr h"
    "\<forall>op < 65535. m_op_count_lut h ! op = of_nat (length (filter (\<lambda>i. unat (counted_as sample_decode
        [0xD503201F, 0xD503203F, 0xD503203F, 0x8B000000] i) = op) [0xD503201F, 0xD503203F, 0xD503203F, 0x8B000000]))"
    by blast
  have "counted_as sample_decode [0xD503201F, 0xD503203F, 0xD503203F, 0x8B000000] 0xD503201F = 1"
    "counted_as sample_decode [0xD503201F, 0xD503203F, 0xD503203F, 0x8B000000] 0xD503203F = 1"
    "counted_as sample_decode [0xD503201F, 0xD503203F, 0xD503203F, 0x8B000000] 0x8B000000 = 3"
    by (simp_all add: counted_as_def sample_decode_def)
  with h show ?thesis
    by (intro exI [of _ h]) simp
qed

section \<open>Adding and printing\<close>

lemma sum_cannot_count:
  "hist_add decode i (new_histogram True) = Inl Out_Of_Bounds"
  by (simp add: hist_add_def new_histogram_def at_def Let_def)

lemma hist_plus_assign_counts:
  assumes "length (m_op_count_lut h) = 65535" and "length (m_op_count_lut h') = 65535"
  shows "\<exists>s. hist_plus_assign h h' = Inr s \<and> m_instr_to_op_lut s = m_instr_to_op_lut h \<and>
    length (m_op_count_lut s) = 65535 \<and>
    (\<forall>op < 65535. m_op_count_lut s ! op = m_op_count_lut h ! op + m_op_count_lut h' ! op)"
proof -
  have "map_res (\<lambda>i. and_then (at (m_op_count_lut h') i) (\<lambda>c. Inr (m_op_count_lut h ! i + c))) [0..<65535] =
      Inr (map (\<lambda>i. m_op_count_lut h ! i + m_op_count_lut h' ! i) [0..<65535])"
    by (rule map_res_total) (simp add: at_def assms)
  then show ?thesis
    by (simp add: hist_plus_assign_def assms(1))
qed

text \<open>Fewer kinds of operations than rows asked for: the rest are rows of operation 0, never seen.\<close>

lemma print_pads:
  assumes "0 \<le> n" and "print_rows n h = Inr (rows, m)" and "length (op_counts h) < nat n"
  shows "(0, 0) \<in> set rows"
  using assms by (auto simp: print_rows_def resize_rows_def Let_def res_simps split: prod.splits)

lemma print_nothing:
  assumes "op_counts h = []"
  shows "print_rows (- 1) h = Inl Out_Of_Bounds"
  using assms by (simp add: print_rows_def resize_rows_def at_def Let_def)

end
