(* ===== verification/Analysis.thy ===== *)
theory Analysis
  imports TraceFiles Histogram
begin

text \<open>
  What the tools make of a log that was read back,
  \<^verbatim>\<open>tools/xnu-trace-log-util/xnu-trace-log-util.cpp\<close>: coverage files for drcov and Lighthouse,
  the calls that leave an image, and the histogram of executed operations.

  The division of a thread's instructions over the thread pool is a parameter: the list of
  the blocks' first and past-the-end indices.
\<close>

section \<open>Formatting\<close>

definition hex_digits :: "u64 \<Rightarrow> buffer" where
  "hex_digits w = map (\<lambda>k. hex_digit (ucast (drop_bit (4 * k) w AND 0xF))) (rev [0..<16])"

text \<open>\<^verbatim>\<open>{:#018x}\<close> and \<^verbatim>\<open>{:x}\<close>.\<close>

definition hex18 :: "u64 \<Rightarrow> buffer" where
  "hex18 w = ascii ''0x'' @ hex_digits w"

definition hex_plain :: "u64 \<Rightarrow> buffer" where
  "hex_plain w = (case dropWhile (\<lambda>d. d = 0x30) (hex_digits w) of [] \<Rightarrow> [0x30] | ds \<Rightarrow> ds)"

definition newline :: buffer where "newline = [0x0A]"

section \<open>Basic blocks of every thread\<close>

definition thread_bbs :: "parsed_log \<Rightarrow> bb_t list list res" where
  "thread_bbs trace =
     map_res (\<lambda>(tid, b). and_then (extract_pcs_from_trace b) extract_bbs_from_pc_trace) (pl_logs trace)"

section \<open>drcov\<close>

record drcov_bb_t =
  mod_off :: u32
  dbb_sz :: u16
  mod_id :: u16

definition drcov_bytes :: "drcov_bb_t \<Rightarrow> buffer" where
  "drcov_bytes d = le_bytes 4 (mod_off d) @ le_bytes 2 (dbb_sz d) @ le_bytes 2 (mod_id d)"

definition drcov_entry :: "macho_regions \<Rightarrow> bb_t \<Rightarrow> drcov_bb_t res" where
  "drcov_entry mr bb =
     and_then (lookup_idx mr (bb_pc bb)) (\<lambda>(img_info, idx).
     Inr \<lparr>mod_off = ucast (bb_pc bb - img_base img_info), dbb_sz = ucast (bb_sz bb), mod_id = of_nat idx\<rparr>)"

definition drcov_header :: "nat \<Rightarrow> buffer" where
  "drcov_header n =
     ascii ''DRCOV VERSION: 2'' @ newline @ ascii ''DRCOV FLAVOR: xnutrace'' @ newline @
     ascii ''Module Table: version 2, count '' @ decimal n @ newline @
     ascii ''Columns: id, base, end, entry, checksum, timestamp, path'' @ newline"

definition drcov_module :: "nat \<times> image_info \<Rightarrow> buffer" where
  "drcov_module ir =
     (case ir of (i, bin) \<Rightarrow>
        replicate (3 - length (decimal i)) 0x20 @ decimal i @ ascii '', '' @ hex18 (img_base bin) @ ascii '', '' @
        hex18 (img_base bin + img_size bin) @ ascii '', 0, 0, 0, '' @ img_path bin @ newline)"

definition write_drcov_coverage :: "parsed_log \<Rightarrow> buffer res" where
  "write_drcov_coverage trace =
     (let regions = mr_regions (pl_regions trace) in
      and_then (thread_bbs trace) (\<lambda>tbbs.
      and_then (map_res (drcov_entry (pl_regions trace)) (concat tbbs)) (\<lambda>entries.
      Inr (drcov_header (length regions) @ concat (map drcov_module (enumerate 0 regions)) @
           ascii ''BB Table: '' @ decimal (length (concat tbbs)) @ ascii '' bbs'' @ newline @
           concat (map drcov_bytes entries)))))"

section \<open>Lighthouse\<close>

definition lighthouse_line :: "parsed_log \<Rightarrow> bool \<Rightarrow> bb_t \<Rightarrow> buffer res" where
  "lighthouse_line trace symbolicate bb =
     and_then (lookup_region (pl_regions trace) (bb_pc bb)) (\<lambda>img_info.
     let mod_line = filename (img_path img_info) @ ascii ''+'' @ hex_plain (bb_pc bb - img_base img_info)
     in Inr (case (if symbolicate then lookup_symbol (pl_symbols trace) (bb_pc bb) else None) of
          None \<Rightarrow> mod_line @ newline
        | Some sm \<Rightarrow> mod_line @ ascii '' '' @ sym_name sm @ ascii ''+'' @ hex_plain (bb_pc bb - sym_base sm) @ newline))"

definition write_lighthouse_coverage :: "parsed_log \<Rightarrow> bool \<Rightarrow> buffer res" where
  "write_lighthouse_coverage trace symbolicate =
     and_then (thread_bbs trace) (\<lambda>tbbs.
     and_then (map_res (lighthouse_line trace symbolicate) (concat tbbs)) (\<lambda>lines. Inr (concat lines)))"

section \<open>Calls that leave an image\<close>

text \<open>
  The map from the called symbols, ordered and told apart by their base, to the set of calling
  addresses, in order.
\<close>

primrec add_caller :: "sym_info \<Rightarrow> u64 \<Rightarrow> (sym_info \<times> u64 list) list \<Rightarrow> (sym_info \<times> u64 list) list" where
  "add_caller s pc [] = [(s, [pc])]"
| "add_caller s pc (c # cs) =
     (if sym_base s = sym_base (fst c) then (fst c, insort_insert pc (snd c)) # cs
      else if sym_base s < sym_base (fst c) then (s, [pc]) # c # cs
      else c # add_caller s pc cs)"

text \<open>\<open>last\<close> is the image, with its index for its address, and the block before this one.\<close>

type_synonym call_state = "(image_info \<times> nat \<times> bb_t) option \<times> (sym_info \<times> u64 list) list"

definition calls_step :: "parsed_log \<Rightarrow> nat \<Rightarrow> bb_t \<Rightarrow> call_state \<Rightarrow> call_state res" where
  "calls_step trace target bb st =
     (case st of (before, called) \<Rightarrow>
      and_then (lookup_idx (pl_regions trace) (bb_pc bb)) (\<lambda>(img_info, idx).
      Inr (Some (img_info, idx, bb),
           case (before, lookup_symbol (pl_symbols trace) (bb_pc bb)) of
             (Some (last_img, last_idx, last_bb), Some sm) \<Rightarrow>
               if last_idx = target \<and> sym_base sm = bb_pc bb
               then add_caller sm (bb_pc last_bb + ucast (bb_sz last_bb) - 4 - img_slide last_img) called
               else called
           | _ \<Rightarrow> called)))"

definition lookup_name_idx :: "macho_regions \<Rightarrow> buffer \<Rightarrow> nat res" where
  "lookup_name_idx mr image_name =
     (let matches = filter (\<lambda>(i, r). filename (img_path r) = image_name) (enumerate 0 (mr_regions mr))
      in and_then (assert_that (length matches = 1)) (\<lambda>_. Inr (fst (hd matches))))"

definition calls_from :: "parsed_log \<Rightarrow> buffer \<Rightarrow> (sym_info \<times> u64 list) list res" where
  "calls_from trace calling_image =
     and_then (thread_bbs trace) (\<lambda>tbbs.
     and_then (lookup_name_idx (pl_regions trace) calling_image) (\<lambda>target.
     and_then (fold_res (fold_res (calls_step trace target)) tbbs (None, [])) (\<lambda>(_, called). Inr called)))"

definition calls_line :: "buffer \<Rightarrow> sym_info \<times> u64 list \<Rightarrow> buffer" where
  "calls_line calling_image c =
     (case c of (sm, caller_pcs) \<Rightarrow>
        calling_image @ ascii '' calls '' @ [0x27] @ (if sym_name sm = not_available then hex18 (sym_base sm) else sym_name sm) @
        [0x27] @ ascii '' in '' @ filename (sym_path sm) @ ascii '' from: '' @
        concat (map (\<lambda>pc. hex18 pc @ ascii '', '') (butlast caller_pcs)) @ hex18 (last caller_pcs) @ newline)"

section \<open>The histogram of a log\<close>

definition block_histogram ::
    "(u32 \<Rightarrow> u32 option) \<Rightarrow> hash_lib \<Rightarrow> macho_regions \<Rightarrow> u64 list \<Rightarrow> nat \<times> nat \<Rightarrow> histogram res" where
  "block_histogram decode e mr pcs ab =
     fold_res (\<lambda>i h. and_then (at pcs i) (\<lambda>pc. and_then (lookup_inst e mr pc) (\<lambda>inst. hist_add decode inst h)))
       [fst ab..<snd ab] (new_histogram False)"

definition dump_histogram ::
    "(u32 \<Rightarrow> u32 option) \<Rightarrow> hash_lib \<Rightarrow> (nat \<Rightarrow> (nat \<times> nat) list) \<Rightarrow> parsed_log \<Rightarrow> histogram res" where
  "dump_histogram decode e blocks trace =
     fold_res (\<lambda>(tid, b) hist.
       and_then (extract_pcs_from_trace b) (\<lambda>pcs.
       and_then (map_res (block_histogram decode e (pl_regions trace) pcs) (blocks (length pcs))) (\<lambda>block_hists.
       fold_res (\<lambda>h hist. hist_plus_assign hist h) block_hists hist))) (pl_logs trace) (new_histogram True)"

section \<open>Any division into blocks gives the same histogram\<close>

definition counts_of :: "(u32 \<Rightarrow> u32 option) \<Rightarrow> u32 list \<Rightarrow> histogram \<Rightarrow> bool" where
  "counts_of decode instrs h \<longleftrightarrow>
     length (m_op_count_lut h) = 65535 \<and> (\<forall>op < 65535. m_op_count_lut h ! op = op_count decode instrs op)"

lemma counts_of_sum:
  assumes "counts_of decode xs h" and "counts_of decode ys h'"
  shows "\<exists>s. hist_plus_assign h h' = Inr s \<and> counts_of decode (xs @ ys) s"
  using hist_plus_assign_counts [of h h'] assms by (auto simp: counts_of_def op_count_def)

lemma counts_of_sums:
  assumes "list_all2 (counts_of decode) xss hs" and "counts_of decode xs h"
  shows "\<exists>s. fold_res (\<lambda>h hist. hist_plus_assign hist h) hs h = Inr s \<and> counts_of decode (xs @ concat xss) s"
  using assms
proof (induction xss hs arbitrary: xs h rule: list_all2_induct)
  case Nil
  then show ?case by simp
next
  case (Cons ys yss h' hs)
  obtain s where "hist_plus_assign h h' = Inr s" "counts_of decode (xs @ ys) s"
    using counts_of_sum [OF Cons.prems Cons.hyps(1)] by blast
  with Cons.IH [of "xs @ ys" s] show ?case by simp
qed

text \<open>The instructions at the program counters of a thread, and those of one block.\<close>

lemma block_histogram_counts:
  assumes "\<forall>pc \<in> set pcs. lookup_inst e mr pc = Inr (inst pc) \<and> decodable decode (inst pc)"
    and "upper_bits_decide decode (map inst pcs)" and "snd ab \<le> length pcs"
  shows "\<exists>h. block_histogram decode e mr pcs ab = Inr h \<and>
    counts_of decode (map (\<lambda>i. inst (pcs ! i)) [fst ab..<snd ab]) h"
proof -
  let ?is = "[fst ab..<snd ab]"
  have f: "fold_res (\<lambda>i h. and_then (at pcs i) (\<lambda>pc. and_then (lookup_inst e mr pc) (\<lambda>inst. hist_add decode inst h))) js h =
      fold_res (hist_add decode) (map (\<lambda>i. inst (pcs ! i)) js) h" if "\<forall>i \<in> set js. i < length pcs" for js h
    using that
  proof (induction js arbitrary: h)
    case (Cons j js)
    then have "lookup_inst e mr (pcs ! j) = Inr (inst (pcs ! j))"
      using assms(1) by simp
    with Cons show ?case
      by (cases "hist_add decode (inst (pcs ! j)) h") (simp_all add: at_def)
  qed simp
  have d: "\<forall>i \<in> set (map (\<lambda>i. inst (pcs ! i)) ?is). decodable decode i"
    using assms(1,3) by auto
  have u: "upper_bits_decide decode (map (\<lambda>i. inst (pcs ! i)) ?is)"
    by (rule upper_bits_subset [OF assms(2)]) (use assms(3) in auto)
  obtain h where "fold_res (hist_add decode) (map (\<lambda>i. inst (pcs ! i)) ?is) (new_histogram False) = Inr h"
    "hist_after decode (map (\<lambda>i. inst (pcs ! i)) ?is) h"
    using hist_fold [OF d] by blast
  with f [of ?is] hist_after_op_count [OF _ u d] assms(3) show ?thesis
    by (auto simp: block_histogram_def counts_of_def hist_after_def)
qed

lemma blocks_histograms:
  assumes "\<forall>pc \<in> set pcs. lookup_inst e mr pc = Inr (inst pc) \<and> decodable decode (inst pc)"
    and "upper_bits_decide decode (map inst pcs)" and "\<forall>ab \<in> set blks. fst ab < snd ab \<longrightarrow> snd ab \<le> length pcs"
  shows "\<exists>hs. map_res (block_histogram decode e mr pcs) blks = Inr hs \<and>
    list_all2 (counts_of decode) (map (\<lambda>ab. map (\<lambda>i. inst (pcs ! i)) [fst ab..<snd ab]) blks) hs"
  using assms(3)
proof (induction blks)
  case Nil
  then show ?case by simp
next
  case (Cons ab blks)
  have "\<exists>h. block_histogram decode e mr pcs ab = Inr h \<and>
      counts_of decode (map (\<lambda>i. inst (pcs ! i)) [fst ab..<snd ab]) h"
  proof (cases "fst ab < snd ab")
    case True
    then show ?thesis
      using block_histogram_counts [OF assms(1,2)] Cons.prems by simp
  next
    case False
    then show ?thesis
      by (simp add: block_histogram_def counts_of_def op_count_def new_histogram_def)
  qed
  with Cons show ?case by auto
qed

definition covers_range :: "(nat \<times> nat) list \<Rightarrow> nat \<Rightarrow> bool" where
  "covers_range blks n \<longleftrightarrow> concat (map (\<lambda>ab. [fst ab..<snd ab]) blks) = [0..<n]"

lemma thread_histogram:
  assumes "\<forall>pc \<in> set pcs. lookup_inst e mr pc = Inr (inst pc) \<and> decodable decode (inst pc)"
    and "upper_bits_decide decode (map inst pcs)" and "covers_range blks (length pcs)" and "counts_of decode xs h"
  shows "\<exists>s. and_then (map_res (block_histogram decode e mr pcs) blks) (\<lambda>block_hists.
      fold_res (\<lambda>h hist. hist_plus_assign hist h) block_hists h) = Inr s \<and> counts_of decode (xs @ map inst pcs) s"
proof -
  have "snd ab \<le> length pcs" if "ab \<in> set blks" "fst ab < snd ab" for ab
  proof -
    have eq: "concat (map (\<lambda>ab. [fst ab..<snd ab]) blks) = [0..<length pcs]"
      using assms(3) by (simp add: covers_range_def)
    have "snd ab - 1 \<in> set [0..<length pcs]"
      unfolding eq [symmetric] using that by force
    then show ?thesis
      using that(2) by auto
  qed
  then obtain hs where hs: "map_res (block_histogram decode e mr pcs) blks = Inr hs"
    and l: "list_all2 (counts_of decode) (map (\<lambda>ab. map (\<lambda>i. inst (pcs ! i)) [fst ab..<snd ab]) blks) hs"
    using blocks_histograms [OF assms(1,2)] by blast
  have "concat (map (\<lambda>ab. map (\<lambda>i. inst (pcs ! i)) [fst ab..<snd ab]) blks) =
      map (\<lambda>i. inst (pcs ! i)) (concat (map (\<lambda>ab. [fst ab..<snd ab]) blks))"
    by (simp add: map_concat comp_def)
  also have "\<dots> = map inst (map ((!) pcs) [0..<length pcs])"
    using assms(3) by (simp add: covers_range_def)
  also have "\<dots> = map inst pcs"
    by (simp only: map_nth)
  finally show ?thesis
    using counts_of_sums [OF l assms(4)] hs by simp
qed

lemma threads_histogram:
  assumes "map_res (\<lambda>l. extract_pcs_from_trace (snd l)) logs = Inr pcss"
    and "\<forall>pc \<in> set (concat pcss). lookup_inst e mr pc = Inr (inst pc) \<and> decodable decode (inst pc)"
    and "upper_bits_decide decode (map inst (concat pcss))" and "\<forall>n. covers_range (blocks n) n" and "counts_of decode xs h"
  shows "\<exists>s. fold_res (\<lambda>(tid, b) hist.
       and_then (extract_pcs_from_trace b) (\<lambda>pcs.
       and_then (map_res (block_histogram decode e mr pcs) (blocks (length pcs))) (\<lambda>block_hists.
       fold_res (\<lambda>h hist. hist_plus_assign hist h) block_hists hist))) logs h = Inr s \<and>
    counts_of decode (xs @ map inst (concat pcss)) s"
  using assms(1-3,5)
proof (induction logs arbitrary: pcss xs h)
  case Nil
  then show ?case by simp
next
  case (Cons l logs)
  from Cons.prems(1) obtain pcs rest where p: "extract_pcs_from_trace (snd l) = Inr pcs"
    "map_res (\<lambda>l. extract_pcs_from_trace (snd l)) logs = Inr rest" "pcss = pcs # rest"
    by (auto simp: res_simps)
  have "\<forall>pc \<in> set pcs. lookup_inst e mr pc = Inr (inst pc) \<and> decodable decode (inst pc)"
    using Cons.prems(2) p(3) by simp
  moreover have u: "upper_bits_decide decode (map inst pcs)" "upper_bits_decide decode (map inst (concat rest))"
    by (rule upper_bits_subset [OF Cons.prems(3)]; auto simp: p(3))+
  ultimately obtain s where
    s: "and_then (map_res (block_histogram decode e mr pcs) (blocks (length pcs))) (\<lambda>block_hists.
        fold_res (\<lambda>h hist. hist_plus_assign hist h) block_hists h) = Inr s" "counts_of decode (xs @ map inst pcs) s"
    using thread_histogram [OF _ _ spec [OF assms(4)] Cons.prems(4)] by blast
  from Cons.IH [OF p(2) _ u(2) s(2)] Cons.prems(2) p s(1) show ?case
    by (cases l) auto
qed

end
