(* ===== verification/AnalysisProps.thy ===== *)
theory AnalysisProps
  imports Analysis TraceProps
begin

text \<open>
  Properties of the tools: the histogram of a log does not depend on how the work was divided,
  and an entry of a drcov file leads back to its block.
\<close>

section \<open>The histogram\<close>

text \<open>
  The histogram of a log counts every program counter of every thread once, under the operation
  of the instruction there, whatever the division of the threads' instructions into blocks,
  provided that no two of them with the same upper 22 bits are of different operations.
\<close>

lemma log_histogram:
  assumes "map_res (\<lambda>l. extract_pcs_from_trace (snd l)) (pl_logs trace) = Inr pcss"
    and "\<forall>pc \<in> set (concat pcss). lookup_inst e (pl_regions trace) pc = Inr (inst pc) \<and> decodable decode (inst pc)"
    and "upper_bits_decide decode (map inst (concat pcss))" and "\<forall>n. covers_range (blocks n) n"
  shows "\<exists>h. dump_histogram decode e blocks trace = Inr h \<and>
    (\<forall>op < 65535. m_op_count_lut h ! op = op_count decode (map inst (concat pcss)) op)"
proof -
  have "counts_of decode [] (new_histogram True)"
    by (simp add: counts_of_def op_count_def new_histogram_def)
  from threads_histogram [OF assms this] show ?thesis
    by (auto simp: dump_histogram_def counts_of_def)
qed

section \<open>drcov\<close>

definition parse_drcov :: "buffer \<Rightarrow> nat \<Rightarrow> drcov_bb_t res" where
  "parse_drcov buf p =
     and_then (load buf p) (\<lambda>off. and_then (load buf (p + 4)) (\<lambda>sz. and_then (load buf (p + 6)) (\<lambda>i.
     Inr \<lparr>mod_off = off, dbb_sz = sz, mod_id = i\<rparr>)))"

lemma parse_drcov_bytes:
  assumes "has_bytes buf p (drcov_bytes d)"
  shows "parse_drcov buf p = Inr d"
proof -
  have "has_bytes buf p (le_bytes 4 (mod_off d))" "has_bytes buf (p + 4) (le_bytes 2 (dbb_sz d))"
    "has_bytes buf (p + 6) (le_bytes 2 (mod_id d))"
    using assms by (auto simp: drcov_bytes_def has_bytes_append ac_simps)
  then show ?thesis
    by (simp add: parse_drcov_def load_has_bytes del: load_ok)
qed

lemma lookup_idx_region:
  assumes "lookup_idx mr a = Inr (r, i)"
  shows "i < length (mr_regions mr) \<and> mr_regions mr ! i = r \<and> covers r a"
proof -
  obtain p where "find (\<lambda>(i, r). covers r a) (enumerate 0 (mr_regions mr)) = Some p" "(r, i) = (snd p, fst p)"
    using assms by (auto simp: lookup_idx_def assert_some_def split: option.splits)
  then obtain j where "j < length (mr_regions mr)" "enumerate 0 (mr_regions mr) ! j = (i, r)" "covers r a"
    unfolding find_Some_iff by auto
  then show ?thesis
    by (auto simp: nth_enumerate_eq)
qed

text \<open>C26: Every entry of a drcov file that was written leads back to its block: the module its bytes
  name is the region that covers the block, the offset added to the module's base is the
  block's address and the size is the block's, provided that the region is shorter than 2^32
  bytes, the block than 2^16, and there are fewer than 2^16 regions.\<close>

theorem drcov_entry_leads_back:
  assumes "map_res (drcov_entry mr) bbs = Inr entries" and "k < length bbs"
    and "has_bytes buf p (concat (map drcov_bytes entries))"
    and "\<forall>r \<in> set (mr_regions mr). unat (img_base r) + unat (img_size r) < 2 ^ 64 \<and> unat (img_size r) < 2 ^ 32"
    and "length (mr_regions mr) < 2 ^ 16" and "unat (bb_sz (bbs ! k)) < 2 ^ 16"
  shows "\<exists>d r. parse_drcov buf (p + 8 * k) = Inr d \<and>
    unat (mod_id d) < length (mr_regions mr) \<and> mr_regions mr ! unat (mod_id d) = r \<and> covers r (bb_pc (bbs ! k)) \<and>
    img_base r + ucast (mod_off d) = bb_pc (bbs ! k) \<and> ucast (dbb_sz d) = bb_sz (bbs ! k)"
proof -
  note m = map_res_InrD [OF assms(1)]
  have e: "drcov_entry mr (bbs ! k) = Inr (entries ! k)" and len: "k < length entries"
    using m assms(2) by auto
  obtain r i where l: "lookup_idx mr (bb_pc (bbs ! k)) = Inr (r, i)"
    and d: "entries ! k = \<lparr>mod_off = ucast (bb_pc (bbs ! k) - img_base r), dbb_sz = ucast (bb_sz (bbs ! k)), mod_id = of_nat i\<rparr>"
    using e by (auto simp: drcov_entry_def res_simps)
  note r = lookup_idx_region [OF l]
  have "concat (map drcov_bytes entries) =
      concat (map drcov_bytes (take k entries)) @ drcov_bytes (entries ! k) @ concat (map drcov_bytes (drop (Suc k) entries))"
    by (metis concat.simps(2) concat_append id_take_nth_drop len list.simps(9) map_append)
  moreover have "length (concat (map drcov_bytes (take k entries))) = 8 * k"
    using len by (simp add: length_concat comp_def drcov_bytes_def sum_list_triv)
  ultimately have "has_bytes buf (p + 8 * k) (drcov_bytes (entries ! k))"
    using assms(3) by (simp add: has_bytes_append)
  then have p: "parse_drcov buf (p + 8 * k) = Inr (entries ! k)"
    by (rule parse_drcov_bytes)
  have id: "unat (mod_id (entries ! k)) = i"
    using d r assms(5) by (simp add: unat_of_nat take_bit_nat_eq_self)
  have "r \<in> set (mr_regions mr)"
    using r nth_mem by blast
  then have sz: "unat (img_base r) + unat (img_size r) < 2 ^ 64" "unat (img_size r) < 2 ^ 32"
    using assms(4) by auto
  have "unat (bb_pc (bbs ! k) - img_base r) < 2 ^ 32"
    using r sz by (auto simp: covers_def word_le_nat_alt word_less_nat_alt unat_sub unat_word_ariths)
  then have "ucast (ucast (bb_pc (bbs ! k) - img_base r) :: u32) = bb_pc (bbs ! k) - img_base r"
    by (simp add: word_unat_eq_iff unsigned_ucast_eq unsigned_take_bit_eq take_bit_nat_eq_self)
  moreover have "ucast (ucast (bb_sz (bbs ! k)) :: u16) = bb_sz (bbs ! k)"
    using assms(6) by (simp add: word_unat_eq_iff unsigned_ucast_eq unsigned_take_bit_eq take_bit_nat_eq_self)
  ultimately show ?thesis
    using p d r id by (intro exI [of _ "entries ! k"] exI [of _ r]) simp
qed

theorem drcov_entry_leads_back_witness:
  "\<exists>entries d r. map_res (drcov_entry \<lparr>mr_regions = [zero_region], mr_pa2buf = no_pages\<rparr>) [\<lparr>bb_pc = 0x1010, bb_sz = 8\<rparr>] = Inr entries \<and>
     parse_drcov (concat (map drcov_bytes entries)) (0 + 8 * 0) = Inr d \<and> r = zero_region \<and>
     img_base r + ucast (mod_off d) = 0x1010 \<and> ucast (dbb_sz d) = (8 :: u32)"
proof -
  let ?mr = "\<lparr>mr_regions = [zero_region], mr_pa2buf = no_pages\<rparr>" and ?bbs = "[\<lparr>bb_pc = 0x1010, bb_sz = 8\<rparr>]"
  have "\<exists>entries. map_res (drcov_entry ?mr) ?bbs = Inr entries"
    by (simp add: drcov_entry_def lookup_idx_def assert_some_def covers_def zero_region_def)
  then obtain entries where e: "map_res (drcov_entry ?mr) ?bbs = Inr entries"
    by blast
  have "has_bytes (concat (map drcov_bytes entries)) 0 (concat (map drcov_bytes entries))"
    using has_bytes_at [of "[]" _ "[]"] by simp
  from drcov_entry_leads_back [OF e, of 0 _ 0, OF _ this] obtain d r where
    "parse_drcov (concat (map drcov_bytes entries)) (0 + 8 * 0) = Inr d" "mr_regions ?mr ! unat (mod_id d) = r"
    "unat (mod_id d) < length (mr_regions ?mr)" "img_base r + ucast (mod_off d) = 0x1010" "ucast (dbb_sz d) = (8 :: u32)"
    by (auto simp: zero_region_def)
  with e show ?thesis by auto
qed

section \<open>Calls across threads\<close>

text \<open>
  The block before the first block of a thread is the last one of the thread before it: where a
  thread starts at a symbol, the image the other thread ended in is reported as its caller.
\<close>

definition two_regions :: macho_regions where
  "two_regions = \<lparr>mr_regions = [zero_region\<lparr>img_path := ascii ''/a''\<rparr>,
     zero_region\<lparr>img_base := 0x9000, img_path := ascii ''/b''\<rparr>], mr_pa2buf = no_pages\<rparr>"

lemma call_between_threads:
  "fold_res (fold_res (calls_step \<lparr>pl_regions = two_regions,
       pl_symbols = [\<lparr>sym_base = 0x9000, sym_size = 16, sym_name = ascii ''f'', sym_path = ascii ''/b''\<rparr>],
       pl_num_inst = 2, pl_logs = []\<rparr> 0))
     [[\<lparr>bb_pc = 0x1000, bb_sz = 8\<rparr>], [\<lparr>bb_pc = 0x9000, bb_sz = 8\<rparr>]] (None, []) =
   Inr (Some (zero_region\<lparr>img_base := 0x9000, img_path := ascii ''/b''\<rparr>, 1, \<lparr>bb_pc = 0x9000, bb_sz = 8\<rparr>),
     [(\<lparr>sym_base = 0x9000, sym_size = 16, sym_name = ascii ''f'', sym_path = ascii ''/b''\<rparr>, [0x1004])])"
  by (simp add: calls_step_def two_regions_def lookup_idx_def assert_some_def covers_def zero_region_def lookup_symbol_def)

end
