(* ===== verification/Utils.thy ===== *)
theory Utils
  imports Complex_Main CompressedFile
begin

text \<open>
  The small helpers of \<^verbatim>\<open>lib/xnu-trace/utils.cpp\<close> and \<^verbatim>\<open>utils.h\<close>: whole files, numbers in a file,
  the class around the library's SHA-256, and the texts for protections and bars.

  A file is None when it cannot be opened; the digest library is a parameter whose calls are
  None when they report an error.
\<close>

section \<open>Files\<close>

text \<open>\<^verbatim>\<open>fwrite\<close> and \<^verbatim>\<open>fread\<close> of one object of no bytes transfer no object.\<close>

definition write_file :: "bool \<Rightarrow> buffer \<Rightarrow> buffer res" where
  "write_file opened buf =
     and_then (assert_that opened) (\<lambda>_. and_then (assert_that (length buf \<noteq> 0)) (\<lambda>_. Inr buf))"

definition read_file :: "buffer option \<Rightarrow> buffer res" where
  "read_file file =
     and_then (assert_some file) (\<lambda>bytes. and_then (assert_that (length bytes \<noteq> 0)) (\<lambda>_. Inr bytes))"

definition read_numbers_from_file :: "buffer option \<Rightarrow> 'a::len word list res" where
  "read_numbers_from_file file =
     and_then (read_file file) (\<lambda>buf.
     map_res (\<lambda>i. load buf (i * (LENGTH('a) div 8))) [0..<length buf div (LENGTH('a) div 8)])"

lemma read_file_ok: "bytes \<noteq> [] \<Longrightarrow> read_file (Some bytes) = Inr bytes"
  by (simp add: read_file_def assert_some_def)

lemma file_round_trip:
  assumes "buf \<noteq> []"
  shows "and_then (write_file True buf) (\<lambda>bytes. read_file (Some bytes)) = Inr buf"
  using assms by (simp add: write_file_def read_file_def assert_some_def)

lemma empty_file_aborts: "write_file True [] = Inl Assertion_Failed" "read_file (Some []) = Inl Assertion_Failed"
  by (simp_all add: write_file_def read_file_def assert_some_def assert_that_def)

lemma numbers_round_trip:
  fixes xs :: "u64 list"
  assumes "xs \<noteq> []"
  shows "read_numbers_from_file (Some (concat (map (le_bytes 8) xs))) = Inr xs"
proof -
  let ?buf = "concat (map (le_bytes 8) xs)"
  have len: "length ?buf = 8 * length xs"
    by simp
  have "has_bytes ?buf 0 ?buf"
    using has_bytes_at [of "[]" ?buf "[]"] by simp
  from load_words [OF this] have "map_res (\<lambda>i. load ?buf (i * 8)) [0..<length xs] = Inr xs"
    by (simp add: mult.commute)
  moreover have "?buf \<noteq> []"
    using assms len by (metis length_0_conv mult_is_0 zero_neq_numeral)
  ultimately show ?thesis
    by (simp add: read_numbers_from_file_def read_file_ok len del: concat_eq_Nil_conv)
qed

section \<open>Digests\<close>

record 'c sha_lib =
  sha_starts :: "'c option"
  sha_update :: "buffer \<Rightarrow> 'c \<Rightarrow> 'c option"
  sha_finish :: "'c \<Rightarrow> buffer option"
  sha_whole :: "buffer \<Rightarrow> buffer option"

record 'c sha256 =
  m_ctx :: 'c
  m_digest :: buffer
  m_finished :: bool

definition get_sha256 :: "'c sha_lib \<Rightarrow> buffer \<Rightarrow> buffer res" where
  "get_sha256 l buf = assert_some (sha_whole l buf)"

definition sha256_new :: "'c sha_lib \<Rightarrow> buffer \<Rightarrow> 'c sha256 res" where
  "sha256_new l uninitialised =
     and_then (assert_some (sha_starts l)) (\<lambda>c. Inr \<lparr>m_ctx = c, m_digest = uninitialised, m_finished = False\<rparr>)"

definition sha256_update :: "'c sha_lib \<Rightarrow> buffer \<Rightarrow> 'c sha256 \<Rightarrow> 'c sha256 res" where
  "sha256_update l buf s =
     and_then (assert_that (\<not> m_finished s)) (\<lambda>_.
     and_then (assert_some (sha_update l buf (m_ctx s))) (\<lambda>c. Inr (s\<lparr>m_ctx := c\<rparr>)))"

definition sha256_digest :: "'c sha_lib \<Rightarrow> 'c sha256 \<Rightarrow> (buffer \<times> 'c sha256) res" where
  "sha256_digest l s =
     (if m_finished s then Inr (m_digest s, s)
      else and_then (assert_some (sha_finish l (m_ctx s))) (\<lambda>d. Inr (d, s\<lparr>m_digest := d, m_finished := True\<rparr>)))"

text \<open>Once taken, the digest stays the same and no more can be hashed.\<close>

lemma digest_final:
  assumes "sha256_digest l s = Inr (d, s')"
  shows "sha256_digest l s' = Inr (d, s')" and "sha256_update l buf s' = Inl Assertion_Failed"
  using assms by (auto simp: sha256_digest_def sha256_update_def assert_that_def res_simps split: if_splits)

section \<open>Texts\<close>

definition prot_to_str :: "u32 \<Rightarrow> string" where
  "prot_to_str prot =
     (if prot AND 1 \<noteq> 0 then ''r'' else ''-'') @ (if prot AND 2 \<noteq> 0 then ''w'' else ''-'') @
     (if prot AND 4 \<noteq> 0 then ''x'' else ''-'') @ (if prot AND NOT (1 OR 2 OR 4) \<noteq> 0 then ''*'' else '' '')"

text \<open>A bar is a number of full blocks and of eighths of a block; \<open>rnd\<close> rounds to a \<^verbatim>\<open>double\<close>.\<close>

definition block_str :: "(real \<Rightarrow> real) \<Rightarrow> real \<Rightarrow> u32 \<Rightarrow> nat \<times> nat" where
  "block_str rnd percentage width =
     (let num_blk = nat \<lfloor>rnd (percentage * rnd (real (unat (width * 8))))\<rfloor> in (num_blk div 8, num_blk mod 8))"

lemma prot_bits:
  "prot_to_str prot ! 0 = (if bit prot 0 then CHR ''r'' else CHR ''-'')"
  "prot_to_str prot ! 1 = (if bit prot 1 then CHR ''w'' else CHR ''-'')"
  "prot_to_str prot ! 2 = (if bit prot 2 then CHR ''x'' else CHR ''-'')"
proof -
  have "prot AND 1 \<noteq> 0 \<longleftrightarrow> bit prot 0" "prot AND 2 \<noteq> 0 \<longleftrightarrow> bit prot 1" "prot AND 4 \<noteq> 0 \<longleftrightarrow> bit prot 2"
    using bit_iff_and_push_bit_not_eq_0 [of prot 0] bit_iff_and_push_bit_not_eq_0 [of prot 1]
      bit_iff_and_push_bit_not_eq_0 [of prot 2] by (simp_all add: push_bit_eq_mult)
  then show "prot_to_str prot ! 0 = (if bit prot 0 then CHR ''r'' else CHR ''-'')"
    and "prot_to_str prot ! 1 = (if bit prot 1 then CHR ''w'' else CHR ''-'')"
    and "prot_to_str prot ! 2 = (if bit prot 2 then CHR ''x'' else CHR ''-'')"
    by (simp_all add: prot_to_str_def)
qed

end
