(* ===== verification/Stalker.thy ===== *)
theory Stalker
  imports TraceFiles
begin

text \<open>
  The in-process tracer, \<^verbatim>\<open>lib/xnu-trace/FridaStalker.cpp\<close>: frida-gum compiles the traced
  code block by block, passing each block through \<^verbatim>\<open>transform_cb\<close>, which puts a call of
  \<^verbatim>\<open>instruction_cb\<close> in front of every instruction; the callout logs the register context.

  frida-gum is a parameter: what a call does to its own state, and whether it answers with
  something other than null or false.  The pointer to a disassembled instruction is a value of
  the type \<open>'i\<close>.
\<close>

section \<open>frida-gum\<close>

datatype gum_call =
    Gum_Init_Embedded | Gum_Stalker_Is_Supported | Gum_Stalker_New | Gum_Stalker_Set_Trust_Threshold int
  | Gum_Stalker_Transformer_Make | Gum_Stalker_Follow_Me | Gum_Stalker_Follow u64
  | Gum_Stalker_Unfollow_Me | Gum_Stalker_Unfollow u64
  | Unref_Stalker | Unref_Transformer | Gum_Deinit_Embedded

type_synonym 'g gum_lib = "gum_call \<Rightarrow> 'g \<Rightarrow> bool \<times> 'g"

definition gum_do :: "'g gum_lib \<Rightarrow> gum_call \<Rightarrow> 'g \<Rightarrow> 'g" where
  "gum_do gm c k = snd (gm c k)"

text \<open>A call whose answer is asserted.\<close>

definition gum_assert :: "'g gum_lib \<Rightarrow> gum_call \<Rightarrow> 'g \<Rightarrow> 'g res" where
  "gum_assert gm c k = and_then (assert_that (fst (gm c k))) (\<lambda>_. Inr (snd (gm c k)))"

section \<open>The stalker\<close>

record ('g, 'i) stalker =
  st_gum :: 'g
  st_log :: trace_log
  st_compression_level :: int
  st_macho_regions :: macho_regions
  st_vm_regions :: "region list"
  st_symbols :: "sym_info list option"
  cb_insn :: "'i option"

definition stalker_new ::
    "hash_lib \<Rightarrow> nat \<Rightarrow> dyld_abi \<Rightarrow> (buffer \<Rightarrow> buffer) \<Rightarrow> nat \<Rightarrow> target \<Rightarrow> cs_symbol list \<Rightarrow> 'g gum_lib \<Rightarrow>
       bool \<Rightarrow> int \<Rightarrow> bool \<Rightarrow> 'g \<Rightarrow> directory \<Rightarrow> (('g, 'i) stalker \<times> directory) res" where
  "stalker_new e timer abi sha256 fuel self cs gm symbolicate level stream k dir =
     (let (lg, dir) = trace_log_start stream dir in
      and_then (regions_reset e timer abi sha256 fuel self \<lparr>ms_mph = mph_empty, m_values = []\<rparr>) (\<lambda>mr.
      and_then (vm_regions_reset self fuel) (\<lambda>vm.
      and_then (gum_assert gm Gum_Stalker_Is_Supported (gum_do gm Gum_Init_Embedded k)) (\<lambda>k.
      and_then (gum_assert gm Gum_Stalker_New k) (\<lambda>k.
      and_then (gum_assert gm Gum_Stalker_Transformer_Make (gum_do gm (Gum_Stalker_Set_Trust_Threshold 0) k)) (\<lambda>k.
      and_then (if symbolicate then and_then (symbols_reset self cs) (\<lambda>syms. Inr (Some syms)) else Inr None) (\<lambda>syms.
      Inr (\<lparr>st_gum = k, st_log = lg, st_compression_level = level, st_macho_regions = mr, st_vm_regions = vm,
            st_symbols = syms, cb_insn = None\<rparr>, dir))))))))"

definition follow_me :: "'g gum_lib \<Rightarrow> ('g, 'i) stalker \<Rightarrow> ('g, 'i) stalker" where
  "follow_me gm st = st\<lparr>st_gum := gum_do gm Gum_Stalker_Follow_Me (st_gum st)\<rparr>"

definition follow_thread :: "'g gum_lib \<Rightarrow> u64 \<Rightarrow> ('g, 'i) stalker \<Rightarrow> ('g, 'i) stalker" where
  "follow_thread gm tid st = st\<lparr>st_gum := gum_do gm (Gum_Stalker_Follow tid) (st_gum st)\<rparr>"

definition unfollow_me :: "'g gum_lib \<Rightarrow> ('g, 'i) stalker \<Rightarrow> ('g, 'i) stalker" where
  "unfollow_me gm st = st\<lparr>st_gum := gum_do gm Gum_Stalker_Unfollow_Me (st_gum st)\<rparr>"

definition unfollow_thread :: "'g gum_lib \<Rightarrow> u64 \<Rightarrow> ('g, 'i) stalker \<Rightarrow> ('g, 'i) stalker" where
  "unfollow_thread gm tid st = st\<lparr>st_gum := gum_do gm (Gum_Stalker_Unfollow tid) (st_gum st)\<rparr>"

section \<open>Callbacks\<close>

text \<open>What the transformer puts into the compiled block: callouts, and instructions it keeps.\<close>

datatype 'i gum_code = Put_Callout | Keep 'i

definition transform_insn ::
    "'i \<Rightarrow> ('g, 'i) stalker \<times> 'i gum_code list \<Rightarrow> ('g, 'i) stalker \<times> 'i gum_code list" where
  "transform_insn insn stc = (case stc of (st, code) \<Rightarrow> (st\<lparr>cb_insn := Some insn\<rparr>, code @ [Put_Callout, Keep insn]))"

definition transform_cb :: "'i list \<Rightarrow> ('g, 'i) stalker \<Rightarrow> ('g, 'i) stalker \<times> 'i gum_code list" where
  "transform_cb insns st = fold transform_insn insns (st, [])"

text \<open>
  The callout on a thread whose identifier is narrowed to 32 bits; the instruction it hands to
  the log, which does not use it, comes with the new state.
\<close>

definition instruction_cb ::
    "hash_lib \<Rightarrow> nat \<Rightarrow> u64 \<Rightarrow> log_arm64_cpu_context \<Rightarrow> ('g, 'i) stalker \<Rightarrow> ('i option \<times> ('g, 'i) stalker) res" where
  "instruction_cb e timer thread c st =
     and_then (trace_log_ctx e timer (ucast thread) c (st_log st)) (\<lambda>lg. Inr (cb_insn st, st\<lparr>st_log := lg\<rparr>))"

section \<open>The end of a trace\<close>

definition write_trace ::
    "('c, 'd) zstd_lib \<Rightarrow> int \<Rightarrow> nat \<Rightarrow> ((u64 \<times> u64) list \<Rightarrow> u64 \<times> u64 \<Rightarrow> bool) \<Rightarrow> buffer \<Rightarrow>
       ('g, 'i) stalker \<Rightarrow> directory \<Rightarrow> (directory \<times> (u32 \<times> buffer) list) res" where
  "write_trace z cores fuel tree after st dir =
     trace_log_write z cores fuel tree after (m_stream (st_log st)) (st_compression_level st) (log_ctxs (st_log st))
       (mr_regions (st_macho_regions st)) (st_symbols st) dir"

text \<open>The destructor; it prints the number of instructions, the first result.\<close>

definition stalker_delete ::
    "('c, 'd) zstd_lib \<Rightarrow> int \<Rightarrow> nat \<Rightarrow> ((u64 \<times> u64) list \<Rightarrow> u64 \<times> u64 \<Rightarrow> bool) \<Rightarrow> buffer \<Rightarrow> 'g gum_lib \<Rightarrow>
       ('g, 'i) stalker \<Rightarrow> directory \<Rightarrow> (u64 \<times> 'g \<times> directory \<times> (u32 \<times> buffer) list) res" where
  "stalker_delete z cores fuel tree after gm st dir =
     and_then (write_trace z cores fuel tree after st dir) (\<lambda>(dir, hdrs).
     let k = gum_do gm Unref_Stalker (st_gum st); k = gum_do gm Unref_Transformer k; k = gum_do gm Gum_Deinit_Embedded k
     in Inr (m_num_inst (st_log st), k, dir, hdrs))"

section \<open>A session\<close>

text \<open>
  frida-gum calls back: a block is compiled, or a callout of a compiled block runs on a
  thread.
\<close>

datatype 'i gum_event = Block_Compiled "'i list" | Callout_Runs u64 log_arm64_cpu_context

primrec stalker_step :: "hash_lib \<Rightarrow> nat \<Rightarrow> 'i gum_event \<Rightarrow> ('g, 'i) stalker \<Rightarrow> ('g, 'i) stalker res" where
  "stalker_step e timer (Block_Compiled insns) st = Inr (fst (transform_cb insns st))"
| "stalker_step e timer (Callout_Runs thread c) st = and_then (instruction_cb e timer thread c st) (\<lambda>(_, st). Inr st)"

definition stalker_session :: "hash_lib \<Rightarrow> nat \<Rightarrow> 'i gum_event list \<Rightarrow> ('g, 'i) stalker \<Rightarrow> ('g, 'i) stalker res" where
  "stalker_session e timer evs st = fold_res (stalker_step e timer) evs st"

text \<open>The callouts of a session.\<close>

fun callouts :: "'i gum_event list \<Rightarrow> (u64 \<times> log_arm64_cpu_context) list" where
  "callouts [] = []"
| "callouts (Block_Compiled insns # evs) = callouts evs"
| "callouts (Callout_Runs thread c # evs) = (thread, c) # callouts evs"

section \<open>The C interface\<close>

text \<open>An \<^verbatim>\<open>int\<close> is true when it is not 0; the handle is the stalker.\<close>

definition create_stalker ::
    "hash_lib \<Rightarrow> nat \<Rightarrow> dyld_abi \<Rightarrow> (buffer \<Rightarrow> buffer) \<Rightarrow> nat \<Rightarrow> target \<Rightarrow> cs_symbol list \<Rightarrow> 'g gum_lib \<Rightarrow>
       directory \<Rightarrow> u32 \<Rightarrow> int \<Rightarrow> u32 \<Rightarrow> 'g \<Rightarrow> (('g, 'i) stalker \<times> directory) res" where
  "create_stalker e timer abi sha256 fuel self cs gm dir symbolicate level stream k =
     stalker_new e timer abi sha256 fuel self cs gm (symbolicate \<noteq> 0) level (stream \<noteq> 0) k dir"

definition destroy_stalker ::
    "('c, 'd) zstd_lib \<Rightarrow> int \<Rightarrow> nat \<Rightarrow> ((u64 \<times> u64) list \<Rightarrow> u64 \<times> u64 \<Rightarrow> bool) \<Rightarrow> buffer \<Rightarrow> 'g gum_lib \<Rightarrow>
       directory \<Rightarrow> ('g, 'i) stalker \<Rightarrow> (u64 \<times> 'g \<times> directory \<times> (u32 \<times> buffer) list) res" where
  "destroy_stalker z cores fuel tree after gm dir st = stalker_delete z cores fuel tree after gm st dir"

text \<open>Following and unfollowing the calling thread, or the one with an identifier.\<close>

definition stalker_follow :: "'g gum_lib \<Rightarrow> u64 option \<Rightarrow> ('g, 'i) stalker \<Rightarrow> ('g, 'i) stalker" where
  "stalker_follow gm thread_id st = (case thread_id of None \<Rightarrow> follow_me gm st | Some tid \<Rightarrow> follow_thread gm tid st)"

definition stalker_unfollow :: "'g gum_lib \<Rightarrow> u64 option \<Rightarrow> ('g, 'i) stalker \<Rightarrow> ('g, 'i) stalker" where
  "stalker_unfollow gm thread_id st = (case thread_id of None \<Rightarrow> unfollow_me gm st | Some tid \<Rightarrow> unfollow_thread gm tid st)"

end
