(* ===== verification/LogThreads.thy ===== *)
theory LogThreads
  imports TraceLogger TraceProps
begin

text \<open>
  The logs of several threads in the growing map of contexts of \<^verbatim>\<open>TraceLog\<close>.  One or two threads
  leave the map in order, since a permutation of two entries is its own inverse, and then the
  calls of \<^verbatim>\<open>TraceLog::log\<close> write for each thread what they would write for it alone.
\<close>

section \<open>The map of one thread\<close>

definition single_mph :: "hash_lib \<Rightarrow> mph" where
  "single_mph e = \<lparr>m_salts = [- 1], m_fastmod_u32_M = computeM_u32 e 1, m_nkeys = 1\<rparr>"

lemma single_build:
  assumes "fastmod_ok e" and "sort_ok e"
  shows "mph_build e t mph_empty [k] = Inr (single_mph e)"
proof -
  have md: "fastmod_u32 e a (computeM_u32 e 1) 1 = 0" for a
    using assms(1) by (simp add: fastmod_ok_def)
  have srt: "sort_buckets e [b] = [b]" for b
  proof -
    have "mset (sort_buckets e [b]) = mset [b]" using assms(2) unfolding sort_ok_def by blast
    then show ?thesis by simp
  qed
  show ?thesis
    by (simp add: mph_build_def Let_def mph_empty_def single_mph_def fill_bucket_def mph_mod_def md srt
        place_bucket_def first_free_def resize_def)
qed

lemma map_wf_values:
  assumes "map_wf e mp" and "map fst kvs = map fst (m_key_vals mp)"
  shows "map_wf e (mp\<lparr>m_key_vals := kvs\<rparr>)"
proof -
  have len: "length kvs = length (m_key_vals mp)" using assms(2) by (metis length_map)
  then have "fst (kvs ! i) = fst (m_key_vals mp ! i)" if "i < length kvs" for i
    using assms(2) that by (metis nth_map)
  then show ?thesis
    using assms len by (auto simp: map_wf_def mph_map_keys_def)
qed

lemma first_entry:
  assumes env: "fastmod_ok e" "sort_ok e" and "m_thread_ctxs lg = \<lparr>m_mph = mph_empty, m_key_vals = []\<rparr>" and "\<not> m_stream lg"
  shows "thread_entry e timer c tid lg = Inr (\<lparr>m_mph = single_mph e, m_key_vals = [(ucast tid, first_thread_ctx False c)]\<rparr>, 0)"
    and "map_wf e \<lparr>m_mph = single_mph e, m_key_vals = [(ucast tid, t)]\<rparr>"
proof -
  note b = single_build [OF env]
  show wf: "map_wf e \<lparr>m_mph = single_mph e, m_key_vals = [(ucast tid, t)]\<rparr>" for t
    using b by (rule single_wf [OF env])
  have mb: "mph_built e [ucast tid] (single_mph e)"
    using b env by (auto simp: mph_built_def salts_ok_def mph_empty_def intro!: exI [of _ mph_empty])
  then obtain x where x: "mph_lookup e (single_mph e) (ucast tid) = Inr x" "x = 0" "mph.slot e (single_mph e) (ucast tid) = 0"
    using mph.slot [OF mb, of "ucast tid"] by (auto simp: unat_eq_0)
  let ?mp = "\<lparr>m_mph = mph_empty, m_key_vals = [(ucast tid :: u64, new_thread_ctx False)]\<rparr>"
  have "mph_map_rebuild e timer ?mp = Inr \<lparr>m_mph = single_mph e, m_key_vals = [(ucast tid, new_thread_ctx False)]\<rparr>"
    using rebuild_gathers(1) [of e ?mp "single_mph e" timer 1] mb b x(3) by (simp add: mph_map_keys_def)
  then show "thread_entry e timer c tid lg = Inr (\<lparr>m_mph = single_mph e, m_key_vals = [(ucast tid, first_thread_ctx False c)]\<rparr>, 0)"
    using x(1,2) assms(3,4)
    by (simp add: thread_entry_def mph_map_contains_def mph_map_try_emplace_def first_thread_ctx_def)
qed

section \<open>The hash of two threads\<close>

text \<open>
  The slots of two keys below \<open>2 ^ 32\<close> in a hash for two are told apart by bit 19 of the keys, or
  not at all.
\<close>

lemma jevhash_bit_0:
  assumes "rotl_ok e" and "drop_bit 32 a = drop_bit 32 b"
  shows "(bit (jevhash_32 e a seed) 0 = bit (jevhash_32 e b seed) 0) \<longleftrightarrow> bit a 19 = bit b 19"
proof -
  have m: "bit (0xFFFFFFFF :: u64) n \<longleftrightarrow> n < 32" for n
  proof -
    have "(0xFFFFFFFF :: u64) = mask 32" by (simp add: mask_eq_exp_minus_1)
    then show ?thesis by (simp only: bit_mask_iff) auto
  qed
  then show ?thesis using assms by (auto simp: jevhash_32_def Let_def rotl_ok_def bit_simps)
qed

lemma mod_two: "(x :: u32) mod 2 = (if bit x 0 then 1 else 0)"
  by (simp add: bit_0 mod_2_eq_odd)

lemma place_pair:
  assumes "length (bkeys x) = 1" "length (bkeys y) = 1"
  shows "\<exists>salts' used'. fold_res (place_bucket e m) [x, y] (salts, [False, False], timer) = Inr (salts', used', timer)"
  using assms by (simp add: place_bucket_def first_free_def)

lemma pair_build:
  fixes a b :: u64
  assumes env: "fastmod_ok e" "sort_ok e" "rotl_ok e" and ab: "drop_bit 32 a = drop_bit 32 b" "bit a 19 \<noteq> bit b 19"
  obtains m where "mph_build e timer m0 [a, b] = Inr m"
proof -
  let ?m = "m0\<lparr>m_nkeys := 2, m_fastmod_u32_M := computeM_u32 e 2\<rparr>"
  let ?h = "\<lambda>k. mph_mod e ?m (jevhash_32 e k 0)" and ?b = "\<lambda>k h. \<lparr>hmod = h, bkeys = [k]\<rparr>"
  have md: "?h k = (if bit (jevhash_32 e k 0) 0 then 1 else 0)" for k
    using env(1) by (simp add: mph_mod_def fastmod_ok_def mod_two)
  have ne: "bit (jevhash_32 e a 0) 0 \<noteq> bit (jevhash_32 e b 0) 0" using jevhash_bit_0 [OF env(3) ab(1)] ab(2) by blast
  have "\<exists>bs. fold_res (fill_bucket e ?m) [a, b] (replicate 2 \<lparr>hmod = 0, bkeys = []\<rparr>) = Inr bs \<and>
      length bs = 2 \<and> (\<forall>x \<in> set bs. length (bkeys x) = 1)"
    using ne by (cases "bit (jevhash_32 e a 0) 0") (simp_all add: fill_bucket_def md numeral_2_eq_2)
  then obtain bs where bs: "fold_res (fill_bucket e ?m) [a, b] (replicate 2 \<lparr>hmod = 0, bkeys = []\<rparr>) = Inr bs"
    "length bs = 2" "\<forall>x \<in> set bs. length (bkeys x) = 1" by blast
  have srt: "mset (sort_buckets e bs) = mset bs" using env(2) by (simp add: sort_ok_def)
  then have "length (sort_buckets e bs) = 2" "\<forall>x \<in> set (sort_buckets e bs). length (bkeys x) = 1"
    using bs(2,3) by (metis size_mset) (metis bs(3) srt set_mset_mset)
  then obtain x y where xy: "sort_buckets e bs = [x, y]" "length (bkeys x) = 1" "length (bkeys y) = 1"
    by (auto simp: numeral_2_eq_2 length_Suc_conv)
  obtain salts' used' where p: "fold_res (place_bucket e ?m) (sort_buckets e bs)
      (resize 2 0 (m_salts m0), [False, False], timer) = Inr (salts', used', timer)"
    using place_pair [OF xy(2,3)] xy(1) by metis
  have "a \<noteq> b" using ab(2) by blast
  then have u: "length (remdups_adj (sort [a, b])) = 2" using unique_keys [of "[a, b]"] by simp
  have two: "replicate 2 False = [False, False]" by (simp add: numeral_2_eq_2)
  show thesis
    by (rule that [of "?m\<lparr>m_salts := salts'\<rparr>"])
      (use bs(1) p u two in \<open>simp add: mph_build_def Let_def del: fold_res.simps\<close>)
qed

section \<open>One call on a map in order\<close>

lemma wf_distinct: "map_wf e mp \<Longrightarrow> distinct (map fst (m_key_vals mp))"
proof (cases "m_key_vals mp = []")
  case False
  assume "map_wf e mp"
  with False obtain ks where "mph_built e ks (m_mph mp)" "length ks = length (m_key_vals mp)" "set ks = set (mph_map_keys mp)"
    by (auto simp: map_wf_def)
  then show ?thesis using mph.no_dups [of e ks] unfolding mph_map_keys_def
    by (metis card_distinct distinct_card length_map)
qed simp

lemma map_of_update_nth:
  "distinct (map fst kvs) \<Longrightarrow> i < length kvs \<Longrightarrow> fst (kvs ! i) = k \<Longrightarrow> map_of (kvs[i := (k, v)]) = (map_of kvs)(k \<mapsto> v)"
proof (induction kvs arbitrary: i)
  case (Cons p kvs)
  show ?case
  proof (cases i)
    case (Suc j)
    with Cons.prems have j: "j < length kvs" "fst (kvs ! j) = k" by simp_all
    then have "k \<in> set (map fst kvs)" by (metis image_eqI nth_mem set_map)
    then have "k \<noteq> fst p" using Cons.prems(1) by (auto simp del: set_map)
    then show ?thesis using Cons.IH [OF _ j] Cons.prems(1) Suc by (auto simp: fun_eq_iff)
  qed (use Cons.prems in \<open>simp add: fun_eq_iff\<close>)
qed simp

lemma keys_update_nth: "i < length kvs \<Longrightarrow> fst (kvs ! i) = k \<Longrightarrow> map fst (kvs[i := (k, v)]) = map fst kvs"
  by (auto simp: map_update list_update_same_conv)

text \<open>The thread's entry replaced by what the message leaves.\<close>

lemma log_at_entry:
  assumes en: "thread_entry e timer c th lg = Inr (mp, i)" and wf: "map_wf e mp" and i: "i < length (m_key_vals mp)"
    "m_key_vals mp ! i = (ucast th, t)" and w: "write_log_msg c t = Inr t'"
  obtains lg' where "trace_log_ctx e timer th c lg = Inr lg'" "map_wf e (m_thread_ctxs lg')"
    "m_mph (m_thread_ctxs lg') = m_mph mp" "mph_map_keys (m_thread_ctxs lg') = mph_map_keys mp"
    "m_stream lg' = m_stream lg" "m_num_inst lg' = m_num_inst lg + 1"
    "map_value (m_thread_ctxs lg') = (map_value mp)(ucast th \<mapsto> t')"
proof -
  let ?kvs = "(m_key_vals mp)[i := (ucast th, t')]"
  let ?lg = "lg\<lparr>m_thread_ctxs := mp\<lparr>m_key_vals := ?kvs\<rparr>, m_num_inst := m_num_inst lg + 1\<rparr>"
  have keys: "map fst ?kvs = map fst (m_key_vals mp)" using i by (intro keys_update_nth) simp_all
  have wf': "map_wf e (mp\<lparr>m_key_vals := ?kvs\<rparr>)" by (rule map_wf_values [OF wf keys])
  have val: "map_value (mp\<lparr>m_key_vals := ?kvs\<rparr>) = (map_value mp)(ucast th \<mapsto> t')"
    unfolding map_value_def using map_of_update_nth [OF wf_distinct [OF wf] i(1), of "ucast th" t'] i(2) by (auto simp: fun_eq_iff)
  have "trace_log_ctx e timer th c lg = Inr ?lg" using en i w by (simp add: trace_log_ctx_def)
  from that [OF this] wf' keys val show thesis by (simp add: mph_map_keys_def)
qed

lemma log_present:
  assumes wf: "map_wf e (m_thread_ctxs lg)" and v: "map_value (m_thread_ctxs lg) (ucast th) = Some t" and w: "write_log_msg c t = Inr t'"
  obtains lg' where "trace_log_ctx e timer th c lg = Inr lg'" "map_wf e (m_thread_ctxs lg')"
    "m_mph (m_thread_ctxs lg') = m_mph (m_thread_ctxs lg)" "mph_map_keys (m_thread_ctxs lg') = mph_map_keys (m_thread_ctxs lg)"
    "m_stream lg' = m_stream lg" "m_num_inst lg' = m_num_inst lg + 1"
    "map_value (m_thread_ctxs lg') = (map_value (m_thread_ctxs lg))(ucast th \<mapsto> t')"
proof -
  have ne: "m_key_vals (m_thread_ctxs lg) \<noteq> []" using v by (auto simp: map_value_def)
  from wf_lookup [OF wf ne, of "ucast th"] obtain x where x: "mph_lookup e (m_mph (m_thread_ctxs lg)) (ucast th) = Inr x"
    "unat x < length (m_key_vals (m_thread_ctxs lg))" "m_key_vals (m_thread_ctxs lg) ! unat x = (ucast th, t)"
    using v by metis
  have "thread_entry e timer c th lg = Inr (m_thread_ctxs lg, unat x)"
    using wf_contains [OF wf] v x ne by (simp add: thread_entry_def mph_map_index_def)
  from log_at_entry [OF this wf x(2,3) w] that show thesis by blast
qed

text \<open>The second thread: the map is built anew for two keys, and is in order afterwards.\<close>

lemma log_second:
  assumes env: "fastmod_ok e" "sort_ok e" and mp: "m_thread_ctxs lg = \<lparr>m_mph = m1, m_key_vals = [(ucast a, ta)]\<rparr>"
    and wf: "map_wf e (m_thread_ctxs lg)" and st: "\<not> m_stream lg" and ab: "(ucast a :: u64) \<noteq> ucast b"
    and bld: "mph_build e timer m1 [ucast a, ucast b] = Inr m" and w: "write_log_msg c (first_thread_ctx False c) = Inr t'"
  obtains lg' where "trace_log_ctx e timer b c lg = Inr lg'" "map_wf e (m_thread_ctxs lg')"
    "m_stream lg' = m_stream lg" "m_num_inst lg' = m_num_inst lg + 1"
    "map_value (m_thread_ctxs lg') = (map_value (m_thread_ctxs lg))(ucast b \<mapsto> t')"
proof -
  let ?v = "new_thread_ctx False" and ?k = "ucast b :: u64"
  let ?kvs = "[(ucast a, ta), (?k, ?v)]" and ?s = "\<lambda>i. mph.slot e m (fst (([(ucast a, ta), (?k, ?v)]) ! i))"
  let ?kvs' = "map (\<lambda>i. ?kvs ! ?s i) [0..<2]"
  have none: "map_value (m_thread_ctxs lg) ?k = None" using mp ab by (simp add: map_value_def)
  have keys: "mph_map_keys (m_thread_ctxs lg) = [ucast a]" using mp by (simp add: mph_map_keys_def)
  have mb: "mph_built e [ucast a, ?k] m"
    using wf_insert_built [OF wf env, of timer ?k m] bld mp keys by simp
  have bound: "?s i < 2" if "i < 2" for i
    using mph.slot [OF mb, of "fst (?kvs ! i)"] by auto
  have inj: "?s 0 \<noteq> ?s 1" using inj_onD [OF mph.slot_inj [OF mb], of "ucast a" ?k] ab by auto
  have two: "i < 2 \<longleftrightarrow> i = 0 \<or> i = 1" for i :: nat by auto
  have invol: "?s (?s i) = i" if "i < 2" for i
    using bound [of 0] bound [of 1] inj that by (auto simp: two)
  have kv: "m_key_vals (m_thread_ctxs lg) @ [(?k, ?v)] = ?kvs" and len2: "length ?kvs = 2"
    and small: "length (m_key_vals (m_thread_ctxs lg)) + 1 < 2 ^ 31" using mp by simp_all
  have built: "mph_build e timer (m_mph (m_thread_ctxs lg)) (mph_map_keys (m_thread_ctxs lg) @ [?k]) = Inr m"
    using bld mp keys by simp
  have some: "m_key_vals (m_thread_ctxs lg) = [] \<Longrightarrow> m_salts (m_mph (m_thread_ctxs lg)) = []" using mp by simp
  note all = emplace_new [OF wf env small some none built, of ?v, unfolded kv len2]
  from conjunct1 [OF all] have em: "mph_map_try_emplace e timer (m_thread_ctxs lg) ?k ?v =
      Inr (\<lparr>m_mph = m, m_key_vals = ?kvs'\<rparr>, ?s 1, True)" by (simp only: diff_Suc_1 one_add_one [symmetric] add_diff_cancel_right')
  from conjunct2 [OF all] invol have wf': "map_wf e \<lparr>m_mph = m, m_key_vals = ?kvs'\<rparr>" by blast
  have at1: "?kvs' ! ?s 1 = (?k, ?v)"
  proof -
    have "?kvs' ! ?s 1 = ?kvs ! ?s (?s 1)" using bound [of 1] by simp
    then show ?thesis using invol [of 1] by simp
  qed
  let ?mp = "\<lparr>m_mph = m, m_key_vals = ?kvs'[?s 1 := (?k, first_thread_ctx False c)]\<rparr>"
  have l: "?s 1 < length ?kvs'" using bound [of 1] by simp
  have en: "thread_entry e timer c b lg = Inr (?mp, ?s 1)"
    using wf_contains [OF wf, of ?k] none em st at1 l by (simp add: thread_entry_def first_thread_ctx_def)
  have k': "map fst (?kvs'[?s 1 := (?k, first_thread_ctx False c)]) = map fst ?kvs'"
    using at1 l by (intro keys_update_nth) simp_all
  have wf2: "map_wf e ?mp" using map_wf_values [OF wf' , of "m_key_vals ?mp"] k' by simp
  have "map_of ?kvs' = map_of ?kvs"
  proof -
    have "set ?kvs' = set ?kvs" using bound [of 0] bound [of 1] inj by (auto simp: two numeral_2_eq_2 less_Suc_eq)
    then show ?thesis using ab wf_distinct [OF wf'] by (intro map_of_inject_set [THEN iffD2]) simp_all
  qed
  then have val: "map_value ?mp = (map_value (m_thread_ctxs lg))(?k \<mapsto> first_thread_ctx False c)"
    using map_of_update_nth [OF wf_distinct [OF wf'], of "?s 1" ?k "first_thread_ctx False c"] l at1 mp ab
    by (auto simp: map_value_def fun_eq_iff)
  have "m_key_vals ?mp ! ?s 1 = (?k, first_thread_ctx False c)" using l by simp
  from log_at_entry [OF en wf2 _ this w] l val that show thesis by (auto simp: fun_upd_upd)
qed

section \<open>The thread's log\<close>

lemma write_keeps_buffer: "write_log_msg c t = Inr t' \<Longrightarrow> log_stream t = None \<Longrightarrow> log_stream t' = None"
  by (auto simp: write_log_msg_def Let_def res_simps write_sync_def emit_def split: if_splits)

lemma fold_keeps_buffer: "fold_res write_log_msg cs t = Inr t' \<Longrightarrow> log_stream t = None \<Longrightarrow> log_stream t' = None"
  by (induction cs arbitrary: t) (auto simp: res_simps dest: write_keeps_buffer)

lemma trace_bytes_bound:
  assumes "wf_ctx prev" and "encodable_run prev cs"
  shows "length (trace_bytes n z prev cs) \<le> length cs * (size_full_ctx + size_max)"
  using assms
proof (induction cs arbitrary: n z prev)
  case Nil
  then show ?case by simp
next
  case (Cons c cs)
  then have c: "wf_ctx c" "encodable prev c" "encodable_run c cs" by simp_all
  have "length (message_bytes (diff_message prev c)) \<le> size_max"
    by (rule message_size_max [OF diff_message_wf [OF c(2)]])
  moreover have "length (sync_bytes n prev) = size_full_ctx" by (rule length_sync_bytes [OF Cons.prems(1)])
  moreover note Cons.IH [OF c(1,3), of "n + 1"]
  ultimately show ?case by (simp add: Let_def add_mono)
qed

text \<open>The thread after the contexts \<open>c0 # cs\<close>, all of whose log is in the buffer.\<close>

lemma first_log:
  assumes "wf_ctx c0" and "encodable_run c0 cs"
  obtains t where "fold_res write_log_msg (c0 # cs) (first_thread_ctx False c0) = Inr t"
    "log_buf t = trace_bytes 0 (sync_every + 1) c0 (c0 # cs)" "num_inst t = of_nat (Suc (length cs))"
    "length (log_buf t) \<le> Suc (length cs) * (size_full_ctx + size_max)" "log_buf t \<noteq> []"
proof -
  from first_write [OF assms, of False] obtain t where t: "fold_res write_log_msg (c0 # cs) (first_thread_ctx False c0) = Inr t"
    "written t = trace_bytes 0 (sync_every + 1) c0 (c0 # cs)" "num_inst t = of_nat (Suc (length cs))" by blast
  have "log_stream t = None"
    by (rule fold_keeps_buffer [OF t(1)]) (simp add: first_thread_ctx_def new_thread_ctx_def)
  then have b: "log_buf t = trace_bytes 0 (sync_every + 1) c0 (c0 # cs)" using t(2) by (simp add: written_def)
  have "encodable_run c0 (c0 # cs)" using assms by (simp add: diff_same)
  from trace_bytes_bound [OF assms(1) this, of 0 "sync_every + 1"] b
  have "length (log_buf t) \<le> Suc (length cs) * (size_full_ctx + size_max)" by simp
  moreover have "log_buf t \<noteq> []"
    using length_sync_hdr unfolding b trace_first by (auto simp: sync_bytes_def)
  ultimately show thesis using that t b by blast
qed

section \<open>Two threads\<close>

text \<open>The contexts one thread hands over, among the calls of both.\<close>

definition contexts_of :: "u32 \<Rightarrow> (u32 \<times> log_arm64_cpu_context) list \<Rightarrow> log_arm64_cpu_context list" where
  "contexts_of th calls = map snd (filter (\<lambda>(t, c). t = th) calls)"

lemma contexts_of_simps [simp]:
  "contexts_of th [] = []"
  "contexts_of th ((t, c) # calls) = (if t = th then c # contexts_of th calls else contexts_of th calls)"
  by (simp_all add: contexts_of_def)

lemma narrowed: "ucast (ucast (tid :: u32) :: u64) = tid"
  by (rule bit_word_eqI) (simp add: bit_simps)

lemma map_value_single: "mph_map_keys mp = [k] \<Longrightarrow> map_value mp k = Some t \<Longrightarrow> m_key_vals mp = [(k, t)]"
  by (cases "m_key_vals mp") (auto simp: mph_map_keys_def map_value_def)

lemma key_inj: "(ucast (a :: u32) :: u64) = ucast b \<longleftrightarrow> a = b"
  by (metis narrowed)

text \<open>Both threads are in the map: every call continues its thread's log.\<close>

lemma calls_both:
  assumes "map_wf e (m_thread_ctxs lg)" and "a \<noteq> b" and "fst ` set calls \<subseteq> {a, b}"
    and "map_value (m_thread_ctxs lg) (ucast a) = Some ta" "map_value (m_thread_ctxs lg) (ucast b) = Some tb"
    and "fold_res write_log_msg (contexts_of a calls) ta = Inr ta'" "fold_res write_log_msg (contexts_of b calls) tb = Inr tb'"
  shows "\<exists>lg'. fold_res (\<lambda>(th, c). trace_log_ctx e timer th c) calls lg = Inr lg' \<and>
     map_value (m_thread_ctxs lg') (ucast a) = Some ta' \<and> map_value (m_thread_ctxs lg') (ucast b) = Some tb' \<and>
     m_num_inst lg' = m_num_inst lg + of_nat (length calls)"
  using assms(1,3-)
proof (induction calls arbitrary: lg ta tb)
  case (Cons call calls)
  obtain th c where call: "call = (th, c)" by force
  have th: "th = a \<or> th = b" using Cons.prems(2) call by auto
  define t where "t = (if th = a then ta else tb)"
  have v: "map_value (m_thread_ctxs lg) (ucast th) = Some t" using th Cons.prems(3,4) by (auto simp: t_def)
  obtain t' where w: "write_log_msg c t = Inr t'"
    using th Cons.prems(5,6) assms(2) call by (auto simp: t_def res_simps split: if_splits)
  from log_present [OF Cons.prems(1) v w, of timer] obtain lg1 where l: "trace_log_ctx e timer th c lg = Inr lg1"
    "map_wf e (m_thread_ctxs lg1)" "m_num_inst lg1 = m_num_inst lg + 1"
    "map_value (m_thread_ctxs lg1) = (map_value (m_thread_ctxs lg))(ucast th \<mapsto> t')" by metis
  have "\<exists>lg'. fold_res (\<lambda>(th, c). trace_log_ctx e timer th c) calls lg1 = Inr lg' \<and>
     map_value (m_thread_ctxs lg') (ucast a) = Some ta' \<and> map_value (m_thread_ctxs lg') (ucast b) = Some tb' \<and>
     m_num_inst lg' = m_num_inst lg1 + of_nat (length calls)"
  proof (rule Cons.IH [OF l(2)])
    show "fst ` set calls \<subseteq> {a, b}" using Cons.prems(2) by auto
    show "map_value (m_thread_ctxs lg1) (ucast a) = Some (if th = a then t' else ta)"
      "map_value (m_thread_ctxs lg1) (ucast b) = Some (if th = a then tb else t')"
      using l(4) th Cons.prems(3,4) assms(2) by (auto simp: key_inj)
    show "fold_res write_log_msg (contexts_of a calls) (if th = a then t' else ta) = Inr ta'"
      "fold_res write_log_msg (contexts_of b calls) (if th = a then tb else t') = Inr tb'"
      using th Cons.prems(5,6) assms(2) call w by (auto simp: t_def)
  qed
  then show ?case using l(1,3) call by (auto simp: algebra_simps)
qed simp

text \<open>Only the first thread is in the map so far.\<close>

lemma calls_first:
  assumes env: "fastmod_ok e" "sort_ok e" and "a \<noteq> b" and bld: "mph_build e timer (single_mph e) [ucast a, ucast b] = Inr m"
    and "fst ` set calls \<subseteq> {a, b}" and "\<not> m_stream lg" and "map_wf e (m_thread_ctxs lg)"
    and "m_mph (m_thread_ctxs lg) = single_mph e" "m_key_vals (m_thread_ctxs lg) = [(ucast a, ta)]"
    and "fold_res write_log_msg (contexts_of a calls) ta = Inr ta'"
    and "contexts_of b calls = cb # csb" "fold_res write_log_msg (cb # csb) (first_thread_ctx False cb) = Inr tb'"
  shows "\<exists>lg'. fold_res (\<lambda>(th, c). trace_log_ctx e timer th c) calls lg = Inr lg' \<and>
     map_value (m_thread_ctxs lg') (ucast a) = Some ta' \<and> map_value (m_thread_ctxs lg') (ucast b) = Some tb' \<and>
     m_num_inst lg' = m_num_inst lg + of_nat (length calls)"
  using assms(5-)
proof (induction calls arbitrary: lg ta)
  case (Cons call calls)
  obtain th c where call: "call = (th, c)" by force
  have v: "map_value (m_thread_ctxs lg) (ucast a) = Some ta" using Cons.prems(5) by (simp add: map_value_def)
  show ?case
  proof (cases "th = a")
    case True
    obtain t' where w: "write_log_msg c ta = Inr t'" using Cons.prems(6) call True by (auto simp: res_simps)
    from log_present [OF Cons.prems(3) v w, of timer] obtain lg1 where l: "trace_log_ctx e timer a c lg = Inr lg1"
      "map_wf e (m_thread_ctxs lg1)" "m_num_inst lg1 = m_num_inst lg + 1" "m_stream lg1 = m_stream lg"
      "m_mph (m_thread_ctxs lg1) = m_mph (m_thread_ctxs lg)" "mph_map_keys (m_thread_ctxs lg1) = mph_map_keys (m_thread_ctxs lg)"
      "map_value (m_thread_ctxs lg1) = (map_value (m_thread_ctxs lg))(ucast a \<mapsto> t')" by metis
    have kv: "m_key_vals (m_thread_ctxs lg1) = [(ucast a, t')]"
      using l(6,7) Cons.prems(5) by (intro map_value_single) (simp_all add: mph_map_keys_def)
    have "fst ` set calls \<subseteq> {a, b}" "\<not> m_stream lg1" "m_mph (m_thread_ctxs lg1) = single_mph e"
      "fold_res write_log_msg (contexts_of a calls) t' = Inr ta'" "contexts_of b calls = cb # csb"
      using Cons.prems l w call True assms(3) by auto
    from Cons.IH [OF this(1,2) l(2) this(3) kv this(4,5) Cons.prems(8)] l(1,3) call True
    show ?thesis by (auto simp: algebra_simps)
  next
    case False
    then have b: "th = b" "c = cb" "contexts_of b calls = csb" using Cons.prems(1,7) call by auto
    obtain t' where w: "write_log_msg cb (first_thread_ctx False cb) = Inr t'" "fold_res write_log_msg csb t' = Inr tb'"
      using Cons.prems(8) by (auto simp: res_simps)
    have mp: "m_thread_ctxs lg = \<lparr>m_mph = single_mph e, m_key_vals = [(ucast a, ta)]\<rparr>"
      using Cons.prems(4,5) by simp
    have ab: "(ucast a :: u64) \<noteq> ucast b" using assms(3) by (simp add: key_inj)
    from log_second [OF env mp Cons.prems(3,2) ab bld w(1)] obtain lg1 where l: "trace_log_ctx e timer b cb lg = Inr lg1"
      "map_wf e (m_thread_ctxs lg1)" "m_num_inst lg1 = m_num_inst lg + 1"
      "map_value (m_thread_ctxs lg1) = (map_value (m_thread_ctxs lg))(ucast b \<mapsto> t')" by metis
    have s: "fst ` set calls \<subseteq> {a, b}" "map_value (m_thread_ctxs lg1) (ucast a) = Some ta"
      "map_value (m_thread_ctxs lg1) (ucast b) = Some t'" "fold_res write_log_msg (contexts_of a calls) ta = Inr ta'"
      using Cons.prems(1,6) v l(4) ab call b assms(3) by auto
    from calls_both [OF l(2) assms(3) s, of tb' timer] w(2) b(3) l(1,3) call b(1,2)
    show ?thesis by (auto simp: algebra_simps)
  qed
qed simp

text \<open>A hash for both threads cannot be built: the first call of the second one fails.\<close>

lemma second_fails:
  assumes mp: "m_thread_ctxs lg = \<lparr>m_mph = m1, m_key_vals = [(ucast a, ta)]\<rparr>" and wf: "map_wf e (m_thread_ctxs lg)"
    and ab: "(ucast a :: u64) \<noteq> ucast b" and bld: "mph_build e timer m1 [ucast a, ucast b] = Inl err"
  shows "trace_log_ctx e timer b c lg = Inl err"
proof -
  have "map_value (m_thread_ctxs lg) (ucast b) = None" using mp ab by (simp add: map_value_def)
  then have "mph_map_contains e (m_thread_ctxs lg) (ucast b) = Inr False" using wf_contains [OF wf, of "ucast b"] by simp
  then show ?thesis
    using bld by (simp add: trace_log_ctx_def thread_entry_def mph_map_try_emplace_def mph_map_rebuild_def mph_map_keys_def mp)
qed

lemma calls_fail:
  assumes ab: "a \<noteq> b" and bld: "mph_build e timer (single_mph e) [ucast a, ucast b] = Inl err"
    and "fst ` set calls \<subseteq> {a, b}" and "map_wf e (m_thread_ctxs lg)"
    and "m_mph (m_thread_ctxs lg) = single_mph e" "m_key_vals (m_thread_ctxs lg) = [(ucast a, ta)]"
    and "fold_res write_log_msg (contexts_of a calls) ta = Inr ta'" and "contexts_of b calls \<noteq> []"
  shows "fold_res (\<lambda>(th, c). trace_log_ctx e timer th c) calls lg = Inl err"
  using assms(3-)
proof (induction calls arbitrary: lg ta)
  case (Cons call calls)
  obtain th c where call: "call = (th, c)" by force
  have ab': "(ucast a :: u64) \<noteq> ucast b" using ab by (simp add: key_inj)
  have mp: "m_thread_ctxs lg = \<lparr>m_mph = single_mph e, m_key_vals = [(ucast a, ta)]\<rparr>" using Cons.prems(3,4) by simp
  show ?case
  proof (cases "th = a")
    case True
    have v: "map_value (m_thread_ctxs lg) (ucast a) = Some ta" using mp by (simp add: map_value_def)
    obtain t' where w: "write_log_msg c ta = Inr t'" "fold_res write_log_msg (contexts_of a calls) t' = Inr ta'"
      using Cons.prems(5) call True by (auto simp: res_simps)
    from log_present [OF Cons.prems(2) v w(1), of timer] obtain lg1 where l: "trace_log_ctx e timer a c lg = Inr lg1"
      "map_wf e (m_thread_ctxs lg1)" "m_mph (m_thread_ctxs lg1) = m_mph (m_thread_ctxs lg)"
      "mph_map_keys (m_thread_ctxs lg1) = mph_map_keys (m_thread_ctxs lg)"
      "map_value (m_thread_ctxs lg1) = (map_value (m_thread_ctxs lg))(ucast a \<mapsto> t')" by metis
    have kv: "m_key_vals (m_thread_ctxs lg1) = [(ucast a, t')]"
      using l(4,5) mp by (intro map_value_single) (simp_all add: mph_map_keys_def)
    have "fst ` set calls \<subseteq> {a, b}" "m_mph (m_thread_ctxs lg1) = single_mph e" "contexts_of b calls \<noteq> []"
      using Cons.prems(1,3,6) l(3) call True ab by auto
    from Cons.IH [OF this(1) l(2) this(2) kv w(2) this(3)] l(1) call True show ?thesis by simp
  next
    case False
    then have "th = b" using Cons.prems(1) call by auto
    then show ?thesis using second_fails [OF mp Cons.prems(2) ab' bld] call by simp
  qed
qed simp

text \<open>Bit 19 of the threads' identifiers decides.\<close>

lemma threads_hash:
  assumes env: "fastmod_ok e" "sort_ok e" "rotl_ok e" and "a \<noteq> (b :: u32)"
  shows "(\<exists>m. mph_build e timer m0 [ucast a, ucast b] = Inr m) \<longleftrightarrow> bit a 19 \<noteq> bit b 19"
proof -
  have hi: "drop_bit 32 (ucast a :: u64) = drop_bit 32 (ucast b)"
    by (rule bit_word_eqI) (auto simp: bit_simps dest: bit_imp_le_length)
  have b19: "bit (ucast x :: u64) 19 = bit x 19" for x :: u32 by (simp add: bit_simps)
  show ?thesis
  proof (cases "bit a 19 = bit b 19")
    case True
    have "take_bit 1 (drop_bit 19 (ucast a :: u64)) = take_bit 1 (drop_bit 19 (ucast b))"
    proof (rule bit_word_eqI)
      have low: "bit (take_bit 1 (drop_bit 19 y)) n \<longleftrightarrow> n = 0 \<and> bit y 19" for y :: u64 and n
        by (cases n) (simp_all only: bit_take_bit_iff bit_drop_bit_eq comp_def less_one add_0_right simp_thms nat.distinct)
      show "bit (take_bit 1 (drop_bit 19 (ucast a :: u64))) n = bit (take_bit 1 (drop_bit 19 (ucast b :: u64))) n" for n
        unfolding low b19 using True by blast
    qed
    then have "\<exists>err. mph_build e timer m0 [ucast a, ucast b] = Inl err"
      using never_builds [OF env, of "[ucast a, ucast b]" 1 "ucast a" "ucast b"] hi assms(4) by (auto simp: key_inj)
    with True show ?thesis by auto
  next
    case False
    then show ?thesis using pair_build [OF env hi, of timer m0] b19 by metis
  qed
qed



end
