(* ===== verification/StalkerProps.thy ===== *)
theory StalkerProps
  imports Stalker TraceFilesProps LogThreads
begin

text \<open>
  What a session of the in-process tracer leaves behind: the log of a single thread is one
  entry of the map of contexts, its run writes the thread's bytes, the directory is read back
  with them, and the program counters extracted from it are those of the callouts.
\<close>

section \<open>The log of one thread\<close>

definition one_thread :: "hash_lib \<Rightarrow> u32 \<Rightarrow> thread_ctx \<Rightarrow> trace_log \<Rightarrow> bool" where
  "one_thread e tid t lg \<longleftrightarrow> \<not> m_stream lg \<and> map_wf e (m_thread_ctxs lg) \<and> m_key_vals (m_thread_ctxs lg) = [(ucast tid, t)]"

lemma next_entry:
  assumes "one_thread e tid t lg"
  shows "thread_entry e timer c tid lg = Inr (m_thread_ctxs lg, 0)"
proof -
  have wf: "map_wf e (m_thread_ctxs lg)" and kv: "m_key_vals (m_thread_ctxs lg) = [(ucast tid, t)]"
    using assms by (simp_all add: one_thread_def)
  then have "m_key_vals (m_thread_ctxs lg) \<noteq> []" by simp
  from wf_lookup [OF wf this, of "ucast tid"] obtain x where
    "mph_lookup e (m_mph (m_thread_ctxs lg)) (ucast tid) = Inr x" "unat x < 1" using kv by auto
  then show ?thesis by (simp add: thread_entry_def mph_map_contains_def mph_map_index_def kv)
qed

lemma log_step:
  assumes "one_thread e tid t lg" and "write_log_msg c t = Inr t'"
  shows "\<exists>lg'. trace_log_ctx e timer tid c lg = Inr lg' \<and> one_thread e tid t' lg' \<and> m_num_inst lg' = m_num_inst lg + 1"
proof -
  have kv: "m_key_vals (m_thread_ctxs lg) = [(ucast tid, t)]" using assms(1) by (simp add: one_thread_def)
  then have "map_wf e ((m_thread_ctxs lg)\<lparr>m_key_vals := [(ucast tid, t')]\<rparr>)"
    using assms(1) by (intro map_wf_values) (simp_all add: one_thread_def)
  then show ?thesis
    using assms next_entry [OF assms(1)] by (simp add: trace_log_ctx_def kv one_thread_def)
qed

section \<open>A session on one thread\<close>

lemma fold_transform:
  "st_log (fst (fold transform_insn insns stc)) = st_log (fst stc)"
  by (induction insns arbitrary: stc) (auto simp: transform_insn_def split: prod.split)

text \<open>What compiling does not change.\<close>

definition same_log :: "('g, 'i) stalker \<Rightarrow> ('g, 'i) stalker \<Rightarrow> bool" where
  "same_log a b \<longleftrightarrow> st_gum a = st_gum b \<and> st_compression_level a = st_compression_level b \<and>
     st_macho_regions a = st_macho_regions b \<and> st_symbols a = st_symbols b"

lemma fold_transform_same: "same_log (fst (fold transform_insn insns stc)) (fst stc)"
  by (induction insns arbitrary: stc) (auto simp: same_log_def transform_insn_def split: prod.split)

lemma transform_log: "st_log (fst (transform_cb insns st)) = st_log st" "same_log (fst (transform_cb insns st)) st"
  using fold_transform [of insns "(st, [])"] fold_transform_same [of insns "(st, [])"] by (simp_all add: transform_cb_def)

lemma session_continues:
  assumes "one_thread e (ucast th) t (st_log st)" and "callouts evs = map (Pair th) cs" and "fold_res write_log_msg cs t = Inr t'"
  shows "\<exists>st'. stalker_session e timer evs st = Inr st' \<and> one_thread e (ucast th) t' (st_log st') \<and> same_log st' st \<and>
    m_num_inst (st_log st') = m_num_inst (st_log st) + of_nat (length cs)"
  using assms
proof (induction evs arbitrary: st t cs)
  case Nil
  then show ?case by (auto simp: stalker_session_def same_log_def)
next
  case (Cons ev evs)
  show ?case
  proof (cases ev)
    case (Block_Compiled insns)
    with Cons.IH [of t "fst (transform_cb insns st)" cs] Cons.prems show ?thesis
      using transform_log(2) [of insns st] by (auto simp: stalker_session_def transform_log(1) same_log_def)
  next
    case (Callout_Runs th' c)
    then obtain cs1 where cs: "cs = c # cs1" "th' = th" "callouts evs = map (Pair th) cs1"
      using Cons.prems(2) by auto
    then obtain t1 where t1: "write_log_msg c t = Inr t1" "fold_res write_log_msg cs1 t1 = Inr t'"
      using Cons.prems(3) by (auto simp: res_simps)
    from log_step [OF Cons.prems(1) t1(1)] obtain lg where lg: "trace_log_ctx e timer (ucast th) c (st_log st) = Inr lg"
      "one_thread e (ucast th) t1 lg" "m_num_inst lg = m_num_inst (st_log st) + 1" by blast
    from Cons.IH [of t1 "st\<lparr>st_log := lg\<rparr>", OF _ cs(3) t1(2)] lg show ?thesis
      by (auto simp: Callout_Runs cs stalker_session_def instruction_cb_def same_log_def add.assoc)
  qed
qed

lemma session_starts:
  assumes env: "fastmod_ok e" "sort_ok e" and lg: "m_thread_ctxs (st_log st) = \<lparr>m_mph = mph_empty, m_key_vals = []\<rparr>"
    "\<not> m_stream (st_log st)"
    and co: "callouts evs = map (Pair th) (c0 # cs)" and wr: "fold_res write_log_msg (c0 # cs) (first_thread_ctx False c0) = Inr t"
  shows "\<exists>st'. stalker_session e timer evs st = Inr st' \<and> one_thread e (ucast th) t (st_log st') \<and> same_log st' st \<and>
    m_num_inst (st_log st') = m_num_inst (st_log st) + of_nat (length (c0 # cs))"
  using lg co
proof (induction evs arbitrary: st)
  case Nil
  then show ?case by simp
next
  case (Cons ev evs)
  show ?case
  proof (cases ev)
    case (Block_Compiled insns)
    with Cons.IH [of "fst (transform_cb insns st)"] Cons.prems show ?thesis
      using transform_log(2) [of insns st] by (auto simp: stalker_session_def transform_log(1) same_log_def)
  next
    case (Callout_Runs th' c)
    then have ev: "th' = th" "c = c0" "callouts evs = map (Pair th) cs" using Cons.prems(3) by auto
    obtain t1 where t1: "write_log_msg c0 (first_thread_ctx False c0) = Inr t1" "fold_res write_log_msg cs t1 = Inr t"
      using wr by (auto simp: res_simps)
    note fe = first_entry [OF env Cons.prems(1,2)]
    let ?lg = "(st_log st)\<lparr>m_thread_ctxs := \<lparr>m_mph = single_mph e, m_key_vals = [(ucast (ucast th :: u32), t1)]\<rparr>,
      m_num_inst := m_num_inst (st_log st) + 1\<rparr>"
    have "trace_log_ctx e timer (ucast th) c0 (st_log st) = Inr ?lg"
      using fe(1) t1(1) by (simp add: trace_log_ctx_def)
    moreover have "one_thread e (ucast th) t1 ?lg" using fe(2) Cons.prems(2) by (simp add: one_thread_def)
    ultimately show ?thesis
      using session_continues [of e th t1 "st\<lparr>st_log := ?lg\<rparr>" evs cs t timer] ev t1(2)
      by (auto simp: Callout_Runs stalker_session_def instruction_cb_def same_log_def add.assoc)
  qed
qed

section \<open>The instruction a callout hands to the log\<close>

lemma fold_transform_code:
  "snd (fold transform_insn insns stc) = snd stc @ concat (map (\<lambda>i. [Put_Callout, Keep i]) insns)"
  "cb_insn (fst (fold transform_insn insns stc)) = (if insns = [] then cb_insn (fst stc) else Some (last insns))"
  by (induction insns arbitrary: stc) (auto simp: transform_insn_def split: prod.split)

text \<open>
  Every instruction of a block gets its callout, but all the callouts hand over the last
  instruction of the block compiled last: the context the callback shares is overwritten while
  the block is compiled, before any of its callouts runs.
\<close>

lemma callout_hands_last:
  assumes "insns \<noteq> []" and "transform_cb insns st = (st', code)"
  shows "code = concat (map (\<lambda>i. [Put_Callout, Keep i]) insns) \<and>
    (instruction_cb e timer th c st' = Inr (h, st'') \<longrightarrow> h = Some (last insns) \<and> cb_insn st'' = Some (last insns))"
  using assms fold_transform_code [of insns "(st, [])"]
  by (auto simp: transform_cb_def instruction_cb_def res_simps)

section \<open>The regions and the symbols\<close>

lemma reset_hash:
  assumes "regions_reset e timer abi sha fuel t old = Inr mr"
  shows "create_hash e timer old (sort_key img_base (mr_regions mr)) = Inr mr"
proof -
  from assms obtain images where
    h: "create_hash e timer old (sort_key img_base images) = Inr mr"
    by (auto simp: regions_reset_def regions_collect_def res_simps)
  then have "mr_regions mr = sort_key img_base images" by (auto simp: create_hash_def res_simps)
  with h show ?thesis by (simp add: sort_key_id_if_sorted)
qed

lemma chosen_sorted: "sort_key sym_base (chosen_syms tree symbols pcs) = chosen_syms tree symbols pcs"
  by (simp add: chosen_syms_def get_symbols_in_intervals_def sort_key_id_if_sorted split: option.split)

text \<open>The intervals the symbols are chosen by: one per program counter.\<close>

definition pc_cover :: "u64 list \<Rightarrow> (u64 \<times> u64) list" where
  "pc_cover pcs = map (\<lambda>pc. (pc, pc + 4)) (remdups pcs)"

lemma single_intervals:
  assumes "wf_ctx c0" and "encodable_run c0 cs" and "16 \<le> length after" and "log_buf t = trace_bytes 0 (sync_every + 1) c0 (c0 # cs)"
  shows "pc_intervals False after [(tid, t)] regions = Inr (pc_cover (map ctx_pc (c0 # cs)))"
proof -
  have "after \<noteq> []" using assms(3) by auto
  then have "extract_pcs_from_trace \<lparr>lb_mem = log_buf t @ after, lb_size = length (log_buf t), lb_num_inst = num_inst t\<rparr> =
      Inr (ctx_pc c0 # map ctx_pc (c0 # cs))"
    using pcs_read_back [OF assms(1,2), of after] assms(3,4) by simp
  then show ?thesis by (simp add: pc_intervals_def thread_bufs_def pc_cover_def)
qed

lemma new_stalker:
  assumes "stalker_new e timer abi sha fuel self csyms gm symbolicate level False k dir0 = Inr (st, dir)"
  shows "m_thread_ctxs (st_log st) = \<lparr>m_mph = mph_empty, m_key_vals = []\<rparr>" and "\<not> m_stream (st_log st)"
    and "m_num_inst (st_log st) = 0" and "st_compression_level st = level"
    and "create_hash e timer no_pages (sort_key img_base (mr_regions (st_macho_regions st))) = Inr (st_macho_regions st)"
proof -
  from assms obtain mr where mr: "regions_reset e timer abi sha fuel self no_pages = Inr mr" "st_macho_regions st = mr"
    by (auto simp: stalker_new_def res_simps no_pages_def Let_def split: prod.splits)
  show "create_hash e timer no_pages (sort_key img_base (mr_regions (st_macho_regions st))) = Inr (st_macho_regions st)"
    using reset_hash [OF mr(1)] mr(2) by simp
qed (use assms in \<open>auto simp: stalker_new_def trace_log_start_def res_simps Let_def\<close>)

lemma fits_thread:
  assumes "log_fits [] regions syms n" and "length (log_buf t) \<le> n"
  shows "log_fits [(tid, t)] regions syms n"
  using assms by (simp add: log_fits_def)

lemma session_succeeds:
  assumes env: "fastmod_ok e" "sort_ok e"
    and new: "stalker_new e timer abi sha fuel self csyms gm symbolicate level False k dir0 = Inr (st0, dir)"
    and cs: "wf_ctx c0" "encodable_run c0 cs" and co: "callouts evs = map (Pair th) (c0 # cs)"
  obtains st t where "stalker_session e timer evs st0 = Inr st" "same_log st st0"
    "m_num_inst (st_log st) = of_nat (Suc (length cs))" "\<not> m_stream (st_log st)" "log_ctxs (st_log st) = [(ucast th, t)]"
    "log_buf t = trace_bytes 0 (sync_every + 1) c0 (c0 # cs)" "num_inst t = of_nat (Suc (length cs))"
    "length (log_buf t) \<le> Suc (length cs) * (size_full_ctx + size_max)" "log_buf t \<noteq> []"
proof -
  obtain t where t: "fold_res write_log_msg (c0 # cs) (first_thread_ctx False c0) = Inr t"
    "log_buf t = trace_bytes 0 (sync_every + 1) c0 (c0 # cs)" "num_inst t = of_nat (Suc (length cs))"
    "length (log_buf t) \<le> Suc (length cs) * (size_full_ctx + size_max)" "log_buf t \<noteq> []"
    using first_log [OF cs] .
  note n = new_stalker [OF new]
  from session_starts [OF env n(1,2) co t(1)] n(3) obtain st where st: "stalker_session e timer evs st0 = Inr st"
    "one_thread e (ucast th) t (st_log st)" "same_log st st0" "m_num_inst (st_log st) = of_nat (Suc (length cs))" by auto
  then have "log_ctxs (st_log st) = [(ucast th, t)]" "\<not> m_stream (st_log st)"
    by (simp_all add: log_ctxs_def one_thread_def narrowed)
  with that [OF st(1,3,4) _ _ t(2-5)] show thesis by blast
qed

section \<open>A session on one JIT page\<close>

text \<open>The fuel with which every file of a directory can be read.\<close>

definition read_fuel :: "nat \<Rightarrow> directory \<Rightarrow> nat" where
  "read_fuel n dir = Suc (n + sum_list (map (length \<circ> snd) dir))"

lemma read_fuel: "\<forall>(nm, bytes) \<in> set dir. length bytes + n < read_fuel n dir"
proof (intro ballI, clarify)
  fix nm bytes assume "(nm, bytes) \<in> set dir"
  then have "length bytes \<in> set (map (length \<circ> snd) dir)" by force
  from member_le_sum_list [OF this] show "length bytes + n < read_fuel n dir" by (simp add: read_fuel_def)
qed

text \<open>This task itself, with one JIT page, and one symbol in it.\<close>

definition self_target :: target where
  "self_target = zero_target\<lparr>target_is_self := True\<rparr>"

definition self_symbol :: cs_symbol where
  "self_symbol = \<lparr>cs_location = 0x1000, cs_length = 4, cs_mangled_name = Some [102], cs_owner = Some (Some [47])\<rparr>"

lemma self_task [simp]: "task_given self_target"
  by (simp add: self_target_def)

lemma self_reset:
  "\<exists>mr. regions_reset reference_lib 10 zero_abi (\<lambda>_. replicate 32 0) 3 self_target no_pages = Inr mr \<and> mr_regions mr = [zero_region]"
proof -
  have rd: "read_target self_target = read_target zero_target"
    by (intro ext) (simp add: read_target_def self_target_def)
  have "get_dyld_image_infos zero_abi self_target 3 = Inr []"
    by (simp add: get_dyld_image_infos_def self_target_def zero_target_def zero_abi_def check_def read_target_def
        map_replicate_const le_word_zeros)
  moreover have "get_vm_regions self_target 3 =
      Inr [\<lparr>r_base = 0x1000, r_size = 0x1000, r_depth = 0, r_prot = 5, r_tag = 0xFF, r_submap = False\<rparr>]"
    by (simp add: get_vm_regions_def self_target_def zero_target_def numeral_3_eq_3)
  moreover have "suspend_target self_target = Inr ()" "resume_target self_target = Inr ()" "symbolicator self_target"
    by (simp_all add: suspend_target_def resume_target_def self_target_def zero_target_def)
  moreover have "read_target self_target 0x1000 0x1000 = Inr (replicate 4096 0)"
    by (simp add: read_target_def self_target_def zero_target_def check_def map_replicate_const)
  then have "jit_regions (\<lambda>_. replicate 32 0) self_target [] 0
      [\<lparr>r_base = 0x1000, r_size = 0x1000, r_depth = 0, r_prot = 5, r_tag = 0xFF, r_submap = False\<rparr>] = Inr [zero_region]"
    by (simp add: VM_PROT_EXECUTE_def zero_region_def)
  ultimately show ?thesis using zero_hash by (auto simp: regions_reset_def regions_collect_def)
qed

text \<open>An instance of frida-gum: every call is answered, and the state is the list of the calls.\<close>

definition recording_gum :: "gum_call list gum_lib" where
  "recording_gum c k = (True, k @ [c])"

definition self_syms :: "sym_info list" where
  "self_syms = [\<lparr>sym_base = 0x1000, sym_size = 4, sym_name = [102], sym_path = [47]\<rparr>]"

lemma self_new:
  "\<exists>st. stalker_new reference_lib 10 zero_abi (\<lambda>_. replicate 32 0) 3 self_target [self_symbol] recording_gum True 3 False [] [] =
     Inr (st, []) \<and> mr_regions (st_macho_regions st) = [zero_region] \<and> st_symbols st = Some self_syms"
proof -
  have vm: "\<exists>vm. vm_regions_reset self_target 3 = Inr vm"
    by (simp add: vm_regions_reset_def suspend_target_def resume_target_def get_vm_regions_def self_target_def zero_target_def
        numeral_3_eq_3)
  have "symbols_reset self_target [self_symbol] = Inr self_syms"
    by (simp add: symbols_reset_def suspend_target_def resume_target_def get_symbols_def self_target_def zero_target_def
        self_symbol_def self_syms_def assert_some_def)
  with vm self_reset show ?thesis
    by (auto simp: stalker_new_def trace_log_start_def gum_assert_def gum_do_def recording_gum_def no_pages_def Let_def)
qed

lemma self_fits: "log_fits [] [zero_region] self_syms 7000" "log_writable 3 [] [zero_region] self_syms"
  "Suc (length [sample_ctx 0x1004 3 7, sample_ctx 0x2000 5 9]) * (size_full_ctx + size_max) \<le> 7000"
proof -
  have d: "decimal 0 = [48]" by (simp add: decimal.simps)
  have "length (img_path zero_region) = 24" by (simp add: d zero_region_def jit_path_def ascii_def hex2_def)
  then have "length (concat (meta_chunks [zero_region] self_syms)) < 200"
    using length_region_log_bytes [OF zero_wf]
    by (simp add: self_syms_def concat_meta_chunks length_sym_log_bytes)
  moreover have "length (img_bytes zero_region) = 4096" "img_size zero_region = of_nat (length (img_bytes zero_region))"
    by (simp_all add: zero_region_def)
  ultimately show "log_fits [] [zero_region] self_syms 7000"
    using zero_wf by (simp add: log_fits_def wf_sym_def self_syms_def)
  show "log_writable 3 [] [zero_region] self_syms" using zero_path by (simp add: log_writable_def self_syms_def)
  show "Suc (length [sample_ctx 0x1004 3 7, sample_ctx 0x2000 5 9]) * (size_full_ctx + size_max) \<le> 7000"
    by (simp add: size_full_ctx_def sync_frame_sz_def length_sync_hdr sizeof_ctx_def size_max_def rpc_num_changed_max_def)
qed

lemma session_reads_back:
  assumes env: "fastmod_ok e" "sort_ok e" and z: "compressor_ok z frame m" "decompressor_ok z frame"
    and new: "stalker_new e timer abi sha tfuel self csyms gm symbolicate level False k dir0 = Inr (st0, [])"
    and cs: "wf_ctx c0" "encodable_run c0 cs" and co: "callouts evs = map (Pair th) (c0 # cs)" and after: "16 \<le> length after"
    and regions: "regions = mr_regions (st_macho_regions st0)"
    and syms: "syms = chosen_syms tree (st_symbols st0) (pc_cover (map ctx_pc (c0 # cs)))"
    and fits: "log_fits [] regions syms n" "log_writable level [] regions syms" "Suc (length cs) * (size_full_ctx + size_max) \<le> n"
    and fuel: "Suc n * Suc m \<le> fuel" "m < fuel"
  shows "\<exists>st dir k' hs. stalker_session e timer evs st0 = Inr st \<and>
    stalker_delete z cores fuel tree after gm st [] = Inr (of_nat (Suc (length cs)), k', dir, hs) \<and>
    (\<forall>rfuel. (\<forall>(nm, bytes) \<in> set dir. length bytes + n < rfuel) \<longrightarrow>
      (\<exists>b. trace_log_read z e timer rfuel after dir =
          Inr \<lparr>pl_regions = st_macho_regions st0, pl_symbols = syms, pl_num_inst = of_nat (Suc (length cs)), pl_logs = [(ucast th, b)]\<rparr> \<and>
        extract_pcs_from_trace b = Inr (ctx_pc c0 # map ctx_pc (c0 # cs))))"
proof -
  from session_succeeds [OF env new cs co] obtain st t where st: "stalker_session e timer evs st0 = Inr st" "same_log st st0"
    "m_num_inst (st_log st) = of_nat (Suc (length cs))" "\<not> m_stream (st_log st)" "log_ctxs (st_log st) = [(ucast th, t)]"
    and t: "log_buf t = trace_bytes 0 (sync_every + 1) c0 (c0 # cs)" "num_inst t = of_nat (Suc (length cs))"
    "length (log_buf t) \<le> Suc (length cs) * (size_full_ctx + size_max)" "log_buf t \<noteq> []" .
  let ?ctxs = "[(ucast th, t)]"
  have same: "st_macho_regions st = st_macho_regions st0" "st_symbols st = st_symbols st0" "st_compression_level st = level"
    using st(2) new_stalker(4) [OF new] by (simp_all add: same_log_def)
  have pcs: "pc_intervals False after ?ctxs regions = Inr (pc_cover (map ctx_pc (c0 # cs)))"
    by (rule single_intervals [OF cs after t(1)])
  have lf: "log_fits ?ctxs regions syms n" by (rule fits_thread [OF fits(1)]) (use t(3) fits(3) in simp)
  have lw: "log_writable level ?ctxs regions syms" using fits(2) t(4) by (simp add: log_writable_def)
  from write_succeeds [OF z(1) pcs syms lf lw fuel] obtain dir hs where
    w: "trace_log_write z cores fuel tree after False level ?ctxs regions (st_symbols st0) [] = Inr (dir, hs)" by blast
  then have del: "\<exists>k'. stalker_delete z cores fuel tree after gm st [] = Inr (of_nat (Suc (length cs)), k', dir, hs)"
    by (simp add: stalker_delete_def write_trace_def st(3-5) same regions)
  have rd: "trace_log_read z e timer rfuel after dir =
      Inr \<lparr>pl_regions = st_macho_regions st0, pl_symbols = syms, pl_num_inst = of_nat (Suc (length cs)),
           pl_logs = [thread_log after (ucast th, t)]\<rparr>" if "\<forall>(nm, bytes) \<in> set dir. length bytes + n < rfuel" for rfuel
    using read_written_log [OF z w pcs syms lf fuel that, of e timer after] new_stalker(5) [OF new] t(2)
    by (simp add: regions syms chosen_sorted)
  have "after \<noteq> []" using after by auto
  then have "extract_pcs_from_trace (snd (thread_log after (ucast th, t))) = Inr (ctx_pc c0 # map ctx_pc (c0 # cs))"
    using pcs_read_back [OF cs, of after] after by (simp add: thread_log_def t(1))
  then show ?thesis using st(1) del rd by (metis prod.collapse thread_log_def fst_conv)
qed

section \<open>Properties\<close>



end
