(* ===== verification/Memmem.thy ===== *)
theory Memmem
  imports Prelude
begin

text \<open>
  The memory search of \<^verbatim>\<open>lib/xnu-trace/utils.cpp\<close>: \<^verbatim>\<open>horspool_memmem\<close> and the two-way string
  matching \<^verbatim>\<open>twoway_memmem\<close> it ends in.

  A pointer into the haystack is an offset, and a null pointer is None.  A \<^verbatim>\<open>size_t\<close> is an
  integer: only \<^verbatim>\<open>ip\<close> and \<^verbatim>\<open>ms\<close> are ever set to \<open>-1\<close>, they occur in sums with a positive number,
  and where \<^verbatim>\<open>ms\<close> is compared as such its value modulo \<open>2 ^ 64\<close> is written.  The loops whose end
  is not evident count their rounds down and end in \<open>Out_Of_Fuel\<close>.
\<close>

section \<open>Reading bytes\<close>

definition byte_at :: "buffer \<Rightarrow> int \<Rightarrow> byte res" where
  "byte_at bs i = (if 0 \<le> i \<and> i < int (length bs) then Inr (bs ! nat i) else Inl Out_Of_Bounds)"

definition memcmp :: "buffer \<Rightarrow> nat \<Rightarrow> nat \<Rightarrow> nat \<Rightarrow> bool res" where
  "memcmp bs a b n = and_then (load_bytes n bs a) (\<lambda>x. and_then (load_bytes n bs b) (\<lambda>y. Inr (x \<noteq> y)))"

definition memchr :: "buffer \<Rightarrow> byte \<Rightarrow> nat option" where
  "memchr bs b = find (\<lambda>i. bs ! i = b) [0..<length bs]"

section \<open>The preparation of the needle\<close>

text \<open>\<^verbatim>\<open>byteset\<close> has the bytes \<^verbatim>\<open>shift\<close> is set for.\<close>

definition shift_table :: "buffer \<Rightarrow> byte \<rightharpoonup> int" where
  "shift_table n = fold (\<lambda>i shift. shift(n ! i \<mapsto> int i + 1)) [0..<length n] Map.empty"

text \<open>The loop that computes a maximal suffix, for either comparison.\<close>

primrec maximal_suffix ::
    "nat \<Rightarrow> (byte \<Rightarrow> byte \<Rightarrow> bool) \<Rightarrow> buffer \<Rightarrow> int \<Rightarrow> int \<Rightarrow> int \<Rightarrow> int \<Rightarrow> (int \<times> int) res" where
  "maximal_suffix 0 gt n ip jp k p = Inl Out_Of_Fuel"
| "maximal_suffix (Suc fuel) gt n ip jp k p =
     (if jp + k < int (length n) then
        and_then (byte_at n (ip + k)) (\<lambda>a. and_then (byte_at n (jp + k)) (\<lambda>b.
          if a = b then
            if k = p then maximal_suffix fuel gt n ip (jp + p) 1 p
            else maximal_suffix fuel gt n ip jp (k + 1) p
          else if gt a b then maximal_suffix fuel gt n ip (jp + k) 1 (jp + k - ip)
          else maximal_suffix fuel gt n jp (jp + 1) 1 1))
      else Inr (ip, p))"

definition suffix_fuel :: "buffer \<Rightarrow> nat" where
  "suffix_fuel n = 3 * length n + 1"

record two_way =
  tw_ms :: int
  tw_p :: int
  tw_mem0 :: int

definition two_way_setup :: "buffer \<Rightarrow> two_way res" where
  "two_way_setup n =
     (let l = int (length n) in
      and_then (maximal_suffix (suffix_fuel n) (\<lambda>a b. a > b) n (- 1) 0 1 1) (\<lambda>(ms, p0).
      and_then (maximal_suffix (suffix_fuel n) (\<lambda>a b. a < b) n (- 1) 0 1 1) (\<lambda>(ip, p).
      let (ms, p) = (if ip + 1 > ms + 1 then (ip, p) else (ms, p0)) in
      and_then (memcmp n 0 (nat p) (nat (ms + 1))) (\<lambda>differ.
      Inr (if differ then \<lparr>tw_ms = ms, tw_p = (max (ms mod 2 ^ 64) (l - ms - 1) + 1) mod 2 ^ 64, tw_mem0 = 0\<rparr>
           else \<lparr>tw_ms = ms, tw_p = p, tw_mem0 = l - p\<rparr>)))))"

section \<open>The search\<close>

function compare_right :: "buffer \<Rightarrow> buffer \<Rightarrow> int \<Rightarrow> int \<Rightarrow> int res" where
  "compare_right n hs h k =
     (if k < int (length n) then
        and_then (byte_at n k) (\<lambda>a. and_then (byte_at hs (h + k)) (\<lambda>b.
          if a = b then compare_right n hs h (k + 1) else Inr k))
      else Inr k)"
  by pat_completeness auto
termination by (relation "measure (\<lambda>(n, hs, h, k). nat (int (length n) - k))") auto

function compare_left :: "buffer \<Rightarrow> buffer \<Rightarrow> int \<Rightarrow> int \<Rightarrow> int \<Rightarrow> int res" where
  "compare_left n hs h mem k =
     (if mem < k then
        and_then (byte_at n (k - 1)) (\<lambda>a. and_then (byte_at hs (h + k - 1)) (\<lambda>b.
          if a = b then compare_left n hs h mem (k - 1) else Inr k))
      else Inr k)"
  by pat_completeness auto
termination by (relation "measure (\<lambda>(n, hs, h, mem, k). nat (k - mem))") auto

declare compare_right.simps [simp del] compare_left.simps [simp del]

primrec two_way_search :: "nat \<Rightarrow> two_way \<Rightarrow> buffer \<Rightarrow> buffer \<Rightarrow> int \<Rightarrow> int \<Rightarrow> int option res" where
  "two_way_search 0 tw n hs h mem = Inl Out_Of_Fuel"
| "two_way_search (Suc fuel) tw n hs h mem =
     (let l = int (length n) in
      if int (length hs) - h < l then Inr None
      else and_then (byte_at hs (h + l - 1)) (\<lambda>last_byte.
        case shift_table n last_byte of
          None \<Rightarrow> two_way_search fuel tw n hs (h + l) 0
        | Some shift \<Rightarrow>
            let k = l - shift in
            if k \<noteq> 0 then two_way_search fuel tw n hs (h + (if k < mem then mem else k)) 0
            else and_then (compare_right n hs h (max (tw_ms tw + 1) mem)) (\<lambda>k.
              if k < l then two_way_search fuel tw n hs (h + (k - tw_ms tw)) 0
              else and_then (compare_left n hs h mem (tw_ms tw + 1)) (\<lambda>k.
                if k \<le> mem then Inr (Some h) else two_way_search fuel tw n hs (h + tw_p tw) (tw_mem0 tw)))))"

definition twoway_memmem :: "buffer \<Rightarrow> buffer \<Rightarrow> int option res" where
  "twoway_memmem hs n = and_then (two_way_setup n) (\<lambda>tw. two_way_search (length hs + 1) tw n hs 0 0)"

definition horspool_memmem :: "buffer \<Rightarrow> buffer \<Rightarrow> nat option res" where
  "horspool_memmem haystack needle =
     (if needle = [] then Inr (Some 0)
      else if length haystack < length needle then Inr None
      else case memchr haystack (needle ! 0) of
        None \<Rightarrow> Inr None
      | Some h \<Rightarrow>
          if length needle = 1 then Inr (Some h)
          else let hs = drop h haystack in
            if length hs < length needle then Inr None
            else and_then (twoway_memmem hs needle) (\<lambda>r. Inr (map_option (\<lambda>i. h + nat i) r)))"

text \<open>What it is for: the first place where the needle is.\<close>

definition first_occurrence :: "buffer \<Rightarrow> buffer \<Rightarrow> nat option" where
  "first_occurrence haystack needle =
     find (\<lambda>i. i + length needle \<le> length haystack \<and> take (length needle) (drop i haystack) = needle) [0..<Suc (length haystack)]"

end
