(* ===== verification/MaximalSuffix.thy ===== *)
theory MaximalSuffix
  imports Main "HOL-Library.List_Lexorder"
begin

text \<open>
  Maximal suffixes of a word, by positions: what the preparation of a two-way search computes
  and why it does.  The candidate starts at \<open>i\<close>; from \<open>i\<close> on the word has the period \<open>p\<close> as far as
  it was read, up to \<open>j + k\<close>, and its first period loses against none of its own suffixes.
\<close>

section \<open>Suffixes by position\<close>

definition agree :: "'a list \<Rightarrow> nat \<Rightarrow> nat \<Rightarrow> nat \<Rightarrow> bool" where
  "agree x a b e \<longleftrightarrow> (\<forall>f < e. x ! (a + f) = x ! (b + f))"

lemma agree_step: "agree x a b (Suc e) \<longleftrightarrow> x ! a = x ! b \<and> agree x (Suc a) (Suc b) e"
  by (auto simp: agree_def less_Suc_eq_0_disj)

lemma agree_sym: "agree x a b e \<Longrightarrow> agree x b a e"
  by (simp add: agree_def)

lemma drop_less:
  assumes "agree x a b e" and "a + e < length x" and "b + e < length x" and "x ! (a + e) < x ! (b + e)"
  shows "drop a x < drop b (x :: 'a::linorder list)"
  using assms
proof (induction e arbitrary: a b)
  case 0
  then show ?case by (simp add: Cons_nth_drop_Suc [symmetric])
next
  case (Suc e)
  then have "drop (Suc a) x < drop (Suc b) x" "x ! a = x ! b" by (simp_all add: agree_step)
  then show ?case using Suc.prems by (simp add: Cons_nth_drop_Suc [symmetric])
qed

lemma drop_le_nth:
  assumes "drop a x \<le> drop b (x :: 'a::linorder list)" and "agree x a b e" and "a + e < length x" and "b + e < length x"
  shows "x ! (a + e) \<le> x ! (b + e)"
proof (rule ccontr)
  assume "\<not> x ! (a + e) \<le> x ! (b + e)"
  with drop_less [OF agree_sym [OF assms(2)] assms(4,3)] have "drop b x < drop a x" by simp
  with assms(1) show False by (simp add: leD)
qed

lemma drop_prefix_less:
  assumes "agree x a b (length x - a)" and "b < a" and "a \<le> length x"
  shows "drop a x < drop b (x :: 'a::linorder list)"
  using assms
proof (induction "length x - a" arbitrary: a b)
  case 0
  then show ?case by (simp add: Cons_nth_drop_Suc [symmetric])
next
  case (Suc e)
  then have "length x - a = Suc (length x - Suc a)" by simp
  then have "agree x (Suc a) (Suc b) (length x - Suc a)" "x ! a = x ! b" using Suc.prems(1) by (simp_all add: agree_step)
  with Suc.hyps(1) [of "Suc a" "Suc b"] Suc.hyps(2) Suc.prems have "drop (Suc a) x < drop (Suc b) x" by simp
  then show ?case using \<open>x ! a = x ! b\<close> Suc.hyps(2) Suc.prems by (simp add: Cons_nth_drop_Suc [symmetric])
qed

definition max_suffix :: "'a::linorder list \<Rightarrow> nat \<Rightarrow> bool" where
  "max_suffix x c \<longleftrightarrow> c < length x \<and> (\<forall>s < length x. drop s x \<le> drop c x)"

definition beaten :: "'a::linorder list \<Rightarrow> nat \<Rightarrow> bool" where
  "beaten x s \<longleftrightarrow> (\<exists>t < length x. drop s x < drop t x)"

lemma max_suffix_exists:
  assumes "x \<noteq> []"
  obtains c where "max_suffix x c"
proof -
  let ?S = "(\<lambda>s. drop s x) ` {..<length x}"
  have f: "finite ?S" "?S \<noteq> {}" using assms by auto
  from Max_in [OF this] obtain c where c: "c < length x" "Max ?S = drop c x" by auto
  have "drop s x \<le> drop c x" if "s < length x" for s
    using Max_ge [OF f(1), of "drop s x"] that c(2) by simp
  with c that show thesis by (auto simp: max_suffix_def)
qed

lemma only_unbeaten:
  assumes "c < length x" and "\<And>s. s < length x \<Longrightarrow> s \<noteq> c \<Longrightarrow> beaten x s"
  shows "max_suffix x c"
proof -
  have "x \<noteq> []" using assms(1) by auto
  then obtain m where m: "max_suffix x m" by (rule max_suffix_exists)
  then have "\<not> beaten x m" "m < length x" by (auto simp: max_suffix_def beaten_def not_less [symmetric])
  with assms(2) have "m = c" by blast
  with m show ?thesis by simp
qed

section \<open>Periods\<close>

definition period :: "'a list \<Rightarrow> nat \<Rightarrow> nat \<Rightarrow> nat \<Rightarrow> bool" where
  "period x i m p \<longleftrightarrow> (\<forall>f. i + f + p < m \<longrightarrow> x ! (i + f) = x ! (i + f + p))"

lemma period_mult: "period x i m p \<Longrightarrow> i + f + q * p < m \<Longrightarrow> x ! (i + f) = x ! (i + f + q * p)"
proof (induction q)
  case 0
  then show ?case by simp
next
  case (Suc q)
  have "x ! (i + (f + q * p)) = x ! (i + (f + q * p) + p)"
    using Suc.prems(1) [unfolded period_def, rule_format, of "f + q * p"] Suc.prems(2) by (simp add: ac_simps)
  moreover have "x ! (i + f) = x ! (i + f + q * p)" using Suc.prems by (intro Suc.IH) simp_all
  ultimately show ?case by (simp add: ac_simps)
qed

lemma period_mod:
  assumes "period x i m p" and "i + f < m"
  shows "x ! (i + f) = x ! (i + f mod p)"
  using period_mult [OF assms(1), of "f mod p" "f div p"] assms(2)
  by (simp add: add.assoc mult.commute [of _ p])

text \<open>Every proper suffix of the first period loses within it.\<close>

definition winning :: "'a::linorder list \<Rightarrow> nat \<Rightarrow> nat \<Rightarrow> bool" where
  "winning x i p \<longleftrightarrow> 0 < p \<and> (\<forall>t. 0 < t \<and> t < p \<longrightarrow>
     (\<exists>e. t + e < p \<and> agree x (i + t) i e \<and> x ! (i + t + e) < x ! (i + e)))"

lemma winning_minimal:
  assumes "winning x i p" and "i + p \<le> m" and "0 < t" "t < p"
  shows "\<not> period x i m t"
proof -
  from assms obtain e where "t + e < p" "x ! (i + t + e) < x ! (i + e)" by (auto simp: winning_def)
  then show ?thesis using assms(2) by (auto simp: period_def ac_simps intro!: exI [of _ e])
qed

section \<open>The invariant of the computation\<close>

definition ms_inv :: "'a::linorder list \<Rightarrow> nat \<Rightarrow> nat \<Rightarrow> nat \<Rightarrow> nat \<Rightarrow> bool" where
  "ms_inv x i j k p \<longleftrightarrow> k < p \<and> i < j \<and> p dvd j - i \<and> j + k \<le> length x \<and> period x i (j + k) p \<and>
     winning x i p \<and> (\<forall>s < i. beaten x s)"

lemma ms_inv_init: "x \<noteq> [] \<Longrightarrow> ms_inv x 0 1 0 1"
  by (cases x) (auto simp: ms_inv_def period_def winning_def)

lemma ms_inv_progress: "ms_inv x i j k p \<Longrightarrow> p \<le> j - i"
  by (auto simp: ms_inv_def dvd_imp_le)

lemma ms_inv_copies:
  assumes "ms_inv x i j k p"
  shows "agree x i j k"
proof -
  from assms obtain q where q: "j = i + q * p" by (auto simp: ms_inv_def dvd_def mult.commute)
      (metis less_imp_le_nat le_add_diff_inverse)
  then show ?thesis
    using assms period_mult [of x i "j + k" p _ q] by (auto simp: ms_inv_def agree_def ac_simps)
qed

lemma ms_inv_mod: "ms_inv x i j k p \<Longrightarrow> f < j - i + k \<Longrightarrow> x ! (i + f) = x ! (i + f mod p)"
  by (rule period_mod [of x i "j + k"]) (auto simp: ms_inv_def)

lemma ms_inv_residue: "ms_inv x i j k p \<Longrightarrow> (j - i + k) mod p = k"
  unfolding ms_inv_def by (metis add_0 dvd_imp_mod_0 mod_add_left_eq mod_less)

text \<open>The three ways of going on.\<close>

lemma ms_step_equal:
  assumes inv: "ms_inv x i j k p" and r: "j + k < length x" and eq: "x ! (i + k) = x ! (j + k)"
  shows "if Suc k = p then ms_inv x i (j + p) 0 p else ms_inv x i j (Suc k) p"
proof -
  have "period x i (Suc (j + k)) p"
    unfolding period_def
  proof (intro allI impI)
    fix f assume f: "i + f + p < Suc (j + k)"
    show "x ! (i + f) = x ! (i + f + p)"
    proof (cases "i + f + p < j + k")
      case True
      then show ?thesis using inv by (simp add: ms_inv_def period_def)
    next
      case False
      then have e: "i + f + p = j + k" using f by simp
      then have "f + p = j - i + k" using inv by (simp add: ms_inv_def)
      then have "f mod p = k" using ms_inv_residue [OF inv] by (metis mod_add_self2)
      moreover have "f < j - i + k" using \<open>f + p = j - i + k\<close> inv by (simp add: ms_inv_def)
      ultimately show ?thesis using ms_inv_mod [OF inv, of f] e eq by simp
    qed
  qed
  moreover have "Suc k = p \<Longrightarrow> p dvd j + p - i"
    using inv by (simp add: ms_inv_def)
      (metis Nat.add_diff_assoc2 dvd_add_triv_right_iff less_imp_le_nat)
  ultimately show ?thesis using inv r by (auto simp: ms_inv_def)
qed

lemma ms_step_greater:
  assumes inv: "ms_inv x i j k p" and r: "j + k < length x" and gt: "x ! (j + k) < x ! (i + k)"
  shows "ms_inv x i (Suc (j + k)) 0 (Suc (j + k) - i)"
proof -
  let ?n = "j - i + k"
  have ij: "i < j" and p: "0 < p" and w: "winning x i p" using inv by (auto simp: ms_inv_def)
  have n: "i + ?n = j + k" "Suc (j + k) - i = Suc ?n" using ij by simp_all
  have "\<exists>e. t + e < Suc ?n \<and> agree x (i + t) i e \<and> x ! (i + t + e) < x ! (i + e)" if t: "0 < t" "t \<le> ?n" for t
  proof (cases "t mod p = 0")
    case True
    have sh: "(t + f) mod p = f mod p" for f using True by (metis add_0 mod_add_left_eq)
    have "x ! (i + (t + f)) = x ! (i + f)" if "f < ?n - t" for f
      using ms_inv_mod [OF inv, of "t + f"] ms_inv_mod [OF inv, of f] sh that by simp
    then have ag: "agree x (i + t) i (?n - t)" by (simp add: agree_def add.assoc)
    have "(?n - t) mod p = k" using sh [of "?n - t"] t(2) ms_inv_residue [OF inv] by simp
    then have "x ! (i + (?n - t)) = x ! (i + k)" using ms_inv_mod [OF inv, of "?n - t"] t by simp
    then have "x ! (i + t + (?n - t)) < x ! (i + (?n - t))" using gt n(1) t(2) by simp
    with ag t(2) show ?thesis by (intro exI [of _ "?n - t"]) simp
  next
    case False
    let ?u = "t mod p"
    have "0 < ?u" "?u < p" using False p by simp_all
    with w obtain e where e: "?u + e < p" "agree x (i + ?u) i e" "x ! (i + ?u + e) < x ! (i + e)"
      by (auto simp: winning_def)
    have sh: "x ! (i + (t + f)) = x ! (i + (?u + f))" if "f \<le> e" "t + f < ?n" for f
    proof -
      have "(t + f) mod p = (?u + f) mod p" by (simp add: mod_add_left_eq)
      also have "\<dots> = ?u + f" using e(1) that(1) by simp
      finally show ?thesis using ms_inv_mod [OF inv, of "t + f"] that(2) by simp
    qed
    have ag: "agree x (i + t) i f" if "f \<le> e" "t + f \<le> ?n" for f
      using sh e(2) that by (auto simp: agree_def add.assoc)
    show ?thesis
    proof (cases "t + e < ?n")
      case True
      then show ?thesis using ag [of e] sh [of e] e(3) by (intro exI [of _ e]) (simp add: add.assoc)
    next
      case no: False
      let ?e = "?n - t"
      have le: "?e \<le> e" using no by simp
      have "?u + ?e = k"
      proof -
        have "(?u + ?e) mod p = (t + ?e) mod p" by (simp only: mod_add_left_eq)
        then have "(?u + ?e) mod p = ?n mod p" using t(2) by simp
        then show ?thesis using le e(1) ms_inv_residue [OF inv] by simp
      qed
      then have "x ! (i + k) = x ! (i + ?u + ?e)" by (simp add: add.assoc)
      also have "\<dots> \<le> x ! (i + ?e)"
      proof (cases "?e = e")
        case True
        show ?thesis using e(3) unfolding True by simp
      next
        case False
        then show ?thesis using e(2) le by (simp add: agree_def)
      qed
      finally have "x ! (i + k) \<le> x ! (i + ?e)" .
      then have "x ! (i + t + ?e) < x ! (i + ?e)" using gt n(1) t(2) by simp
      then show ?thesis using ag [of ?e] le t(2) by (intro exI [of _ ?e]) simp
    qed
  qed
  then have "winning x i (Suc ?n)" by (auto simp: winning_def less_Suc_eq_le)
  then show ?thesis using inv r n by (auto simp: ms_inv_def period_def)
qed

lemma ms_step_less:
  assumes inv: "ms_inv x i j k p" and r: "j + k < length x" and lt: "x ! (i + k) < x ! (j + k)"
  shows "ms_inv x j (Suc j) 0 1"
proof -
  have ij: "i < j" and p: "0 < p" "k < p" and w: "winning x i p" using inv by (auto simp: ms_inv_def)
  have "beaten x s" if s: "i \<le> s" "s < j" for s
  proof -
    define t where "t = s - i"
    have t: "s = i + t" "t < j - i" using s by (simp_all add: t_def)
    show ?thesis
    proof (cases "t mod p = 0")
      case True
      have "x ! (i + (t + f)) = x ! (i + f)" if "f \<le> k" for f
      proof -
        have "(t + f) mod p = f" using True that p by (metis add_0 le_less_trans mod_add_left_eq mod_less)
        then show ?thesis using ms_inv_mod [OF inv, of "t + f"] t(2) that by simp
      qed
      moreover have "x ! (i + f) = x ! (j + f)" if "f < k" for f
        using ms_inv_copies [OF inv] that by (simp add: agree_def)
      ultimately have "agree x s j k" "x ! (s + k) < x ! (j + k)" using lt by (simp_all add: agree_def t(1) add.assoc)
      then have "drop s x < drop j x" using r s by (intro drop_less) simp_all
      then show ?thesis using r by (auto simp: beaten_def intro!: exI [of _ j])
    next
      case False
      let ?u = "t mod p"
      have "0 < ?u" "?u < p" using False p by simp_all
      with w obtain e where e: "?u + e < p" "agree x (i + ?u) i e" "x ! (i + ?u + e) < x ! (i + e)"
        by (auto simp: winning_def)
      obtain q where q: "j - i = q * p" using inv by (auto simp: ms_inv_def dvd_def mult.commute)
      have "t div p < q" using t(2) unfolding q by (simp add: less_mult_imp_div_less)
      then have "Suc (t div p) * p \<le> j - i" unfolding q by (intro mult_le_mono) simp_all
      then have "p + t div p * p \<le> j - i" by simp
      then have b: "t + e < j - i" using e(1) div_mult_mod_eq [of t p] by linarith
      have sh: "x ! (i + (t + f)) = x ! (i + (?u + f))" if "f \<le> e" for f
      proof -
        have "(t + f) mod p = (?u + f) mod p" by (simp add: mod_add_left_eq)
        also have "\<dots> = ?u + f" using e(1) that by simp
        finally show ?thesis using ms_inv_mod [OF inv, of "t + f"] b that by simp
      qed
      then have "agree x s i e" "x ! (s + e) < x ! (i + e)" using e(2,3) by (simp_all add: agree_def t(1) add.assoc)
      then have "drop s x < drop i x" using r b t ij by (intro drop_less) simp_all
      then show ?thesis using r ij by (auto simp: beaten_def intro!: exI [of _ i])
    qed
  qed
  then have "\<forall>s < j. beaten x s" using inv by (auto simp: ms_inv_def not_less [symmetric])
  then show ?thesis using r by (auto simp: ms_inv_def period_def winning_def)
qed

text \<open>At the end of the word the candidate is the maximal suffix and \<open>p\<close> its least period.\<close>

lemma ms_inv_final:
  assumes inv: "ms_inv x i j k p" and e: "length x \<le> j + k"
  shows "max_suffix x i" and "0 < p" and "i + p \<le> length x" and "period x i (length x) p"
    and "0 < t \<Longrightarrow> t < p \<Longrightarrow> \<not> period x i (length x) t"
proof -
  have len: "j + k = length x" and w: "winning x i p" and ij: "i < j" using inv e by (auto simp: ms_inv_def)
  show "0 < p" using inv by (auto simp: ms_inv_def)
  show ip: "i + p \<le> length x" using ms_inv_progress [OF inv] len ij by simp
  show per: "period x i (length x) p" using inv len by (simp add: ms_inv_def)
  show "\<not> period x i (length x) t" if "0 < t" "t < p" using winning_minimal [OF w ip that] .
  show "max_suffix x i"
  proof (rule only_unbeaten)
    show "i < length x" using ip \<open>0 < p\<close> by simp
    fix s assume s: "s < length x" "s \<noteq> i"
    show "beaten x s"
    proof (cases "s < i")
      case True
      then show ?thesis using inv by (simp add: ms_inv_def)
    next
      case False
      then obtain t where t: "s = i + t" "0 < t" using s(2) by (metis le_add_diff_inverse not_less zero_less_diff nat_less_le)
      show ?thesis
      proof (cases "agree x s i (length x - s)")
        case True
        then have "drop s x < drop i x" using t s(1) by (intro drop_prefix_less) simp_all
        then show ?thesis using \<open>i < length x\<close> by (auto simp: beaten_def intro!: exI [of _ i])
      next
        case no: False
        define u where "u = t mod p"
        have "u \<noteq> 0"
        proof
          assume "u = 0"
          then have "(t + f) mod p = f mod p" for f unfolding u_def by (metis add_0 mod_add_left_eq)
          then have "x ! (i + (t + f)) = x ! (i + f)" if "i + (t + f) < length x" for f
            using period_mod [OF per that] period_mod [OF per, of f] that by simp
          then have "agree x s i (length x - s)" using t(1) by (simp add: agree_def add.assoc)
          with no show False by simp
        qed
        then obtain e where e: "u + e < p" "agree x (i + u) i e" "x ! (i + u + e) < x ! (i + e)"
          using w \<open>0 < p\<close> by (auto simp: winning_def u_def)
        have sh: "x ! (s + f) = x ! (i + u + f)" if "f \<le> e" "s + f < length x" for f
        proof -
          have "(t + f) mod p = (u + f) mod p" by (simp add: u_def mod_add_left_eq)
          also have "\<dots> = u + f" using e(1) that by simp
          finally show ?thesis using period_mod [OF per, of "t + f"] that(2) t(1) by (simp add: add.assoc)
        qed
        have "s + e < length x"
        proof (rule ccontr)
          assume "\<not> s + e < length x"
          then have "agree x s i (length x - s)" using sh e(2) by (auto simp: agree_def)
          with no show False by simp
        qed
        moreover from this have "agree x s i e" "x ! (s + e) < x ! (i + e)" using sh e(2,3) by (auto simp: agree_def)
        ultimately have "drop s x < drop i x" using t by (intro drop_less) simp_all
        then show ?thesis using \<open>i < length x\<close> by (auto simp: beaten_def intro!: exI [of _ i])
      qed
    qed
  qed
qed

section \<open>Cutting a needle at a maximal suffix\<close>

text \<open>
  The cut \<open>c\<close> starts the shorter one of the maximal suffixes for two opposite orders, given by
  two ranks of the letters, and \<open>p\<close> is that suffix's least period.
\<close>

definition cut :: "'a list \<Rightarrow> nat \<Rightarrow> nat \<Rightarrow> bool" where
  "cut x c p \<longleftrightarrow> (\<exists>(f :: 'a \<Rightarrow> int) (g :: 'a \<Rightarrow> int) c2. inj f \<and> inj g \<and> (\<forall>a b. f a < f b \<longleftrightarrow> g b < g a) \<and> c2 \<le> c \<and>
       max_suffix (map f x) c \<and> max_suffix (map g x) c2) \<and>
     0 < p \<and> c + p \<le> length x \<and> period x c (length x) p \<and> (\<forall>t. 0 < t \<and> t < p \<longrightarrow> \<not> period x c (length x) t)"

lemma agree_map: "agree x a b e \<Longrightarrow> a + e \<le> length x \<Longrightarrow> b + e \<le> length x \<Longrightarrow> agree (map f x) a b e"
  by (auto simp: agree_def)

lemma map_period: "inj f \<Longrightarrow> period (map f x) i (length x) p \<longleftrightarrow> period x i (length x) p"
  by (auto simp: period_def inj_eq)

lemma common_prefix: "w @ a \<le> w @ b \<longleftrightarrow> a \<le> (b :: 'a::linorder list)"
  by (induction w) auto

lemma drop_split: "agree x a b e \<Longrightarrow> a + e \<le> length x \<Longrightarrow> b + e \<le> length x \<Longrightarrow>
    \<exists>w. drop a x = w @ drop (a + e) x \<and> drop b x = w @ drop (b + e) x"
proof -
  assume h: "agree x a b e" "a + e \<le> length x" "b + e \<le> length x"
  then have "take e (drop a x) = take e (drop b x)" by (intro nth_equalityI) (auto simp: agree_def)
  then show ?thesis
    by (intro exI [of _ "take e (drop a x)"]) (metis append_take_drop_id drop_drop add.commute)
qed

text \<open>Nothing of the length of the left part or shorter repeats across the cut.\<close>

lemma no_repetition:
  assumes "cut x c p" and "0 < d" "d \<le> c"
  shows "\<exists>j. c - d \<le> j \<and> j < c \<and> j + d < length x \<and> x ! j \<noteq> x ! (j + d)"
proof (rule ccontr)
  assume "\<not> ?thesis"
  then have eq: "x ! j = x ! (j + d)" if "c - d \<le> j" "j < c" "j + d < length x" for j using that by blast
  obtain f :: "'a \<Rightarrow> int" where ms: "max_suffix (map f x) c" using assms(1) by (auto simp: cut_def)
  let ?x = "map f x" and ?e = "min d (length x - c)"
  have c: "c < length x" using ms by (simp add: max_suffix_def)
  have "agree x (c - d) c ?e"
    using eq [of "c - d + j" for j] assms(3) by (auto simp: agree_def)
  then have ag: "agree ?x (c - d) c ?e" using c assms(3) by (intro agree_map) auto
  have "c - d + ?e \<le> length ?x" "c + ?e \<le> length ?x" using c by auto
  from drop_split [OF ag this] obtain w where
    w: "drop (c - d) ?x = w @ drop (c - d + ?e) ?x" "drop c ?x = w @ drop (c + ?e) ?x" by blast
  have "drop (c - d) ?x \<le> drop c ?x" using ms c assms(3) by (simp add: max_suffix_def)
  with w have le: "drop (c - d + ?e) ?x \<le> drop (c + ?e) ?x" by (simp add: common_prefix)
  show False
  proof (cases "d \<le> length x - c")
    case True
    then have le: "drop c ?x \<le> drop (c + d) ?x" using le assms(3) by (simp add: min_def)
    show False
    proof (cases "c + d < length x")
      case less: True
      then have "drop (c + d) ?x \<le> drop c ?x" using ms by (simp add: max_suffix_def)
      with le have "drop c ?x = drop (c + d) ?x" by simp
      from arg_cong [OF this, of length] show False using less assms(2) by simp
    next
      case False
      then show False using le c by simp
    qed
  next
    case False
    then have "drop (c + ?e) ?x = []" by simp
    moreover have "drop (c - d + ?e) ?x \<noteq> []" using False c assms(3) by simp
    ultimately show False using le by simp
  qed
qed

text \<open>What repeats the left part repeats throughout.\<close>

lemma repetition_extends:
  assumes "cut x c p" and "0 < r" "c + r \<le> length x" and u: "\<And>j. j < c \<Longrightarrow> x ! j = x ! (j + r)"
  shows "period x 0 (length x) r"
proof (rule ccontr)
  assume "\<not> ?thesis"
  then obtain j0 where "j0 + r < length x \<and> x ! j0 \<noteq> x ! (j0 + r)" by (auto simp: period_def)
  then have "\<exists>j. j + r < length x \<and> x ! j \<noteq> x ! (j + r)" by blast
  then obtain j where j: "j + r < length x" "x ! j \<noteq> x ! (j + r)"
    and least: "\<forall>i < j. \<not> (i + r < length x \<and> x ! i \<noteq> x ! (i + r))"
    using exists_least_iff [of "\<lambda>j. j + r < length x \<and> x ! j \<noteq> x ! (j + r)"] by blast
  have cj: "c \<le> j" using u j(2) by (meson not_le)
  have same: "x ! i = x ! (i + r)" if "i < j" for i using least j(1) that by auto
  have ord: "h (x ! (j + r)) \<le> h (x ! j)" if "max_suffix (map h x) b" "b \<le> c" for h :: "'a \<Rightarrow> int" and b
  proof -
    have "drop (b + r) (map h x) \<le> drop b (map h x)" using that(1,2) cj j(1) by (simp add: max_suffix_def)
    moreover have "agree (map h x) (b + r) b (j - b)"
      using same [of "b + i" for i] cj that(2) j(1) by (auto simp: agree_def ac_simps)
    ultimately show ?thesis
      using drop_le_nth [of "b + r" "map h x" b "j - b"] cj that(2) j(1) by (simp add: ac_simps)
  qed
  obtain f g :: "'a \<Rightarrow> int" and c2 where fg: "inj f" "\<forall>a b. f a < f b \<longleftrightarrow> g b < g a" "c2 \<le> c"
    "max_suffix (map f x) c" "max_suffix (map g x) c2" using assms(1) unfolding cut_def by blast
  have "f (x ! (j + r)) < f (x ! j)" using ord [OF fg(4)] fg(1) j(2) by (metis inj_eq less_le order_refl)
  moreover have "\<not> g (x ! j) < g (x ! (j + r))" using ord [OF fg(5,3)] by simp
  ultimately show False using fg(2) by blast
qed

lemma period_exceeds_cut:
  assumes "cut x c p" and "\<And>j. j < c \<Longrightarrow> x ! j = x ! (j + p)"
  shows "c < p" and "period x 0 (length x) p"
proof -
  have p: "0 < p" "c + p \<le> length x" using assms(1) by (simp_all add: cut_def)
  show "c < p"
  proof (rule ccontr)
    assume "\<not> c < p"
    with no_repetition [OF assms(1) p(1)] assms(2) show False by auto
  qed
  show "period x 0 (length x) p" by (rule repetition_extends [OF assms(1) p assms(2)])
qed

text \<open>When the left part does not continue the period of the right part, nothing short repeats.\<close>

lemma aperiodic:
  assumes cut: "cut x c p" and np: "j < c" "x ! j \<noteq> x ! (j + p)" and d: "c < d" "c + d \<le> length x"
    and rep: "\<And>j. j < c \<Longrightarrow> x ! j = x ! (j + d)"
  shows False
proof -
  have p: "0 < p" "period x c (length x) p" using cut by (simp_all add: cut_def)
  define r where "r = (if d mod p = 0 then p else d mod p)"
  have r: "0 < r" "r \<le> p" using p(1) by (simp_all add: r_def less_imp_le)
  have rd: "r \<le> d" using p(1) d(1) by (auto simp: r_def dvd_imp_le)
  have "\<exists>q. d = r + q * p"
  proof (cases "d mod p = 0")
    case True
    then show ?thesis using rd by (auto simp: r_def dvd_def intro!: exI [of _ "d div p - 1"] simp: algebra_simps)
  next
    case False
    then show ?thesis by (intro exI [of _ "d div p"]) (simp add: r_def)
  qed
  then obtain q where q: "d = r + q * p" by blast
  have sh: "x ! j = x ! (j + r)" if "j < c" "c \<le> j + r" for j
  proof -
    have "x ! j = x ! (j + d)" by (rule rep [OF that(1)])
    also have "\<dots> = x ! (j + r)"
      using period_mult [OF p(2), of "j + r - c" q] that d(2) q by (simp add: ac_simps)
    finally show ?thesis .
  qed
  show False
  proof (cases "r \<le> c")
    case True
    from no_repetition [OF cut r(1) True] sh show False by fastforce
  next
    case False
    then have all: "x ! j = x ! (j + r)" if "j < c" for j using sh that by simp
    have "r \<noteq> p" using all np by auto
    then have "\<not> period x c (length x) r" using cut r by (simp add: cut_def)
    moreover have "period x 0 (length x) r"
      using d(2) rd by (intro repetition_extends [OF cut r(1) _ all]) simp_all
    ultimately show False by (auto simp: period_def)
  qed
qed

end
