(* ===== verification/MemmemProps.thy ===== *)
theory MemmemProps
  imports Memmem MaximalSuffix
begin

text \<open>
  The two-way search returns the first occurrence of the needle: what the loops that prepare the
  needle compute, why each way of moving on in the haystack skips no occurrence, and the
  search as a whole, which reads inside its buffers only and ends within the rounds given.
\<close>

section \<open>Occurrences that are skipped\<close>

definition occurs :: "'a list \<Rightarrow> 'a list \<Rightarrow> nat \<Rightarrow> bool" where
  "occurs n hs i \<longleftrightarrow> i + length n \<le> length hs \<and> (\<forall>j < length n. hs ! (i + j) = n ! j)"

text \<open>An occurrence further on repeats what has been matched.\<close>

lemma occurs_repeats:
  assumes "occurs n hs (h + d)" and "hs ! (h + (j + d)) = n ! (j + d)" and "j + d < length n"
  shows "n ! j = n ! (j + d)"
proof -
  have "hs ! (h + d + j) = n ! j" using assms(1,3) by (auto simp: occurs_def)
  then show ?thesis using assms(2) by (simp add: ac_simps)
qed

lemma skip_right_mismatch:
  assumes cut: "cut n c p" and m: "\<And>j. c \<le> j \<Longrightarrow> j < k \<Longrightarrow> hs ! (h + j) = n ! j" and k: "c \<le> k" "k < length n"
    and mis: "hs ! (h + k) \<noteq> n ! k" and d: "d \<le> k - c"
  shows "\<not> occurs n hs (h + d)"
proof
  assume o: "occurs n hs (h + d)"
  have rep: "n ! j = n ! (j + d)" if "c \<le> j + d" "j + d < k" for j
    using that k by (intro occurs_repeats [OF o] m) simp_all
  have "hs ! (h + d + (k - d)) = n ! (k - d)" using o k(2) by (auto simp: occurs_def)
  then have mis': "n ! (k - d) \<noteq> n ! k" using mis d by simp
  then have "0 < d" by (cases d) simp_all
  show False
  proof (cases "d \<le> c")
    case True
    from no_repetition [OF cut \<open>0 < d\<close> True] obtain j where j: "c - d \<le> j" "j < c" "n ! j \<noteq> n ! (j + d)" by blast
    then have "c \<le> j + d" "j + d < k" using d k by linarith+
    with rep j(3) show False by blast
  next
    case False
    have "period n 0 (length n) d"
      using d k False by (intro repetition_extends [OF cut \<open>0 < d\<close>] rep) simp_all
    then have "n ! (0 + (k - d)) = n ! (0 + (k - d) + d)"
      unfolding period_def using d k by (metis add.commute add_0 diff_le_self le_add_diff_inverse2 le_trans)
    with mis' d show False by simp
  qed
qed

lemma skip_periodic:
  assumes cut: "cut n c p" and m: "\<And>j. c \<le> j \<Longrightarrow> j < length n \<Longrightarrow> hs ! (h + j) = n ! j"
    and d: "0 < d" "d < p"
  shows "\<not> occurs n hs (h + d)"
proof
  assume o: "occurs n hs (h + d)"
  have rep: "n ! j = n ! (j + d)" if "c \<le> j + d" "j + d < length n" for j
    using that by (intro occurs_repeats [OF o] m) simp_all
  show False
  proof (cases "d \<le> c")
    case True
    from no_repetition [OF cut d(1) True] rep show False by fastforce
  next
    case False
    then have "period n c (length n) d" using rep by (auto simp: period_def ac_simps)
    with cut d show False by (simp add: cut_def)
  qed
qed

lemma skip_aperiodic:
  assumes cut: "cut n c p" and m: "\<And>j. c \<le> j \<Longrightarrow> j < length n \<Longrightarrow> hs ! (h + j) = n ! j"
    and np: "j0 < c" "n ! j0 \<noteq> n ! (j0 + p)" and d: "0 < d" "d < max c (length n - c + 1)"
  shows "\<not> occurs n hs (h + d)"
proof
  assume o: "occurs n hs (h + d)"
  have rep: "n ! j = n ! (j + d)" if "c \<le> j + d" "j + d < length n" for j
    using that by (intro occurs_repeats [OF o] m) simp_all
  show False
  proof (cases "d \<le> c")
    case True
    from no_repetition [OF cut d(1) True] rep show False by fastforce
  next
    case False
    then have "c < d" "c + d \<le> length n" using d cut by (auto simp: cut_def)
    then show False using rep by (intro aperiodic [OF cut np, of d]) simp_all
  qed
qed

lemma skip_remembered:
  assumes per: "period n 0 (length n) p" "0 < p" and m: "\<And>j. j < length n - p \<Longrightarrow> hs ! (h + j) = n ! j"
    and mis: "hs ! (h + (length n - 1)) \<noteq> n ! (length n - 1)" and d: "d < length n - p"
  shows "\<not> occurs n hs (h + d)"
proof
  assume o: "occurs n hs (h + d)"
  let ?e = "length n - 1"
  have step: "n ! f = n ! (f + p)" if "f + p < length n" for f
    using per(1) that unfolding period_def by (metis add_0)
  have a: "hs ! (h + d + j) = n ! j" if "j < length n" for j using o that by (simp add: occurs_def)
  have "hs ! (h + ?e) = n ! (?e - d)" using a [of "?e - d"] d per(2) by simp
  moreover have "hs ! (h + (?e - p)) = n ! (?e - p - d)" using a [of "?e - p - d"] d per(2) by simp
  moreover have "n ! (?e - p - d) = n ! (?e - d)" using step [of "?e - p - d"] d per(2) by simp
  moreover have "hs ! (h + (?e - p)) = n ! (?e - p)" using m [of "?e - p"] d per(2) by simp
  moreover have "n ! (?e - p) = n ! ?e" using step [of "?e - p"] d per(2) by simp
  ultimately show False using mis d per(2) by simp
qed

section \<open>The loops that prepare the needle\<close>

lemma byte_at_ok [simp]: "i < length bs \<Longrightarrow> byte_at bs (int i) = Inr (bs ! i)"
  by (simp add: byte_at_def)

lemma maximal_suffix_run:
  assumes inj: "inj f" and gt: "\<And>a b. gt a b \<longleftrightarrow> f b < (f a :: int)" and inv: "ms_inv (map f n) i j k p"
    and fuel: "2 * length n < fuel + (i + j + k)"
  shows "\<exists>c q. maximal_suffix fuel gt n (int i - 1) (int j - 1) (int k + 1) (int p) = Inr (int c - 1, int q) \<and>
    max_suffix (map f n) c \<and> 0 < q \<and> c + q \<le> length n \<and> period n c (length n) q \<and>
    (\<forall>t. 0 < t \<and> t < q \<longrightarrow> \<not> period n c (length n) t)"
  using inv fuel
proof (induction fuel arbitrary: i j k p)
  case 0
  then show ?case by (simp add: ms_inv_def)
next
  case (Suc fuel)
  note inv = Suc.prems(1)
  have ij: "i < j" and kp: "k < p" using inv by (auto simp: ms_inv_def)
  have progress: "i + k < j" using ms_inv_progress [OF inv] kp by simp
  show ?case
  proof (cases "j + k < length n")
    case False
    then have e: "length (map f n) \<le> j + k" by simp
    note fin = ms_inv_final [OF inv e]
    have "\<not> int j - 1 + (int k + 1) < int (length n)" using False by simp
    then show ?thesis
      using fin(1-4) fin(5) map_period [OF inj] by (intro exI [of _ i] exI [of _ p]) auto
  next
    case True
    have len: "i + k < length n" using True progress by simp
    have rd: "int j - 1 + (int k + 1) = int (j + k)" "int i - 1 + (int k + 1) = int (i + k)" by simp_all
    have go: "maximal_suffix fuel gt n (int i - 1) (int j - 1 + int p) 1 (int p) =
        maximal_suffix fuel gt n (int i - 1) (int (j + p) - 1) (int 0 + 1) (int p)"
      "maximal_suffix fuel gt n (int i - 1) (int j - 1) (int k + 1 + 1) (int p) =
        maximal_suffix fuel gt n (int i - 1) (int j - 1) (int (Suc k) + 1) (int p)"
      "maximal_suffix fuel gt n (int i - 1) (int (j + k)) 1 (int (j + k) - (int i - 1)) =
        maximal_suffix fuel gt n (int i - 1) (int (Suc (j + k)) - 1) (int 0 + 1) (int (Suc (j + k) - i))"
      "maximal_suffix fuel gt n (int j - 1) (int j - 1 + 1) 1 1 = maximal_suffix fuel gt n (int j - 1) (int (Suc j) - 1) (int 0 + 1) (int 1)"
      using ij by (simp_all add: of_nat_diff algebra_simps)
    have kp': "int k + 1 = int p \<longleftrightarrow> Suc k = p" by auto
    have unf: "maximal_suffix (Suc fuel) gt n (int i - 1) (int j - 1) (int k + 1) (int p) =
      (if n ! (i + k) = n ! (j + k) then
         if Suc k = p then maximal_suffix fuel gt n (int i - 1) (int (j + p) - 1) (int 0 + 1) (int p)
         else maximal_suffix fuel gt n (int i - 1) (int j - 1) (int (Suc k) + 1) (int p)
       else if f (n ! (j + k)) < f (n ! (i + k))
         then maximal_suffix fuel gt n (int i - 1) (int (Suc (j + k)) - 1) (int 0 + 1) (int (Suc (j + k) - i))
         else maximal_suffix fuel gt n (int j - 1) (int (Suc j) - 1) (int 0 + 1) (int 1))"
    proof -
      have "maximal_suffix (Suc fuel) gt n (int i - 1) (int j - 1) (int k + 1) (int p) =
        (if n ! (i + k) = n ! (j + k) then
           if int k + 1 = int p then maximal_suffix fuel gt n (int i - 1) (int j - 1 + int p) 1 (int p)
           else maximal_suffix fuel gt n (int i - 1) (int j - 1) (int k + 1 + 1) (int p)
         else if gt (n ! (i + k)) (n ! (j + k))
           then maximal_suffix fuel gt n (int i - 1) (int (j + k)) 1 (int (j + k) - (int i - 1))
           else maximal_suffix fuel gt n (int j - 1) (int j - 1 + 1) 1 1)"
        unfolding maximal_suffix.simps rd using True len by (simp del: of_nat_add)
      then show ?thesis unfolding gt [of "n ! (i + k)" "n ! (j + k)"] go kp' .
    qed
    have rf: "j + k < length (map f n)" using True by simp
    consider "n ! (i + k) = n ! (j + k)" "Suc k = p" | "n ! (i + k) = n ! (j + k)" "Suc k \<noteq> p"
      | "f (n ! (j + k)) < f (n ! (i + k))" | "f (n ! (i + k)) < f (n ! (j + k))"
      using inj by (metis inj_eq linorder_neqE)
    then show ?thesis
    proof cases
      case 1
      then have "ms_inv (map f n) i (j + p) 0 p" using ms_step_equal [OF inv rf] True len by simp
      from Suc.IH [OF this] Suc.prems(2) 1 kp show ?thesis unfolding unf by simp
    next
      case 2
      then have "ms_inv (map f n) i j (Suc k) p" using ms_step_equal [OF inv rf] True len by simp
      from Suc.IH [OF this] Suc.prems(2) 2 show ?thesis unfolding unf by simp
    next
      case 3
      then have "ms_inv (map f n) i (Suc (j + k)) 0 (Suc (j + k) - i)" using ms_step_greater [OF inv rf] True len by simp
      moreover have "n ! (i + k) \<noteq> n ! (j + k)" using 3 by auto
      ultimately show ?thesis using Suc.IH [of i "Suc (j + k)" 0 "Suc (j + k) - i"] Suc.prems(2) 3 unfolding unf by simp
    next
      case 4
      then have "ms_inv (map f n) j (Suc j) 0 1" using ms_step_less [OF inv rf] True len by simp
      moreover have "n ! (i + k) \<noteq> n ! (j + k)" using 4 by auto
      ultimately show ?thesis using Suc.IH [of j "Suc j" 0 1] Suc.prems(2) 4 progress unfolding unf by simp
    qed
  qed
qed

text \<open>
  What the preparation establishes.  Either the left part continues the period of the right one
  and after a shift by it what was matched is remembered, or a shift is longer than either part.
\<close>

definition prepared :: "buffer \<Rightarrow> nat \<Rightarrow> nat \<Rightarrow> two_way \<Rightarrow> bool" where
  "prepared n c q tw \<longleftrightarrow> cut n c q \<and> tw_ms tw = int c - 1 \<and>
     ((\<forall>j < c. n ! j = n ! (j + q)) \<and> tw_p tw = int q \<and> tw_mem0 tw = int (length n - q) \<or>
      (\<exists>j < c. n ! j \<noteq> n ! (j + q)) \<and> tw_p tw = int (max c (length n - c + 1)) \<and> tw_mem0 tw = 0)"

lemma memcmp_prefix:
  assumes "c + q \<le> length n"
  shows "memcmp n 0 q c = Inr (\<exists>j < c. n ! j \<noteq> n ! (j + q))"
proof -
  have "take c n = take c (drop q n) \<longleftrightarrow> (\<forall>j < c. n ! j = n ! (j + q))"
    using assms by (auto simp: list_eq_iff_nth_eq add.commute)
  then show ?thesis using assms by (simp add: memcmp_def load_bytes_def)
qed

lemma two_way_setup_ok:
  assumes "n \<noteq> []" and "length n < 2 ^ 64"
  obtains c q tw where "two_way_setup n = Inr tw" "prepared n c q tw"
proof -
  let ?f = "uint :: byte \<Rightarrow> int" and ?g = "\<lambda>b :: byte. - uint b"
  have inj: "inj ?f" "inj ?g" by (auto simp: inj_def word_uint_eq_iff)
  have init: "ms_inv (map h n) 0 1 0 1" for h :: "byte \<Rightarrow> int" using ms_inv_init [of "map h n"] assms(1) by simp
  have fuel: "2 * length n < suffix_fuel n + (0 + 1 + 0)" by (simp add: suffix_fuel_def)
  have gt: "\<And>a b. a > b \<longleftrightarrow> ?f b < ?f a" "\<And>a b. a < b \<longleftrightarrow> ?g b < ?g a" by (simp_all add: word_less_def)
  from maximal_suffix_run [OF inj(1) gt(1) init fuel] obtain c1 q1 where
    r1: "maximal_suffix (suffix_fuel n) (\<lambda>a b. b < a) n (- 1) 0 1 1 = Inr (int c1 - 1, int q1)" and
    m1: "max_suffix (map ?f n) c1" "0 < q1" "c1 + q1 \<le> length n" "period n c1 (length n) q1"
      "\<forall>t. 0 < t \<and> t < q1 \<longrightarrow> \<not> period n c1 (length n) t" by auto
  from maximal_suffix_run [OF inj(2) gt(2) init fuel] obtain c2 q2 where
    r2: "maximal_suffix (suffix_fuel n) (\<lambda>a b. a < b) n (- 1) 0 1 1 = Inr (int c2 - 1, int q2)" and
    m2: "max_suffix (map ?g n) c2" "0 < q2" "c2 + q2 \<le> length n" "period n c2 (length n) q2"
      "\<forall>t. 0 < t \<and> t < q2 \<longrightarrow> \<not> period n c2 (length n) t" by auto
  define c where "c = max c1 c2"
  define q where "q = (if c2 > c1 then q2 else q1)"
  have cut: "cut n c q"
  proof (cases "c2 > c1")
    case True
    have "inj ?g \<and> inj ?f \<and> (\<forall>a b. ?g a < ?g b \<longleftrightarrow> ?f b < ?f a) \<and> c1 \<le> c2 \<and> max_suffix (map ?g n) c2 \<and> max_suffix (map ?f n) c1"
      using inj m1(1) m2(1) True by simp
    then have "cut n c2 q2" unfolding cut_def using m2(2-5) by blast
    then show ?thesis using True by (simp add: c_def q_def)
  next
    case False
    have "inj ?f \<and> inj ?g \<and> (\<forall>a b. ?f a < ?f b \<longleftrightarrow> ?g b < ?g a) \<and> c2 \<le> c1 \<and> max_suffix (map ?f n) c1 \<and> max_suffix (map ?g n) c2"
      using inj m1(1) m2(1) False by simp
    then have "cut n c1 q1" unfolding cut_def using m1(2-5) by blast
    then show ?thesis using False by (simp add: c_def q_def)
  qed
  then have cq: "c + q \<le> length n" "0 < q" by (simp_all add: cut_def)
  have pick: "(if int c2 - 1 + 1 > int c1 - 1 + 1 then (int c2 - 1, int q2) else (int c1 - 1, int q1)) = (int c - 1, int q)"
    by (simp add: c_def q_def)
  have cmp: "memcmp n 0 (nat (int q)) (nat (int c - 1 + 1)) = Inr (\<exists>j < c. n ! j \<noteq> n ! (j + q))"
    using memcmp_prefix [OF cq(1)] by simp
  have result: "two_way_setup n = Inr (if \<exists>j < c. n ! j \<noteq> n ! (j + q)
      then \<lparr>tw_ms = int c - 1, tw_p = (max ((int c - 1) mod 2 ^ 64) (int (length n) - (int c - 1) - 1) + 1) mod 2 ^ 64, tw_mem0 = 0\<rparr>
      else \<lparr>tw_ms = int c - 1, tw_p = int q, tw_mem0 = int (length n) - int q\<rparr>)"
    unfolding two_way_setup_def r1 r2 Let_def and_then_simps(2) prod.case pick cmp by simp
  show thesis
  proof (cases "\<exists>j < c. n ! j \<noteq> n ! (j + q)")
    case True
    then have c: "0 < c" "c < length n" using cq by auto
    then have "(int c - 1) mod 2 ^ 64 = int c - 1" using assms(2) by (intro mod_pos_pos_trivial) auto
    moreover have "max (int c - 1) (int (length n) - (int c - 1) - 1) + 1 = int (max c (length n - c + 1))"
      using c by (simp add: of_nat_diff max_def) linarith
    moreover have "int (max c (length n - c + 1)) mod 2 ^ 64 = int (max c (length n - c + 1))"
      using c assms(2) by (intro mod_pos_pos_trivial) (auto simp: of_nat_diff)
    ultimately have "two_way_setup n = Inr \<lparr>tw_ms = int c - 1, tw_p = int (max c (length n - c + 1)), tw_mem0 = 0\<rparr>"
      using result True by simp
    moreover have "prepared n c q \<lparr>tw_ms = int c - 1, tw_p = int (max c (length n - c + 1)), tw_mem0 = 0\<rparr>"
      using cut True by (simp add: prepared_def)
    ultimately show thesis by (rule that)
  next
    case False
    then have "two_way_setup n = Inr \<lparr>tw_ms = int c - 1, tw_p = int q, tw_mem0 = int (length n - q)\<rparr>"
      using result cq by (auto simp: of_nat_diff)
    moreover have "prepared n c q \<lparr>tw_ms = int c - 1, tw_p = int q, tw_mem0 = int (length n - q)\<rparr>"
      using cut False by (simp add: prepared_def)
    ultimately show thesis by (rule that)
  qed
qed

section \<open>The loops of the search\<close>

lemma fold_shift:
  "fold (\<lambda>i shift. shift(n ! i \<mapsto> int i + 1)) [0..<m] Map.empty b = Some s \<longleftrightarrow>
     (\<exists>j < m. n ! j = b \<and> s = int j + 1 \<and> (\<forall>i < m. n ! i = b \<longrightarrow> i \<le> j))"
proof (induction m)
  case 0
  then show ?case by simp
next
  case (Suc m)
  show ?case
  proof (cases "n ! m = b")
    case True
    then have l: "fold (\<lambda>i shift. shift(n ! i \<mapsto> int i + 1)) [0..<Suc m] Map.empty b = Some (int m + 1)" by simp
    have "(\<exists>j < Suc m. n ! j = b \<and> s = int j + 1 \<and> (\<forall>i < Suc m. n ! i = b \<longrightarrow> i \<le> j)) \<longleftrightarrow> s = int m + 1"
      using True by (auto simp: less_Suc_eq_le dest!: spec [of _ m] intro!: exI [of _ m])
    then show ?thesis unfolding l by auto
  next
    case False
    then show ?thesis using Suc.IH by (auto simp: less_Suc_eq)
  qed
qed

lemma shift_table_Some:
  assumes "shift_table n b = Some s"
  obtains j where "j < length n" "n ! j = b" "s = int j + 1" "\<And>i. i < length n \<Longrightarrow> n ! i = b \<Longrightarrow> i \<le> j"
  using assms that unfolding shift_table_def fold_shift by blast

lemma shift_table_None:
  assumes "shift_table n b = None" and "i < length n"
  shows "n ! i \<noteq> b"
proof
  assume e: "n ! i = b"
  let ?S = "{j. j < length n \<and> n ! j = b}"
  have "Max ?S \<in> ?S" using assms(2) e by (intro Max_in) auto
  then have "shift_table n b = Some (int (Max ?S) + 1)" unfolding shift_table_def fold_shift by auto
  with assms(1) show False by simp
qed

lemma compare_right_ok:
  assumes "h + length n \<le> length hs" and "k \<le> length n"
  shows "\<exists>k'. compare_right n hs (int h) (int k) = Inr (int k') \<and> k \<le> k' \<and> k' \<le> length n \<and>
    (\<forall>j. k \<le> j \<and> j < k' \<longrightarrow> hs ! (h + j) = n ! j) \<and> (k' < length n \<longrightarrow> hs ! (h + k') \<noteq> n ! k')"
  using assms(2)
proof (induction "length n - k" arbitrary: k)
  case 0
  then show ?case by (subst compare_right.simps) auto
next
  case (Suc m)
  then have k: "k < length n" by simp
  have rd: "byte_at hs (int h + int k) = Inr (hs ! (h + k))"
    using byte_at_ok [of "h + k" hs] k assms(1) by simp
  show ?case
  proof (cases "n ! k = hs ! (h + k)")
    case True
    have "m = length n - Suc k" "Suc k \<le> length n" using Suc.hyps(2) k by simp_all
    from Suc.hyps(1) [OF this] obtain k' where
      k': "compare_right n hs (int h) (int (Suc k)) = Inr (int k')" "Suc k \<le> k'" "k' \<le> length n"
      "\<forall>j. Suc k \<le> j \<and> j < k' \<longrightarrow> hs ! (h + j) = n ! j" "k' < length n \<longrightarrow> hs ! (h + k') \<noteq> n ! k'" by blast
    have "compare_right n hs (int h) (int k) = Inr (int k')"
      using k rd True k'(1) by (subst compare_right.simps) (simp add: add.commute)
    moreover have "hs ! (h + j) = n ! j" if "k \<le> j" "j < k'" for j
      using k'(4) that True by (cases "j = k") auto
    ultimately show ?thesis using k' by (intro exI [of _ k']) auto
  next
    case False
    then have "compare_right n hs (int h) (int k) = Inr (int k)"
      using k rd by (subst compare_right.simps) simp
    then show ?thesis using False k by (intro exI [of _ k]) auto
  qed
qed

lemma compare_left_ok:
  assumes "h + length n \<le> length hs" and "k \<le> length n"
  shows "\<exists>k'. compare_left n hs (int h) (int mem) (int k) = Inr (int k') \<and> k' \<le> k \<and>
    (\<forall>j. k' \<le> j \<and> j < k \<longrightarrow> hs ! (h + j) = n ! j) \<and> (mem < k' \<longrightarrow> hs ! (h + (k' - 1)) \<noteq> n ! (k' - 1))"
  using assms(2)
proof (induction k)
  case 0
  then show ?case by (subst compare_left.simps) auto
next
  case (Suc k)
  have rd: "byte_at n (int (Suc k) - 1) = Inr (n ! k)" "byte_at hs (int h + int (Suc k) - 1) = Inr (hs ! (h + k))"
    using byte_at_ok [of k n] byte_at_ok [of "h + k" hs] Suc.prems assms(1) by simp_all
  show ?case
  proof (cases "mem < Suc k \<and> n ! k = hs ! (h + k)")
    case True
    from Suc obtain k' where
      k': "compare_left n hs (int h) (int mem) (int k) = Inr (int k')" "k' \<le> k"
      "\<forall>j. k' \<le> j \<and> j < k \<longrightarrow> hs ! (h + j) = n ! j" "mem < k' \<longrightarrow> hs ! (h + (k' - 1)) \<noteq> n ! (k' - 1)" by auto
    have "compare_left n hs (int h) (int mem) (int (Suc k)) = Inr (int k')"
      using rd True k'(1) by (subst compare_left.simps) simp
    then show ?thesis using k' True by (intro exI [of _ k']) (auto simp: less_Suc_eq)
  next
    case False
    have "compare_left n hs (int h) (int mem) (int (Suc k)) = Inr (int (Suc k))"
      using rd False by (subst compare_left.simps) auto
    then show ?thesis using False by (intro exI [of _ "Suc k"]) auto
  qed
qed

section \<open>The search\<close>

definition found :: "'a list \<Rightarrow> 'a list \<Rightarrow> nat option \<Rightarrow> bool" where
  "found n hs r \<longleftrightarrow> (case r of None \<Rightarrow> \<forall>i. \<not> occurs n hs i | Some i \<Rightarrow> occurs n hs i \<and> (\<forall>j < i. \<not> occurs n hs j))"

text \<open>What is remembered of the needle in the haystack, in the periodic case.\<close>

definition remembered :: "buffer \<Rightarrow> buffer \<Rightarrow> nat \<Rightarrow> nat \<Rightarrow> nat \<Rightarrow> nat \<Rightarrow> bool" where
  "remembered n hs c q h mem \<longleftrightarrow> mem = 0 \<or>
     (\<forall>j < c. n ! j = n ! (j + q)) \<and> mem = length n - q \<and> (\<forall>j < mem. hs ! (h + j) = n ! j)"

lemma step_last_byte:
  assumes prep: "prepared n c q tw" and rem: "remembered n hs c q h mem"
    and room: "h + length n \<le> length hs" "n \<noteq> []" and byte: "b = hs ! (h + (length n - 1))"
  shows "shift_table n b = None \<Longrightarrow> d < length n \<Longrightarrow> \<not> occurs n hs (h + d)"
    and "shift_table n b = Some s \<Longrightarrow> s \<noteq> int (length n) \<Longrightarrow> d < nat (int (length n) - s) \<or> d < mem \<Longrightarrow> \<not> occurs n hs (h + d)"
proof -
  have l: "n ! (length n - 1 - d) = b" if "occurs n hs (h + d)" "d < length n" for d
  proof -
    have "\<forall>j < length n. hs ! (h + d + j) = n ! j" using that(1) by (simp add: occurs_def)
    moreover have "length n - 1 - d < length n" "h + d + (length n - 1 - d) = h + (length n - 1)" using that(2) by auto
    ultimately show ?thesis using byte by metis
  qed
  show "\<not> occurs n hs (h + d)" if "shift_table n b = None" "d < length n" for d
  proof -
    have "length n - 1 - d < length n" using that(2) by linarith
    from shift_table_None [OF that(1) this] l that(2) show ?thesis by blast
  qed
  show "\<not> occurs n hs (h + d)" if sh: "shift_table n b = Some s" "s \<noteq> int (length n)"
    "d < nat (int (length n) - s) \<or> d < mem" for s d
  proof -
    obtain j where j: "j < length n" "n ! j = b" "s = int j + 1" "\<And>i. i < length n \<Longrightarrow> n ! i = b \<Longrightarrow> i \<le> j"
      using shift_table_Some [OF sh(1)] by blast
    show ?thesis
    proof (cases "d < nat (int (length n) - s)")
      case True
      then have d: "d < length n" "j < length n - 1 - d" using j(1,3) by auto
      moreover have "length n - 1 - d < length n" using d(1) by linarith
      ultimately show ?thesis using l [OF _ d(1)] j(4) [of "length n - 1 - d"] by (meson not_le)
    next
      case False
      then have mem: "d < mem" using sh(3) by simp
      then have r: "\<forall>j < c. n ! j = n ! (j + q)" "mem = length n - q" "\<forall>j < mem. hs ! (h + j) = n ! j"
        using rem by (auto simp: remembered_def)
      have cut: "cut n c q" using prep by (simp add: prepared_def)
      then have q: "0 < q" by (simp add: cut_def)
      have per: "period n 0 (length n) q" by (rule period_exceeds_cut(2) [OF cut]) (use r(1) in blast)
      have "hs ! (h + (length n - 1)) \<noteq> n ! (length n - 1)"
      proof
        assume "hs ! (h + (length n - 1)) = n ! (length n - 1)"
        moreover have "length n - 1 < length n" using j(1) by linarith
        ultimately have "length n - 1 \<le> j" using j(4) byte by metis
        then show False using j(1,3) sh(2) by simp
      qed
      then show ?thesis using r mem by (intro skip_remembered [OF per q]) auto
    qed
  qed
qed

lemma step_matched_right:
  assumes prep: "prepared n c q tw" and room: "h + length n \<le> length hs"
    and right: "\<And>j. c \<le> j \<Longrightarrow> j < length n \<Longrightarrow> hs ! (h + j) = n ! j" and no: "\<not> occurs n hs h"
  obtains s mem where "tw_p tw = int s" "tw_mem0 tw = int mem" "0 < s" "h + s \<le> length hs"
    "\<And>d. d < s \<Longrightarrow> \<not> occurs n hs (h + d)" "remembered n hs c q (h + s) mem"
proof -
  have cut: "cut n c q" using prep by (simp add: prepared_def)
  then have cq: "0 < q" "c + q \<le> length n" by (simp_all add: cut_def)
  from prep consider "\<forall>j < c. n ! j = n ! (j + q)" "tw_p tw = int q" "tw_mem0 tw = int (length n - q)"
    | j0 where "j0 < c" "n ! j0 \<noteq> n ! (j0 + q)" "tw_p tw = int (max c (length n - c + 1))" "tw_mem0 tw = 0"
    by (auto simp: prepared_def)
  then show thesis
  proof cases
    case 1
    have pe: "c < q" "period n 0 (length n) q" using period_exceeds_cut [OF cut] 1(1) by blast+
    have skip: "\<not> occurs n hs (h + d)" if "d < q" for d
      using skip_periodic [OF cut right _ that] no by (cases "d = 0") auto
    have "hs ! (h + q + j) = n ! j" if "j < length n - q" for j
    proof -
      have "hs ! (h + (q + j)) = n ! (q + j)" using right [of "q + j"] pe(1) that by simp
      moreover have "n ! j = n ! (j + q)" using pe(2) that unfolding period_def by (metis add_0 less_diff_conv)
      ultimately show ?thesis by (simp add: ac_simps)
    qed
    then have "remembered n hs c q (h + q) (length n - q)" using 1(1) by (simp add: remembered_def)
    with that [of q "length n - q"] 1 skip cq room show thesis by simp
  next
    case 2
    let ?s = "max c (length n - c + 1)"
    have skip: "\<not> occurs n hs (h + d)" if "d < ?s" for d
      using skip_aperiodic [OF cut right 2(1,2) _ that] no by (cases "d = 0") auto
    have "?s \<le> length n" using 2(1) cq by auto
    then have "0 < ?s" "h + ?s \<le> length hs" using room by linarith+
    moreover have "remembered n hs c q (h + ?s) 0" by (simp add: remembered_def)
    ultimately show thesis using that [of ?s 0] 2(3,4) skip by simp
  qed
qed

declare two_way_search.simps(2) [simp del]

lemma search_ok:
  assumes prep: "prepared n c q tw" and ne: "n \<noteq> []"
    and "h \<le> length hs" "\<forall>i < h. \<not> occurs n hs i" "remembered n hs c q h mem" "length hs - h < fuel"
  shows "\<exists>r. two_way_search fuel tw n hs (int h) (int mem) = Inr (map_option int r) \<and> found n hs r"
  using assms(3-6)
proof (induction fuel arbitrary: h mem)
  case 0
  then show ?case by simp
next
  case (Suc fuel)
  let ?l = "length n"
  have cut: "cut n c q" and ms: "tw_ms tw = int c - 1" using prep by (simp_all add: prepared_def)
  then have cq: "0 < q" "c + q \<le> ?l" by (simp_all add: cut_def)
  show ?case
  proof (cases "h + ?l \<le> length hs")
    case False
    then have "\<not> occurs n hs i" for i using Suc.prems(2) by (cases "i < h") (auto simp: occurs_def)
    then have "found n hs None" by (simp add: found_def)
    moreover have "two_way_search (Suc fuel) tw n hs (int h) (int mem) = Inr (map_option int None)"
      using False by (simp add: two_way_search.simps(2))
    ultimately show ?thesis by blast
  next
    case room: True
    have go: ?thesis if "two_way_search (Suc fuel) tw n hs (int h) (int mem) = two_way_search fuel tw n hs (int (h + s)) (int mem')"
      "0 < s" "h + s \<le> length hs" "\<And>d. d < s \<Longrightarrow> \<not> occurs n hs (h + d)" "remembered n hs c q (h + s) mem'" for s mem'
    proof -
      have "\<not> occurs n hs i" if "i < h + s" for i
        using that Suc.prems(2) \<open>\<And>d. d < s \<Longrightarrow> \<not> occurs n hs (h + d)\<close> [of "i - h"] by (cases "i < h") auto
      then show ?thesis using Suc.IH [of "h + s" mem'] that Suc.prems(4) by simp
    qed
    have forgotten: "remembered n hs c q h' 0" for h' by (simp add: remembered_def)
    define b where "b = hs ! (h + (?l - 1))"
    have rd: "byte_at hs (int h + int ?l - 1) = Inr b"
    proof -
      have "int h + int ?l - 1 = int (h + (?l - 1))" using ne by (cases n) simp_all
      then show ?thesis using byte_at_ok [of "h + (?l - 1)" hs] room ne by (simp add: b_def)
    qed
    have fit: "\<not> int (length hs) - int h < int ?l" using room by simp
    note last = step_last_byte [OF prep Suc.prems(3) room ne b_def]
    show ?thesis
    proof (cases "shift_table n b")
      case None
      have "two_way_search (Suc fuel) tw n hs (int h) (int mem) = two_way_search fuel tw n hs (int (h + ?l)) (int 0)"
        using rd fit None by (simp add: Let_def two_way_search.simps(2))
      then show ?thesis by (rule go [OF _ _ _ _ forgotten]) (use last(1) [OF None] room ne in auto)
    next
      case (Some s)
      obtain j where j: "j < ?l" "s = int j + 1" using shift_table_Some [OF Some] by metis
      show ?thesis
      proof (cases "s = int ?l")
        case False
        let ?s = "if int ?l - s < int mem then mem else nat (int ?l - s)"
        have "int ?s = (if int ?l - s < int mem then int mem else int ?l - s)" using j by auto
        then have "two_way_search (Suc fuel) tw n hs (int h) (int mem) = two_way_search fuel tw n hs (int (h + ?s)) (int 0)"
          using rd fit Some False by (simp add: Let_def two_way_search.simps(2))
        moreover have "mem \<le> ?l" using Suc.prems(3) by (auto simp: remembered_def)
        then have "0 < ?s" "h + ?s \<le> length hs" using j False room by auto
        ultimately show ?thesis by (rule go [OF _ _ _ _ forgotten]) (use last(2) [OF Some False] in \<open>auto split: if_splits\<close>)
      next
        case eq: True
        have mem: "mem \<le> ?l" using Suc.prems(3) by (auto simp: remembered_def)
        obtain k where k: "compare_right n hs (int h) (int (max c mem)) = Inr (int k)" "max c mem \<le> k" "k \<le> ?l"
          "\<forall>j. max c mem \<le> j \<and> j < k \<longrightarrow> hs ! (h + j) = n ! j" "k < ?l \<longrightarrow> hs ! (h + k) \<noteq> n ! k"
          using compare_right_ok [OF room, of "max c mem"] mem cq by auto
        have inmem: "hs ! (h + j) = n ! j" if "j < mem" for j using Suc.prems(3) that by (auto simp: remembered_def)
        have right: "hs ! (h + j) = n ! j" if "c \<le> j" "j < k" for j
          using k(4) inmem that by (cases "j < mem") auto
        have start: "max (tw_ms tw + 1) (int mem) = int (max c mem)" by (simp add: ms)
        have main: "two_way_search (Suc fuel) tw n hs (int h) (int mem) =
          (if int k < int ?l then two_way_search fuel tw n hs (int h + (int k - tw_ms tw)) 0
           else and_then (compare_left n hs (int h) (int mem) (tw_ms tw + 1)) (\<lambda>k.
             if k \<le> int mem then Inr (Some (int h)) else two_way_search fuel tw n hs (int h + tw_p tw) (tw_mem0 tw)))"
          using rd fit Some eq k(1) unfolding two_way_search.simps Let_def start by simp
        show ?thesis
        proof (cases "k < ?l")
          case True
          have "two_way_search (Suc fuel) tw n hs (int h) (int mem) = two_way_search fuel tw n hs (int (h + (k - c + 1))) (int 0)"
            unfolding main ms using True k(2) by (simp add: of_nat_diff algebra_simps)
          moreover have "\<not> occurs n hs (h + d)" if "d < k - c + 1" for d
            using skip_right_mismatch [OF cut right] k(2,5) True that by auto
          moreover have "h + (k - c + 1) \<le> length hs" using True room by simp
          ultimately show ?thesis by (intro go [of "k - c + 1" 0] forgotten) simp_all
        next
          case False
          then have kl: "k = ?l" using k(3) by simp
          have full: "hs ! (h + j) = n ! j" if "c \<le> j" "j < ?l" for j using right that kl by simp
          obtain k2 where k2: "compare_left n hs (int h) (int mem) (int c) = Inr (int k2)" "k2 \<le> c"
            "\<forall>j. k2 \<le> j \<and> j < c \<longrightarrow> hs ! (h + j) = n ! j" "mem < k2 \<longrightarrow> hs ! (h + (k2 - 1)) \<noteq> n ! (k2 - 1)"
            using compare_left_ok [OF room, of c mem] cq by auto
          have main2: "two_way_search (Suc fuel) tw n hs (int h) (int mem) =
            (if k2 \<le> mem then Inr (Some (int h)) else two_way_search fuel tw n hs (int h + tw_p tw) (tw_mem0 tw))"
            unfolding main using kl k2(1) by (simp add: ms)
          show ?thesis
          proof (cases "k2 \<le> mem")
            case True
            have "hs ! (h + j) = n ! j" if "j < ?l" for j
              using full [of j] k2(3) inmem [of j] True that by (cases "c \<le> j"; cases "k2 \<le> j") auto
            then have "occurs n hs h" using room by (simp add: occurs_def)
            then have "found n hs (Some h)" using Suc.prems(2) by (simp add: found_def)
            then show ?thesis unfolding main2 using True by (intro exI [of _ "Some h"]) simp
          next
            case mis: False
            then have "k2 - 1 < ?l" "hs ! (h + (k2 - 1)) \<noteq> n ! (k2 - 1)" using k2(2,4) cq by auto
            then have "\<not> occurs n hs h" unfolding occurs_def by blast
            from step_matched_right [OF prep room full this] obtain s' mem' where
              s': "tw_p tw = int s'" "tw_mem0 tw = int mem'" "0 < s'" "h + s' \<le> length hs"
              "\<And>d. d < s' \<Longrightarrow> \<not> occurs n hs (h + d)" "remembered n hs c q (h + s') mem'" by blast
            moreover have "two_way_search (Suc fuel) tw n hs (int h) (int mem) = two_way_search fuel tw n hs (int (h + s')) (int mem')"
              unfolding main2 using mis s'(1,2) by simp
            ultimately show ?thesis by (intro go [of s' mem']) simp_all
          qed
        qed
      qed
    qed
  qed
qed

section \<open>Finding the first occurrence\<close>

lemma occurs_take: "occurs n hs i \<longleftrightarrow> i + length n \<le> length hs \<and> take (length n) (drop i hs) = n"
  by (auto simp: occurs_def list_eq_iff_nth_eq)

lemma found_first: "found n hs r \<longleftrightarrow> r = first_occurrence hs n"
proof -
  let ?P = "\<lambda>i. i + length n \<le> length hs \<and> take (length n) (drop i hs) = n"
  have P: "occurs n hs i \<longleftrightarrow> ?P i" for i by (rule occurs_take)
  have bound: "?P i \<Longrightarrow> i < Suc (length hs)" for i by simp
  have none: "first_occurrence hs n = None \<longleftrightarrow> (\<forall>i. \<not> occurs n hs i)"
    unfolding first_occurrence_def find_None_iff P using bound by (auto simp del: upt_Suc)
  have some: "first_occurrence hs n = Some i \<longleftrightarrow> occurs n hs i \<and> (\<forall>j < i. \<not> occurs n hs j)" for i
    unfolding first_occurrence_def find_Some_iff P using bound
    by (auto simp del: upt_Suc intro!: exI [of _ i])
  show ?thesis by (cases r) (auto simp: found_def none some eq_commute [of _ "first_occurrence hs n"])
qed

lemma twoway_memmem_ok:
  assumes "n \<noteq> []" and "length n < 2 ^ 64"
  shows "twoway_memmem hs n = Inr (map_option int (first_occurrence hs n))"
proof -
  obtain c q tw where tw: "two_way_setup n = Inr tw" "prepared n c q tw" using two_way_setup_ok [OF assms] .
  have "remembered n hs c q 0 0" by (simp add: remembered_def)
  from search_ok [OF tw(2) assms(1) _ _ this, of "length hs + 1"] obtain r where
    "two_way_search (length hs + 1) tw n hs (int 0) (int 0) = Inr (map_option int r)" "found n hs r" by auto
  then show ?thesis by (simp add: twoway_memmem_def tw(1) found_first)
qed

lemma occurs_first_byte: "occurs n hs i \<Longrightarrow> n \<noteq> [] \<Longrightarrow> i < length hs \<and> hs ! i = n ! 0"
  unfolding occurs_def by (cases n) auto

lemma memchr_Some: "memchr bs b = Some i \<longleftrightarrow> i < length bs \<and> bs ! i = b \<and> (\<forall>j < i. bs ! j \<noteq> b)"
  unfolding memchr_def find_Some_iff by auto

lemma memchr_None: "memchr bs b = None \<longleftrightarrow> (\<forall>i < length bs. bs ! i \<noteq> b)"
  unfolding memchr_def find_None_iff by auto

lemma found_drop:
  assumes "h \<le> length hs" and "\<forall>i < h. \<not> occurs n hs i" and "found n (drop h hs) r"
  shows "found n hs (map_option ((+) h) r)"
proof -
  have o: "occurs n (drop h hs) i \<longleftrightarrow> occurs n hs (h + i)" for i
    using assms(1) by (auto simp: occurs_def add.assoc)
  have below: "\<not> occurs n hs j" if "\<forall>i < k. \<not> occurs n hs (h + i)" "j < h + k" for j k
    using that assms(2) by (cases "j < h") (auto dest: spec [of _ "j - h"])
  show ?thesis
  proof (cases r)
    case None
    then have "\<not> occurs n hs i" for i using assms(3) below [of "Suc i" i] by (auto simp: found_def o)
    with None show ?thesis by (simp add: found_def)
  next
    case (Some k)
    then show ?thesis using assms(3) below [of k] by (auto simp: found_def o)
  qed
qed

lemma horspool_found:
  assumes "length n < 2 ^ 64"
  shows "\<exists>r. horspool_memmem hs n = Inr r \<and> found n hs r"
proof -
  consider "n = []" | "n \<noteq> []" "length hs < length n" | "n \<noteq> []" "length n \<le> length hs" by linarith
  then show ?thesis
  proof cases
    case 1
    then show ?thesis by (simp add: horspool_memmem_def found_def occurs_def)
  next
    case 2
    then show ?thesis by (auto simp: horspool_memmem_def found_def occurs_def)
  next
    case 3
    show ?thesis
    proof (cases "memchr hs (n ! 0)")
      case None
      then have "found n hs None" using occurs_first_byte [OF _ 3(1)] by (auto simp: found_def memchr_None)
      then show ?thesis using 3 None by (simp add: horspool_memmem_def)
    next
      case (Some h)
      then have h: "h < length hs" "hs ! h = n ! 0" "\<forall>j < h. hs ! j \<noteq> n ! 0" by (simp_all add: memchr_Some)
      have before: "\<forall>i < h. \<not> occurs n hs i" using h(3) occurs_first_byte [OF _ 3(1)] by blast
      show ?thesis
      proof (cases "length n = 1")
        case True
        then have "occurs n hs h" using h by (simp add: occurs_def)
        then have "found n hs (Some h)" using before by (simp add: found_def)
        then show ?thesis using 3 Some True h(1) by (auto simp: horspool_memmem_def)
      next
        case False
        have f: "found n hs (map_option ((+) h) (first_occurrence (drop h hs) n))"
          using found_drop [OF _ before] h(1) by (simp add: found_first)
        show ?thesis
        proof (cases "length (drop h hs) < length n")
          case True
          then have "\<not> occurs n (drop h hs) i" for i by (simp add: occurs_def)
          then have "first_occurrence (drop h hs) n = None" by (simp add: found_first [symmetric] found_def eq_commute)
          then show ?thesis using f 3 Some False True by (simp add: horspool_memmem_def)
        next
          case fits: False
          have "horspool_memmem hs n = Inr (map_option ((+) h) (first_occurrence (drop h hs) n))"
            using 3 Some False fits twoway_memmem_ok [OF 3(1) assms]
            by (simp add: horspool_memmem_def Let_def option.map_comp comp_def)
          with f show ?thesis by blast
        qed
      qed
    qed
  qed
qed

section \<open>Properties\<close>

text \<open>C9: The memory search ends without a fault and returns the first place where the needle is in the
  haystack, or nothing when it is nowhere: the two-way search with its shift table, its cut at
  a maximal suffix and its memory of a matched prefix agrees with the naive search, for every
  haystack and needle.\<close>

theorem memmem_finds_first:
  assumes "length needle < 2 ^ 64"
  shows "horspool_memmem haystack needle = Inr (first_occurrence haystack needle)"
  using horspool_found [OF assms] found_first by metis

theorem memmem_finds_first_witness:
  "horspool_memmem [1, 2, 1, 1, 2, 1, 2, 1, 1, 2, 3] [1, 2, 1, 1, 2, 3] = Inr (Some 5)"
proof -
  have "first_occurrence [1, 2, 1, 1, 2, 1, 2, 1, 1, 2, 3] [1, 2, 1, 1, 2, 3] = Some 5" by code_simp
  then show ?thesis using memmem_finds_first [of "[1, 2, 1, 1, 2, 3]" "[1, 2, 1, 1, 2, 1, 2, 1, 1, 2, 3]"] by simp
qed

end
