(* ===== verification/ChunkSearch.thy ===== *)
theory ChunkSearch
  imports ThreadPool MemmemProps LogStructs
begin

text \<open>
  Searching a haystack in parallel, \<^verbatim>\<open>chunk_into_bins_by_needle\<close> of \<^verbatim>\<open>lib/xnu-trace/utils.cpp\<close>,
  and its use on a thread's log, \<^verbatim>\<open>log_thread_buf::chunk_into_bins\<close> of
  \<^verbatim>\<open>include/xnu-trace/TraceLog.h\<close>.

  The blocks of \<^verbatim>\<open>BS::blocks\<close> are the parameter \<open>blks\<close>, first and past-the-end indices; \<open>order\<close> is
  the order the blocks ran in, and a pointer is an offset into the haystack.
\<close>

section \<open>The search of every block\<close>

definition sub_haystack :: "buffer \<Rightarrow> nat \<times> nat \<Rightarrow> buffer" where
  "sub_haystack haystack ab = (case ab of (a, b) \<Rightarrow> take (b - a) (drop a haystack))"

definition search_block :: "buffer \<Rightarrow> buffer \<Rightarrow> nat \<times> nat \<Rightarrow> nat option res" where
  "search_block haystack needle ab =
     and_then (horspool_memmem (sub_haystack haystack ab) needle) (\<lambda>r. Inr (map_option ((+) (fst ab)) r))"

definition chunk_into_bins_by_needle ::
    "(nat \<times> nat) list \<Rightarrow> nat list \<Rightarrow> nat \<Rightarrow> buffer \<Rightarrow> buffer \<Rightarrow> nat option list res" where
  "chunk_into_bins_by_needle blks order n haystack needle =
     fold_res (\<lambda>i res. and_then (search_block haystack needle (blks ! i)) (\<lambda>p.
       if i < length res then Inr (res[i := p]) else Inl Out_Of_Bounds)) order (replicate n None)"

text \<open>On a log it looks for the header of a sync frame, and then returns no iterators at all.\<close>

definition chunk_into_bins :: "(nat \<times> nat) list \<Rightarrow> nat list \<Rightarrow> nat \<Rightarrow> buffer \<Rightarrow> nat list res" where
  "chunk_into_bins blks order n m_buf =
     and_then (chunk_into_bins_by_needle blks order n m_buf sync_frame_buf_hdr) (\<lambda>raw_bins. Inr [])"

section \<open>The bins\<close>

text \<open>What block \<open>ab\<close> finds: the first place where the needle lies inside the block.\<close>

definition first_in_block :: "buffer \<Rightarrow> buffer \<Rightarrow> nat \<times> nat \<Rightarrow> nat option" where
  "first_in_block haystack needle ab =
     find (\<lambda>i. i + length needle \<le> snd ab \<and> occurs needle haystack i) [fst ab..<Suc (snd ab)]"

lemma occurs_in_block:
  assumes "a \<le> b" and "b \<le> length haystack"
  shows "occurs needle (sub_haystack haystack (a, b)) i \<longleftrightarrow> a + i + length needle \<le> b \<and> occurs needle haystack (a + i)"
  using assms by (auto simp: occurs_def sub_haystack_def add.assoc)

lemma find_shift: "find P [a..<a + n] = map_option ((+) a) (find (\<lambda>i. P (a + i)) [0..<n])"
proof (induction n)
  case 0
  then show ?case by simp
next
  case (Suc n)
  have app: "find Q (xs @ ys) = (case find Q xs of None \<Rightarrow> find Q ys | r \<Rightarrow> r)" for Q :: "nat \<Rightarrow> bool" and xs ys
    by (induction xs) auto
  show ?case using Suc.IH by (simp add: app split: option.split)
qed

lemma first_cong: "(\<And>i. i \<in> set xs \<Longrightarrow> P i \<longleftrightarrow> Q i) \<Longrightarrow> find P xs = find Q xs"
  by (induction xs) auto

lemma search_block_first:
  assumes "fst ab \<le> snd ab" and "snd ab \<le> length haystack" and "length needle < 2 ^ 64"
  shows "search_block haystack needle ab = Inr (first_in_block haystack needle ab)"
proof -
  obtain a b where ab: "ab = (a, b)" by (cases ab)
  have len: "length (sub_haystack haystack ab) = b - a" using assms(1,2) by (simp add: ab sub_haystack_def)
  obtain r where r: "horspool_memmem (sub_haystack haystack ab) needle = Inr r" "found needle (sub_haystack haystack ab) r"
    using horspool_found [OF assms(3)] by blast
  then have "r = find (occurs needle (sub_haystack haystack ab)) [0..<Suc (b - a)]"
    unfolding found_first first_occurrence_def len occurs_take [abs_def] by (simp add: len)
  also have "\<dots> = find (\<lambda>i. a + i + length needle \<le> b \<and> occurs needle haystack (a + i)) [0..<Suc (b - a)]"
    using assms(1,2) by (intro first_cong) (simp add: ab occurs_in_block)
  finally show ?thesis
    using r(1) find_shift [of _ a "Suc (b - a)"] assms(1) by (simp add: search_block_def first_in_block_def ab del: upt_Suc)
qed

lemma bins_fold:
  assumes "\<forall>i \<in> set order. i < n" and "length res = n"
  shows "fold_res (\<lambda>i res. and_then (Inr (f i)) (\<lambda>p. if i < length res then Inr (res[i := p]) else Inl Out_Of_Bounds)) order res =
     Inr (map (\<lambda>i. if i \<in> set order then f i else res ! i) [0..<n])"
  using assms
proof (induction order arbitrary: res)
  case Nil
  then show ?case by (auto intro: nth_equalityI)
next
  case (Cons i order)
  from Cons.IH [of "res[i := f i]"] Cons.prems show ?case
    by (auto simp: nth_list_update intro!: map_cong)
qed

lemma fold_res_cong: "(\<And>x s. x \<in> set xs \<Longrightarrow> f x s = g x s) \<Longrightarrow> fold_res f xs s = fold_res g xs s"
proof (induction xs arbitrary: s)
  case (Cons x xs)
  then have "fold_res f xs = fold_res g xs" by (intro ext) simp
  then show ?case using Cons.prems by simp
qed simp

text \<open>Two blocks on two workers, the second one first.\<close>

definition two_blocks_schedule :: "action list" where
  "two_blocks_schedule = [Push, Push, Push_End, Start 1, Start 0, Run 1, Decrement 1, Run 0, Decrement 0, Notify 1, Load, Notify 0]"

definition two_blocks_done :: pool where
  "two_blocks_done = \<lparr>tasks = [Finished, Finished], m_cnt = 0, waiter = Returned, ran = [1, 0]\<rparr>"

lemma two_blocks_run: "runs (pool_step 2) two_blocks_schedule (pool_init 2) two_blocks_done"
  unfolding two_blocks_schedule_def
  by (rule pool_run_exec) code_simp

lemma bins_of_any_schedule:
  assumes "runs (pool_step p) acts (pool_init (of_nat (length blks))) s" and "waiter s = Returned"
    and "length blks \<le> n" and "length blks < 2 ^ 64" and "length needle < 2 ^ 64"
    and "\<forall>(a, b) \<in> set blks. a \<le> b \<and> b \<le> length haystack"
  shows "chunk_into_bins_by_needle blks (ran s) n haystack needle =
     Inr (map (first_in_block haystack needle) blks @ replicate (n - length blks) None)"
proof -
  have ran: "set (ran s) = {..<length blks}" by (rule returned_ran_all [OF assms(1,2,4)])
  have "chunk_into_bins_by_needle blks (ran s) n haystack needle =
      fold_res (\<lambda>i res. and_then (Inr (first_in_block haystack needle (blks ! i))) (\<lambda>p.
        if i < length res then Inr (res[i := p]) else Inl Out_Of_Bounds)) (ran s) (replicate n None)"
    unfolding chunk_into_bins_by_needle_def
  proof (rule fold_res_cong)
    fix i res assume "i \<in> set (ran s)"
    then have "blks ! i \<in> set blks" using ran by simp
    then have "search_block haystack needle (blks ! i) = Inr (first_in_block haystack needle (blks ! i))"
      using assms(6) by (intro search_block_first [OF _ _ assms(5)]) auto
    then show "and_then (search_block haystack needle (blks ! i)) (\<lambda>p. if i < length res then Inr (res[i := p]) else Inl Out_Of_Bounds) =
        and_then (Inr (first_in_block haystack needle (blks ! i))) (\<lambda>p. if i < length res then Inr (res[i := p]) else Inl Out_Of_Bounds)"
      by (rule arg_cong)
  qed
  also have "\<dots> = Inr (map (\<lambda>i. if i < length blks then first_in_block haystack needle (blks ! i) else None) [0..<n])"
    using assms(3) ran by (subst bins_fold [where n = n]) auto
  also have "map (\<lambda>i. if i < length blks then first_in_block haystack needle (blks ! i) else None) [0..<n] =
      map (first_in_block haystack needle) blks @ replicate (n - length blks) None"
    using assms(3) by (intro nth_equalityI) (auto simp: nth_append)
  finally show ?thesis .
qed

section \<open>Properties\<close>

text \<open>C23: Whatever the schedule of the thread pool, once the waiting caller has returned bin \<open>i\<close> holds
  the first place where the needle lies inside block \<open>i\<close>, and the bins past the number of
  blocks hold null: the parallel search has no race and no fault.\<close>

theorem chunk_bins_of_any_schedule:
  assumes "runs (pool_step p) acts (pool_init (of_nat (length blks))) s" and "waiter s = Returned"
    and "length blks \<le> n" and "length blks < 2 ^ 64" and "length needle < 2 ^ 64"
    and "\<forall>(a, b) \<in> set blks. a \<le> b \<and> b \<le> length haystack"
  shows "chunk_into_bins_by_needle blks (ran s) n haystack needle =
     Inr (map (first_in_block haystack needle) blks @ replicate (n - length blks) None)"
  using assms by (rule bins_of_any_schedule)

theorem chunk_bins_of_any_schedule_witness:
  "chunk_into_bins_by_needle [(0, 4), (4, 8)] [1, 0] 3 [9, 1, 2, 1, 2, 2, 1, 2] [1, 2] = Inr [Some 1, Some 6, None]"
proof -
  have b: "map (first_in_block [9, 1, 2, 1, 2, 2, 1, 2] [1, 2]) [(0, 4), (4, 8)] = [Some 1, Some 6]"
    by (simp add: first_in_block_def occurs_take upt_rec)
  have r: "runs (pool_step 2) two_blocks_schedule (pool_init (of_nat (length [(0 :: nat, 4 :: nat), (4, 8)]))) two_blocks_done"
    using two_blocks_run by simp
  have d: "waiter two_blocks_done = Returned" "ran two_blocks_done = [1, 0]" by (simp_all add: two_blocks_done_def)
  from chunk_bins_of_any_schedule [OF r d(1), of 3 "[1, 2]" "[9, 1, 2, 1, 2, 2, 1, 2]", unfolded b d(2)]
  show ?thesis by simp
qed

text \<open>A needle across the border of two blocks is in no bin.\<close>

lemma straddling_needle_missed:
  "map (first_in_block [0, 1, 2, 0] [1, 2]) [(0, 2), (2, 4)] = [None, None] \<and> first_occurrence [0, 1, 2, 0] [1, 2] = Some 1"
  by (simp add: first_in_block_def first_occurrence_def occurs_take upt_rec)

end
