(* ===== verification/VectorTypes.thy ===== *)
theory VectorTypes
  imports BitVectorProps
begin

text \<open>
  Packed vectors are type-safe: whatever is written, a value that does not fit the width
  included, no in-range access faults, the buffer keeps its size, and every element reads as a
  value of the width.  (Such a value can still spoil a neighbour; see
  \<open>signed_set_clobbers_next\<close> in \<open>BitVectorProps\<close>.)
\<close>

section \<open>Writes of any value\<close>

definition keeps :: "bitvec \<Rightarrow> bitvec res \<Rightarrow> bool" where
  "keeps v r \<longleftrightarrow> (\<exists>b. r = Inr (v\<lparr>m_buf := b\<rparr>) \<and> length b = length (m_buf v))"

lemma keeps_same: "keeps v (Inr v)"
  by (auto simp: keeps_def intro: exI [of _ "m_buf v"])

lemma store_any:
  fixes w :: "'t::len word"
  assumes "off + LENGTH('t) div 8 \<le> length buf"
  obtains c where "store buf off w = Inr c" "length c = length buf"
  using store_exists [OF assms] store_length by metis

lemma insert_store_any:
  fixes v :: "'t::len word"
  assumes "off + LENGTH('t) div 8 \<le> length buf" and "0 < nb" "sb + nb \<le> LENGTH('t)"
  obtains w w' c where "load buf off = Inr (w :: 't word)" "insert_bits w v sb nb = Inr w'"
    "store buf off w' = Inr c" "length c = length buf"
proof -
  obtain w :: "'t word" where w: "load buf off = Inr w" using assms(1) by (simp add: load_def)
  obtain w' where w': "insert_bits w v sb nb = Inr w'" using assms by (simp add: insert_bits_eq)
  obtain c where "store buf off w' = Inr c" "length c = length buf" by (rule store_any [OF assms(1)])
  with that w w' show ?thesis by blast
qed

lemma exact_set_any:
  assumes "LENGTH('t) div 8 * (i + 1) \<le> length (m_buf v)"
  shows "keeps v (exact_set TYPE('t::len) v i (x :: 'r::len word))"
proof -
  have "i * (LENGTH('t) div 8) + LENGTH('t) div 8 \<le> length (m_buf v)"
    using assms by (simp add: mult.commute)
  then obtain c where "store (m_buf v) (i * (LENGTH('t) div 8)) (ucast x :: 't word) = Inr c" "length c = length (m_buf v)"
    by (rule store_any)
  then show ?thesis by (auto simp: keeps_def exact_set_def simp del: load_ok)
qed

lemma single_set_any:
  assumes "i div 8 < length (m_buf v)"
  shows "keeps v (single_set v i (x :: 'r::len word))"
proof -
  obtain w w' c where "load (m_buf v) (i div 8) = Inr (w :: u8)" "insert_bits w (ucast x) (i mod 8) 1 = Inr w'"
    "store (m_buf v) (i div 8) w' = Inr c" "length c = length (m_buf v)"
    by (rule insert_store_any [where 't = 8, of "i div 8" "m_buf v" 1 "i mod 8" "ucast x"]) (use assms in auto)
  then show ?thesis
    by (auto simp: keeps_def single_set_def single_word_idx_def single_inner_bit_idx_def simp del: load_ok)
qed

lemma atomic_single_set_any:
  assumes "i div 8 < length (m_buf v)"
  shows "keeps v (atomic_single_set v i (x :: 'r::len word))"
proof (cases "field (m_buf v) i 1 = x")
  case True
  then show ?thesis using keeps_same by (simp add: atomic_single_set_def single_get_field [OF assms])
next
  case False
  obtain w :: u8 where w: "load (m_buf v) (i div 8) = Inr w" using assms by (simp add: load_def)
  obtain c where "store (m_buf v) (i div 8) (w XOR push_bit (i mod 8) (mask 1)) = Inr c" "length c = length (m_buf v)"
    by (rule store_any [where 't = 8, of "i div 8" "m_buf v"]) (use assms in auto)
  with False w show ?thesis
    by (auto simp: keeps_def atomic_single_set_def single_get_field [OF assms] single_word_idx_def
        single_inner_bit_idx_def bit_mask_eq simp del: load_ok)
qed

lemma nab_set_any:
  assumes dt: "LENGTH('dt) = 2 * LENGTH('t)" and nb: "0 < nb" "nb \<le> LENGTH('t)"
    and len: "nab_word_idx LENGTH('t) nb i * (LENGTH('t) div 8) + LENGTH('dt) div 8 \<le> length (m_buf v)"
  shows "keeps v (nab_set TYPE('t::len) TYPE('dt::len) nb v i (x :: 'r::len word))"
proof -
  let ?off = "nab_word_idx LENGTH('t) nb i * (LENGTH('t) div 8)" and ?b = "nab_inner_bit_idx LENGTH('t) nb i"
  let ?x = "conv (bv_signed v) (ucast x :: 't word) :: 'dt word"
  have "?b < LENGTH('t)" by (rule nab_inner_bit_idx_less) simp
  then obtain w w' c where "load (m_buf v) ?off = Inr (w :: 'dt word)" "insert_bits w ?x ?b nb = Inr w'"
    "store (m_buf v) ?off w' = Inr c" "length c = length (m_buf v)"
    using insert_store_any [OF len nb(1), of ?b ?x] nb(2) dt by auto
  then show ?thesis by (auto simp: keeps_def nab_set_def simp del: load_ok)
qed

lemma split_set_any:
  assumes dv: "8 dvd LENGTH('t)" and nb: "0 < nb" "nb < LENGTH('t)" and us: "\<not> bv_signed v"
    and ob: "off_boundary LENGTH('t) nb i"
    and len: "(split_hi_word_idx LENGTH('t) nb i + 1) * (LENGTH('t) div 8) \<le> length (m_buf v)"
  shows "keeps v (split_set TYPE('t::len) nb v i (x :: 'r::len word))"
proof -
  let ?t = "LENGTH('t)" and ?k = "LENGTH('t) div 8" and ?x = "ucast x :: 't word"
  let ?lw = "split_lo_word_idx ?t nb i" and ?hw = "split_hi_word_idx ?t nb i"
  let ?lb = "split_lo_inner_bit_idx ?t nb i" and ?buf = "m_buf v"
  note geo = split_geometry [OF nb ob]
  have in_buf: "w * ?k + ?k \<le> length ?buf" if "w \<le> ?hw" for w
    by (rule word_in_buf [OF len that])
  show ?thesis
  proof (cases "?lw = ?hw")
    case True
    obtain w w' c where "load ?buf (?lw * ?k) = Inr (w :: 't word)" "insert_bits w ?x ?lb nb = Inr w'"
      "store ?buf (?lw * ?k) w' = Inr c" "length c = length ?buf"
      by (rule insert_store_any [OF in_buf nb(1), of ?lw ?lb ?x]) (use True geo(3) in auto)
    with True show ?thesis by (auto simp: keeps_def split_set_def Let_def simp del: load_ok)
  next
    case False
    let ?lo = "?t - ?lb"
    have lb: "0 < ?lb" "?lb < ?t" "?lo < nb" "0 < ?lo" using geo(1) geo(5) [OF False] nb by auto
    have hw: "?hw = ?lw + 1" by (rule geo(4) [OF False])
    obtain w w' c where wc: "load ?buf (?lw * ?k) = Inr (w :: 't word)" "insert_bits w (?x AND mask ?lo) ?lb ?lo = Inr w'"
      "store ?buf (?lw * ?k) w' = Inr c" "length c = length ?buf"
      by (rule insert_store_any [OF in_buf lb(4), of ?lw ?lb "?x AND mask ?lo"]) (use lb hw in auto)
    obtain u u' d where ud: "load c (?hw * ?k) = Inr (u :: 't word)" "insert_bits u (drop_bit ?lo ?x) 0 (nb - ?lo) = Inr u'"
      "store c (?hw * ?k) u' = Inr d" "length d = length c"
      by (rule insert_store_any [of "?hw * ?k" c "nb - ?lo" 0 "drop_bit ?lo ?x"]) (use lb nb in_buf [of ?hw] wc(4) in auto)
    show ?thesis
      using False us wc ud lb by (auto simp: keeps_def split_set_def Let_def bit_mask_eq simp del: load_ok)
  qed
qed

lemma bv_set_any:
  assumes inv: "bv_inv rt v" and i: "i < m_sz v"
  shows "keeps v (bv_set v i (x :: 'r::len word))"
proof (cases "bv_class v")
  case ExactBitVectorImpl
  with inv have "m_nbits v \<in> {8, 16, 32, 64}" and sz: "exact_byte_sz (m_nbits v) (m_sz v) \<le> length (m_buf v)"
    by (auto simp: bv_inv_def Let_def)
  then show ?thesis
    using ExactBitVectorImpl exact_in_buf [OF sz _ i]
      exact_set_any [where 't = 8, of i v x] exact_set_any [where 't = 16, of i v x]
      exact_set_any [where 't = 32, of i v x] exact_set_any [where 't = 64, of i v x]
    by (auto simp: bv_set_def)
next
  case NonAtomicBitVectorImpl
  with inv have n: "0 < m_nbits v" "m_nbits v < 64" by (auto simp: bv_inv_def Let_def)
  then consider "m_nbits v \<le> 8" | "8 < m_nbits v" "m_nbits v \<le> 16" | "16 < m_nbits v" "m_nbits v \<le> 32" | "32 < m_nbits v"
    by linarith
  then show ?thesis
    using NonAtomicBitVectorImpl inv i n
      nab_in_buf [of 8 "m_nbits v" "m_sz v" "length (m_buf v)" i] nab_in_buf [of 16 "m_nbits v" "m_sz v" "length (m_buf v)" i]
      nab_in_buf [of 32 "m_nbits v" "m_sz v" "length (m_buf v)" i] nab_in_buf [of 64 "m_nbits v" "m_sz v" "length (m_buf v)" i]
      nab_set_any [where 't = 8 and 'dt = 16, of "m_nbits v" i v x] nab_set_any [where 't = 16 and 'dt = 32, of "m_nbits v" i v x]
      nab_set_any [where 't = 32 and 'dt = 64, of "m_nbits v" i v x]
      nab_set_any [where 't = 64 and 'dt = 128, of "m_nbits v" i v x]
    by cases (simp_all add: bv_inv_def Let_def bv_set_def storage_bits_cases)
next
  case NonAtomicSplitBitVectorImpl
  then show ?thesis
    using inv i split_in_buf [of 64 "m_nbits v" "m_sz v" "length (m_buf v)" i] split_set_any [where 't = 64, of "m_nbits v" v i x]
    by (auto simp: bv_inv_def Let_def bv_set_def storage_bits_cases)
qed (use inv i single_set_any [of i v x] atomic_single_set_any [of i v x] in \<open>auto simp: bv_inv_def Let_def bv_set_def\<close>)

section \<open>Sequences of writes\<close>

lemma writes_keep_inv:
  assumes "bv_inv rt v" and "\<forall>(i, x) \<in> set ups. i < m_sz v"
  shows "\<exists>v'. fold_res (\<lambda>(i, x) v. bv_set v i (x :: 'r::len word)) ups v = Inr v' \<and>
    bv_inv rt v' \<and> m_sz v' = m_sz v \<and> m_nbits v' = m_nbits v"
  using assms
proof (induction ups arbitrary: v)
  case (Cons u ups)
  obtain i x where u: "u = (i, x)" by fastforce
  with Cons.prems bv_set_any [of rt v i x] obtain b where b: "bv_set v i x = Inr (v\<lparr>m_buf := b\<rparr>)" "length b = length (m_buf v)"
    by (auto simp: keeps_def)
  then have "bv_inv rt (v\<lparr>m_buf := b\<rparr>)" using Cons.prems(1) by (simp add: bv_inv_update)
  from Cons.IH [OF this] Cons.prems(2) b(1) u show ?case by simp
qed simp

text \<open>C13: Reads are typed, whatever is written: on an unsigned vector the factory builds for a width (no
  atomic split width, none whose elements end on a storage word), after any sequence of in-range
  writes of any values, fitting or not, nothing has faulted and every element reads as a value
  below \<open>2 ^ nbits\<close>.\<close>

theorem vector_reads_typed:
  assumes "BitVectorFactory False aw nbits_max nbits sz = Inr (Some v)" and "nbits_max \<le> 64"
    and "\<not> aw \<or> nbits \<in> {1, 8, 16, 32, 64}"
    and "nbits \<in> {33..63} \<Longrightarrow> \<forall>i < sz. off_boundary 64 nbits i"
    and "storage_bits nbits \<le> LENGTH('r)" and "sz < 2 ^ 56"
    and "\<forall>(i, x) \<in> set ups. i < sz"
  shows "\<exists>v'. fold_res (\<lambda>(i, x) v. bv_set v i (x :: 'r::len word)) ups v = Inr v' \<and>
    (\<forall>i < sz. \<exists>y :: 'r word. bv_get v' i = Inr y \<and> unat y < 2 ^ nbits)"
proof -
  have v: "bv_inv LENGTH('r) v" "m_nbits v = nbits" "bv_list v = replicate sz (0 :: 'r word)"
    using factory_inv [where 'r = 'r, OF assms(1-6)] by blast+
  have "m_sz v = sz" using arg_cong [OF v(3), of length] by (simp add: bv_list_def)
  with v(1,2) assms(7) obtain v' where v': "fold_res (\<lambda>(i, x) v. bv_set v i (x :: 'r word)) ups v = Inr v'"
    "bv_inv LENGTH('r) v'" "m_sz v' = sz" "m_nbits v' = nbits"
    using writes_keep_inv [of "LENGTH('r)" v ups] by auto
  have "fits nbits (field (m_buf v') s nbits :: 'r word)" for s
    by (rule fitsI) (simp add: bit_simps)
  then show ?thesis using v' bv_get_field [OF v'(2)] by (auto simp: fits_iff_unat)
qed

theorem vector_reads_typed_witness:
  "\<exists>v v'. BitVectorFactory False False 64 12 4 = Inr (Some v) \<and>
     fold_res (\<lambda>(i, x) v. bv_set v i x) [(2, 0xabc), (3, 0x12345), (2, 1 :: u64)] v = Inr v' \<and>
     (\<forall>i < 4. \<exists>y :: u64. bv_get v' i = Inr y \<and> unat y < 2 ^ 12)"
proof -
  obtain v where v: "BitVectorFactory False False 64 12 4 = Inr (Some v)"
    using factory_total [of 12 64 False False 4] by auto
  have "storage_bits 12 \<le> LENGTH(64)" by (simp add: storage_bits_cases)
  from vector_reads_typed [OF v _ _ _ this, of "[(2, 0xabc), (3, 0x12345), (2, 1)]"] v show ?thesis by auto
qed

end
