(* ===== verification/UnitTests.thy ===== *)
theory UnitTests
  imports BitVectorProps
begin

text \<open>
  The unit tests of the packed vectors, \<^verbatim>\<open>unit-tests/BitVector.cpp\<close>, and what they use of
  \<^verbatim>\<open>include/xnu-trace/BitVector.h\<close> besides reads and writes: the proxies that indexing returns
  and the range-based loops over a vector.  A test is a result without a value, in which a
  \<^verbatim>\<open>REQUIRE\<close> that does not hold is a failed assertion; \<^verbatim>\<open>xxhash3_64\<close> is a parameter.
\<close>

section \<open>Proxies and loops\<close>

text \<open>\<^verbatim>\<open>GetSetIdxBase::proxy\<close>; its value is not initialised.\<close>

record 'val proxy =
  p_cursor :: cursor
  p_val :: "'val option"

definition bv_index :: "nat \<Rightarrow> nat \<Rightarrow> 'val proxy" where
  "bv_index tbl idx = \<lparr>p_cursor = \<lparr>m_tbl = tbl, m_idx = of_nat idx\<rparr>, p_val = None\<rparr>"

definition proxy_assign :: "bitvec \<Rightarrow> 'r::len word proxy \<Rightarrow> 'r word \<Rightarrow> (bitvec \<times> 'r word proxy) res" where
  "proxy_assign v p rhs =
     (let p = p\<lparr>p_val := Some rhs\<rparr> in and_then (cursor_write v (p_cursor p) rhs) (\<lambda>v. Inr (v, p)))"

definition proxy_value :: "bitvec \<Rightarrow> 'r::len word proxy \<Rightarrow> ('r word \<times> 'r word proxy) res" where
  "proxy_value v p = and_then (cursor_read v (p_cursor p)) (\<lambda>x. Inr (x, p\<lparr>p_val := Some x\<rparr>))"

definition proxy_equals :: "bitvec \<Rightarrow> 'r::len word proxy \<Rightarrow> 'r word \<Rightarrow> bool res" where
  "proxy_equals v p rhs = and_then (cursor_read v (p_cursor p)) (\<lambda>x. Inr (x = rhs))"

text \<open>A range-based \<^verbatim>\<open>for\<close> whose body gets the cursor of every element.\<close>

function for_each :: "(cursor \<Rightarrow> 's \<Rightarrow> 's res) \<Rightarrow> cursor \<Rightarrow> cursor \<Rightarrow> 's \<Rightarrow> 's res" where
  "for_each f c e s =
     and_then (cursor_equal c e) (\<lambda>at_end.
       if at_end then Inr s else and_then (f c s) (for_each f (cursor_next c) e))"
  by pat_completeness auto
termination
  by (relation "measure (\<lambda>(f, c, e, s). unat (m_idx e - m_idx c))")
    (auto simp: cursor_equal_def cursor_next_def res_simps intro!: unat_distance_less)

declare for_each.simps [simp del]

section \<open>The tests of the bit fields\<close>

definition require :: "'a res \<Rightarrow> 'a \<Rightarrow> unit res" where
  "require r y = and_then r (\<lambda>x. assert_that (x = y))"

definition require_false :: "'a res \<Rightarrow> 'a \<Rightarrow> unit res" where
  "require_false r y = and_then r (\<lambda>x. assert_that (x \<noteq> y))"

definition in_turn :: "unit res list \<Rightarrow> unit res" where
  "in_turn tests = fold_res (\<lambda>t _. t) tests ()"

definition hash_n :: "(u64 \<Rightarrow> u64) \<Rightarrow> nat \<Rightarrow> u64 \<Rightarrow> u64 res" where
  "hash_n xxhash3_64 nbits val = and_then (bit_mask 0 nbits) (\<lambda>m. Inr (xxhash3_64 val AND m))"

definition test_bit_mask :: "unit res" where
  "test_bit_mask = in_turn
     [require (bit_mask 0 1) (0b1 :: u32), require (bit_mask 0 2) (0b11 :: u32), require (bit_mask 0 3) (0b111 :: u32),
      require (bit_mask 1 3) (0b1110 :: u32), require (bit_mask 2 2) (0b1100 :: u32), require (bit_mask 4 4) (0b11110000 :: u32),
      require (bit_mask 0 31) (drop_bit 1 (- 1) :: u32), require (bit_mask 0 32) (- 1 :: u32)]"

text \<open>Masks taken out of masks, then fields written in binary.\<close>

definition mask_from_mask :: "nat \<Rightarrow> nat \<Rightarrow> unit res" where
  "mask_from_mask sb n = and_then (bit_mask sb n) (\<lambda>m :: u32. require (extract_bits False m sb n) (drop_bit sb m))"

definition test_extract_bits :: "unit res" where
  "test_extract_bits = in_turn
     [mask_from_mask 0 1, mask_from_mask 0 2, mask_from_mask 0 3, mask_from_mask 1 3, mask_from_mask 4 4,
      require (extract_bits False (0b1 :: u32) 0 1) 0b1, require (extract_bits False (0b10 :: u32) 1 1) 0b1,
      require (extract_bits False (0b10000000 :: u32) 7 1) 0b1,
      require (extract_bits False (0b11 :: u32) 0 2) 0b11, require (extract_bits False (0b110 :: u32) 1 2) 0b11,
      require (extract_bits False (0b110000000 :: u32) 7 2) 0b11,
      require (extract_bits False (0b101 :: u32) 0 3) 0b101, require (extract_bits False (0b1010 :: u32) 1 3) 0b101,
      require (extract_bits False (0b1010000000 :: u32) 7 3) 0b101,
      require_false (extract_bits False (0b1010000000 :: u32) 7 2) 0b101,
      require (extract_bits False (0b101010000 :: u32) 4 5) 0b10101]"

definition test_insert_bits :: "unit res" where
  "test_insert_bits = in_turn
     [require (insert_bits 0 (0b1 :: u32) 0 1) 0b1, require (insert_bits 0 (0b10 :: u32) 1 2) 0b100,
      require (insert_bits 0 (0b10000000 :: u32) 1 8) 0b100000000,
      require (insert_bits 1 (0b11 :: u32) 1 2) 0b111, require (insert_bits 1 (0b110 :: u32) 1 3) 0b1101,
      require (insert_bits 1 (0b110000000 :: u32) 1 9) 0b1100000001]"

section \<open>The tests of the vectors\<close>

definition fill :: "(nat \<Rightarrow> u64 res) \<Rightarrow> nat \<Rightarrow> bitvec \<Rightarrow> bitvec res" where
  "fill f sz v = fold_res (\<lambda>i v. and_then (f i) (bv_set v i)) [0..<sz] v"

definition require_all :: "(nat \<Rightarrow> u64 res) \<Rightarrow> nat \<Rightarrow> bitvec \<Rightarrow> unit res" where
  "require_all f sz v = fold_res (\<lambda>i _. and_then (f i) (require (bv_get v i))) [0..<sz] ()"

definition deref :: "bitvec option \<Rightarrow> bitvec res" where
  "deref p = (case p of Some v \<Rightarrow> Inr v | None \<Rightarrow> Inl Out_Of_Bounds)"

definition filled_reads_back :: "bitvec res \<Rightarrow> (nat \<Rightarrow> u64 res) \<Rightarrow> nat \<Rightarrow> unit res" where
  "filled_reads_back bv f sz = and_then bv (\<lambda>v. and_then (fill f sz v) (require_all f sz))"

definition test_exact_impl :: "(u64 \<Rightarrow> u64) \<Rightarrow> unit res" where
  "test_exact_impl xxh = filled_reads_back
     (Inr (BitVectorBase ExactBitVectorImpl False 16 8 (exact_byte_sz 16 8))) (\<lambda>i. hash_n xxh 16 (of_nat i)) 8"

definition test_exact :: "(u64 \<Rightarrow> u64) \<Rightarrow> unit res" where
  "test_exact xxh = filled_reads_back
     (and_then (BitVectorFactory False False 64 16 8) deref) (\<lambda>i. hash_n xxh 16 (of_nat i)) 8"

text \<open>\<^verbatim>\<open>make_signed_v(i) - (sz / 2)\<close> is computed in \<^verbatim>\<open>size_t\<close>.\<close>

definition centred :: "nat \<Rightarrow> nat \<Rightarrow> u64 res" where
  "centred sz i = Inr (of_nat i - of_nat (sz div 2))"

definition test_exact_signed :: "unit res" where
  "test_exact_signed = filled_reads_back (and_then (BitVectorFactory True False 64 32 8) deref) (centred 8) 8"

definition all_ones_32 :: "nat \<Rightarrow> nat \<Rightarrow> u64 res" where
  "all_ones_32 nbits i = and_then (bit_mask 0 nbits) (\<lambda>m :: u32. Inr (ucast m))"

definition test_non_atomic_smol_all_ones_impl :: "unit res" where
  "test_non_atomic_smol_all_ones_impl = filled_reads_back
     (Inr (BitVectorBase NonAtomicBitVectorImpl False 15 4 (nab_byte_sz 16 32 15 4))) (all_ones_32 15) 4"

definition test_non_atomic_mid_all_ones_impl :: "unit res" where
  "test_non_atomic_mid_all_ones_impl = filled_reads_back
     (Inr (BitVectorBase NonAtomicBitVectorImpl False 31 4 (nab_byte_sz 32 64 31 4))) (all_ones_32 31) 4"

definition test_non_atomic_mid_all_ones :: "unit res" where
  "test_non_atomic_mid_all_ones = filled_reads_back
     (and_then (BitVectorFactory False False 64 31 4) deref) (all_ones_32 31) 4"

definition test_non_atomic_mid_signed :: "unit res" where
  "test_non_atomic_mid_signed = filled_reads_back (and_then (BitVectorFactory True False 64 31 8) deref) (centred 8) 8"

definition test_non_atomic_big_all_ones :: "unit res" where
  "test_non_atomic_big_all_ones = filled_reads_back
     (and_then (BitVectorFactory False False 64 47 8) deref) (\<lambda>i. bit_mask 0 47) 8"

definition test_non_atomic_big_hash :: "(u64 \<Rightarrow> u64) \<Rightarrow> unit res" where
  "test_non_atomic_big_hash xxh = filled_reads_back
     (and_then (BitVectorFactory False False 64 47 8) deref) (\<lambda>i. hash_n xxh 47 (of_nat i)) 8"

text \<open>The four loops that read every element and count along.\<close>

definition loop_reads :: "(nat \<Rightarrow> u64 res) \<Rightarrow> nat \<Rightarrow> bitvec \<Rightarrow> unit res" where
  "loop_reads f tbl v =
     and_then (for_each (\<lambda>c i. and_then (cursor_read v c) (\<lambda>val. and_then (require (f i) val) (\<lambda>_. Inr (i + 1))))
       (bv_begin tbl) (bv_end tbl v) 0) (\<lambda>_. Inr ())"

definition loop_assigns :: "u64 \<Rightarrow> nat \<Rightarrow> bitvec \<Rightarrow> bitvec res" where
  "loop_assigns x tbl v = for_each (\<lambda>c v. cursor_write v c x) (bv_begin tbl) (bv_end tbl v) v"

definition index_reads :: "(nat \<Rightarrow> u64) \<Rightarrow> nat \<Rightarrow> nat \<Rightarrow> bitvec \<Rightarrow> unit res" where
  "index_reads f tbl sz v = fold_res (\<lambda>i _. require (proxy_equals v (bv_index tbl i) (f i)) True) [0..<sz] ()"

definition index_assigns :: "(nat \<Rightarrow> u64) \<Rightarrow> nat \<Rightarrow> nat \<Rightarrow> bitvec \<Rightarrow> bitvec res" where
  "index_assigns f tbl sz v =
     fold_res (\<lambda>i v. and_then (proxy_assign v (bv_index tbl i) (f i)) (\<lambda>(v, p). Inr v)) [0..<sz] v"

definition test_non_atomic_iterator :: "(u64 \<Rightarrow> u64) \<Rightarrow> nat \<Rightarrow> unit res" where
  "test_non_atomic_iterator xxh tbl =
     (let sz = 8; hash = \<lambda>i. hash_n xxh 12 (of_nat i) in
      and_then (and_then (BitVectorFactory False False 64 12 sz) deref) (\<lambda>v.
      and_then (fill hash sz v) (\<lambda>v.
      and_then (loop_reads hash tbl v) (\<lambda>_.
      and_then (loop_reads hash tbl v) (\<lambda>_.
      and_then (loop_reads hash tbl v) (\<lambda>_.
      and_then (loop_reads hash tbl v) (\<lambda>_.
      and_then (loop_assigns 0 tbl v) (\<lambda>v.
      and_then (loop_reads (\<lambda>_. Inr 0) tbl v) (\<lambda>_.
      and_then (index_reads (\<lambda>_. 0) tbl sz v) (\<lambda>_.
      and_then (fill (\<lambda>i. Inr (of_nat i)) sz v) (\<lambda>v.
      and_then (index_reads of_nat tbl sz v) (\<lambda>_.
      and_then (fill (\<lambda>_. Inr 0) sz v) (\<lambda>v.
      and_then (index_assigns of_nat tbl sz v) (\<lambda>v.
      require_all (\<lambda>i. Inr (of_nat i)) sz v))))))))))))))"

definition bit_vector_tests :: "(u64 \<Rightarrow> u64) \<Rightarrow> nat \<Rightarrow> unit res list" where
  "bit_vector_tests xxh tbl =
     [test_bit_mask, test_extract_bits, test_insert_bits, test_exact_impl xxh, test_exact xxh, test_exact_signed,
      test_non_atomic_smol_all_ones_impl, test_non_atomic_mid_all_ones_impl, test_non_atomic_mid_all_ones,
      test_non_atomic_mid_signed, test_non_atomic_big_all_ones, test_non_atomic_big_hash xxh,
      test_non_atomic_iterator xxh tbl]"

section \<open>Loops over a vector\<close>

text \<open>A range-based loop is a loop over the indices.\<close>

lemma for_each_indices:
  assumes "m_sz v < 2 ^ 64" and "i \<le> m_sz v"
  shows "for_each f \<lparr>m_tbl = t, m_idx = of_nat i\<rparr> (bv_end t v) s =
    fold_res (\<lambda>k. f \<lparr>m_tbl = t, m_idx = of_nat k\<rparr>) [i..<m_sz v] s"
  using assms(2)
proof (induction "m_sz v - i" arbitrary: i s)
  case 0
  then show ?case by (subst for_each.simps) (simp add: cursor_equal_def bv_end_def)
next
  case (Suc k)
  then have lt: "i < m_sz v" by simp
  have "unat (of_nat i :: u64) = i" "unat (of_nat (m_sz v) :: u64) = m_sz v"
    using lt assms(1) by (simp_all add: unat_of_nat)
  then have ne: "(of_nat i :: u64) \<noteq> of_nat (m_sz v)" using lt by (metis less_irrefl)
  have "cursor_next \<lparr>m_tbl = t, m_idx = of_nat i\<rparr> = \<lparr>m_tbl = t, m_idx = of_nat (Suc i)\<rparr>"
    by (simp add: cursor_next_def add.commute)
  then have "for_each f (cursor_next \<lparr>m_tbl = t, m_idx = of_nat i\<rparr>) (bv_end t v) =
      fold_res (\<lambda>k. f \<lparr>m_tbl = t, m_idx = of_nat k\<rparr>) [Suc i..<m_sz v]"
    using Suc.hyps(1) [of "Suc i"] Suc.hyps(2) lt by (auto simp: fun_eq_iff)
  moreover have "[i..<m_sz v] = i # [Suc i..<m_sz v]" using lt by (rule upt_conv_Cons)
  ultimately show ?case using ne by (subst for_each.simps) (simp add: cursor_equal_def bv_end_def)
qed

text \<open>A loop that writes one element per round, kept apart from how it reaches the element.\<close>

definition holds :: "nat \<Rightarrow> bitvec \<Rightarrow> u64 list \<Rightarrow> bool" where
  "holds n v l \<longleftrightarrow> bv_inv 64 v \<and> m_nbits v = n \<and> bv_list v = l"

lemma holds_size: "holds n v l \<Longrightarrow> m_sz v = length l"
  by (auto simp: holds_def bv_list_def)

lemma holds_get: "holds n v l \<Longrightarrow> i < length l \<Longrightarrow> bv_get v i = Inr (l ! i)"
  using bv.vget [where 'r = 64] by (auto simp: holds_def)

lemma holds_set: "holds n v l \<Longrightarrow> i < length l \<Longrightarrow> fits n x \<Longrightarrow> \<exists>v'. bv_set v i x = Inr v' \<and> holds n v' (l[i := x])"
  using bv.vset [where 'r = 64] unfolding holds_def by fastforce

lemma write_loop:
  assumes step: "\<And>i v l. i < sz \<Longrightarrow> holds n v l \<Longrightarrow> length l = sz \<Longrightarrow> \<exists>v'. F i v = Inr v' \<and> holds n v' (l[i := g i])"
    and "holds n v l" "length l = sz"
  obtains v' where "fold_res F [0..<sz] v = Inr v'" "holds n v' (map g [0..<sz])"
proof -
  have "\<exists>v'. fold_res F [0..<k] v = Inr v' \<and> holds n v' (map g [0..<k] @ drop k l)" if "k \<le> sz" for k
    using that
  proof (induction k)
    case 0
    then show ?case using assms(2) by simp
  next
    case (Suc k)
    then obtain v' where v': "fold_res F [0..<k] v = Inr v'" "holds n v' (map g [0..<k] @ drop k l)" by auto
    have "(map g [0..<k] @ drop k l)[k := g k] = map g [0..<Suc k] @ drop (Suc k) l"
      using Suc.prems assms(3) by (simp add: list_update_append Cons_nth_drop_Suc [symmetric])
    moreover obtain w where "F k v' = Inr w" "holds n w ((map g [0..<k] @ drop k l)[k := g k])"
      using step [OF _ v'(2), of k] Suc.prems assms(3) by auto
    ultimately show ?case using v'(1) by (simp add: fold_res_append)
  qed
  from this [of sz] that assms(3) show thesis by auto
qed

lemma check_loop:
  assumes "\<And>i. i < sz \<Longrightarrow> F i () = Inr ()"
  shows "fold_res F [0..<sz] () = Inr ()"
  using assms by (induction sz) (auto simp: fold_res_append)

lemma fill_holds:
  assumes "holds n v l" and "\<And>i. i < length l \<Longrightarrow> f i = Inr (g i) \<and> fits n (g i)"
  obtains v' where "fill f (length l) v = Inr v'" "holds n v' (map g [0..<length l])"
  unfolding fill_def by (rule write_loop [OF _ assms(1) refl, of "\<lambda>i v. and_then (f i) (bv_set v i)" g])
    (use assms(2) holds_set in \<open>auto\<close>)

lemma require_holds:
  assumes "holds n v l" and "\<And>i. i < length l \<Longrightarrow> f i = Inr (l ! i)"
  shows "require_all f (length l) v = Inr ()"
  unfolding require_all_def by (rule check_loop) (use assms holds_get in \<open>auto simp: require_def\<close>)

section \<open>The tests hold\<close>

lemma filled_holds:
  assumes "bv = Inr v" "holds n v l" and "\<And>i. i < length l \<Longrightarrow> f i = Inr (g i) \<and> fits n (g i)"
  shows "filled_reads_back bv f (length l) = Inr ()"
proof -
  from fill_holds [OF assms(2,3)] obtain v' where v': "fill f (length l) v = Inr v'" "holds n v' (map g [0..<length l])" .
  have "require_all f (length (map g [0..<length l])) v' = Inr ()"
    by (rule require_holds [OF v'(2)]) (use assms(3) in auto)
  then show ?thesis using v'(1) assms(1) by (simp add: filled_reads_back_def)
qed

lemma new_holds:
  assumes "0 < n" "n \<le> 64" and "n \<in> {33..63} \<Longrightarrow> \<forall>i < sz. off_boundary 64 n i" and "sz < 2 ^ 56"
  obtains v where "and_then (BitVectorFactory False False 64 n sz) deref = Inr v" "holds n v (replicate sz 0)"
proof -
  obtain v where v: "BitVectorFactory False False 64 n sz = Inr (Some v)"
    using factory_total [of n 64 False False sz] assms(1,2) by auto
  have "storage_bits n \<le> 64" using assms(1,2) by (auto simp: storage_bits_def int_n_def uint_n_def)
  from factory_inv [OF v _ _ assms(3) this assms(4)] that v show thesis by (simp add: holds_def deref_def)
qed

lemma hash_fits:
  assumes "0 < n" "n \<le> 64"
  shows "hash_n xxh n x = Inr (take_bit n (xxh x))" and "fits n (take_bit n (xxh x))"
  using assms by (simp_all add: hash_n_def bit_mask_eq fits_def take_bit_eq_mask)

lemma hash_test:
  assumes "0 < n" "n \<le> 64" and "n \<in> {33..63} \<Longrightarrow> \<forall>i < sz. off_boundary 64 n i" and "sz < 2 ^ 56"
  shows "filled_reads_back (and_then (BitVectorFactory False False 64 n sz) deref) (\<lambda>i. hash_n xxh n (of_nat i)) sz = Inr ()"
proof -
  from new_holds [OF assms] obtain v where v: "and_then (BitVectorFactory False False 64 n sz) deref = Inr v"
    "holds n v (replicate sz 0)" .
  from filled_holds [OF v, of "\<lambda>i. hash_n xxh n (of_nat i)" "\<lambda>i. take_bit n (xxh (of_nat i))"] show ?thesis
    using hash_fits [OF assms(1,2)] by simp
qed

lemma ones_test:
  assumes "0 < n" "n \<le> 64" and "n \<in> {33..63} \<Longrightarrow> \<forall>i < sz. off_boundary 64 n i" and "sz < 2 ^ 56"
    and "\<And>i. f i = Inr (mask n)"
  shows "filled_reads_back (and_then (BitVectorFactory False False 64 n sz) deref) f sz = Inr ()"
proof -
  from new_holds [OF assms(1-4)] obtain v where v: "and_then (BitVectorFactory False False 64 n sz) deref = Inr v"
    "holds n v (replicate sz 0)" .
  have "fits n (mask n :: u64)" by (simp add: fits_def)
  with filled_holds [OF v, of f "\<lambda>i. mask n"] assms(5) show ?thesis by simp
qed

lemma ones_32: "n \<in> {15, 31} \<Longrightarrow> all_ones_32 n i = Inr (mask n)"
  by (auto simp: all_ones_32_def bit_mask_eq mask_eq_exp_minus_1)

lemma impl_objects:
  "and_then (BitVectorFactory False False 64 16 8) deref = Inr (BitVectorBase ExactBitVectorImpl False 16 8 (exact_byte_sz 16 8))"
  "and_then (BitVectorFactory False False 64 15 4) deref = Inr (BitVectorBase NonAtomicBitVectorImpl False 15 4 (nab_byte_sz 16 32 15 4))"
  "and_then (BitVectorFactory False False 64 31 4) deref = Inr (BitVectorBase NonAtomicBitVectorImpl False 31 4 (nab_byte_sz 32 64 31 4))"
  by (code_simp, code_simp, code_simp)

lemma big_off_boundary: "\<forall>i < 8. off_boundary 64 47 i"
proof -
  have "list_all (off_boundary 64 47) [0..<8]" by code_simp
  then show ?thesis by (simp add: list_all_iff)
qed

lemma exact_tests: "test_exact_impl xxh = Inr ()" "test_exact xxh = Inr ()"
proof -
  show "test_exact xxh = Inr ()" unfolding test_exact_def by (rule hash_test) simp_all
  then show "test_exact_impl xxh = Inr ()" by (simp only: test_exact_impl_def test_exact_def impl_objects)
qed

lemma all_ones_tests: "test_non_atomic_smol_all_ones_impl = Inr ()" "test_non_atomic_mid_all_ones_impl = Inr ()"
  "test_non_atomic_mid_all_ones = Inr ()" "test_non_atomic_big_all_ones = Inr ()"
proof -
  show mid: "test_non_atomic_mid_all_ones = Inr ()"
    unfolding test_non_atomic_mid_all_ones_def by (rule ones_test) (simp_all add: ones_32)
  then show "test_non_atomic_mid_all_ones_impl = Inr ()"
    by (simp only: test_non_atomic_mid_all_ones_def test_non_atomic_mid_all_ones_impl_def impl_objects)
  show "test_non_atomic_smol_all_ones_impl = Inr ()"
    unfolding test_non_atomic_smol_all_ones_impl_def impl_objects [symmetric]
    by (rule ones_test) (simp_all add: ones_32)
  show "test_non_atomic_big_all_ones = Inr ()"
    unfolding test_non_atomic_big_all_ones_def by (rule ones_test) (simp_all add: big_off_boundary bit_mask_eq)
qed

lemma big_hash_test: "test_non_atomic_big_hash xxh = Inr ()"
  unfolding test_non_atomic_big_hash_def by (rule hash_test) (simp_all add: big_off_boundary)

lemma bit_field_tests: "test_bit_mask = Inr ()" "test_extract_bits = Inr ()" "test_insert_bits = Inr ()" "test_exact_signed = Inr ()"
  by code_simp+

text \<open>The negative values are written in ascending order, so what a write spills over is overwritten.\<close>

lemma signed_test: "test_non_atomic_mid_signed = Inr ()"
proof -
  let ?xs = "map (\<lambda>i. of_nat i - 4) [0..<8] :: u64 list"
  obtain v where v: "BitVectorFactory True False 64 31 8 = Inr (Some v)" using factory_total [of 31 64 True False 8] by auto
  have inv: "signed_inv v" "m_nbits v = 31" "m_sz v = 8" using factory_signed_inv [OF v] by auto
  from signed_fill [OF inv(1), of 0 ?xs] inv(2,3) obtain v' where v':
    "fold_res (\<lambda>(i, x) v. bv_set v i x) (zip [0..<8] ?xs) v = Inr v'" "signed_inv v'" "m_nbits v' = 31" "m_sz v' = 8"
    "\<forall>i < 8. signed_elem v' i = (signed_take_bit 30 (?xs ! i) :: u64)" by auto
  have z: "zip [0..<8] ?xs = map (\<lambda>i. (i, of_nat i - 4)) [0..<8]" by (simp add: zip_map2 zip_same_conv_map)
  have "fold_res (\<lambda>(i, x) v. bv_set v i x) (map (\<lambda>i. (i, h i)) ns) u = fold_res (\<lambda>i v. bv_set v i (h i)) ns u"
    for ns and h :: "nat \<Rightarrow> u64" and u
    by (induction ns arbitrary: u) (auto intro: arg_cong [where f = "and_then _"])
  with v'(1) z have "fill (centred 8) 8 v = Inr v'" by (simp add: fill_def centred_def)
  moreover have "require_all (centred 8) 8 v' = Inr ()"
    unfolding require_all_def
  proof (rule check_loop)
    fix i :: nat assume i: "i < 8"
    have "bv_get v' i = Inr (signed_elem v' i :: u64)" using signed_get [where 'r = 64, OF v'(2), of i] v'(3,4) i by (simp add: storage_bits_cases)
    moreover have "list_all (\<lambda>i. signed_take_bit 30 (of_nat i - 4 :: u64) = of_nat i - 4) [0..<8]" by code_simp
    then have "signed_take_bit 30 (of_nat i - 4 :: u64) = of_nat i - 4" using i by (simp add: list_all_iff)
    ultimately show "and_then (centred 8 i) (require (bv_get v' i)) = Inr ()" using v'(5) i by (simp add: centred_def require_def)
  qed
  ultimately show ?thesis using v by (simp add: test_non_atomic_mid_signed_def filled_reads_back_def deref_def)
qed

section \<open>The test of the iterators\<close>

lemma index_cursor:
  assumes "holds n v l" and "length l < 2 ^ 64" and "i < length l"
  shows "cursor_read v \<lparr>m_tbl = t, m_idx = of_nat i\<rparr> = Inr (l ! i)"
    and "cursor_write v \<lparr>m_tbl = t, m_idx = of_nat i\<rparr> (x :: u64) = bv_set v i x"
  using assms holds_get [OF assms(1,3)] by (simp_all add: cursor_read_def cursor_write_def unat_of_nat)

lemma loop_reads_holds:
  assumes h: "holds n v l" and sz: "length l < 2 ^ 64" and f: "\<And>i. i < length l \<Longrightarrow> f i = Inr (l ! i)"
  shows "loop_reads f t v = Inr ()"
proof -
  let ?body = "\<lambda>c i. and_then (cursor_read v c) (\<lambda>val. and_then (require (f i) val) (\<lambda>_. Inr (i + 1)))"
  have "fold_res (\<lambda>k. ?body \<lparr>m_tbl = t, m_idx = of_nat k\<rparr>) [0..<k] 0 = Inr k" if "k \<le> length l" for k
    using that by (induction k) (simp_all add: fold_res_append index_cursor(1) [OF h sz] f require_def)
  from this [of "length l"] show ?thesis
    using for_each_indices [of v 0 ?body t 0] holds_size [OF h] sz by (simp add: loop_reads_def bv_begin_def)
qed

lemma loop_assigns_holds:
  assumes h: "holds n v l" and sz: "length l < 2 ^ 64" and x: "fits n x"
  obtains v' where "loop_assigns x t v = Inr v'" "holds n v' (replicate (length l) x)"
proof (rule write_loop [OF _ h refl, of "\<lambda>k v. cursor_write v \<lparr>m_tbl = t, m_idx = of_nat k\<rparr> x" "\<lambda>_. x"])
  show "\<exists>v'. cursor_write v \<lparr>m_tbl = t, m_idx = of_nat i\<rparr> x = Inr v' \<and> holds n v' (k[i := x])"
    if "i < length l" "holds n v k" "length k = length l" for i v k
    using index_cursor(2) [OF that(2), of i t x] holds_set [OF that(2) _ x, of i] that sz by simp
  fix v' assume v': "fold_res (\<lambda>k v. cursor_write v \<lparr>m_tbl = t, m_idx = of_nat k\<rparr> x) [0..<length l] v = Inr v'"
    "holds n v' (map (\<lambda>_. x) [0..<length l])"
  moreover have "loop_assigns x t v = fold_res (\<lambda>k v. cursor_write v \<lparr>m_tbl = t, m_idx = of_nat k\<rparr> x) [0..<length l] v"
    using for_each_indices [of v 0 "\<lambda>c v. cursor_write v c x" t v] holds_size [OF h] sz
    by (simp add: loop_assigns_def bv_begin_def)
  ultimately show thesis using that by (simp add: map_replicate_const)
qed

lemma index_reads_holds:
  assumes "holds n v l" and "length l < 2 ^ 64" and "\<And>i. i < length l \<Longrightarrow> f i = l ! i"
  shows "index_reads f t (length l) v = Inr ()"
  unfolding index_reads_def
  by (rule check_loop) (use assms index_cursor(1) [OF assms(1,2)] in \<open>simp add: require_def proxy_equals_def bv_index_def\<close>)

lemma index_assigns_holds:
  assumes h: "holds n v l" and sz: "length l < 2 ^ 64" and f: "\<And>i. i < length l \<Longrightarrow> fits n (f i)"
  obtains v' where "index_assigns f t (length l) v = Inr v'" "holds n v' (map f [0..<length l])"
proof (rule write_loop [OF _ h refl, of "\<lambda>i v. and_then (proxy_assign v (bv_index t i) (f i)) (\<lambda>(v, p). Inr v)" f])
  show "\<exists>v'. and_then (proxy_assign v (bv_index t i) (f i)) (\<lambda>(v, p). Inr v) = Inr v' \<and> holds n v' (k[i := f i])"
    if "i < length l" "holds n v k" "length k = length l" for i v k
    using index_cursor(2) [OF that(2), of i t "f i"] holds_set [OF that(2) _ f [OF that(1)], of i] that sz
    by (auto simp: proxy_assign_def bv_index_def Let_def)
qed (use that in \<open>simp add: index_assigns_def\<close>)

lemma iterator_test: "test_non_atomic_iterator xxh t = Inr ()"
proof -
  let ?hash = "\<lambda>i. hash_n xxh 12 (of_nat i)" and ?h = "\<lambda>i. take_bit 12 (xxh (of_nat i)) :: u64"
  have small: "fits 12 (of_nat i :: u64)" if "i < 8" for i :: nat
  proof -
    have "list_all (\<lambda>i. take_bit 12 (of_nat i :: u64) = of_nat i) [0..<8]" by code_simp
    then show ?thesis using that by (simp add: list_all_iff fits_def)
  qed
  have zero: "fits 12 (0 :: u64)" by (simp add: fits_def)
  note hash = hash_fits [where n = 12 and xxh = xxh, simplified]
  obtain v0 where v0: "and_then (BitVectorFactory False False 64 12 8) deref = Inr v0" "holds 12 v0 (replicate 8 0)"
    using new_holds [of 12 8] by auto
  obtain v1 where v1: "fill ?hash 8 v0 = Inr v1" "holds 12 v1 (map ?h [0..<8])"
    using fill_holds [OF v0(2), of ?hash ?h] hash by auto
  have reads: "loop_reads ?hash t v1 = Inr ()" using hash by (intro loop_reads_holds [OF v1(2)]) simp_all
  obtain v2 where v2: "loop_assigns 0 t v1 = Inr v2" "holds 12 v2 (replicate 8 0)"
    using loop_assigns_holds [OF v1(2) _ zero, of t] by auto
  have zeros: "loop_reads (\<lambda>_. Inr 0) t v2 = Inr ()" "index_reads (\<lambda>_. 0) t 8 v2 = Inr ()"
    using loop_reads_holds [OF v2(2), of "\<lambda>_. Inr 0"] index_reads_holds [OF v2(2), of "\<lambda>_. 0"] by auto
  obtain v3 where v3: "fill (\<lambda>i. Inr (of_nat i)) 8 v2 = Inr v3" "holds 12 v3 (map of_nat [0..<8])"
    using fill_holds [OF v2(2), of "\<lambda>i. Inr (of_nat i)" of_nat] small by auto
  have idx: "index_reads of_nat t 8 v3 = Inr ()" using index_reads_holds [OF v3(2), of of_nat] by simp
  obtain v4 where v4: "fill (\<lambda>_. Inr 0) 8 v3 = Inr v4" "holds 12 v4 (map (\<lambda>_. 0) [0..<8])"
    using fill_holds [OF v3(2), of "\<lambda>_. Inr 0" "\<lambda>_. 0"] zero by auto
  obtain v5 where v5: "index_assigns of_nat t 8 v4 = Inr v5" "holds 12 v5 (map of_nat [0..<8])"
    using index_assigns_holds [OF v4(2), of of_nat t] small by auto
  have "require_all (\<lambda>i. Inr (of_nat i)) 8 v5 = Inr ()" using require_holds [OF v5(2), of "\<lambda>i. Inr (of_nat i)"] by simp
  then show ?thesis
    unfolding test_non_atomic_iterator_def Let_def v0(1)
    by (simp only: and_then_simps v1(1) reads v2(1) zeros v3(1) idx v4(1) v5(1))
qed

text \<open>C22: Every test of \<^verbatim>\<open>unit-tests/BitVector.cpp\<close> passes, whatever the hash function whose values
  are stored: the bit fields, the vectors built directly and by the factory, the signed ones,
  and the loops that read and assign through iterators and proxies.\<close>

theorem bit_vector_tests_pass:
  "in_turn (bit_vector_tests xxh tbl) = Inr ()"
  by (simp add: in_turn_def bit_vector_tests_def bit_field_tests exact_tests all_ones_tests big_hash_test signed_test iterator_test)

end
