(* ===== verification/LibraryTests.thy ===== *)
theory LibraryTests
  imports UnitTests ChunkSearch MphMap
begin

text \<open>
  The unit tests of the parallel search and of the perfect hash,
  \<^verbatim>\<open>unit-tests/memmem-chunking.cpp\<close> and \<^verbatim>\<open>unit-tests/MinimalPerfectHash.cpp\<close>.  The blocks of
  the thread pool and the order in which they return are arguments, as in \<open>ChunkSearch\<close>; the
  keys, random or read from a file, are arguments too.
\<close>

section \<open>The parallel search\<close>

definition check_ptrs :: "nat option list res \<Rightarrow> (nat \<Rightarrow> nat option) \<Rightarrow> unit res" where
  "check_ptrs ptrs expected =
     and_then ptrs (\<lambda>one_ptrs. in_turn (assert_that (length one_ptrs = 4) # map (\<lambda>i. require (at one_ptrs i) (expected i)) [0..<4]))"

definition test_smol_chunk :: "(nat \<times> nat) list \<Rightarrow> nat list \<Rightarrow> unit res" where
  "test_smol_chunk blks order = check_ptrs (chunk_into_bins_by_needle blks order 4 [1, 1, 1, 1] [1]) Some"

definition test_smol2_chunk :: "(nat \<times> nat) list \<Rightarrow> nat list \<Rightarrow> unit res" where
  "test_smol2_chunk blks order =
     check_ptrs (chunk_into_bins_by_needle blks order 4 [1, 0, 1, 0, 1, 0, 1, 0] [1]) (\<lambda>i. Some (i * 2))"

definition test_smol2_uneven_chunk :: "(nat \<times> nat) list \<Rightarrow> nat list \<Rightarrow> unit res" where
  "test_smol2_uneven_chunk blks order =
     check_ptrs (chunk_into_bins_by_needle blks order 4 [1, 0, 1, 0, 1, 1, 0, 0] [1]) (\<lambda>i. if i \<noteq> 3 then Some (i * 2) else None)"

text \<open>The blocks of four equal parts.\<close>

definition quarters :: "nat \<Rightarrow> (nat \<times> nat) list" where
  "quarters k = map (\<lambda>i. (i * k, i * k + k)) [0..<4]"

text \<open>The tests of the parallel search pass under every schedule of the pool, once the waiting
  caller has returned, for blocks that divide the haystack into four equal parts.\<close>

lemma chunk_tests_pass:
  assumes "runs (pool_step p) acts (pool_init 4) s" and "waiter s = Returned"
  shows "test_smol_chunk (quarters 1) (ran s) = Inr () \<and> test_smol2_chunk (quarters 2) (ran s) = Inr () \<and>
    test_smol2_uneven_chunk (quarters 2) (ran s) = Inr ()"
proof -
  have r: "runs (pool_step p) acts (pool_init (of_nat (length (quarters k)))) s" for k
    using assms(1) by (simp add: quarters_def)
  have blocks: "\<forall>(a, b) \<in> set (quarters k). a \<le> b \<and> b \<le> length h" if "length h = 4 * k" for k and h :: buffer
    using that by (auto simp: quarters_def)
  have bins: "chunk_into_bins_by_needle (quarters k) (ran s) 4 h [1] = Inr (map (first_in_block h [1]) (quarters k))"
    if "length h = 4 * k" for k and h :: buffer
    using bins_of_any_schedule [OF r assms(2) _ _ _ blocks [OF that], of 4 "[1]"] by (simp add: quarters_def)
  have f: "map (first_in_block [1, 1, 1, 1] [1]) (quarters 1) = map Some [0, 1, 2, 3]"
    "map (first_in_block [1, 0, 1, 0, 1, 0, 1, 0] [1]) (quarters 2) = map Some [0, 2, 4, 6]"
    "map (first_in_block [1, 0, 1, 0, 1, 1, 0, 0] [1]) (quarters 2) = map Some [0, 2, 4] @ [None]"
    by (simp_all add: quarters_def first_in_block_def occurs_take upt_rec)
  have c: "check_ptrs (Inr (map Some [0, 1, 2, 3])) Some = Inr ()" "check_ptrs (Inr (map Some [0, 2, 4, 6])) (\<lambda>i. Some (i * 2)) = Inr ()"
    "check_ptrs (Inr (map Some [0, 2, 4] @ [None])) (\<lambda>i. if i \<noteq> 3 then Some (i * 2) else None) = Inr ()"
    by (simp_all add: check_ptrs_def in_turn_def require_def upt_rec)
  show ?thesis
    unfolding test_smol_chunk_def test_smol2_chunk_def test_smol2_uneven_chunk_def
    using bins [of "[1, 1, 1, 1]" 1] bins [of "[1, 0, 1, 0, 1, 0, 1, 0]" 2] bins [of "[1, 0, 1, 0, 1, 1, 0, 0]" 2] c
    unfolding f by simp
qed

section \<open>The perfect hash\<close>

definition check_mph :: "hash_lib \<Rightarrow> u64 list \<Rightarrow> mph \<Rightarrow> unit res" where
  "check_mph e keys m =
     and_then (map_res (mph_lookup e m) keys) (\<lambda>idxes.
     let idxes = remdups_adj (sort idxes) in
     in_turn [assert_that (length idxes = length keys), require (at idxes 0) 0,
       and_then (at idxes (length idxes - 1)) (\<lambda>x. assert_that (unat x = length idxes - 1))])"

definition test_check :: "hash_lib \<Rightarrow> nat \<Rightarrow> u64 list \<Rightarrow> unit res" where
  "test_check e timer keys = and_then (mph_build e timer mph_empty keys) (check_mph e keys)"

lemma sorted_slots:
  assumes "length xs = n" and "bij_betw unat (set xs) {..<n}"
  shows "map unat (remdups_adj (sort xs)) = [0..<n]" and "length (remdups_adj (sort (xs :: u32 list))) = n"
proof -
  have "card (set xs) = n" using bij_betw_same_card [OF assms(2)] by simp
  then have d: "distinct xs" using assms(1) by (simp add: card_distinct)
  then have r: "remdups_adj (sort xs) = sort xs" by (simp add: remdups_adj_distinct)
  have "sorted (map unat (sort xs))"
    unfolding sorted_map by (rule sorted_wrt_mono_rel [OF _ sorted_sort]) (simp add: word_le_nat_alt)
  moreover have "distinct (map unat (sort xs))" using d assms(2) by (simp add: distinct_map bij_betw_def)
  moreover have "set (map unat (sort xs)) = set [0..<n]" using assms(2) by (simp add: bij_betw_def atLeast0LessThan)
  ultimately show "map unat (remdups_adj (sort xs)) = [0..<n]" unfolding r by (intro sorted_distinct_set_unique) simp_all
  show "length (remdups_adj (sort xs)) = n" using r assms(1) by simp
qed

lemma built_check:
  assumes b: "mph_built e keys m" and ne: "keys \<noteq> []"
  shows "check_mph e keys m = Inr ()"
proof -
  obtain x where x: "\<And>k. mph_lookup e m k = Inr (x k)" "\<And>k. unat (x k) = mph.slot e m k"
    using mph.slot [OF b ne] by metis
  have "bij_betw unat (x ` set keys) {..<length keys}"
    using mph.slot_bij [OF b] x(2) by (auto simp: bij_betw_def inj_on_def image_image)
  then have "bij_betw unat (set (map x keys)) {..<length keys}" by simp
  note s = sorted_slots [OF _ this, simplified]
  let ?l = "remdups_adj (sort (map x keys))"
  have at: "unat (?l ! i) = i" if "i < length keys" for i
  proof -
    have "map unat ?l ! i = [0..<length keys] ! i" by (simp only: s(1))
    then show ?thesis using that s(2) by simp
  qed
  have "0 < length keys" using ne by simp
  then have "?l ! 0 = 0" "unat (?l ! (length keys - 1)) = length keys - 1"
    using at [of 0] at [of "length keys - 1"] by (simp_all add: unat_eq_0)
  moreover have "map_res (mph_lookup e m) keys = Inr (map x keys)" by (rule map_res_total) (rule x(1))
  ultimately show ?thesis
    using s(2) ne by (simp add: check_mph_def in_turn_def require_def Let_def del: One_nat_def)
qed

text \<open>The test of the perfect hash passes for every non-empty list of keys on which the construction
  succeeds: sorted and without repetitions, the slots of the keys are as many as the keys, the
  first is 0 and the last is the number of keys minus one.\<close>

lemma hash_check_passes:
  assumes "fastmod_ok e" "sort_ok e" and "mph_build e timer mph_empty keys = Inr m" and "keys \<noteq> []" "length keys < 2 ^ 31"
  shows "test_check e timer keys = Inr ()"
proof -
  have "mph_built e keys m" using assms by (auto simp: mph_built_def salts_ok_def mph_empty_def intro!: exI [of _ mph_empty])
  from built_check [OF this assms(4)] show ?thesis using assms(3) by (simp add: test_check_def)
qed

lemma hash_check_passes_witness: "test_check reference_lib 10 [5, 77, 4096] = Inr ()"
  using hash_check_passes [OF reference_lib_ok(1,2) reference_build] by simp

end
