(* ===== verification/Runner.thy ===== *)
theory Runner
  imports TracerProps
begin

text \<open>
  The program that runs a trace, \<^verbatim>\<open>tools/xnu-trace-single-step-runner\<close>: what \<^verbatim>\<open>main\<close> does with
  its options up to the point where it waits for events, and the handler it installs for the
  interrupt signal and for the exit of the target.

  The parsed options are a record; \<open>attach_name\<close> is what \<^verbatim>\<open>parser.present("--attach")\<close> gives,
  \<open>global_queue\<close> the queue of the dispatch library, and \<open>procs\<close> the processes with their paths.
\<close>

section \<open>The main function\<close>

record runner_opts =
  do_spawn :: bool
  do_attach :: bool
  disable_aslr :: bool
  do_pipe :: bool
  with_symbols :: bool
  compression_level :: int
  to_stream :: bool
  spawn_arguments :: "buffer list"

definition usage_error :: "runner_opts \<Rightarrow> bool" where
  "usage_error opt \<longleftrightarrow>
     (\<not> do_spawn opt \<and> \<not> do_attach opt) \<or> (do_spawn opt \<and> do_attach opt) \<or>
     (do_attach opt \<and> disable_aslr opt) \<or> (do_attach opt \<and> do_pipe opt)"

definition make_tracer ::
    "'k sys \<Rightarrow> (u32 \<times> buffer option) list \<Rightarrow> buffer res \<Rightarrow> runner_opts \<Rightarrow> 'k tracer \<Rightarrow> 'k tracer res" where
  "make_tracer m procs attach_arg opt tr =
     (if do_attach opt then and_then attach_arg (\<lambda>target_name. attach_name m procs target_name (with_symbols opt) tr)
      else if do_spawn opt then
        spawn_tracer m (spawn_arguments opt) (do_pipe opt) (disable_aslr opt) (with_symbols opt) tr
      else Inl Assertion_Failed)"

definition SIGINT :: u32 where "SIGINT = 2"

text \<open>The accessors assert that the source exists.\<close>

definition source_of :: "u32 \<Rightarrow> u32 res" where
  "source_of src = and_then (assert_that (src \<noteq> 0)) (\<lambda>_. Inr src)"

text \<open>Where the main function ends up; a running one has resumed its sources in the order of the list.\<close>

datatype 'k runner = Exits int | Waiting "'k tracer" directory "u32 list"

definition runner_main ::
    "'k sys \<Rightarrow> (u32 \<times> buffer option) list \<Rightarrow> buffer res \<Rightarrow> u32 \<Rightarrow> runner_opts \<Rightarrow> 'k \<Rightarrow> directory \<Rightarrow> 'k runner res" where
  "runner_main m procs attach_arg global_queue opt k dir =
     (if usage_error opt then Inr (Exits (- 1))
      else let (lg, dir) = trace_log_start (to_stream opt) dir in
        and_then (make_tracer m procs attach_arg opt (new_tracer k lg False)) (\<lambda>tr.
        and_then (assert_that (global_queue \<noteq> 0)) (\<lambda>_.
        and_then (assert_some (k_source_create m (Source_Signal SIGINT) (os tr))) (\<lambda>(signal_source, k).
        let tr = tr\<lparr>os := k\<rparr> in
        and_then
          (if do_pipe opt then
             and_then (source_of (m_pipe_source tr)) (\<lambda>pipe_source.
             and_then (set_single_step m False tr) (\<lambda>tr. Inr (tr, [signal_source, pipe_source])))
           else Inr (tr, [signal_source])) (\<lambda>(tr, resumed).
        and_then (source_of (m_breakpoint_exc_source tr)) (\<lambda>breakpoint_exc_source.
        and_then (source_of (m_proc_source tr)) (\<lambda>proc_source.
        and_then (resume m tr) (\<lambda>tr.
        Inr (Waiting tr dir (resumed @ [breakpoint_exc_source, proc_source]))))))))))"

text \<open>
  The block of both the interrupt and the exit of the target: delete the tracer, leave with
  status 0.  The directory is what the destructor leaves, whether it returns or not.
\<close>

definition runner_end ::
    "'k sys \<Rightarrow> ('c, 'd) zstd_lib \<Rightarrow> int \<Rightarrow> nat \<Rightarrow> ((u64 \<times> u64) list \<Rightarrow> u64 \<times> u64 \<Rightarrow> bool) \<Rightarrow> buffer \<Rightarrow> int \<Rightarrow>
       directory \<Rightarrow> 'k tracer \<Rightarrow> directory \<times> int res" where
  "runner_end m z cores fuel tree after level dir tr =
     (case delete_tracer m z cores fuel tree after level dir tr of
        (dir, r) \<Rightarrow> (dir, and_then r (\<lambda>_. Inr 0)))"

section \<open>The state it waits in\<close>

text \<open>
  What the runner relies on: a port that \<^verbatim>\<open>task_for_pid\<close> gives is valid and behaves, a process
  that is attached to runs, a spawned one is suspended once.
\<close>

definition ports_ok :: "'k sys \<Rightarrow> bool" where
  "ports_ok m \<longleftrightarrow> (\<forall>pid k t k'. k_task_for_pid m pid k = Some (t, k') \<longrightarrow> MACH_PORT_VALID t \<and> kernel_ok m t \<and> setup_ok m t)"

definition attached_runs :: "'k sys \<Rightarrow> 'k \<Rightarrow> bool" where
  "attached_runs m k \<longleftrightarrow> (\<forall>pid t k' i. k_task_for_pid m pid k = Some (t, k') \<longrightarrow> k_task m k' t = Some i \<longrightarrow> suspend_count i = 0)"

definition spawned_suspended :: "'k sys \<Rightarrow> bool" where
  "spawned_suspended m \<longleftrightarrow> (\<forall>path args k pid k1 calls k2 t k3 i.
     k_posix_spawnp m path args k = Some (pid, k1) \<longrightarrow> posix_calls m calls k1 = Inr k2 \<longrightarrow>
     k_task_for_pid m pid k2 = Some (t, k3) \<longrightarrow> k_task m k3 t = Some i \<longrightarrow> suspend_count i = 1)"

text \<open>The tracer is in order, and its target, while it exists, is suspended \<open>n\<close> times.\<close>

definition in_order :: "'k sys \<Rightarrow> int \<Rightarrow> 'k tracer \<Rightarrow> bool" where
  "in_order m n tr \<longleftrightarrow> exceptions_inv m tr \<and> setup_ok m (m_target_task tr) \<and> (\<forall>i. target_info m tr = Some i \<longrightarrow> suspend_count i = n)"

lemma constructed_in_order:
  assumes "tracer_kernel_ok m tr" and "setup_ok m (m_target_task tr)" and "\<not> m_single_stepping tr"
    and "\<And>i. target_info m tr = Some i \<Longrightarrow> suspend_count i = n" and "common_ctor m pipe_ctrl symbolicate tr = Inr tr'"
  shows "in_order m n tr' \<and> m_single_stepping tr' = (\<not> pipe_ctrl)"
  using common_ctor_inv [OF assms(1-3,5)] assms(2,4)
  by (cases "target_info m tr"; cases "target_info m tr'") (auto simp: in_order_def)

lemma made_in_order:
  assumes m: "ports_ok m" "if do_attach opt then attached_runs m k else spawned_suspended m"
    and u: "\<not> usage_error opt" and mk: "make_tracer m procs attach_arg opt (new_tracer k lg False) = Inr tr"
  shows "in_order m 1 tr \<and> m_single_stepping tr = (\<not> do_pipe opt)"
proof (cases "do_attach opt")
  case True
  then obtain target_name where "attach_name m procs target_name (with_symbols opt) (new_tracer k lg False) = Inr tr"
    using mk by (auto simp: make_tracer_def res_simps)
  then obtain pid t k1 tr1 where p: "k_task_for_pid m pid k = Some (t, k1)"
    and sus: "suspend m ((new_tracer k lg False)\<lparr>os := k1, m_target_task := t\<rparr>) = Inr tr1"
    and c: "common_ctor m False (with_symbols opt) tr1 = Inr tr"
    by (auto simp: attach_name_def res_simps new_tracer_def)
  let ?tr = "(new_tracer k lg False)\<lparr>os := k1, m_target_task := t\<rparr>"
  have su: "setup_ok m t" and ok: "tracer_kernel_ok m ?tr"
    using m(1) p by (auto simp: ports_ok_def tracer_kernel_ok_def)
  have act: "acts_as m (add_suspend 1) ?tr tr1" "\<not> m_single_stepping tr1"
    using suspend_acts [OF ok sus] by (simp_all add: new_tracer_def)
  have "tracer_kernel_ok m tr1" "m_target_task tr1 = t"
    using ok acts_as_ok [OF act(1)] act(1) by (simp_all add: acts_as_def ids_def)
  moreover have "suspend_count i = 1" if "target_info m tr1 = Some i" for i
  proof -
    have "map_option (add_suspend 1) (k_task m k1 t) = Some i"
      using act(1) that by (simp add: acts_as_def target_info_def)
    then obtain j where "k_task m k1 t = Some j" "i = add_suspend 1 j" by auto
    then show ?thesis using m(2) True p by (auto simp: attached_runs_def add_suspend_def)
  qed
  moreover have "\<not> do_pipe opt" using u True by (simp add: usage_error_def)
  ultimately show ?thesis using constructed_in_order [OF _ _ act(2) _ c] su by simp
next
  case False
  then have "spawn_tracer m (spawn_arguments opt) (do_pipe opt) (disable_aslr opt) (with_symbols opt) (new_tracer k lg False) = Inr tr"
    using mk by (auto simp: make_tracer_def split: if_splits)
  then obtain pid tr1 t k2 where sp: "spawn_with_args m (spawn_arguments opt) (do_pipe opt) (disable_aslr opt) (new_tracer k lg False) = Inr (pid, tr1)"
    and p: "k_task_for_pid m pid (os tr1) = Some (t, k2)"
    and c: "common_ctor m (do_pipe opt) (with_symbols opt) (tr1\<lparr>os := k2, m_target_task := t\<rparr>) = Inr tr"
    by (auto simp: spawn_tracer_def res_simps)
  from sp obtain path args k0 k1 calls where started: "k_posix_spawnp m path args k0 = Some (pid, k1)" "posix_calls m calls k1 = Inr (os tr1)"
    and "m_single_stepping tr1 = m_single_stepping (new_tracer k lg False)"
    by (auto simp: spawn_with_args_def res_simps split: if_splits)
  moreover have "suspend_count i = 1" if "k_task m k2 t = Some i" for i
    using m(2) False started p that by (simp add: spawned_suspended_def)
  moreover have "MACH_PORT_VALID t \<and> kernel_ok m t \<and> setup_ok m t"
    using m(1) p unfolding ports_ok_def by blast
  ultimately show ?thesis
    by (intro constructed_in_order [OF _ _ _ _ c]) (auto simp: tracer_kernel_ok_def target_info_def new_tracer_def)
qed

lemma os_irrelevant:
  assumes "in_order m n tr" and "k_source_create m s (os tr) = Some (src, k)"
  shows "in_order m n (tr\<lparr>os := k\<rparr>)"
proof -
  have "k_task m k (m_target_task tr) = k_task m (os tr) (m_target_task tr)"
    using assms changes_snd [of m "m_target_task tr" "k_source_create m s"] by (auto simp: in_order_def setup_ok_def)
  then show ?thesis using assms(1) by (simp add: in_order_def exceptions_inv_def tracer_kernel_ok_def target_info_def)
qed

lemma step_in_order:
  assumes "in_order m n tr" and "tracer_step m ev tr tr'"
  shows "in_order m (n + suspends ev) tr'"
proof -
  have "good_step m (suspends ev) tr tr'" using assms by (intro tracer_step_good) (simp_all add: in_order_def)
  then show ?thesis using assms(1) by (auto simp: in_order_def good_step_def ids_def)
qed

lemma runs_in_order:
  assumes "runs (tracer_step m) es tr tr'" and "in_order m n tr"
  shows "in_order m (n + sum_list (map suspends es)) tr'"
  using assms by (induction rule: runs.induct) (auto dest: step_in_order simp: add.assoc)

lemma waiting_in_order:
  assumes m: "ports_ok m" "if do_attach opt then attached_runs m k else spawned_suspended m"
    and main: "runner_main m procs attach_arg global_queue opt k dir = Inr (Waiting tr dir' resumed)"
  shows "in_order m 0 tr"
proof -
  have u: "\<not> usage_error opt" using main by (auto simp: runner_main_def)
  with main obtain lg tr1 src k1 tr2 rs where
    mk: "make_tracer m procs attach_arg opt (new_tracer k lg False) = Inr tr1"
    and src: "k_source_create m (Source_Signal SIGINT) (os tr1) = Some (src, k1)"
    and pipe: "(if do_pipe opt then
             and_then (source_of (m_pipe_source (tr1\<lparr>os := k1\<rparr>))) (\<lambda>pipe_source.
             and_then (set_single_step m False (tr1\<lparr>os := k1\<rparr>)) (\<lambda>tr. Inr (tr, [src, pipe_source])))
           else Inr (tr1\<lparr>os := k1\<rparr>, [src])) = Inr (tr2, rs)"
    and res: "resume m tr2 = Inr tr"
    by (auto simp: runner_main_def res_simps Let_def trace_log_start_def)
  have "in_order m 1 (tr1\<lparr>os := k1\<rparr>)"
    using made_in_order [OF m u mk] os_irrelevant [OF _ src] by blast
  then have "in_order m 1 tr2"
    using pipe step_in_order [OF _ tracer_step.single_step, of m 1 "tr1\<lparr>os := k1\<rparr>" False tr2]
    by (auto simp: res_simps split: if_splits)
  from step_in_order [OF this tracer_step.resume [OF res]] show ?thesis by simp
qed

section \<open>How a session ends\<close>

text \<open>What can happen while the main function waits: it is the pipe's requests, the breakpoints and the outside.\<close>

fun session_event :: "'k event \<Rightarrow> bool" where
  "session_event Pipe_Readable = True"
| "session_event Pipe_Block = True"
| "session_event (Breakpoint th st) = True"
| "session_event (Outside k) = True"
| "session_event e = False"

lemma session_balanced: "list_all session_event es \<Longrightarrow> sum_list (map suspends es) = 0"
proof (induction es)
  case (Cons e es)
  then show ?case by (cases e) simp_all
qed simp

text \<open>When the target is gone nothing is left to resume: the log is written and the program leaves.\<close>

lemma runner_end_gone:
  assumes "tracer_kernel_ok m tr" and "target_info m tr = None" and "\<not> m_measuring_stats tr" and "m_macho_regions tr = Some mr"
    and "trace_log_write z cores fuel tree after (m_stream (m_log tr)) level (log_ctxs (m_log tr))
         (mr_regions mr) (m_symbols tr) dir = Inr (dir', hdrs)"
  shows "runner_end m z cores fuel tree after level dir tr = (dir', Inr 0)"
proof -
  have t: "m_target_task tr \<noteq> 0" "\<not> target_valid m tr"
    using assms(1) target_gone [OF assms(1)] assms(2) by (auto simp: tracer_kernel_ok_def MACH_PORT_VALID_def)
  then have "resume m (tr\<lparr>g_tracer := False\<rparr>) = Inr (tr\<lparr>g_tracer := False\<rparr>)"
    by (simp add: resume_def target_valid_def)
  then show ?thesis
    using t assms(3-5) by (simp add: runner_end_def delete_tracer_def stop_measuring_stats_def assert_some_def)
qed

text \<open>C15: In every session of the runner, attached or spawned, controlled by a pipe or not, that gets to its
  event loop, and after any events of it: the target runs (it is not suspended), its breakpoints
  go to the tracer exactly while it is single-stepped, and an interrupt does not end the session
  properly - the destructor's last resume fails, and the handler never reaches its \<^verbatim>\<open>exit(0)\<close>.\<close>

theorem interrupted_session_fails:
  assumes "ports_ok m" and "if do_attach opt then attached_runs m k else spawned_suspended m"
    and "runner_main m procs attach_arg global_queue opt k dir = Inr (Waiting tr dir' resumed)"
    and "runs (tracer_step m) es tr tr'" and "list_all session_event es" and "target_info m tr' = Some i"
  shows "suspend_count i = 0 \<and>
    breakpoint_exc i = (if m_single_stepping tr' then tracer_action (m_breakpoint_exc_port tr') else m_orig_breakpoint_exc tr') \<and>
    (\<exists>left e. runner_end m z cores fuel tree after level dir' tr' = (left, Inl e))"
proof -
  have ord: "in_order m 0 tr'"
    using runs_in_order [OF assms(4) waiting_in_order [OF assms(1-3)]] session_balanced [OF assms(5)] by simp
  then have "suspend_count i = 0" "tracer_kernel_ok m tr'"
    "breakpoint_exc i = (if m_single_stepping tr' then tracer_action (m_breakpoint_exc_port tr') else m_orig_breakpoint_exc tr')"
    using assms(6) by (auto simp: in_order_def exceptions_inv_def)
  moreover from this(1,2) have "snd (delete_tracer m z cores fuel tree after level dir' tr') \<noteq> Inr r" for r
    using delete_running_fails [OF _ assms(6)] by blast
  then obtain left err where "delete_tracer m z cores fuel tree after level dir' tr' = (left, Inl err)"
    by (metis prod.collapse sum.exhaust)
  then have "\<exists>left e. runner_end m z cores fuel tree after level dir' tr' = (left, Inl e)"
    by (simp add: runner_end_def)
  ultimately show ?thesis by blast
qed

text \<open>A program spawned under the control of a pipe on the small kernel.\<close>

definition pipe_opts :: runner_opts where
  "pipe_opts = \<lparr>do_spawn = True, do_attach = False, disable_aslr = False, do_pipe = True, with_symbols = False,
     compression_level = 1, to_stream = False, spawn_arguments = [ascii ''a'']\<rparr>"

lemma mini_ports: "ports_ok mini_sys" "spawned_suspended mini_sys"
proof -
  have "setup_ok mini_sys 7" by (auto simp: setup_ok_def changes_def mini_sys_def split: if_splits)
  then show "ports_ok mini_sys"
    using mini_kernel_ok by (auto simp: ports_ok_def MACH_PORT_VALID_def) (auto simp: mini_sys_def)
  have same: "posix_calls mini_sys calls k = Inr k' \<Longrightarrow> k' = k" for calls k k'
    by (induction calls arbitrary: k) (auto simp: posix_calls_def mini_sys_def check_def res_simps)
  show "spawned_suspended mini_sys"
    unfolding spawned_suspended_def
  proof (intro allI impI)
    fix path args k pid k1 calls k2 t k3 i
    assume a: "k_posix_spawnp mini_sys path args k = Some (pid, k1)" "posix_calls mini_sys calls k1 = Inr k2"
      "k_task_for_pid mini_sys pid k2 = Some (t, k3)" "k_task mini_sys k3 t = Some i"
    obtain j c out where k: "k = (j, c, out)" by (cases k)
    have "k1 = (mini_task 1, c, out)" using a(1) k by (simp add: mini_sys_def)
    moreover have "t = 7" "k3 = k1" using a(3) same [OF a(2)] by (simp_all add: mini_sys_def)
    ultimately show "suspend_count i = 1" using a(4) by (auto simp: mini_sys_def mini_task_def)
  qed
qed

lemma mini_runner:
  "\<exists>tr. runner_main mini_sys [] (Inl Assertion_Failed) 1 pipe_opts (mini_task 0, 50, []) [] = Inr (Waiting tr [] [2, 2, 2, 2]) \<and>
     target_info mini_sys tr \<noteq> None"
proof -
  let ?lg = "\<lparr>m_num_inst = 0, m_stream = False, m_thread_ctxs = \<lparr>m_mph = mph_empty, m_key_vals = []\<rparr>\<rparr>"
  let ?tr0 = "(new_tracer (mini_task 1, 50, []) ?lg False)
    \<lparr>m_target_task := 7, m_target2tracer_fd := Some 10, m_tracer2target_fd := Some 11, g_tracer := True,
     m_macho_regions := Some no_regions\<rparr>"
  obtain mr vm where "tracer_reset mini_sys ?tr0 = Inr (?tr0\<lparr>m_macho_regions := Some mr, m_vm_regions := vm\<rparr>)"
    using mini_reset [of ?tr0 "mini_task 1" 50 "[]"] by (auto simp: new_tracer_def mini_task_def)
  note reset = this
  let ?new = "new_tracer (mini_task 0, 50, []) ?lg False"
  let ?tr1 = "?new\<lparr>os := (mini_task 1, 50, []), m_target2tracer_fd := Some 10, m_tracer2target_fd := Some 11\<rparr>"
  have spawn: "spawn_with_args mini_sys [ascii ''a''] True False ?new = Inr (100, ?tr1)"
    by (simp add: spawn_with_args_def posix_calls_def mini_sys_def check_def assert_some_def new_tracer_def)
  let ?tr2 = "?tr0\<lparr>m_macho_regions := Some mr, m_vm_regions := vm, m_queue := 1, m_proc_source := 2,
    m_breakpoint_exc_port := 9, m_pipe_source := 2, m_breakpoint_exc_source := 2\<rparr>"
  have "(?tr1\<lparr>os := (mini_task 1, 50, []), m_target_task := 7\<rparr>)\<lparr>g_tracer := True, m_macho_regions := Some no_regions, m_symbols := None\<rparr> = ?tr0"
    by (simp add: new_tracer_def)
  then have "common_ctor mini_sys True False (?tr1\<lparr>os := (mini_task 1, 50, []), m_target_task := 7\<rparr>) = Inr ?tr2"
    using reset
    by (simp add: common_ctor_def mini_eval setup_proc_dispath_source_def setup_breakpoint_exception_handler_def
        setup_pipe_dispatch_source_def setup_breakpoint_exception_port_dispath_source_def)
  then have made: "spawn_tracer mini_sys [ascii ''a''] True False False ?new = Inr ?tr2"
    using spawn by (simp add: spawn_tracer_def) (simp add: mini_sys_def check_def new_tracer_def)
  have sig: "?tr2\<lparr>os := (mini_task 1, 50, [])\<rparr> = ?tr2" by (simp add: new_tracer_def)
  obtain i where step: "set_single_step mini_sys False ?tr2 = Inr (?tr2\<lparr>os := (i, 50, [])\<rparr>)" "suspend_count i = 1"
    by (simp add: set_single_step_def suspend_def resume_def set_single_step_task_def set_single_step_thread_def
        set_thread_def uninstall_breakpoint_exception_handler_def mini_eval)
  then have "resume mini_sys (?tr2\<lparr>os := (i, 50, [])\<rparr>) = Inr (?tr2\<lparr>os := (add_suspend (- 1) i, 50, [])\<rparr>)"
    by (simp add: resume_def mini_eval)
  then show ?thesis
    using made step sig
    by (simp add: runner_main_def usage_error_def pipe_opts_def trace_log_start_def make_tracer_def source_of_def)
      (simp add: mini_sys_def assert_some_def new_tracer_def target_info_def)
qed

theorem interrupted_session_fails_witness:
  "\<exists>tr i left e. runner_main mini_sys [] (Inl Assertion_Failed) 1 pipe_opts (mini_task 0, 50, []) [] = Inr (Waiting tr [] [2, 2, 2, 2]) \<and>
     target_info mini_sys tr = Some i \<and> suspend_count i = 0 \<and>
     runner_end mini_sys store_zstd 2 10 (\<lambda>_ _. False) [] 1 [] tr = (left, Inl e)"
proof -
  obtain tr i where main: "runner_main mini_sys [] (Inl Assertion_Failed) 1 pipe_opts (mini_task 0, 50, []) [] = Inr (Waiting tr [] [2, 2, 2, 2])"
    and i: "target_info mini_sys tr = Some i" using mini_runner by blast
  have "if do_attach pipe_opts then attached_runs mini_sys (mini_task 0, 50, []) else spawned_suspended mini_sys"
    using mini_ports(2) by (simp add: pipe_opts_def)
  from interrupted_session_fails [OF mini_ports(1) this main runs.none _ i, where z = store_zstd and cores = 2 and fuel = 10 and
      tree = "\<lambda>_ _. False" and after = "[]" and level = 1] main i show ?thesis by auto
qed

end
