(* ===== verification/MapRelation.thy ===== *)
theory MapRelation
  imports MphMap
begin

text \<open>
  The operations of \<^verbatim>\<open>mph_map\<close> do not look at the values: applied to two maps whose entries
  are related pairwise they fail alike or leave related maps.  A relation between the values of
  one implementation and those of another is carried through the growing map by these lemmas.
\<close>

section \<open>Related results\<close>

abbreviation res_rel :: "('a \<Rightarrow> 'b \<Rightarrow> bool) \<Rightarrow> 'a res \<Rightarrow> 'b res \<Rightarrow> bool" where
  "res_rel R \<equiv> rel_sum (=) R"

lemma res_rel_and_then:
  assumes "res_rel A r s" and "\<And>x y. A x y \<Longrightarrow> r = Inr x \<Longrightarrow> s = Inr y \<Longrightarrow> res_rel B (f x) (g y)"
  shows "res_rel B (and_then r f) (and_then s g)"
  using assms by (cases r; cases s) simp_all

lemma res_rel_same: "(\<And>x. r = Inr x \<Longrightarrow> res_rel B (f x) (g x)) \<Longrightarrow> res_rel B (and_then r f) (and_then r g)"
  by (cases r) simp_all

lemma res_rel_InrD: "res_rel R r s \<Longrightarrow> r = Inr x \<Longrightarrow> \<exists>y. s = Inr y \<and> R x y"
  by (cases s) auto

lemma res_rel_fold:
  assumes "S s s'" and "\<And>x a b. x \<in> set xs \<Longrightarrow> S a b \<Longrightarrow> res_rel S (f x a) (g x b)"
  shows "res_rel S (fold_res f xs s) (fold_res g xs s')"
  using assms
proof (induction xs arbitrary: s s')
  case (Cons x xs)
  then have "res_rel S (f x s) (g x s')" by simp
  then show ?case unfolding fold_res.simps by (rule res_rel_and_then) (use Cons in simp)
qed simp

section \<open>Entries\<close>

lemma at_rel: "list_all2 E xs ys \<Longrightarrow> res_rel E (at xs i) (at ys i)"
  by (simp add: at_def list_all2_conv_all_nth)

lemma cycle_rel:
  "list_all2 E xs ys \<Longrightarrow>
     res_rel (rel_prod (list_all2 E) (=)) (permute_cycle fuel i xs idx current) (permute_cycle fuel i ys idx current)"
proof (induction fuel arbitrary: xs ys idx current)
  case (Suc fuel)
  show ?case
    unfolding permute_cycle.simps
    by (intro res_rel_same)
      (auto intro!: res_rel_and_then [OF at_rel [OF Suc.prems]] Suc.IH list_all2_update_cong Suc.prems)
qed simp

lemma step_rel:
  assumes "rel_prod (list_all2 E) (=) st st'"
  shows "res_rel (rel_prod (list_all2 E) (=)) (permute_step i st) (permute_step i st')"
proof -
  obtain xs ys idx where st: "st = (xs, idx)" "st' = (ys, idx)" and xs: "list_all2 E xs ys"
    using assms by (cases st; cases st') auto
  show ?thesis
    unfolding st permute_step_def prod.case
    by (intro res_rel_and_then [OF at_rel [OF xs]] res_rel_and_then [OF cycle_rel [OF xs]])
      (auto intro!: list_all2_update_cong)
qed

lemma permute_rel:
  "list_all2 E xs ys \<Longrightarrow> res_rel (rel_prod (list_all2 E) (=)) (permute xs idx) (permute ys idx)"
  unfolding permute_def by (intro res_rel_fold step_rel) simp_all

section \<open>Maps\<close>

definition entries_rel :: "((u64 \<times> 'v) \<Rightarrow> (u64 \<times> 'w) \<Rightarrow> bool) \<Rightarrow> 'v mph_map \<Rightarrow> 'w mph_map \<Rightarrow> bool" where
  "entries_rel E mp mp' \<longleftrightarrow> m_mph mp = m_mph mp' \<and> list_all2 E (m_key_vals mp) (m_key_vals mp')"

definition same_key :: "((u64 \<times> 'v) \<Rightarrow> (u64 \<times> 'w) \<Rightarrow> bool) \<Rightarrow> bool" where
  "same_key E \<longleftrightarrow> (\<forall>p q. E p q \<longrightarrow> fst p = fst q)"

lemma same_keys: "list_all2 E xs ys \<Longrightarrow> same_key E \<Longrightarrow> map fst xs = map fst ys"
  by (induction rule: list_all2_induct) (auto simp: same_key_def simp del: split_paired_All)

lemma entries_empty: "entries_rel E \<lparr>m_mph = m, m_key_vals = []\<rparr> \<lparr>m_mph = m, m_key_vals = []\<rparr>"
  by (simp add: entries_rel_def)

lemma entries_update:
  "entries_rel E mp mp' \<Longrightarrow> E p q \<Longrightarrow>
     entries_rel E (mp\<lparr>m_key_vals := (m_key_vals mp)[i := p]\<rparr>) (mp'\<lparr>m_key_vals := (m_key_vals mp')[i := q]\<rparr>)"
  by (simp add: entries_rel_def list_all2_update_cong)

lemma entries_at: "entries_rel E mp mp' \<Longrightarrow> res_rel E (at (m_key_vals mp) i) (at (m_key_vals mp') i)"
  by (simp add: entries_rel_def at_rel)

lemma map_res_fst: "map_res (\<lambda>(k, v). f k) xs = map_res f (map fst xs)"
  by (induction xs) (simp_all add: split_beta)

lemma rebuild_rel:
  assumes "entries_rel E mp mp'" and k: "same_key E"
  shows "res_rel (entries_rel E) (mph_map_rebuild e timer mp) (mph_map_rebuild e timer mp')"
proof -
  have kv: "list_all2 E (m_key_vals mp) (m_key_vals mp')" and m: "m_mph mp = m_mph mp'"
    using assms(1) by (simp_all add: entries_rel_def)
  note keys = same_keys [OF kv k]
  show ?thesis
    unfolding mph_map_rebuild_def mph_map_keys_def map_res_fst keys m
    by (intro res_rel_same res_rel_and_then [OF permute_rel [OF kv]]) (auto simp: entries_rel_def)
qed

text \<open>Whether a key is there does not depend on the values.\<close>

lemma contains_rel:
  assumes "entries_rel E mp mp'" and k: "same_key E"
  shows "mph_map_contains e mp key = mph_map_contains e mp' key"
proof -
  have kv: "list_all2 E (m_key_vals mp) (m_key_vals mp')" and m: "m_mph mp = m_mph mp'"
    using assms(1) by (simp_all add: entries_rel_def)
  have "and_then (at (m_key_vals mp) i) (\<lambda>(k, v). Inr (k = key)) = and_then (at (m_key_vals mp') i) (\<lambda>(k, v). Inr (k = key))" for i
    using at_rel [OF kv, of i] k by (cases "at (m_key_vals mp) i"; cases "at (m_key_vals mp') i") (auto simp: same_key_def)
  then show ?thesis using kv m by (auto simp: mph_map_contains_def)
qed

lemma try_emplace_rel:
  assumes mp: "entries_rel E mp mp'" and k: "same_key E" and v: "E (key, v) (key, w)"
  shows "res_rel (rel_prod (entries_rel E) (=)) (mph_map_try_emplace e timer mp key v) (mph_map_try_emplace e timer mp' key w)"
proof -
  have "entries_rel E (mp\<lparr>m_key_vals := m_key_vals mp @ [(key, v)]\<rparr>) (mp'\<lparr>m_key_vals := m_key_vals mp' @ [(key, w)]\<rparr>)"
    using mp v by (simp add: entries_rel_def list_all2_appendI)
  note re = rebuild_rel [OF this k, of e timer]
  have m: "m_mph mp = m_mph mp'" using mp by (simp add: entries_rel_def)
  have look: "m_mph a = m_mph b" if "entries_rel E a b" for a b using that by (simp add: entries_rel_def)
  show ?thesis
    unfolding mph_map_try_emplace_def contains_rel [OF mp k] m
  proof (rule res_rel_same)
    fix has
    show "res_rel (rel_prod (entries_rel E) (=))
      (if has then and_then (mph_lookup e (m_mph mp') key) (\<lambda>i. Inr (mp, unat i, False))
       else and_then (mph_map_rebuild e timer (mp\<lparr>m_key_vals := m_key_vals mp @ [(key, v)]\<rparr>))
         (\<lambda>mp. and_then (mph_lookup e (m_mph mp) key) (\<lambda>i. Inr (mp, unat i, True))))
      (if has then and_then (mph_lookup e (m_mph mp') key) (\<lambda>i. Inr (mp', unat i, False))
       else and_then (mph_map_rebuild e timer (mp'\<lparr>m_key_vals := m_key_vals mp' @ [(key, w)]\<rparr>))
         (\<lambda>mp. and_then (mph_lookup e (m_mph mp) key) (\<lambda>i. Inr (mp, unat i, True))))"
      using mp by (cases has) (auto intro!: res_rel_same res_rel_and_then [OF re] simp: look)
  qed
qed

text \<open>A key that is there is found without a default for its value.\<close>

lemma index_present:
  assumes "mph_map_contains e mp key = Inr True"
  shows "mph_map_index e timer dflt mp key = and_then (mph_lookup e (m_mph mp) key) (\<lambda>i. Inr (mp, unat i))"
  using assms by (auto simp: mph_map_contains_def mph_map_index_def res_simps split: if_splits)

lemma index_rel:
  assumes mp: "entries_rel E mp mp'" and k: "same_key E" and has: "mph_map_contains e mp key = Inr True"
  shows "res_rel (rel_prod (entries_rel E) (=)) (mph_map_index e timer v mp key) (mph_map_index e timer w mp' key)"
proof -
  have has': "mph_map_contains e mp' key = Inr True" using contains_rel [OF mp k] has by simp
  have m: "m_mph mp = m_mph mp'" using mp by (simp add: entries_rel_def)
  show ?thesis
    unfolding index_present [OF has] index_present [OF has'] m using mp by (intro res_rel_same) simp
qed

text \<open>What the callers do with a map and the index of an entry: they read the entry and go on.\<close>

lemma entered_rel:
  fixes E :: "(u64 \<times> 'v) \<Rightarrow> (u64 \<times> 'w) \<Rightarrow> bool"
  assumes "res_rel (rel_prod (entries_rel E) (=)) a b" and "same_key E"
    and "\<And>mp mp' i k c t. entries_rel E mp mp' \<Longrightarrow> E (k, c) (k, t) \<Longrightarrow> res_rel L (f mp i k c) (g mp' i k t)"
  shows "res_rel L (and_then a (\<lambda>(mp, i :: nat). and_then (at (m_key_vals mp) i) (\<lambda>(k, c). f mp i k c)))
     (and_then b (\<lambda>(mp, i). and_then (at (m_key_vals mp) i) (\<lambda>(k, t). g mp i k t)))"
proof (rule res_rel_and_then [OF assms(1)])
  fix p :: "'v mph_map \<times> nat" and q :: "'w mph_map \<times> nat"
  assume "rel_prod (entries_rel E) (=) p q"
  then obtain mp mp' and i :: nat where pq: "p = (mp, i)" "q = (mp', i)" and mp: "entries_rel E mp mp'" by (cases p; cases q) auto
  have "res_rel L (and_then (at (m_key_vals mp) i) (\<lambda>(k, c). f mp i k c))
      (and_then (at (m_key_vals mp') i) (\<lambda>(k, t). g mp' i k t))"
  proof (rule res_rel_and_then [OF entries_at [OF mp]])
    fix x y assume xy: "E x y"
    obtain k c l t where "x = (k, c)" "y = (l, t)" by (cases x; cases y) blast
    moreover from this xy assms(2) have "k = l" by (auto simp: same_key_def)
    ultimately show "res_rel L (case x of (k, c) \<Rightarrow> f mp i k c) (case y of (k, t) \<Rightarrow> g mp' i k t)"
      using assms(3) [OF mp] xy by simp
  qed
  then show "res_rel L (case p of (mp, i) \<Rightarrow> and_then (at (m_key_vals mp) i) (\<lambda>(k, c). f mp i k c))
      (case q of (mp, i) \<Rightarrow> and_then (at (m_key_vals mp) i) (\<lambda>(k, t). g mp i k t))" by (simp add: pq)
qed

end
