(* ===== verification/Streaming.thy ===== *)
theory Streaming
  imports LogThreads TraceFilesProps MapRelation
begin

text \<open>
  A log that is streamed: \<^verbatim>\<open>TraceLog\<close> with a \<^verbatim>\<open>log_stream\<close> in every thread's context
  (\<^verbatim>\<open>lib/xnu-trace/TraceLog.cpp\<close>), where the stream is the open compressed file of
  \<open>CompressedFile\<close>.  The file is opened with an instruction count of 0 when the thread first
  logs, takes every sync frame and message as it is produced, has its header changed through
  \<^verbatim>\<open>header()\<close> by \<^verbatim>\<open>write\<close> and is closed with its context.

  The streamed log refines the log that is kept in memory: call by call, for any number of
  threads, and through the growing map of contexts, with the same failures.
\<close>

section \<open>A thread's context\<close>

record ('c, 'd) stream_ctx =
  sc_log_buf :: buffer
  sc_log_stream :: "('c, 'd) comp_file option"
  sc_last_cpu_ctx :: log_arm64_cpu_context
  sc_num_inst :: u64
  sc_sz_since_last_sync :: u32

definition new_stream_ctx :: "('c, 'd) comp_file option \<Rightarrow> ('c, 'd) stream_ctx" where
  "new_stream_ctx stream =
     \<lparr>sc_log_buf = [], sc_log_stream = stream, sc_last_cpu_ctx = zero_ctx, sc_num_inst = 0,
      sc_sz_since_last_sync = sync_every + 1\<rparr>"

definition stream_emit ::
    "('c, 'd) zstd_lib \<Rightarrow> nat \<Rightarrow> buffer \<Rightarrow> ('c, 'd) stream_ctx \<Rightarrow> ('c, 'd) stream_ctx res" where
  "stream_emit z fuel bs t =
     (case sc_log_stream t of
        None \<Rightarrow> Inr (t\<lparr>sc_log_buf := sc_log_buf t @ bs\<rparr>)
      | Some f \<Rightarrow> and_then (cf_write z fuel bs f) (\<lambda>f. Inr (t\<lparr>sc_log_stream := Some f\<rparr>)))"

definition stream_sync ::
    "('c, 'd) zstd_lib \<Rightarrow> nat \<Rightarrow> ('c, 'd) stream_ctx \<Rightarrow> ('c, 'd) stream_ctx res" where
  "stream_sync z fuel t =
     and_then (stream_emit z fuel sync_frame_buf_hdr t) (\<lambda>t.
     and_then (stream_emit z fuel (le_bytes 8 (sc_num_inst t)) t) (\<lambda>t.
     and_then (stream_emit z fuel (ctx_bytes (sc_last_cpu_ctx t)) t) (\<lambda>t.
     Inr (t\<lparr>sc_sz_since_last_sync := 0\<rparr>))))"

definition stream_log_msg ::
    "('c, 'd) zstd_lib \<Rightarrow> nat \<Rightarrow> log_arm64_cpu_context \<Rightarrow> ('c, 'd) stream_ctx \<Rightarrow> ('c, 'd) stream_ctx res" where
  "stream_log_msg z fuel c t =
     and_then (if sc_sz_since_last_sync t \<ge> sync_every then stream_sync z fuel t else Inr t) (\<lambda>t.
     and_then (encode_msg (sc_last_cpu_ctx t) c) (\<lambda>msg.
     and_then (stream_emit z fuel msg t) (\<lambda>t.
     let t = t\<lparr>sc_sz_since_last_sync := sc_sz_since_last_sync t + of_nat (length msg)\<rparr>
     in Inr (t\<lparr>sc_last_cpu_ctx := c, sc_num_inst := sc_num_inst t + 1\<rparr>))))"

definition stream_log_msg_pc ::
    "('c, 'd) zstd_lib \<Rightarrow> nat \<Rightarrow> u64 \<Rightarrow> ('c, 'd) stream_ctx \<Rightarrow> ('c, 'd) stream_ctx res" where
  "stream_log_msg_pc z fuel pc t =
     (let (buf, gpr_changed) =
        (if ctx_pc (sc_last_cpu_ctx t) + 4 \<noteq> pc then (le_bytes 8 pc, rpc_set_pc_branched 0) else ([], 0))
      in and_then (stream_emit z fuel (le_bytes 4 gpr_changed @ le_bytes 4 (0 :: u32) @ buf) t) (\<lambda>t.
         Inr (t\<lparr>sc_last_cpu_ctx := (sc_last_cpu_ctx t)\<lparr>ctx_pc := pc\<rparr>, sc_num_inst := sc_num_inst t + 1\<rparr>)))"

section \<open>The log\<close>

record ('c, 'd) stream_log =
  sl_num_inst :: u64
  sl_stream :: bool
  sl_compression_level :: int
  sl_thread_ctxs :: "('c, 'd) stream_ctx mph_map"

definition stream_log_start :: "bool \<Rightarrow> int \<Rightarrow> ('c, 'd) stream_log" where
  "stream_log_start stream level =
     \<lparr>sl_num_inst = 0, sl_stream = stream, sl_compression_level = level,
      sl_thread_ctxs = \<lparr>m_mph = mph_empty, m_key_vals = []\<rparr>\<rparr>"

definition open_thread_stream ::
    "('c, 'd) zstd_lib \<Rightarrow> int \<Rightarrow> u32 \<Rightarrow> ('c, 'd) stream_log \<Rightarrow> ('c, 'd) comp_file option res" where
  "open_thread_stream z cores thread lg =
     (if sl_stream lg then
        and_then (cf_open_write z cores True THRD_magic (Some (hdr2_bytes (ucast thread) 0)) (sl_compression_level lg) 0)
          (\<lambda>f. Inr (Some f))
      else Inr None)"

definition stream_entry ::
    "('c, 'd) zstd_lib \<Rightarrow> int \<Rightarrow> hash_lib \<Rightarrow> nat \<Rightarrow> log_arm64_cpu_context \<Rightarrow> u32 \<Rightarrow> ('c, 'd) stream_log \<Rightarrow>
       (('c, 'd) stream_ctx mph_map \<times> nat) res" where
  "stream_entry z cores e timer init thread lg =
     and_then (mph_map_contains e (sl_thread_ctxs lg) (ucast thread)) (\<lambda>has.
       if \<not> has then
         and_then (open_thread_stream z cores thread lg) (\<lambda>log_stream.
         and_then (mph_map_try_emplace e timer (sl_thread_ctxs lg) (ucast thread) (new_stream_ctx log_stream))
           (\<lambda>(mp, i, added).
           and_then (assert_that added) (\<lambda>_.
           and_then (at (m_key_vals mp) i) (\<lambda>(k, t).
             Inr (mp\<lparr>m_key_vals := (m_key_vals mp)[i := (k, t\<lparr>sc_last_cpu_ctx := init\<rparr>)]\<rparr>, i)))))
       else mph_map_index e timer (new_stream_ctx None) (sl_thread_ctxs lg) (ucast thread))"

definition stream_log_ctx ::
    "('c, 'd) zstd_lib \<Rightarrow> int \<Rightarrow> nat \<Rightarrow> hash_lib \<Rightarrow> nat \<Rightarrow> u32 \<Rightarrow> log_arm64_cpu_context \<Rightarrow> ('c, 'd) stream_log \<Rightarrow>
       ('c, 'd) stream_log res" where
  "stream_log_ctx z cores fuel e timer thread c lg =
     and_then (stream_entry z cores e timer c thread lg) (\<lambda>(mp, i).
     and_then (at (m_key_vals mp) i) (\<lambda>(k, t).
     and_then (stream_log_msg z fuel c t) (\<lambda>t.
     Inr (lg\<lparr>sl_thread_ctxs := mp\<lparr>m_key_vals := (m_key_vals mp)[i := (k, t)]\<rparr>,
             sl_num_inst := sl_num_inst lg + 1\<rparr>))))"

definition stream_log_pc ::
    "('c, 'd) zstd_lib \<Rightarrow> int \<Rightarrow> nat \<Rightarrow> hash_lib \<Rightarrow> nat \<Rightarrow> u32 \<Rightarrow> u64 \<Rightarrow> ('c, 'd) stream_log \<Rightarrow> ('c, 'd) stream_log res" where
  "stream_log_pc z cores fuel e timer thread pc lg =
     and_then (stream_entry z cores e timer (zero_ctx\<lparr>ctx_pc := pc\<rparr>) thread lg) (\<lambda>(mp, i).
     and_then (at (m_key_vals mp) i) (\<lambda>(k, t).
     and_then (stream_log_msg_pc z fuel pc t) (\<lambda>t.
     Inr (lg\<lparr>sl_thread_ctxs := mp\<lparr>m_key_vals := (m_key_vals mp)[i := (k, t)]\<rparr>,
             sl_num_inst := sl_num_inst lg + 1\<rparr>))))"

section \<open>Writing and closing\<close>

text \<open>\<^verbatim>\<open>ctx.log_stream->header().num_inst = ctx.num_inst\<close>: the second word of the header.\<close>

definition set_num_inst :: "u64 \<Rightarrow> ('c, 'd) comp_file \<Rightarrow> ('c, 'd) comp_file res" where
  "set_num_inst n f =
     and_then (cf_header (unat sizeof_thread_hdr) f) (\<lambda>hdr.
     Inr (f\<lparr>cf_hdr_buf := take 8 hdr @ le_bytes 8 n @ drop 16 hdr\<rparr>))"

definition header_set :: "('c, 'd) stream_ctx \<Rightarrow> ('c, 'd) stream_ctx res" where
  "header_set t =
     and_then (case sc_log_stream t of None \<Rightarrow> Inl Out_Of_Bounds | Some f \<Rightarrow> Inr f) (\<lambda>f.
     and_then (set_num_inst (sc_num_inst t) f) (\<lambda>f. Inr (t\<lparr>sc_log_stream := Some f\<rparr>)))"

text \<open>
  \<^verbatim>\<open>write\<close> of a log that is streamed: the metadata and the regions, with the intervals of the
  regions for the symbols, and then the threads' headers.
\<close>

definition stream_log_write ::
    "('c, 'd) zstd_lib \<Rightarrow> int \<Rightarrow> nat \<Rightarrow> ((u64 \<times> u64) list \<Rightarrow> u64 \<times> u64 \<Rightarrow> bool) \<Rightarrow> image_info list \<Rightarrow>
       sym_info list option \<Rightarrow> directory \<Rightarrow> ('c, 'd) stream_log \<Rightarrow> (directory \<times> ('c, 'd) stream_log) res" where
  "stream_log_write z cores fuel tree regions symbols dir lg =
     and_then (trace_log_write z cores fuel tree [] True (sl_compression_level lg) [] regions symbols dir) (\<lambda>(dir, _).
     and_then (map_res (\<lambda>(k, t). and_then (header_set t) (\<lambda>t. Inr (k, t))) (m_key_vals (sl_thread_ctxs lg))) (\<lambda>kvs.
     Inr (dir, lg\<lparr>sl_thread_ctxs := (sl_thread_ctxs lg)\<lparr>m_key_vals := kvs\<rparr>\<rparr>)))"

text \<open>The destructor closes the stream of every context.\<close>

definition stream_log_close ::
    "('c, 'd) zstd_lib \<Rightarrow> nat \<Rightarrow> directory \<Rightarrow> ('c, 'd) stream_log \<Rightarrow> directory res" where
  "stream_log_close z fuel dir lg =
     fold_res (\<lambda>(k, t) dir. case sc_log_stream t of
         None \<Rightarrow> Inr dir
       | Some f \<Rightarrow> and_then (cf_close z fuel f) (\<lambda>bytes. Inr (AList.update (thread_name (ucast k)) bytes dir)))
       (m_key_vals (sl_thread_ctxs lg)) dir"

section \<open>The streamed log and the log in memory\<close>

text \<open>
  A context whose messages are in memory and the streamed context of the same thread: the file
  is being written with what the other has in its buffer, under a header without a count.
\<close>

definition stream_comp_hdr :: "int \<Rightarrow> log_comp_hdr" where
  "stream_comp_hdr level = \<lparr>comp_magic = THRD_magic, comp_is_compressed = of_bool (level \<noteq> 0),
     comp_header_size = 16, comp_decompressed_size = 0\<rparr>"

definition thread_rel ::
    "(bool \<Rightarrow> 'c \<Rightarrow> buffer \<Rightarrow> buffer \<Rightarrow> bool) \<Rightarrow> int \<Rightarrow> u64 \<times> thread_ctx \<Rightarrow> u64 \<times> ('c, 'd) stream_ctx \<Rightarrow> bool" where
  "thread_rel cinv level p q \<longleftrightarrow> (case (p, q) of ((k, c), (k', t)) \<Rightarrow>
     k = k' \<and> ucast (ucast k :: u32) = k \<and> log_stream c = None \<and> sc_last_cpu_ctx t = last_cpu_ctx c \<and>
     wf_ctx (last_cpu_ctx c) \<and> sc_num_inst t = num_inst c \<and> sc_sz_since_last_sync t = sz_since_last_sync c \<and>
     (\<exists>f. sc_log_stream t = Some f \<and>
        writing cinv (stream_comp_hdr level) (hdr2_bytes k 0) (level \<noteq> 0) (log_buf c) f))"

definition log_rel ::
    "(bool \<Rightarrow> 'c \<Rightarrow> buffer \<Rightarrow> buffer \<Rightarrow> bool) \<Rightarrow> int \<Rightarrow> trace_log \<Rightarrow> ('c, 'd) stream_log \<Rightarrow> bool" where
  "log_rel cinv level lg sl \<longleftrightarrow> m_num_inst lg = sl_num_inst sl \<and> \<not> m_stream lg \<and> sl_stream sl \<and>
     sl_compression_level sl = level \<and> entries_rel (thread_rel cinv level) (m_thread_ctxs lg) (sl_thread_ctxs sl)"

lemma thread_rel_key: "same_key (thread_rel cinv level)"
  by (auto simp: same_key_def thread_rel_def)

lemma emit_refines:
  assumes z: "level \<noteq> 0 \<Longrightarrow> cctx_ok z frame m cinv held" and r: "thread_rel cinv level (k, c) (k, t)"
    and bs: "bs \<noteq> []" "length bs \<le> b" and fuel: "Suc b * Suc m \<le> fuel"
  shows "\<exists>t'. stream_emit z fuel bs t = Inr t' \<and> thread_rel cinv level (k, emit bs c) (k, t')"
proof -
  obtain f where f: "sc_log_stream t = Some f"
    "writing cinv (stream_comp_hdr level) (hdr2_bytes k 0) (level \<noteq> 0) (log_buf c) f"
    using r by (auto simp: thread_rel_def)
  have "Suc (length bs) * Suc m \<le> Suc b * Suc m" using bs(2) by (intro mult_le_mono1) simp
  with fuel have "Suc (length bs) * Suc m \<le> fuel" by simp
  from cf_write_ok [OF z f(2) this] bs(1) obtain f' where "cf_write z fuel bs f = Inr f'"
    "writing cinv (stream_comp_hdr level) (hdr2_bytes k 0) (level \<noteq> 0) (log_buf c @ bs) f'" by blast
  then show ?thesis using f(1) r by (auto simp: stream_emit_def thread_rel_def emit_def)
qed

lemma thread_rel_update:
  "thread_rel cinv level (k, c) (k, t) \<Longrightarrow>
     thread_rel cinv level (k, c\<lparr>sz_since_last_sync := n\<rparr>) (k, t\<lparr>sc_sz_since_last_sync := n\<rparr>)"
  "thread_rel cinv level (k, c) (k, t) \<Longrightarrow> wf_ctx x \<Longrightarrow>
     thread_rel cinv level (k, c\<lparr>last_cpu_ctx := x, num_inst := i\<rparr>) (k, t\<lparr>sc_last_cpu_ctx := x, sc_num_inst := i\<rparr>)"
  "thread_rel cinv level (k, c) (k, t) \<Longrightarrow> wf_ctx x \<Longrightarrow>
     thread_rel cinv level (k, c\<lparr>last_cpu_ctx := x\<rparr>) (k, t\<lparr>sc_last_cpu_ctx := x\<rparr>)"
  by (simp_all add: thread_rel_def)

text \<open>Every piece handed to the stream at once is within \<open>b\<close> bytes, and there is fuel to compress it.\<close>

definition stream_fuel :: "nat \<Rightarrow> nat \<Rightarrow> bool" where
  "stream_fuel m fuel \<longleftrightarrow> Suc (size_full_ctx + size_max) * Suc m \<le> fuel"

lemma piece_refines:
  assumes "level \<noteq> 0 \<Longrightarrow> cctx_ok z frame m cinv held" and "stream_fuel m fuel"
    and "thread_rel cinv level (k, c) (k, t)" and "bs \<noteq> []" "length bs \<le> size_full_ctx + size_max"
  obtains t' where "stream_emit z fuel bs t = Inr t'" "thread_rel cinv level (k, emit bs c) (k, t')"
  using emit_refines [OF assms(1,3-5)] assms(2) unfolding stream_fuel_def by blast

lemma pieces:
  "sync_frame_buf_hdr \<noteq> []" "length sync_frame_buf_hdr \<le> size_full_ctx + size_max"
  "le_bytes 8 (w :: u64) \<noteq> []" "length (le_bytes 8 (w :: u64)) \<le> size_full_ctx + size_max"
  "wf_ctx c \<Longrightarrow> ctx_bytes c \<noteq> []" "wf_ctx c \<Longrightarrow> length (ctx_bytes c) \<le> size_full_ctx + size_max"
  "encodable p c \<Longrightarrow> message_bytes (diff_message p c) \<noteq> []"
  "encodable p c \<Longrightarrow> length (message_bytes (diff_message p c)) \<le> size_full_ctx + size_max"
proof -
  have n: "size_full_ctx + size_max \<ge> 144 + sizeof_ctx"
    by (simp add: size_full_ctx_def sync_frame_sz_def length_sync_hdr)
  show "sync_frame_buf_hdr \<noteq> []" "length sync_frame_buf_hdr \<le> size_full_ctx + size_max"
    using length_sync_hdr n by auto
  have "length (le_bytes 8 (w :: u64)) = 8" by simp
  then show "le_bytes 8 (w :: u64) \<noteq> []" "length (le_bytes 8 (w :: u64)) \<le> size_full_ctx + size_max"
    using n by (metis list.size(3) zero_neq_numeral) (use n in simp)
  assume "wf_ctx c"
  then have "length (ctx_bytes c) = sizeof_ctx" by (rule length_ctx_bytes)
  then show "ctx_bytes c \<noteq> []" "length (ctx_bytes c) \<le> size_full_ctx + size_max"
    using n by (auto simp: sizeof_ctx_def)
next
  assume e: "encodable p c"
  show "message_bytes (diff_message p c) \<noteq> []"
    using message_bytes_nonempty [of "diff_message p c"] by auto
  show "length (message_bytes (diff_message p c)) \<le> size_full_ctx + size_max"
    using message_size_max [OF diff_message_wf [OF e]] by simp
qed

lemma sync_refines:
  assumes z: "level \<noteq> 0 \<Longrightarrow> cctx_ok z frame m cinv held" and fuel: "stream_fuel m fuel"
    and r: "thread_rel cinv level (k, c) (k, t)"
  obtains t' where "stream_sync z fuel t = Inr t'" "thread_rel cinv level (k, write_sync c) (k, t')"
proof -
  have wf: "wf_ctx (last_cpu_ctx c)" using r by (simp add: thread_rel_def)
  obtain t1 where t1: "stream_emit z fuel sync_frame_buf_hdr t = Inr t1"
    "thread_rel cinv level (k, emit sync_frame_buf_hdr c) (k, t1)"
    by (rule piece_refines [OF z fuel r pieces(1,2)])
  then have n: "sc_num_inst t1 = num_inst (emit sync_frame_buf_hdr c)" by (simp add: thread_rel_def)
  obtain t2 where t2: "stream_emit z fuel (le_bytes 8 (sc_num_inst t1)) t1 = Inr t2"
    "thread_rel cinv level (k, emit (le_bytes 8 (sc_num_inst t1)) (emit sync_frame_buf_hdr c)) (k, t2)"
    by (rule piece_refines [OF z fuel t1(2) pieces(3,4)])
  then have l: "sc_last_cpu_ctx t2 = last_cpu_ctx c" by (simp add: thread_rel_def)
  obtain t3 where t3: "stream_emit z fuel (ctx_bytes (last_cpu_ctx c)) t2 = Inr t3"
    "thread_rel cinv level (k, emit (ctx_bytes (last_cpu_ctx c))
       (emit (le_bytes 8 (sc_num_inst t1)) (emit sync_frame_buf_hdr c))) (k, t3)"
    by (rule piece_refines [OF z fuel t2(2) pieces(5,6) [OF wf]])
  show thesis
    by (rule that [of "t3\<lparr>sc_sz_since_last_sync := 0\<rparr>"])
      (use t1(1) t2(1) t3(1) thread_rel_update(1) [OF t3(2), of 0] n l in
        \<open>simp_all add: stream_sync_def write_sync_def Let_def\<close>)
qed

lemma log_msg_refines:
  assumes z: "level \<noteq> 0 \<Longrightarrow> cctx_ok z frame m cinv held" and fuel: "stream_fuel m fuel"
    and r: "thread_rel cinv level (k, c) (k, t)" and x: "wf_ctx x"
  shows "res_rel (\<lambda>c t. thread_rel cinv level (k, c) (k, t)) (write_log_msg x c) (stream_log_msg z fuel x t)"
proof -
  let ?due = "sz_since_last_sync c \<ge> sync_every"
  define c1 where "c1 = (if ?due then write_sync c else c)"
  obtain t1 where t1: "(if sc_sz_since_last_sync t \<ge> sync_every then stream_sync z fuel t else Inr t) = Inr t1"
    "thread_rel cinv level (k, c1) (k, t1)"
    using r sync_refines [OF z fuel r] unfolding c1_def by (cases ?due) (auto simp: thread_rel_def)
  have same: "sc_last_cpu_ctx t1 = last_cpu_ctx c1" and wf: "wf_ctx (last_cpu_ctx c1)"
    using t1(2) by (simp_all add: thread_rel_def)
  show ?thesis
  proof (cases "encodable (last_cpu_ctx c1) x")
    case False
    then show ?thesis
      using t1(1) encode_msg_eq [OF wf x] by (simp add: write_log_msg_def stream_log_msg_def same c1_def [symmetric])
  next
    case True
    let ?m = "message_bytes (diff_message (last_cpu_ctx c1) x)"
    obtain t2 where t2: "stream_emit z fuel ?m t1 = Inr t2" "thread_rel cinv level (k, emit ?m c1) (k, t2)"
      by (rule piece_refines [OF z fuel t1(2) pieces(7,8) [OF True]])
    then have eq: "sc_num_inst t2 = num_inst (emit ?m c1)" "sc_sz_since_last_sync t2 = sz_since_last_sync (emit ?m c1)"
      by (simp_all add: thread_rel_def)
    have "encode_msg (last_cpu_ctx c1) x = Inr ?m" using encode_msg_eq [OF wf x] True by simp
    then show ?thesis
      using t1(1) t2(1) thread_rel_update(2) [OF thread_rel_update(1) [OF t2(2)] x] eq
      by (simp add: write_log_msg_def stream_log_msg_def same c1_def [symmetric] Let_def)
  qed
qed

lemma log_msg_pc_refines:
  assumes z: "level \<noteq> 0 \<Longrightarrow> cctx_ok z frame m cinv held" and fuel: "stream_fuel m fuel"
    and r: "thread_rel cinv level (k, c) (k, t)"
  shows "\<exists>t'. stream_log_msg_pc z fuel pc t = Inr t' \<and> thread_rel cinv level (k, write_log_msg_pc pc c) (k, t')"
proof -
  have l: "sc_last_cpu_ctx t = last_cpu_ctx c" and wf: "wf_ctx (last_cpu_ctx c)" using r by (simp_all add: thread_rel_def)
  define p :: "buffer \<times> u32" where
    "p = (if ctx_pc (last_cpu_ctx c) + 4 \<noteq> pc then (le_bytes 8 pc, rpc_set_pc_branched 0) else ([], 0))"
  let ?bs = "le_bytes 4 (snd p) @ le_bytes 4 (0 :: u32) @ fst p"
  have len: "0 < length ?bs" "length ?bs \<le> 16" by (simp_all add: p_def)
  have bs: "?bs \<noteq> []" by (rule length_greater_0_conv [THEN iffD1, OF len(1)])
  have "16 \<le> size_full_ctx + size_max" using length_sync_hdr by (simp add: size_full_ctx_def sync_frame_sz_def)
  with len(2) have le: "length ?bs \<le> size_full_ctx + size_max" by linarith
  obtain t1 where t1: "stream_emit z fuel ?bs t = Inr t1" "thread_rel cinv level (k, emit ?bs c) (k, t1)"
    by (rule piece_refines [OF z fuel r bs le])
  then have eq: "sc_num_inst t1 = num_inst (emit ?bs c)" "sc_last_cpu_ctx t1 = last_cpu_ctx (emit ?bs c)"
    by (simp_all add: thread_rel_def)
  have "wf_ctx ((last_cpu_ctx c)\<lparr>ctx_pc := pc\<rparr>)" using wf by (simp add: wf_ctx_def)
  from thread_rel_update(2) [OF t1(2) this] t1(1) eq show ?thesis
    by (simp add: stream_log_msg_pc_def write_log_msg_pc_def l p_def [symmetric] split_beta Let_def)
qed

section \<open>The logs' calls\<close>

lemma open_refines:
  assumes z: "level \<noteq> 0 \<Longrightarrow> cctx_ok z frame m cinv held \<and> zstd_c_out_size z > 0"
    and sl: "sl_stream sl" "sl_compression_level sl = level"
  shows "\<exists>f. open_thread_stream z cores th sl = Inr (Some f) \<and>
     thread_rel cinv level (ucast th, new_thread_ctx False) (ucast th, new_stream_ctx (Some f))"
proof -
  from open_write_ok [where level = level, OF hdr2_not_Nil [of "ucast th" 0] z, of cores THRD_magic 0] obtain f where
    f: "cf_open_write z cores True THRD_magic (Some (hdr2_bytes (ucast th) 0)) level 0 = Inr f"
    "writing cinv (stream_comp_hdr level) (hdr2_bytes (ucast th) 0) (level \<noteq> 0) [] f"
    by (auto simp: stream_comp_hdr_def)
  have "ucast (ucast (ucast th :: u64) :: u32) = (ucast th :: u64)" by (rule bit_word_eqI) (auto simp: bit_simps dest: bit_imp_le_length)
  then show ?thesis
    using f sl by (simp add: open_thread_stream_def thread_rel_def new_thread_ctx_def new_stream_ctx_def zero_ctx_def wf_ctx_def)
qed

lemma entry_refines:
  assumes z: "level \<noteq> 0 \<Longrightarrow> cctx_ok z frame m cinv held \<and> zstd_c_out_size z > 0"
    and r: "log_rel cinv level lg sl" and wf: "wf_ctx init"
  shows "res_rel (rel_prod (entries_rel (thread_rel cinv level)) (=))
     (thread_entry e timer init th lg) (stream_entry z cores e timer init th sl)"
proof -
  let ?E = "thread_rel cinv level"
  have en: "entries_rel ?E (m_thread_ctxs lg) (sl_thread_ctxs sl)" and st: "\<not> m_stream lg"
    and sl: "sl_stream sl" "sl_compression_level sl = level"
    using r by (simp_all add: log_rel_def)
  note has = contains_rel [OF en thread_rel_key, of e "ucast th"]
  from open_refines [OF z sl] obtain f where f: "open_thread_stream z cores th sl = Inr (Some f)"
    "?E (ucast th, new_thread_ctx False) (ucast th, new_stream_ctx (Some f))" by blast
  note em = try_emplace_rel [OF en thread_rel_key f(2), of e timer]
  show ?thesis
    unfolding thread_entry_def stream_entry_def has
  proof (rule res_rel_same)
    fix b assume b: "mph_map_contains e (sl_thread_ctxs sl) (ucast th) = Inr b"
    have new: "res_rel (rel_prod (entries_rel ?E) (=))
        (case p of (mp, i, added) \<Rightarrow> and_then (assert_that added) (\<lambda>_. and_then (at (m_key_vals mp) i) (\<lambda>(k, t).
           Inr (mp\<lparr>m_key_vals := (m_key_vals mp)[i := (k, t\<lparr>last_cpu_ctx := init\<rparr>)]\<rparr>, i))))
        (case q of (mp, i, added) \<Rightarrow> and_then (assert_that added) (\<lambda>_. and_then (at (m_key_vals mp) i) (\<lambda>(k, t).
           Inr (mp\<lparr>m_key_vals := (m_key_vals mp)[i := (k, t\<lparr>sc_last_cpu_ctx := init\<rparr>)]\<rparr>, i))))"
      if pq: "rel_prod (entries_rel ?E) (=) p q" for p q
    proof -
      obtain mp mp' i added where p: "p = (mp, i, added)" "q = (mp', i, added)" and mp: "entries_rel ?E mp mp'"
        using pq by (cases p; cases q) auto
      show ?thesis
        unfolding p prod.case
        by (intro res_rel_same res_rel_and_then [OF entries_at [OF mp]])
          (auto intro!: entries_update mp thread_rel_update(3) wf simp: thread_rel_def)
    qed
    show "res_rel (rel_prod (entries_rel ?E) (=))
      (if \<not> b then and_then (mph_map_try_emplace e timer (m_thread_ctxs lg) (ucast th) (new_thread_ctx (m_stream lg)))
           (\<lambda>(mp, i, added). and_then (assert_that added) (\<lambda>_. and_then (at (m_key_vals mp) i) (\<lambda>(k, t).
             Inr (mp\<lparr>m_key_vals := (m_key_vals mp)[i := (k, t\<lparr>last_cpu_ctx := init\<rparr>)]\<rparr>, i))))
       else mph_map_index e timer (new_thread_ctx False) (m_thread_ctxs lg) (ucast th))
      (if \<not> b then and_then (open_thread_stream z cores th sl) (\<lambda>log_stream.
           and_then (mph_map_try_emplace e timer (sl_thread_ctxs sl) (ucast th) (new_stream_ctx log_stream))
           (\<lambda>(mp, i, added). and_then (assert_that added) (\<lambda>_. and_then (at (m_key_vals mp) i) (\<lambda>(k, t).
             Inr (mp\<lparr>m_key_vals := (m_key_vals mp)[i := (k, t\<lparr>sc_last_cpu_ctx := init\<rparr>)]\<rparr>, i)))))
       else mph_map_index e timer (new_stream_ctx None) (sl_thread_ctxs sl) (ucast th))"
    proof (cases b)
      case True
      then show ?thesis using index_rel [OF en thread_rel_key] has b by simp
    next
      case False
      then show ?thesis using f(1) st res_rel_and_then [OF em new] by simp
    qed
  qed
qed

text \<open>A call: the thread's context, or only its program counter.\<close>

datatype log_call = Log_Context u32 log_arm64_cpu_context | Log_Pc u32 u64

fun buffered_call :: "hash_lib \<Rightarrow> nat \<Rightarrow> log_call \<Rightarrow> trace_log \<Rightarrow> trace_log res" where
  "buffered_call e timer (Log_Context th c) lg = trace_log_ctx e timer th c lg"
| "buffered_call e timer (Log_Pc th pc) lg = trace_log_pc e timer th pc lg"

fun streamed_call ::
    "('c, 'd) zstd_lib \<Rightarrow> int \<Rightarrow> nat \<Rightarrow> hash_lib \<Rightarrow> nat \<Rightarrow> log_call \<Rightarrow> ('c, 'd) stream_log \<Rightarrow> ('c, 'd) stream_log res" where
  "streamed_call z cores fuel e timer (Log_Context th c) lg = stream_log_ctx z cores fuel e timer th c lg"
| "streamed_call z cores fuel e timer (Log_Pc th pc) lg = stream_log_pc z cores fuel e timer th pc lg"

fun wf_call :: "log_call \<Rightarrow> bool" where
  "wf_call (Log_Context th c) = wf_ctx c"
| "wf_call (Log_Pc th pc) = True"

lemma call_refines:
  fixes z :: "('c, 'd) zstd_lib"
  assumes z: "level \<noteq> 0 \<Longrightarrow> cctx_ok z frame m cinv held \<and> zstd_c_out_size z > 0" and fuel: "stream_fuel m fuel"
    and r: "log_rel cinv level lg sl" and wf: "wf_call call"
  shows "res_rel (log_rel cinv level) (buffered_call e timer call lg) (streamed_call z cores fuel e timer call sl)"
proof -
  let ?E = "thread_rel cinv level :: _ \<Rightarrow> u64 \<times> ('c, 'd) stream_ctx \<Rightarrow> bool"
  have z': "level \<noteq> 0 \<Longrightarrow> cctx_ok z frame m cinv held" using z by simp
  have put: "log_rel cinv level (lg\<lparr>m_thread_ctxs := mp\<lparr>m_key_vals := (m_key_vals mp)[i := (k, c)]\<rparr>, m_num_inst := m_num_inst lg + 1\<rparr>)
      (sl\<lparr>sl_thread_ctxs := mp'\<lparr>m_key_vals := (m_key_vals mp')[i := (k, t)]\<rparr>, sl_num_inst := sl_num_inst sl + 1\<rparr>)"
    if "entries_rel ?E mp mp'" "?E (k, c) (k, t)" for mp mp' i k c t
    using r entries_update [OF that] by (simp add: log_rel_def)
  show ?thesis
  proof (cases call)
    case (Log_Context th c)
    with wf have c: "wf_ctx c" by simp
    show ?thesis
      unfolding Log_Context buffered_call.simps streamed_call.simps trace_log_ctx_def stream_log_ctx_def
      by (rule entered_rel [OF entry_refines [OF z r c] thread_rel_key])
        (auto intro!: put res_rel_and_then [OF log_msg_refines [OF z' fuel _ c]])
  next
    case (Log_Pc th pc)
    have c: "wf_ctx (zero_ctx\<lparr>ctx_pc := pc\<rparr>)" by (simp add: wf_ctx_def zero_ctx_def)
    show ?thesis
      unfolding Log_Pc buffered_call.simps streamed_call.simps trace_log_pc_def stream_log_pc_def
    proof (rule entered_rel [OF entry_refines [OF z r c] thread_rel_key])
      fix mp :: "thread_ctx mph_map" and mp' :: "('c, 'd) stream_ctx mph_map"
        and i k c and t :: "('c, 'd) stream_ctx"
      assume "entries_rel ?E mp mp'" and e: "?E (k, c) (k, t)"
      note put = put [OF this(1), of k _ _ i]
      from log_msg_pc_refines [OF z' fuel e, of pc] obtain t' where
        "stream_log_msg_pc z fuel pc t = Inr t'" "?E (k, write_log_msg_pc pc c) (k, t')" by blast
      then show "res_rel (log_rel cinv level)
          (Inr (lg\<lparr>m_thread_ctxs := mp\<lparr>m_key_vals := (m_key_vals mp)[i := (k, write_log_msg_pc pc c)]\<rparr>, m_num_inst := m_num_inst lg + 1\<rparr>))
          (and_then (stream_log_msg_pc z fuel pc t) (\<lambda>t.
             Inr (sl\<lparr>sl_thread_ctxs := mp'\<lparr>m_key_vals := (m_key_vals mp')[i := (k, t)]\<rparr>, sl_num_inst := sl_num_inst sl + 1\<rparr>)))"
        using put by simp
    qed
  qed
qed

lemma calls_refine:
  assumes z: "level \<noteq> 0 \<Longrightarrow> cctx_ok z frame m cinv held \<and> zstd_c_out_size z > 0" and fuel: "stream_fuel m fuel"
    and wf: "\<forall>call \<in> set calls. wf_call call" and r: "log_rel cinv level lg sl"
  shows "res_rel (log_rel cinv level) (fold_res (buffered_call e timer) calls lg)
     (fold_res (streamed_call z cores fuel e timer) calls sl)"
  by (rule res_rel_fold) (use r wf call_refines [OF z fuel] in simp_all)

lemma start_refines: "log_rel cinv level (fst (trace_log_start False dir)) (stream_log_start True level)"
  by (simp add: log_rel_def trace_log_start_def stream_log_start_def entries_empty)

section \<open>The files\<close>

lemma header_set_refines:
  assumes "thread_rel cinv level (k, c) (k, t)"
  obtains f where "sc_log_stream t = Some f"
    "writing cinv (stream_comp_hdr level) (hdr2_bytes k 0) (level \<noteq> 0) (log_buf c) f"
    "header_set t = Inr (t\<lparr>sc_log_stream := Some (f\<lparr>cf_hdr_buf := hdr2_bytes k (num_inst c)\<rparr>)\<rparr>)"
proof -
  obtain f where f: "sc_log_stream t = Some f"
    "writing cinv (stream_comp_hdr level) (hdr2_bytes k 0) (level \<noteq> 0) (log_buf c) f"
    using assms by (auto simp: thread_rel_def)
  have n: "sc_num_inst t = num_inst c" using assms by (simp add: thread_rel_def)
  have "cf_hdr_buf f = hdr2_bytes k 0" using f(2) by (simp add: writing_def)
  then have "set_num_inst (num_inst c) f = Inr (f\<lparr>cf_hdr_buf := hdr2_bytes k (num_inst c)\<rparr>)"
    by (simp add: set_num_inst_def cf_header_def sizeof_thread_hdr_def) (simp add: hdr2_bytes_def)
  then show thesis using that f n by (simp add: header_set_def)
qed

lemma stream_closes:
  assumes z: "level \<noteq> 0 \<Longrightarrow> cctx_ok z frame m cinv held" and m: "m < fuel"
    and r: "thread_rel cinv level (k, c) (k, t)"
  shows "\<exists>t' f w. header_set t = Inr t' \<and> sc_log_stream t' = Some f \<and>
     cf_close z fuel f = Inr (saved_bytes THRD_magic (hdr2_bytes k (num_inst c)) (level \<noteq> 0) (length (log_buf c)) w) \<and>
     (if level \<noteq> 0 then frame w (log_buf c) else w = log_buf c)"
proof -
  obtain f where f: "writing cinv (stream_comp_hdr level) (hdr2_bytes k 0) (level \<noteq> 0) (log_buf c) f"
    "header_set t = Inr (t\<lparr>sc_log_stream := Some (f\<lparr>cf_hdr_buf := hdr2_bytes k (num_inst c)\<rparr>)\<rparr>)"
    by (rule header_set_refines [OF r])
  from writing_close_hdr [OF z m hdr2_not_Nil f(1), of "hdr2_bytes k (num_inst c)"] obtain w where
    "cf_close z fuel (f\<lparr>cf_hdr_buf := hdr2_bytes k (num_inst c)\<rparr>) =
      Inr (comp_hdr_bytes ((stream_comp_hdr level)\<lparr>comp_decompressed_size := of_nat (length (log_buf c))\<rparr>) @
        hdr2_bytes k (num_inst c) @ w)" "if level \<noteq> 0 then frame w (log_buf c) else w = log_buf c" by auto
  then show ?thesis using f(2) by (auto simp: saved_bytes_def stream_comp_hdr_def)
qed

text \<open>The body of a thread's file: its log, or the frame of it.\<close>

definition stored_log :: "(buffer \<Rightarrow> buffer \<Rightarrow> bool) \<Rightarrow> int \<Rightarrow> u32 \<times> thread_ctx \<Rightarrow> buffer \<Rightarrow> bool" where
  "stored_log frame level tc bytes \<longleftrightarrow>
     (\<exists>w. bytes = saved_bytes THRD_magic (hdr2_bytes (ucast (fst tc)) (num_inst (snd tc))) (level \<noteq> 0)
        (length (log_buf (snd tc))) w \<and>
      (if level \<noteq> 0 then frame w (log_buf (snd tc)) else w = log_buf (snd tc)))"

lemma streams_close:
  assumes z: "level \<noteq> 0 \<Longrightarrow> cctx_ok z frame m cinv held" and m: "m < fuel"
    and r: "list_all2 (thread_rel cinv level) kvs kvs'"
    and fresh: "distinct (map (\<lambda>(k, c). ucast k :: u32) kvs)" "\<forall>(k, c) \<in> set kvs. thread_name (ucast k) \<notin> fst ` set dir"
  shows "\<exists>kvs'' files. map_res (\<lambda>(k, t). and_then (header_set t) (\<lambda>t. Inr (k, t))) kvs' = Inr kvs'' \<and>
     fold_res (\<lambda>(k, t) dir. case sc_log_stream t of
         None \<Rightarrow> Inr dir
       | Some f \<Rightarrow> and_then (cf_close z fuel f) (\<lambda>bytes. Inr (AList.update (thread_name (ucast k)) bytes dir))) kvs'' dir =
       Inr (dir @ zip (map (\<lambda>(k, c). thread_name (ucast k)) kvs) files) \<and>
     list_all2 (stored_log frame level) (map (\<lambda>(k, c). (ucast k, c)) kvs) files"
  using r fresh
proof (induction arbitrary: dir rule: list_all2_induct)
  case Nil
  then show ?case by simp
next
  case (Cons p kvs q kvs')
  obtain k c t where p: "p = (k, c)" "q = (k, t)" using Cons(1) by (cases p; cases q) (simp add: thread_rel_def)
  have k: "ucast (ucast k :: u32) = k" using Cons(1) by (simp add: p thread_rel_def)
  from stream_closes [OF z m Cons(1) [unfolded p]] obtain t' f w where
    t: "header_set t = Inr t'" "sc_log_stream t' = Some f"
      "cf_close z fuel f = Inr (saved_bytes THRD_magic (hdr2_bytes k (num_inst c)) (level \<noteq> 0) (length (log_buf c)) w)"
      "if level \<noteq> 0 then frame w (log_buf c) else w = log_buf c" by blast
  let ?b = "saved_bytes THRD_magic (hdr2_bytes k (num_inst c)) (level \<noteq> 0) (length (log_buf c)) w"
  let ?dir = "dir @ [(thread_name (ucast k), ?b)]"
  have u: "AList.update (thread_name (ucast k)) ?b dir = ?dir" using Cons.prems(2) by (simp add: update_fresh p)
  have tail: "distinct (map (\<lambda>(k, c). ucast k :: u32) kvs)"
    "\<forall>(k, c) \<in> set kvs. thread_name (ucast k) \<notin> fst ` set ?dir"
    using Cons.prems thread_name_inj unfolding p by (auto simp: image_iff split: prod.splits)
  from Cons.IH [OF tail] obtain kvs'' files where
    rest: "map_res (\<lambda>(k, t). and_then (header_set t) (\<lambda>t. Inr (k, t))) kvs' = Inr kvs''"
      "fold_res (\<lambda>(k, t) dir. case sc_log_stream t of
         None \<Rightarrow> Inr dir
       | Some f \<Rightarrow> and_then (cf_close z fuel f) (\<lambda>bytes. Inr (AList.update (thread_name (ucast k)) bytes dir))) kvs'' ?dir =
       Inr (?dir @ zip (map (\<lambda>(k, c). thread_name (ucast k)) kvs) files)"
      "list_all2 (stored_log frame level) (map (\<lambda>(k, c). (ucast k, c)) kvs) files" by blast
  have "stored_log frame level (ucast k, c) ?b" using t(4) k by (auto simp: stored_log_def)
  then show ?case
    using rest t(1-3) u unfolding p by (intro exI [of _ "(k, t') # kvs''"] exI [of _ "?b # files"]) simp
qed

text \<open>Without threads in memory, streaming only changes which symbols are looked for.\<close>

definition region_intervals :: "image_info list \<Rightarrow> (u64 \<times> u64) list" where
  "region_intervals regions = map (\<lambda>r. (img_base r, img_base r + img_size r)) regions"

lemma stream_write_eq:
  "trace_log_write z cores fuel tree after True level [] regions symbols dir =
   trace_log_write z cores fuel (\<lambda>_. tree (region_intervals regions)) after False level [] regions symbols dir"
  by (cases symbols)
    (simp_all add: trace_log_write_def pc_intervals_def thread_bufs_def write_threads_def chosen_syms_def region_intervals_def)

lemma chosen_once: "chosen_syms (\<lambda>_. tree ivs) symbols pcs = chosen_syms tree symbols ivs"
  by (simp add: chosen_syms_def split: option.split)

lemma fetch_stored:
  assumes z: "decompressor_ok z frame" and st: "stored_log frame level (tid, c) bytes"
    and n: "length (log_buf c) < 2 ^ 64" "level = 0 \<longrightarrow> log_buf c \<noteq> []" and timer: "length bytes + length (log_buf c) < timer"
    and dir: "distinct (map fst dir)" "(thread_name tid, bytes) \<in> set dir"
  shows "read_thread z timer after dir (thread_name tid) = Inr (thread_log after (tid, c))"
proof -
  from st obtain w where w: "bytes = saved_bytes THRD_magic (hdr2_bytes (ucast tid) (num_inst c)) (level \<noteq> 0) (length (log_buf c)) w"
    "if level \<noteq> 0 then frame w (log_buf c) else w = log_buf c" unfolding stored_log_def fst_conv snd_conv by blast
  have "length w + length (log_buf c) < timer" using timer w(1) by (simp add: saved_bytes_def)
  moreover have "if level \<noteq> 0 then frame w (log_buf c) else w = log_buf c \<and> log_buf c \<noteq> []" using w(2) n(2) by auto
  ultimately have "fetch_file z timer sizeof_thread_hdr THRD_magic bytes =
      Inr (hdr2_bytes (ucast tid) (num_inst c), log_buf c)"
    using fetch_saved [OF hdr2_not_Nil _ n(1) z, of "ucast tid" "num_inst c" "level \<noteq> 0" w timer THRD_magic]
    by (simp add: w(1) sizeof_thread_hdr_def)
  moreover have "map_of dir (thread_name tid) = Some bytes" using dir by (rule map_of_is_SomeI)
  moreover have "ucast (ucast tid :: u64) = tid" by (rule bit_word_eqI) (simp add: bit_simps)
  ultimately show ?thesis
    by (simp add: read_thread_def fetch_named_def check_def load_hdr2_ok thread_log_def)
qed

text \<open>The directory of a streamed log: regions, metadata, and the threads' files as they are closed.\<close>

lemma read_streamed:
  assumes z: "compressor_ok z frame m" "decompressor_ok z frame"
    and fits: "log_fits ctxs regions syms n" and wr: "log_writable level ctxs regions syms"
    and fuel: "Suc n * Suc m \<le> fuel" "m < fuel"
    and w: "trace_log_write z cores fuel tree after True level [] regions symbols [] = Inr (dir0, hs)"
    and syms: "syms = chosen_syms tree symbols (region_intervals regions)"
    and st: "list_all2 (stored_log frame level) ctxs files"
    and dir: "dir = dir0 @ zip (map (\<lambda>tc. thread_name (fst tc)) ctxs) files"
    and timer: "\<forall>(nm, bytes) \<in> set dir. length bytes + n < timer"
  shows "trace_log_read z e t timer after' dir =
    and_then (create_hash e t no_pages (sort_key img_base regions)) (\<lambda>mr.
    Inr \<lparr>pl_regions = mr, pl_symbols = sort_key sym_base syms,
         pl_num_inst = sum_list (map (num_inst \<circ> snd) ctxs), pl_logs = sort_key fst (map (thread_log after') ctxs)\<rparr>)"
proof -
  let ?tree = "\<lambda>_. tree (region_intervals regions)"
  have dist: "distinct (map log_path regions)" "distinct (map fst ctxs)" using fits by (simp_all add: log_fits_def)
  have pcs: "pc_intervals False after [] regions = Inr []" by (simp add: pc_intervals_def thread_bufs_def)
  have sy: "syms = chosen_syms ?tree symbols []" by (simp add: syms chosen_once)
  from written_log [OF w [unfolded stream_write_eq] dist(1) _ pcs sy] obtain meta where
    sm: "save_file z cores fuel META_magic (hdr2_bytes (of_nat (length regions)) (of_nat (length syms))) 0 0
        (meta_chunks regions syms) = Inr meta" and
    d0: "dir0 = log_files z cores fuel level [] regions meta" and
    sr: "\<forall>r \<in> set regions. save_file z cores fuel MACH_magic (img_digest r) 1 0 [img_bytes r] = Inr (region_file z cores fuel r)"
    by auto
  have len: "length files = length ctxs" using st by (simp add: list_all2_lengthD)
  have d: "dir = map (\<lambda>r. (log_path r, region_file z cores fuel r)) regions @ [(meta_name, meta)] @
      zip (map (\<lambda>tc. thread_name (fst tc)) ctxs) files"
    by (simp add: dir d0 log_files_def)
  have tn: "distinct (map (\<lambda>tc. thread_name (fst tc)) ctxs)"
    using dist(2) by (simp add: distinct_map inj_on_def) (metis thread_name_inj)
  have fsts: "map fst dir = map log_path regions @ [meta_name] @ map (\<lambda>tc. thread_name (fst tc)) ctxs"
    using len by (simp add: d comp_def)
  have dd: "distinct (map fst dir)"
    unfolding fsts using dist(1) tn by (auto simp: name_kinds name_kinds(5-7) [THEN not_sym])
  have names: "filter (prefix region_prefix) (map fst dir) = map log_path regions"
    "filter (\<lambda>nm. nm \<noteq> meta_name \<and> \<not> prefix region_prefix nm) (map fst dir) = map (\<lambda>tc. thread_name (fst tc)) ctxs"
    unfolding fsts by (simp_all add: name_kinds filter_map comp_def)
  have mem: "(meta_name, meta) \<in> set dir" by (simp add: d)
  have "meta_chunks regions syms \<noteq> []" using fits by (auto simp: log_fits_def meta_chunks_def)
  then have fm: "fetch_named z timer sizeof_meta_hdr META_magic dir meta_name =
      Inr (hdr2_bytes (of_nat (length regions)) (of_nat (length syms)), concat (meta_chunks regions syms))"
    using fits timer mem
    by (intro fetch_log_file [OF z _ fuel dd mem sm]) (auto simp: log_fits_def sizeof_meta_hdr_def hdr2_not_Nil)
  have "\<forall>r \<in> set regions. (log_path r, region_file z cores fuel r) \<in> set dir" by (simp add: d)
  note rr = read_log_regions [OF z fits fuel dd this timer sr]
  have "read_thread z timer after' dir (thread_name (fst tc)) = Inr (thread_log after' tc)" if tc: "tc \<in> set ctxs" for tc
  proof -
    from tc obtain i where i: "i < length ctxs" "ctxs ! i = tc" by (auto simp: in_set_conv_nth)
    have mem: "(thread_name (fst tc), files ! i) \<in> set dir" using i len by (auto simp: d set_zip intro!: exI [of _ i])
    have s: "stored_log frame level (fst tc, snd tc) (files ! i)" using list_all2_nthD [OF st i(1)] i(2) by simp
    have le: "length (log_buf (snd tc)) \<le> n" "n < 2 ^ 64" using fits tc by (auto simp: log_fits_def)
    have "length (files ! i) + n < timer" using timer mem by auto
    with le wr tc fetch_stored [OF z(2) s _ _ _ dd mem, of timer after'] show ?thesis by (auto simp: log_writable_def)
  qed
  then have rt: "map_res (read_thread z timer after' dir) (map (\<lambda>tc. thread_name (fst tc)) ctxs) = Inr (map (thread_log after') ctxs)"
    unfolding map_res_map by (intro map_res_total) simp
  show ?thesis by (rule read_directory [OF fm names rr rt fits])
qed

section \<open>A whole session\<close>

lemma compressor_contract:
  assumes "compressor_ok z frame m"
  obtains cinv held where "cctx_ok z frame m cinv held" "zstd_c_out_size z > 0"
  using assms by (auto simp: compressor_ok_def)

lemma log_ctxs_rel:
  assumes "log_rel cinv level lg sl"
  shows "list_all2 (thread_rel cinv level) (m_key_vals (m_thread_ctxs lg)) (m_key_vals (sl_thread_ctxs sl))"
  using assms by (simp add: log_rel_def entries_rel_def)

lemma write_streamed:
  assumes z: "compressor_ok z frame m" and fits: "log_fits ctxs regions syms n" and wr: "log_writable level ctxs regions syms"
    and syms: "syms = chosen_syms tree symbols (region_intervals regions)" and fuel: "Suc n * Suc m \<le> fuel" "m < fuel"
  obtains dir0 hs where "trace_log_write z cores fuel tree after True level [] regions symbols [] = Inr (dir0, hs)"
    "\<forall>tid. thread_name tid \<notin> fst ` set dir0"
proof -
  let ?tree = "\<lambda>_. tree (region_intervals regions)"
  have pcs: "pc_intervals False after [] regions = Inr []" by (simp add: pc_intervals_def thread_bufs_def)
  have sy: "syms = chosen_syms ?tree symbols []" by (simp add: syms chosen_once)
  have fits0: "log_fits [] regions syms n" and wr0: "log_writable level [] regions syms"
    using fits wr by (simp_all add: log_fits_def log_writable_def)
  from write_succeeds [OF z pcs sy fits0 wr0 fuel, of cores] obtain dir0 hs where
    w: "trace_log_write z cores fuel ?tree after False level [] regions symbols [] = Inr (dir0, hs)" by blast
  have "distinct (map log_path regions)" using fits by (simp add: log_fits_def)
  from written_log [OF w this _ pcs sy] obtain meta where "dir0 = log_files z cores fuel level [] regions meta" by auto
  then have "\<forall>tid. thread_name tid \<notin> fst ` set dir0"
    by (auto simp: log_files_def name_kinds name_kinds(5-7) [THEN not_sym])
  with w show thesis by (intro that) (simp_all add: stream_write_eq)
qed

lemma streamed_session:
  assumes "compressor_ok z frame m" and "decompressor_ok z frame" and "\<forall>call \<in> set calls. wf_call call"
    and "fold_res (buffered_call e timer) calls (fst (trace_log_start False [])) = Inr lg" and "ctxs = log_ctxs lg"
    and "syms = chosen_syms tree symbols (region_intervals regions)"
    and "log_fits ctxs regions syms n" and "log_writable level ctxs regions syms"
    and "size_full_ctx + size_max \<le> n" and "Suc n * Suc m \<le> fuel" and "m < fuel"
  shows "\<exists>sl sl' dir0 dir.
    fold_res (streamed_call z cores fuel e timer) calls (stream_log_start True level) = Inr sl \<and>
    sl_num_inst sl = m_num_inst lg \<and>
    stream_log_write z cores fuel tree regions symbols [] sl = Inr (dir0, sl') \<and>
    stream_log_close z fuel dir0 sl' = Inr dir \<and>
    (\<forall>rfuel. (\<forall>(nm, bytes) \<in> set dir. length bytes + n < rfuel) \<longrightarrow>
      trace_log_read z e t rfuel after dir =
        and_then (create_hash e t no_pages (sort_key img_base regions)) (\<lambda>mr.
        Inr \<lparr>pl_regions = mr, pl_symbols = sort_key sym_base syms,
             pl_num_inst = sum_list (map (num_inst \<circ> snd) ctxs), pl_logs = sort_key fst (map (thread_log after) ctxs)\<rparr>))"
proof -
  obtain cinv held where z: "cctx_ok z frame m cinv held" "zstd_c_out_size z > 0"
    by (rule compressor_contract [OF assms(1)])
  have "Suc (size_full_ctx + size_max) * Suc m \<le> Suc n * Suc m" using assms(9) by (intro mult_le_mono1) simp
  then have sf: "stream_fuel m fuel" using assms(10) by (simp add: stream_fuel_def)
  from res_rel_InrD [OF calls_refine [OF _ sf assms(3) start_refines] assms(4), of level z frame cinv held cores] z
  obtain sl where sl: "fold_res (streamed_call z cores fuel e timer) calls (stream_log_start True level) = Inr sl"
    "log_rel cinv level lg sl" by blast
  then have lv: "sl_compression_level sl = level" "sl_num_inst sl = m_num_inst lg" by (simp_all add: log_rel_def)
  obtain dir0 hs where w: "trace_log_write z cores fuel tree [] True level [] regions symbols [] = Inr (dir0, hs)"
    "\<forall>tid. thread_name tid \<notin> fst ` set dir0"
    by (rule write_streamed [OF assms(1,7,8,6,10,11)])
  have cx: "ctxs = map (\<lambda>(k, c). (ucast k, c)) (m_key_vals (m_thread_ctxs lg))" by (simp add: assms(5) log_ctxs_def)
  then have "distinct (map (\<lambda>(k, c). ucast k :: u32) (m_key_vals (m_thread_ctxs lg)))"
    using assms(7) by (simp add: log_fits_def comp_def case_prod_unfold)
  from streams_close [OF z(1) assms(11) log_ctxs_rel [OF sl(2)] this, of dir0] w(2) obtain kvs'' files where
    h: "map_res (\<lambda>(k, t). and_then (header_set t) (\<lambda>t. Inr (k, t))) (m_key_vals (sl_thread_ctxs sl)) = Inr kvs''" and
    c: "fold_res (\<lambda>(k, t) dir. case sc_log_stream t of
         None \<Rightarrow> Inr dir
       | Some f \<Rightarrow> and_then (cf_close z fuel f) (\<lambda>bytes. Inr (AList.update (thread_name (ucast k)) bytes dir))) kvs'' dir0 =
       Inr (dir0 @ zip (map (\<lambda>(k, c). thread_name (ucast k)) (m_key_vals (m_thread_ctxs lg))) files)" and
    st: "list_all2 (stored_log frame level) ctxs files" by (auto simp: cx)
  let ?sl' = "sl\<lparr>sl_thread_ctxs := (sl_thread_ctxs sl)\<lparr>m_key_vals := kvs''\<rparr>\<rparr>"
  let ?dir = "dir0 @ zip (map (\<lambda>tc. thread_name (fst tc)) ctxs) files"
  have wr: "stream_log_write z cores fuel tree regions symbols [] sl = Inr (dir0, ?sl')"
    using w(1) h lv(1) by (simp add: stream_log_write_def)
  have cl: "stream_log_close z fuel dir0 ?sl' = Inr ?dir"
    using c by (simp add: stream_log_close_def cx comp_def case_prod_unfold)
  show ?thesis
    using sl(1) lv(2) wr cl read_streamed [OF assms(1,2,7,8,10,11) w(1) assms(6) st refl] by blast
qed

text \<open>C8: A streamed session is read back with the threads' logs of the session in memory: when the calls
  succeed on a log in memory whose contents fit a directory (distinct digests and file names,
  names and paths that are not empty), they succeed on the streamed log; its \<^verbatim>\<open>write\<close> and its
  destructor succeed, and reading the directory they leave gives, when the page hash of the
  regions can be built, the regions, the symbols, and for every thread the bytes and
  the instruction count of its buffer, although the file was opened with a count of 0.  The
  symbols differ from those a log in memory writes: they are the ones that overlap the regions as a
  whole, and not only the program counters.\<close>

theorem streamed_session_reads_back:
  assumes "compressor_ok z frame m" and "decompressor_ok z frame" and "\<forall>call \<in> set calls. wf_call call"
    and "fold_res (buffered_call e timer) calls (fst (trace_log_start False [])) = Inr lg" and "ctxs = log_ctxs lg"
    and "syms = chosen_syms tree symbols (region_intervals regions)"
    and "log_fits ctxs regions syms n" and "log_writable level ctxs regions syms"
    and "size_full_ctx + size_max \<le> n" and "Suc n * Suc m \<le> fuel" and "m < fuel"
  shows "\<exists>sl sl' dir0 dir.
    fold_res (streamed_call z cores fuel e timer) calls (stream_log_start True level) = Inr sl \<and>
    sl_num_inst sl = m_num_inst lg \<and>
    stream_log_write z cores fuel tree regions symbols [] sl = Inr (dir0, sl') \<and>
    stream_log_close z fuel dir0 sl' = Inr dir \<and>
    (\<forall>rfuel. (\<forall>(nm, bytes) \<in> set dir. length bytes + n < rfuel) \<longrightarrow>
      trace_log_read z e t rfuel after dir =
        and_then (create_hash e t no_pages (sort_key img_base regions)) (\<lambda>mr.
        Inr \<lparr>pl_regions = mr, pl_symbols = sort_key sym_base syms,
             pl_num_inst = sum_list (map (num_inst \<circ> snd) ctxs), pl_logs = sort_key fst (map (thread_log after) ctxs)\<rparr>))"
  by (rule streamed_session [OF assms])

theorem streamed_session_reads_back_witness:
  "\<exists>lg sl sl' dir0 dir.
    fold_res (buffered_call reference_lib 10)
      [Log_Context 7 (sample_ctx 0x1000 0 0), Log_Context 7 (sample_ctx 0x1004 3 7)] (fst (trace_log_start False [])) = Inr lg \<and>
    fold_res (streamed_call store_zstd 8 7001 reference_lib 10)
      [Log_Context 7 (sample_ctx 0x1000 0 0), Log_Context 7 (sample_ctx 0x1004 3 7)] (stream_log_start True 3) = Inr sl \<and>
    stream_log_write store_zstd 8 7001 (\<lambda>_ _. True) [zero_region] None [] sl = Inr (dir0, sl') \<and>
    stream_log_close store_zstd 7001 dir0 sl' = Inr dir \<and>
    (\<forall>rfuel. (\<forall>(nm, bytes) \<in> set dir. length bytes + 7000 < rfuel) \<longrightarrow>
      trace_log_read store_zstd reference_lib 10 rfuel [] dir =
        and_then (create_hash reference_lib 10 no_pages [zero_region]) (\<lambda>mr.
        Inr \<lparr>pl_regions = mr, pl_symbols = [], pl_num_inst = 2,
             pl_logs = sort_key fst (map (thread_log []) (log_ctxs lg))\<rparr>))"
proof -
  let ?c0 = "sample_ctx 0x1000 0 0" and ?c1 = "sample_ctx 0x1004 3 7" and ?e = reference_lib
  let ?lg0 = "fst (trace_log_start False [])" and ?calls = "[Log_Context 7 ?c0, Log_Context 7 ?c1]"
  have lg0: "m_thread_ctxs ?lg0 = \<lparr>m_mph = mph_empty, m_key_vals = []\<rparr>" "\<not> m_stream ?lg0"
    by (simp_all add: trace_log_start_def)
  have run: "encodable_run ?c0 [?c1]" using sample_run by simp
  obtain t where t: "fold_res write_log_msg [?c0, ?c1] (first_thread_ctx False ?c0) = Inr t" "num_inst t = 2"
    "length (log_buf t) \<le> 2 * (size_full_ctx + size_max)" "log_buf t \<noteq> []"
    by (rule first_log [OF sample_wf run]) simp
  then obtain t1 where t1: "write_log_msg ?c0 (first_thread_ctx False ?c0) = Inr t1" "write_log_msg ?c1 t1 = Inr t"
    by (auto simp: res_simps)
  let ?mp = "\<lambda>t. \<lparr>m_mph = single_mph ?e, m_key_vals = [(7, t)]\<rparr>"
  have en: "thread_entry ?e 10 ?c0 7 ?lg0 = Inr (?mp (first_thread_ctx False ?c0), 0)"
    using first_entry(1) [OF reference_lib_ok(1,2) lg0, of 10 ?c0 7] by simp
  have wf: "map_wf ?e (?mp t)" for t :: thread_ctx
    using first_entry(2) [OF reference_lib_ok(1,2) lg0, of 7 t] by simp
  have l1: "trace_log_ctx ?e 10 7 ?c0 ?lg0 = Inr (?lg0\<lparr>m_thread_ctxs := ?mp t1, m_num_inst := m_num_inst ?lg0 + 1\<rparr>)"
    using en t1(1) by (simp add: trace_log_ctx_def at_def)
  let ?lg1 = "?lg0\<lparr>m_thread_ctxs := ?mp t1, m_num_inst := m_num_inst ?lg0 + 1\<rparr>"
  have "map_wf ?e (m_thread_ctxs ?lg1)" "map_value (m_thread_ctxs ?lg1) (ucast (7 :: u32)) = Some t1"
    using wf by (simp_all add: map_value_def)
  from log_present [OF this t1(2), of 10] obtain lg where l2: "trace_log_ctx ?e 10 7 ?c1 ?lg1 = Inr lg"
    "mph_map_keys (m_thread_ctxs lg) = mph_map_keys (m_thread_ctxs ?lg1)"
    "map_value (m_thread_ctxs lg) = (map_value (m_thread_ctxs ?lg1))(ucast (7 :: u32) \<mapsto> t)" by metis
  have "m_key_vals (m_thread_ctxs lg) = [(7, t)]"
    using l2(2,3) by (intro map_value_single) (simp_all add: mph_map_keys_def)
  then have cx: "[(7, t)] = log_ctxs lg" by (simp add: log_ctxs_def)
  have run: "fold_res (buffered_call ?e 10) ?calls ?lg0 = Inr lg" using l1 l2(1) by simp
  have sz: "size_full_ctx + size_max \<le> 3000"
    by (simp add: size_full_ctx_def sync_frame_sz_def length_sync_hdr sizeof_ctx_def size_max_def rpc_num_changed_max_def)
  have len: "length (concat (meta_chunks [zero_region] [])) < 200"
  proof -
    have "decimal 0 = [48]" by (simp add: decimal.simps)
    then have "length (img_path zero_region) = 24" by (simp add: zero_region_def jit_path_def ascii_def hex2_def)
    then show ?thesis using length_region_log_bytes [OF zero_wf] by (simp add: concat_meta_chunks)
  qed
  have "length (img_bytes zero_region) = 4096" "img_size zero_region = of_nat (length (img_bytes zero_region))"
    by (simp_all add: zero_region_def)
  then have fits: "log_fits [(7, t)] [zero_region] [] 7000"
    using len t(3) sz zero_wf by (simp add: log_fits_def)
  have wr: "log_writable 3 [(7, t)] [zero_region] []" using zero_path by (simp add: log_writable_def)
  have syms: "[] = chosen_syms (\<lambda>_ _. True) None (region_intervals [zero_region])" by (simp add: chosen_syms_def)
  have wfc: "\<forall>call \<in> set ?calls. wf_call call" by (simp add: sample_wf)
  have n: "size_full_ctx + size_max \<le> 7000" "Suc 7000 * Suc 0 \<le> (7001 :: nat)" "0 < (7001 :: nat)" using sz by simp_all
  from streamed_session_reads_back [OF store_compressor_ok store_decompressor_ok wfc run cx syms fits wr n,
      where cores = 8 and t = 10 and after = "[]"]
  obtain sl sl' dir0 dir where r:
    "fold_res (streamed_call store_zstd 8 7001 ?e 10) ?calls (stream_log_start True 3) = Inr sl"
    "stream_log_write store_zstd 8 7001 (\<lambda>_ _. True) [zero_region] None [] sl = Inr (dir0, sl')"
    "stream_log_close store_zstd 7001 dir0 sl' = Inr dir"
    and rd: "\<forall>rfuel. (\<forall>(nm, bytes) \<in> set dir. length bytes + 7000 < rfuel) \<longrightarrow>
      trace_log_read store_zstd ?e 10 rfuel [] dir =
        and_then (create_hash ?e 10 no_pages (sort_key img_base [zero_region])) (\<lambda>mr.
        Inr \<lparr>pl_regions = mr, pl_symbols = sort_key sym_base [], pl_num_inst = sum_list (map (num_inst \<circ> snd) [(7 :: u32, t)]),
             pl_logs = sort_key fst (map (thread_log []) [(7, t)])\<rparr>)" by (elim exE conjE) (rule that)
  have "sort_key img_base [zero_region] = [zero_region]" "sort_key sym_base ([] :: sym_info list) = []"
    "sum_list (map (num_inst \<circ> snd) [(7 :: u32, t)]) = 2" using t(2) by simp_all
  note rd = rd [unfolded this, unfolded cx]
  show ?thesis
    by (intro exI [of _ lg] exI [of _ sl] exI [of _ sl'] exI [of _ dir0] exI [of _ dir] conjI run r rd)
qed

end
