(* ===== verification/LostTraces.thy ===== *)
theory LostTraces
  imports Runner LogThreads Streaming AnalysisProps
begin

text \<open>
  What becomes of a trace that the runner records.  The exception handler logs program counters
  alone, which never begin with a sync frame; \<^verbatim>\<open>TraceLog::write\<close> of a log that is not streamed
  reads the program counters back to choose the symbols.  So no such trace is ever written.
\<close>

section \<open>Threads that log program counters only\<close>

definition unsynced :: "thread_ctx \<Rightarrow> bool" where
  "unsynced t \<longleftrightarrow> (\<exists>g rest. log_buf t = le_bytes 4 (g :: u32) @ rest \<and> \<not> rpc_sync g)"

definition pc_ctx :: "thread_ctx \<Rightarrow> bool" where
  "pc_ctx t \<longleftrightarrow> log_stream t = None \<and> (log_buf t = [] \<or> unsynced t)"

definition pc_log :: "trace_log \<Rightarrow> bool" where
  "pc_log lg \<longleftrightarrow> \<not> m_stream lg \<and> (\<forall>(k, t) \<in> set (m_key_vals (m_thread_ctxs lg)). pc_ctx t)"

definition traced_some :: "trace_log \<Rightarrow> bool" where
  "traced_some lg \<longleftrightarrow> (\<exists>(k, t) \<in> set (m_key_vals (m_thread_ctxs lg)). unsynced t)"

lemma written_pc:
  assumes "pc_ctx t"
  shows "pc_ctx (write_log_msg_pc pc t) \<and> unsynced (write_log_msg_pc pc t)"
proof -
  have "\<not> rpc_sync (rpc_set_pc_branched 0)" "\<not> rpc_sync 0" by code_simp+
  with assms show ?thesis
    by (auto simp: pc_ctx_def unsynced_def write_log_msg_pc_def emit_def Let_def)
qed

lemma unsynced_unreadable:
  assumes "unsynced t"
  shows "extract_pcs_from_trace \<lparr>lb_mem = log_buf t @ after, lb_size = sz, lb_num_inst = n\<rparr> = Inl Assertion_Failed"
proof -
  obtain g rest where w: "log_buf t = le_bytes 4 g @ rest" "\<not> rpc_sync (g :: u32)"
    using assms by (auto simp: unsynced_def)
  have "has_bytes (le_bytes 4 g @ rest @ after) 0 (le_bytes 4 g)" by (simp add: has_bytes_def)
  then have "msg_gpr_changed (le_bytes 4 g @ rest @ after) 0 = Inr g"
    by (simp add: msg_gpr_changed_def load_has_bytes del: load_ok append_assoc)
  then show ?thesis
    using w by (simp add: extract_pcs_from_trace_def pcs_begin_def front_def msg_is_sync_frame_def)
qed

lemma map_res_fails: "x \<in> set xs \<Longrightarrow> f x = Inl e \<Longrightarrow> \<exists>e'. map_res f xs = Inl e'"
proof (induction xs)
  case (Cons y ys)
  then show ?case by (cases "f y") auto
qed simp

lemma untraced_intervals:
  assumes "traced_some lg"
  shows "\<exists>e. pc_intervals False after (log_ctxs lg) regions = Inl e"
proof -
  obtain k t where t: "(k, t) \<in> set (m_key_vals (m_thread_ctxs lg))" "unsynced t"
    using assms by (auto simp: traced_some_def)
  let ?b = "\<lparr>lb_mem = log_buf t @ after, lb_size = length (log_buf t), lb_num_inst = num_inst t\<rparr>"
  have "?b \<in> set (thread_bufs after (log_ctxs lg))"
    using t(1) by (force simp: thread_bufs_def log_ctxs_def)
  from map_res_fails [where f = extract_pcs_from_trace, OF this unsynced_unreadable [OF t(2)]] show ?thesis
    by (auto simp: pc_intervals_def)
qed

section \<open>The map of the threads\<close>

text \<open>Rebuilding moves entries around; it makes no new ones.\<close>

lemma permute_cycle_set:
  "permute_cycle fuel i xs idx c = Inr (xs', idx', c') \<Longrightarrow> set xs' \<subseteq> set xs"
proof (induction fuel arbitrary: xs idx c)
  case (Suc fuel)
  have "set (xs[c := xs ! j]) \<subseteq> set xs" if "j < length xs" for j
    using that set_update_subset_insert [of xs c "xs ! j"] by auto
  with Suc show ?case by (fastforce simp: res_simps at_def split: if_splits)
qed simp

lemma permute_set:
  assumes "permute xs idx = Inr (xs', idx')"
  shows "set xs' \<subseteq> set xs"
proof -
  have step: "set ys' \<subseteq> set ys" if "permute_step i (ys, idx) = Inr (ys', idx')" for i and ys ys' :: "'a list" and idx idx'
  proof -
    from that obtain zs c idx1 where z: "i < length ys" "permute_cycle (Suc (length idx)) i ys idx i = Inr (zs, idx1, c)"
      "ys' = zs[c := ys ! i]"
      by (auto simp: permute_step_def res_simps at_def simp del: permute_cycle.simps split: if_splits)
    then show ?thesis
      using permute_cycle_set [OF z(2)] set_update_subset_insert [of zs c "ys ! i"] nth_mem [OF z(1)] by auto
  qed
  have "set ys' \<subseteq> set ys" if "fold_res permute_step is (ys, idx) = Inr (ys', idx')" for "is" and ys ys' :: "'a list" and idx idx'
    using that
  proof (induction "is" arbitrary: ys idx)
    case (Cons i is')
    then obtain zs idx1 where z: "permute_step i (ys, idx) = Inr (zs, idx1)" "fold_res permute_step is' (zs, idx1) = Inr (ys', idx')"
      by (auto simp: res_simps)
    from step [OF z(1)] Cons.IH [OF z(2)] show ?case by blast
  qed simp
  from this [OF assms [unfolded permute_def]] show ?thesis .
qed

lemma rebuild_set: "mph_map_rebuild e timer mp = Inr mp' \<Longrightarrow> set (m_key_vals mp') \<subseteq> set (m_key_vals mp)"
  by (auto simp: mph_map_rebuild_def res_simps dest!: permute_set)

lemma emplace_set:
  "mph_map_try_emplace e timer mp key v = Inr (mp', i, added) \<Longrightarrow> set (m_key_vals mp') \<subseteq> insert (key, v) (set (m_key_vals mp))"
  by (fastforce simp: mph_map_try_emplace_def res_simps dest!: rebuild_set split: if_splits)

lemma index_set:
  "mph_map_index e timer dflt mp key = Inr (mp', i) \<Longrightarrow> set (m_key_vals mp') \<subseteq> insert (key, dflt) (set (m_key_vals mp))"
  by (fastforce simp: mph_map_index_def res_simps dest!: rebuild_set split: if_splits)

section \<open>Logging program counters\<close>

lemma entry_pc:
  assumes lg: "pc_log lg" and en: "thread_entry e timer init thread lg = Inr (mp, i)"
  shows "\<forall>(k, t) \<in> set (m_key_vals mp). pc_ctx t"
proof -
  have new: "pc_ctx (new_thread_ctx False)" "pc_ctx ((new_thread_ctx False)\<lparr>last_cpu_ctx := init\<rparr>)"
    by (simp_all add: pc_ctx_def new_thread_ctx_def)
  have old: "\<forall>(k, t) \<in> set (m_key_vals (m_thread_ctxs lg)). pc_ctx t" "\<not> m_stream lg"
    using lg by (auto simp: pc_log_def)
  from en obtain has where "mph_map_contains e (m_thread_ctxs lg) (ucast thread) = Inr has"
    by (auto simp: thread_entry_def res_simps)
  show ?thesis
  proof (cases has)
    case True
    then have "mph_map_index e timer (new_thread_ctx False) (m_thread_ctxs lg) (ucast thread) = Inr (mp, i)"
      using en \<open>mph_map_contains _ _ _ = _\<close> by (simp add: thread_entry_def)
    from index_set [OF this] show ?thesis using old(1) new(1) by fastforce
  next
    case False
    then obtain mp1 k t where em: "mph_map_try_emplace e timer (m_thread_ctxs lg) (ucast thread) (new_thread_ctx False) = Inr (mp1, i, True)"
      and at: "i < length (m_key_vals mp1)" "m_key_vals mp1 ! i = (k, t)"
      and mp: "mp = mp1\<lparr>m_key_vals := (m_key_vals mp1)[i := (k, t\<lparr>last_cpu_ctx := init\<rparr>)]\<rparr>"
      using en \<open>mph_map_contains _ _ _ = _\<close> old(2)
      by (auto simp: thread_entry_def res_simps at_def split: if_splits)
    have ok: "\<forall>(k, t) \<in> set (m_key_vals mp1). pc_ctx t"
      using emplace_set [OF em] old(1) new(1) by fastforce
    then have "pc_ctx t" using at nth_mem [OF at(1)] by fastforce
    then have "pc_ctx (t\<lparr>last_cpu_ctx := init\<rparr>)" by (simp add: pc_ctx_def unsynced_def)
    with ok show ?thesis
      unfolding mp using set_update_subset_insert [of "m_key_vals mp1" i] by fastforce
  qed
qed

lemma log_pc:
  assumes "pc_log lg" and "trace_log_pc e timer thread pc lg = Inr lg'"
  shows "pc_log lg' \<and> traced_some lg'"
proof -
  obtain mp i k t where en: "thread_entry e timer (zero_ctx\<lparr>ctx_pc := pc\<rparr>) thread lg = Inr (mp, i)"
    and at: "i < length (m_key_vals mp)" "m_key_vals mp ! i = (k, t)"
    and lg': "lg' = lg\<lparr>m_thread_ctxs := mp\<lparr>m_key_vals := (m_key_vals mp)[i := (k, write_log_msg_pc pc t)]\<rparr>, m_num_inst := m_num_inst lg + 1\<rparr>"
    using assms(2) by (auto simp: trace_log_pc_def res_simps at_def split: if_splits)
  note all = entry_pc [OF assms(1) en]
  then have t: "pc_ctx (write_log_msg_pc pc t)" "unsynced (write_log_msg_pc pc t)"
    using at nth_mem [OF at(1)] written_pc [of t pc] by fastforce+
  have "\<forall>(k, t) \<in> set ((m_key_vals mp)[i := (k, write_log_msg_pc pc t)]). pc_ctx t"
    using all t(1) set_update_subset_insert [of "m_key_vals mp" i] by fastforce
  moreover have "(k, write_log_msg_pc pc t) \<in> set ((m_key_vals mp)[i := (k, write_log_msg_pc pc t)])"
    using at(1) by (rule set_update_memI)
  ultimately show ?thesis
    using assms(1) t(2) unfolding lg' by (auto simp: pc_log_def traced_some_def)
qed

section \<open>Everything else leaves the log alone\<close>

lemma measuring_log:
  "start_measuring_stats m tr = Inr tr' \<Longrightarrow> m_log tr' = m_log tr" "stop_measuring_stats m tr = Inr tr' \<Longrightarrow> m_log tr' = m_log tr"
  by (auto simp: start_measuring_stats_def stop_measuring_stats_def res_simps split: if_splits)

lemma suspension_log: "suspend m tr = Inr tr' \<Longrightarrow> m_log tr' = m_log tr" "resume m tr = Inr tr' \<Longrightarrow> m_log tr' = m_log tr"
  by (auto simp: suspend_def resume_def res_simps Let_def dest!: measuring_log split: if_splits)

lemma handler_log:
  "install_breakpoint_exception_handler m tr = Inr tr' \<Longrightarrow> m_log tr' = m_log tr"
  "uninstall_breakpoint_exception_handler m tr = Inr tr' \<Longrightarrow> m_log tr' = m_log tr"
  "setup_breakpoint_exception_handler m tr = Inr tr' \<Longrightarrow> m_log tr' = m_log tr"
  by (auto simp: install_breakpoint_exception_handler_def uninstall_breakpoint_exception_handler_def
      setup_breakpoint_exception_handler_def res_simps split: if_splits)

lemma reset_log: "tracer_reset m tr = Inr tr' \<Longrightarrow> m_log tr' = m_log tr"
  by (auto simp: tracer_reset_def res_simps)

lemma stepping_log: "set_single_step m b tr = Inr tr' \<Longrightarrow> m_log tr' = m_log tr"
  by (auto simp: set_single_step_def res_simps dest!: suspension_log handler_log reset_log split: if_splits)

lemma pipe_log:
  "pipe_readable m tr = Inr tr' \<Longrightarrow> m_log tr' = m_log tr" "pipe_ack m tr = Inr tr' \<Longrightarrow> m_log tr' = m_log tr"
  by (auto simp: pipe_readable_def pipe_ack_def res_simps split: option.splits if_splits)

lemma block_log: "pipe_block m tr = Inr tr' \<Longrightarrow> m_log tr' = m_log tr"
  by (auto simp: pipe_block_def pipe_start_def pipe_stop_def res_simps
      dest!: stepping_log measuring_log pipe_log split: list.splits if_splits)

lemma ctor_log: "common_ctor m pipe_ctrl symbolicate tr = Inr tr' \<Longrightarrow> m_log tr' = m_log tr"
  by (auto simp: common_ctor_def setup_proc_dispath_source_def setup_pipe_dispatch_source_def
      setup_breakpoint_exception_port_dispath_source_def res_simps
      dest!: stepping_log handler_log reset_log split: option.splits if_splits)

lemma made_log: "make_tracer m procs attach_arg opt tr = Inr tr' \<Longrightarrow> m_log tr' = m_log tr"
  by (auto simp: make_tracer_def attach_name_def spawn_tracer_def spawn_with_args_def res_simps
      dest!: ctor_log suspension_log split: if_splits)

lemma waiting_log:
  assumes "runner_main m procs attach_arg global_queue opt k dir = Inr (Waiting tr dir' resumed)"
  shows "m_log tr = fst (trace_log_start (to_stream opt) dir)"
  using assms by (auto simp: runner_main_def Let_def res_simps new_tracer_def
      dest!: made_log stepping_log suspension_log split: if_splits prod.splits)

section \<open>Sessions\<close>

fun is_breakpoint :: "'k event \<Rightarrow> bool" where
  "is_breakpoint (Breakpoint th st) = True"
| "is_breakpoint e = False"

lemma step_log:
  assumes "tracer_step m ev tr tr'" and "pc_log (m_log tr)"
  shows "if is_breakpoint ev then pc_log (m_log tr') \<and> traced_some (m_log tr') else m_log tr' = m_log tr"
  using assms
proof cases
  case (breakpoint th st st')
  then obtain lg where "trace_log_pc (k_hash m) (k_timer m) th (ts_pc st) (m_log tr) = Inr lg" "m_log tr' = lg"
    by (auto simp: exception_raise_state_identity_def res_simps)
  with log_pc [OF assms(2)] breakpoint show ?thesis by simp
qed (auto dest: suspension_log stepping_log pipe_log block_log)

lemma runs_log:
  assumes "runs (tracer_step m) es tr tr'" and "pc_log (m_log tr)"
  shows "pc_log (m_log tr') \<and> (list_ex is_breakpoint es \<or> traced_some (m_log tr) \<longrightarrow> traced_some (m_log tr'))"
  using assms
proof (induction rule: runs.induct)
  case (more acts s t a u)
  then show ?case using step_log [OF more.hyps(2)] by (cases "is_breakpoint a") auto
qed simp

lemma untraced_write:
  assumes "traced_some (m_log tr)" and "\<not> m_stream (m_log tr)"
  shows "\<exists>err. runner_end m z cores fuel tree after level dir tr = (dir, Inl err)"
proof -
  let ?before = "and_then (if target_valid m tr then set_single_step m False tr else Inr tr) (\<lambda>tr.
    and_then (stop_measuring_stats m tr) (\<lambda>tr. and_then (assert_some (m_macho_regions tr)) (\<lambda>mr. Inr (mr, tr))))"
  have "\<exists>err. delete_tracer m z cores fuel tree after level dir tr = (dir, Inl err)"
  proof (cases ?before)
    case (Inr p)
    obtain mr tr2 where p: "p = (mr, tr2)" by force
    then obtain tr1 where tr1: "(if target_valid m tr then set_single_step m False tr else Inr tr) = Inr tr1"
      and tr2: "stop_measuring_stats m tr1 = Inr tr2"
      using Inr by (auto simp: res_simps)
    have "m_log tr2 = m_log tr"
      using measuring_log(2) [OF tr2] tr1 stepping_log by (auto split: if_splits)
    with untraced_intervals [OF assms(1), of after "mr_regions mr"] assms(2) Inr p show ?thesis
      by (auto simp: delete_tracer_def trace_log_write_def write_interrupted_def)
  qed (simp add: delete_tracer_def)
  then show ?thesis by (auto simp: runner_end_def)
qed

lemma waiting_dir:
  assumes "runner_main m procs attach_arg global_queue opt k dir = Inr (Waiting tr dir' resumed)"
  shows "dir' = snd (trace_log_start (to_stream opt) dir)"
  using assms by (auto simp: runner_main_def Let_def res_simps split: if_splits prod.splits)

text \<open>A directory with nothing but regions is no trace.\<close>

lemma started_unreadable:
  "trace_log_read z e timer fuel after (snd (trace_log_start stream dir)) = Inl Process_Exit"
proof -
  have "map_of (snd (trace_log_start stream dir)) meta_name = None"
    by (auto simp: map_of_eq_None_iff trace_log_start_def name_kinds)
  then show ?thesis by (simp add: trace_log_read_def fetch_named_def check_def)
qed

text \<open>C14: The runner never leaves a trace unless it streams: in every session of it without
  \<^verbatim>\<open>--stream\<close> in which a breakpoint was handled, on any kernel, however many threads were stepped,
  and whether the target is interrupted or has exited by itself, the end of the session fails,
  and the directory is left as the session found it when it began: it holds files of regions
  of earlier traces only, no metadata and no thread, and reading it fails - the log of program
  counters that was about to be written begins without a sync frame.\<close>

theorem stepped_session_lost:
  assumes "runner_main m procs attach_arg global_queue opt k dir = Inr (Waiting tr dir' resumed)"
    and "\<not> to_stream opt" and "runs (tracer_step m) es tr tr'" and "Breakpoint th st \<in> set es"
  shows "(\<exists>err. runner_end m z cores fuel tree after level dir' tr' = (dir', Inl err)) \<and>
    (\<forall>file \<in> set dir'. file \<in> set dir \<and> prefix region_prefix (fst file)) \<and>
    trace_log_read z' e timer rfuel after' dir' = Inl Process_Exit"
proof -
  have "pc_log (m_log tr)"
    using waiting_log [OF assms(1)] assms(2) by (simp add: pc_log_def trace_log_start_def)
  moreover have "list_ex is_breakpoint es" using assms(4) by (force simp: list_ex_iff)
  ultimately have "pc_log (m_log tr') \<and> traced_some (m_log tr')" using runs_log [OF assms(3)] by blast
  then have "\<exists>err. runner_end m z cores fuel tree after level dir' tr' = (dir', Inl err)"
    by (intro untraced_write) (auto simp: pc_log_def)
  then show ?thesis
    using started_unreadable by (auto simp: waiting_dir [OF assms(1)] trace_log_start_def)
qed

text \<open>One instruction stepped in the session of \<open>interrupted_session_fails_witness\<close>.\<close>

theorem stepped_session_lost_witness:
  "\<exists>tr st tr' e. runner_main mini_sys [] (Inl Assertion_Failed) 1 pipe_opts (mini_task 0, 50, []) [] = Inr (Waiting tr [] [2, 2, 2, 2]) \<and>
     runs (tracer_step mini_sys) [Breakpoint 3 st] tr tr' \<and>
     runner_end mini_sys store_zstd 2 10 (\<lambda>_ _. False) [] 1 [] tr' = ([], Inl e)"
proof -
  obtain tr where main: "runner_main mini_sys [] (Inl Assertion_Failed) 1 pipe_opts (mini_task 0, 50, []) [] = Inr (Waiting tr [] [2, 2, 2, 2])"
    using mini_runner by blast
  let ?st = "\<lparr>ts_x = [], ts_fp = 0, ts_lr = 0, ts_sp = 0, ts_pc = 0x1000, ts_cpsr = 0\<rparr>"
  have "m_log tr = \<lparr>m_num_inst = 0, m_stream = False, m_thread_ctxs = \<lparr>m_mph = mph_empty, m_key_vals = []\<rparr>\<rparr>"
    using waiting_log [OF main] by (simp add: trace_log_start_def pipe_opts_def)
  then obtain lg where "trace_log_pc (k_hash mini_sys) (k_timer mini_sys) 3 0x1000 (m_log tr) = Inr lg"
    using first_entry(1) [OF reference_lib_ok(1,2), of "m_log tr" 10 "zero_ctx\<lparr>ctx_pc := 0x1000\<rparr>" 3]
    by (simp add: trace_log_pc_def mini_sys_def)
  moreover obtain k where "set_single_step_thread mini_sys 3 True (os tr) = Inr k"
    by (cases "os tr") (simp add: set_single_step_thread_def mini_sys_def assert_some_def)
  ultimately have "exception_raise_state_identity mini_sys 3 ?st tr = Inr (?st, tr\<lparr>m_log := lg, os := k\<rparr>)"
    by (simp add: exception_raise_state_identity_def)
  then have "tracer_step mini_sys (Breakpoint 3 ?st) tr (tr\<lparr>m_log := lg, os := k\<rparr>)"
    by (rule tracer_step.breakpoint)
  then have r: "runs (tracer_step mini_sys) [Breakpoint 3 ?st] tr (tr\<lparr>m_log := lg, os := k\<rparr>)"
    using runs.more [where acts = "[]" and s = tr and t = tr, OF runs.none] by simp
  have "\<not> to_stream pipe_opts" "Breakpoint 3 ?st \<in> set [Breakpoint 3 ?st]" by (simp_all add: pipe_opts_def)
  from conjunct1 [OF stepped_session_lost [OF main this(1) r this(2)]] main r show ?thesis by blast
qed

section \<open>The streamed trace\<close>

lemma fold_res_fails:
  assumes "x \<in> set xs" and "\<And>s. \<exists>err. f x s = Inl err"
  shows "\<exists>err. fold_res f xs s = Inl err"
  using assms(1)
proof (induction xs arbitrary: s)
  case (Cons y ys)
  then show ?case using assms(2) [of s] by (cases "f y s") auto
qed simp

lemma pc_calls:
  assumes "fold_res (buffered_call e timer) (map (\<lambda>(th, pc). Log_Pc th pc) steps) lg = Inr lg'" and "pc_log lg"
  shows "pc_log lg' \<and> (steps \<noteq> [] \<or> traced_some lg \<longrightarrow> traced_some lg')"
  using assms
proof (induction steps arbitrary: lg)
  case (Cons s steps)
  obtain th pc where s: "s = (th, pc)" by force
  then obtain lg1 where l: "trace_log_pc e timer th pc lg = Inr lg1"
    "fold_res (buffered_call e timer) (map (\<lambda>(th, pc). Log_Pc th pc) steps) lg1 = Inr lg'"
    using Cons.prems(1) by (auto simp: res_simps)
  from log_pc [OF Cons.prems(2) l(1)] Cons.IH [OF l(2)] show ?case by simp
qed simp

lemma unreadable_histogram:
  assumes "traced_some lg" and "pl_logs trace = sort_key fst (map (thread_log after) (log_ctxs lg))"
  shows "\<exists>err. dump_histogram decode e blocks trace = Inl err"
proof -
  obtain k t where t: "(k, t) \<in> set (m_key_vals (m_thread_ctxs lg))" "unsynced t"
    using assms(1) by (auto simp: traced_some_def)
  then have "thread_log after (ucast k, t) \<in> set (pl_logs trace)"
    unfolding assms(2) log_ctxs_def by (force simp: image_iff)
  then show ?thesis unfolding dump_histogram_def
    by (rule fold_res_fails) (simp add: thread_log_def unsynced_unreadable [OF t(2)])
qed

text \<open>With \<^verbatim>\<open>--stream\<close> the single-stepped trace is written and its directory is read back,
  but the tool's histogram of it fails, for every division of the work: no thread's log begins
  with a sync frame.\<close>

lemma streamed_steps_unanalysable:
  assumes "compressor_ok z frame m" and "decompressor_ok z frame" and "steps \<noteq> []"
    and "fold_res (buffered_call e timer) (map (\<lambda>(th, pc). Log_Pc th pc) steps) (fst (trace_log_start False [])) = Inr lg"
    and "syms = chosen_syms tree symbols (region_intervals regions)"
    and "log_fits (log_ctxs lg) regions syms n" and "log_writable level (log_ctxs lg) regions syms"
    and "size_full_ctx + size_max \<le> n" and "Suc n * Suc m \<le> fuel" and "m < fuel"
  shows "\<exists>sl sl' dir0 dir.
    fold_res (streamed_call z cores fuel e timer) (map (\<lambda>(th, pc). Log_Pc th pc) steps) (stream_log_start True level) = Inr sl \<and>
    stream_log_write z cores fuel tree regions symbols [] sl = Inr (dir0, sl') \<and>
    stream_log_close z fuel dir0 sl' = Inr dir \<and>
    (\<forall>rfuel trace. (\<forall>(nm, bytes) \<in> set dir. length bytes + n < rfuel) \<longrightarrow>
      trace_log_read z e t rfuel after dir = Inr trace \<longrightarrow>
      (\<exists>err. dump_histogram decode e blocks trace = Inl err))"
proof -
  have wf: "\<forall>call \<in> set (map (\<lambda>(th, pc). Log_Pc th pc) steps). wf_call call" by auto
  have "pc_log (fst (trace_log_start False []))" by (simp add: pc_log_def trace_log_start_def)
  from pc_calls [OF assms(4) this] assms(3) have some: "traced_some lg" by simp
  from streamed_session [OF assms(1,2) wf assms(4) refl assms(5-10), of cores t after]
  obtain sl sl' dir0 dir where r:
    "fold_res (streamed_call z cores fuel e timer) (map (\<lambda>(th, pc). Log_Pc th pc) steps) (stream_log_start True level) = Inr sl"
    "stream_log_write z cores fuel tree regions symbols [] sl = Inr (dir0, sl')" "stream_log_close z fuel dir0 sl' = Inr dir"
    and rd: "\<forall>rfuel. (\<forall>(nm, bytes) \<in> set dir. length bytes + n < rfuel) \<longrightarrow>
      trace_log_read z e t rfuel after dir =
        and_then (create_hash e t no_pages (sort_key img_base regions)) (\<lambda>mr.
        Inr \<lparr>pl_regions = mr, pl_symbols = sort_key sym_base syms,
             pl_num_inst = sum_list (map (num_inst \<circ> snd) (log_ctxs lg)),
             pl_logs = sort_key fst (map (thread_log after) (log_ctxs lg))\<rparr>)" by (elim exE conjE) (rule that)
  have "\<exists>err. dump_histogram decode e blocks trace = Inl err"
    if "\<forall>(nm, bytes) \<in> set dir. length bytes + n < rfuel" "trace_log_read z e t rfuel after dir = Inr trace" for rfuel trace
  proof -
    from rd that have "pl_logs trace = sort_key fst (map (thread_log after) (log_ctxs lg))" by (auto simp: res_simps)
    then show ?thesis by (rule unreadable_histogram [OF some])
  qed
  with r show ?thesis by blast
qed

end
