(* ===== verification/Tools.thy ===== *)
theory Tools
  imports Analysis CompressedFileProps Utils Mach
begin

text \<open>
  The smaller programs of \<^verbatim>\<open>tools\<close>: the main functions of \<^verbatim>\<open>xnu-trace-log-util\<close>, of
  \<^verbatim>\<open>xnu-trace-compressed-file-util\<close> and of \<^verbatim>\<open>spawn-no-aslr\<close>, after their options are parsed.
\<close>

section \<open>xnu-trace-compressed-file-util\<close>

text \<open>\<^verbatim>\<open>CompressedFileRawRead\<close> opens a file of any magic and header size.\<close>

definition raw_read :: "('c, 'd) zstd_lib \<Rightarrow> buffer option \<Rightarrow> ('c, 'd) comp_file res" where
  "raw_read z file = cf_open_read z file (- 1) (- 1)"

definition file_util :: "('c, 'd) zstd_lib \<Rightarrow> nat \<Rightarrow> buffer option \<Rightarrow> bool \<Rightarrow> bool \<Rightarrow> buffer res" where
  "file_util z fuel file out_opened output_header =
     and_then (raw_read z file) (\<lambda>cf.
     if output_header then write_file out_opened (cf_hdr_buf cf)
     else and_then (cf_read z fuel cf) (\<lambda>(buf, cf). write_file out_opened buf))"

lemma raw_read_any: "cf_open_read z file hdr_sz magic = Inr f \<Longrightarrow> raw_read z file = Inr f"
  by (auto simp: raw_read_def cf_open_read_def res_simps Let_def split: if_splits)

text \<open>
  What the tool gets out of a file that a client has saved: the client's header, or the whole
  body if there is one; the tool stops on an empty body, whose file it cannot write.
\<close>

lemma file_util_extracts:
  fixes magic :: u64
  assumes "hdr \<noteq> []" and "length hdr < 2 ^ 64" and "length x < 2 ^ 64" and z: "decompressor_ok z frame"
    and w: "if compressed then frame w x else w = x \<and> x \<noteq> []" and timer: "length w + length x < timer"
  defines "file \<equiv> saved_bytes magic hdr compressed (length x) w"
  shows "file_util z timer (Some file) True True = Inr hdr"
    and "file_util z timer (Some file) True False = (if x = [] then Inl Assertion_Failed else Inr x)"
proof -
  obtain d where d: "zstd_dctx z = Some d" using z by (elim decompressor_okE)
  from open_saved [of hdr "length x" compressed z d magic w, OF assms(1-3) d] obtain f where
    f: "cf_open_read z (Some file) (of_nat (length hdr)) magic = Inr f" "cf_hdr_buf f = hdr" by (auto simp: file_def)
  have raw: "raw_read z (Some file) = Inr f" by (rule raw_read_any [OF f(1)])
  show "file_util z timer (Some file) True True = Inr hdr"
    using raw f(2) assms(1) by (simp add: file_util_def write_file_def)
  have "fetch_file z timer (of_nat (length hdr)) magic file = Inr (hdr, x)"
    using fetch_saved [OF assms(1-3) z w timer] by (simp add: file_def)
  then obtain f' where "cf_read z timer f = Inr (x, f')" using f(1) by (auto simp: fetch_file_def res_simps)
  then show "file_util z timer (Some file) True False = (if x = [] then Inl Assertion_Failed else Inr x)"
    using raw by (simp add: file_util_def write_file_def)
qed

section \<open>spawn-no-aslr\<close>

text \<open>
  \<open>status\<close> is what \<^verbatim>\<open>waitpid\<close> reports about the child: None when the call fails, otherwise whether
  it exited, with its status.
\<close>

definition spawn_no_aslr :: "'k sys \<Rightarrow> (u32 \<Rightarrow> 'k \<Rightarrow> int option option) \<Rightarrow> buffer list \<Rightarrow> 'k \<Rightarrow> int res" where
  "spawn_no_aslr m waitpid argv k =
     and_then (assert_that (2 \<le> length argv)) (\<lambda>_.
     and_then (assert_some (k_posix m Spawnattr_Init k)) (\<lambda>k.
     and_then (assert_some (k_posix m (Spawnattr_Setflags 0x0100) k)) (\<lambda>k.
     and_then (assert_some (k_posix_spawnp m (argv ! 1) (tl argv) k)) (\<lambda>(pid, k).
     and_then (assert_some (k_posix m Spawnattr_Destroy k)) (\<lambda>k.
     Inr (case waitpid pid k of None \<Rightarrow> - 42 | Some None \<Rightarrow> - 41 | Some (Some status) \<Rightarrow> status))))))"

section \<open>xnu-trace-log-util\<close>

text \<open>A number with its digits in groups of three, and the number of an \<^verbatim>\<open>en_US\<close> text.\<close>

fun group_digits :: "buffer \<Rightarrow> buffer" where
  "group_digits (a # b # c # d # ds) = a # b # c # 0x2C # group_digits (d # ds)"
| "group_digits ds = ds"

definition grouped :: "nat \<Rightarrow> buffer" where
  "grouped n = rev (group_digits (rev (decimal n)))"

text \<open>Without the commas it is the number.\<close>

lemma decimal_digits: "b \<in> set (decimal n) \<Longrightarrow> b \<noteq> 0x2C"
proof (induction n rule: decimal.induct)
  case (1 n)
  have "list_all (\<lambda>d. (of_nat (48 + d) :: byte) \<noteq> 0x2C) [0..<10]" by code_simp
  then have "(of_nat (48 + d) :: byte) \<noteq> 0x2C" if "d < 10" for d using that by (auto simp: list_all_iff)
  with 1 show ?case by (subst (asm) (2) decimal.simps) (auto split: if_splits)
qed

lemma group_digits_filter: "\<forall>b \<in> set ds. b \<noteq> 0x2C \<Longrightarrow> filter (\<lambda>b. b \<noteq> 0x2C) (group_digits ds) = ds"
  by (induction ds rule: group_digits.induct) auto

lemma grouped_number: "filter (\<lambda>b. b \<noteq> 0x2C) (grouped n) = decimal n"
  using group_digits_filter [of "rev (decimal n)"] decimal_digits by (simp add: grouped_def rev_filter [symmetric])

text \<open>\<open>ratio a b\<close> and \<open>ratio_less_8 a b\<close> are the texts of \<^verbatim>\<open>(double)a / b\<close> and of 8 less, with two decimals.\<close>

record formats =
  ratio :: "nat \<Rightarrow> nat \<Rightarrow> buffer"
  ratio_less_8 :: "nat \<Rightarrow> nat \<Rightarrow> buffer"

definition dump_stats :: "formats \<Rightarrow> parsed_log \<Rightarrow> buffer" where
  "dump_stats fmt trace =
     concat (map (\<lambda>(tid, l).
       ascii ''tid: '' @ decimal (unat tid) @ ascii '' # inst: '' @ grouped (unat (lb_num_inst l)) @
       ascii '' # bytes: '' @ grouped (num_bytes l) @ ascii '' bytes / inst: '' @ ratio fmt (num_bytes l) (unat (lb_num_inst l)) @
       ascii '' ctx bytes / inst: '' @ ratio_less_8 fmt (num_bytes l) (unat (lb_num_inst l)) @ newline @ newline) (pl_logs trace))"

text \<open>\<^verbatim>\<open>{:#010x}\<close> pads to eight digits.\<close>

definition hex10 :: "u64 \<Rightarrow> buffer" where
  "hex10 w = (let ds = hex_plain w in ascii ''0x'' @ replicate (8 - length ds) 0x30 @ ds)"

definition region_line :: "image_info \<Rightarrow> buffer" where
  "region_line r =
     ascii ''base: '' @ hex18 (img_base r) @ ascii '' => '' @ hex18 (img_base r + img_size r) @ ascii '' size: '' @ hex10 (img_size r) @
     ascii '' slide: 0x'' @ hex_plain (img_slide r) @ ascii '' path: '' @ [0x27] @ img_path r @ [0x27] @ newline"

definition symbol_line :: "sym_info \<Rightarrow> buffer" where
  "symbol_line s =
     ascii ''base: '' @ hex18 (sym_base s) @ ascii '' sz: '' @ decimal (unat (sym_size s)) @ ascii '' name: '' @ sym_name s @
     ascii '' img: '' @ filename (sym_path s) @ newline"

definition dump_log :: "parsed_log \<Rightarrow> bool \<Rightarrow> buffer" where
  "dump_log trace symbolicate =
     concat (map region_line (mr_regions (pl_regions trace))) @
     (if symbolicate then concat (map symbol_line (pl_symbols trace)) else [])"

definition bb_header :: "u32 \<Rightarrow> log_thread_buf \<Rightarrow> buffer" where
  "bb_header tid l =
     ascii ''tid: '' @ decimal (unat tid) @ ascii '' # inst: '' @ grouped (unat (lb_num_inst l)) @
     ascii '' # bytes '' @ grouped (num_bytes l) @ newline @ newline"

definition bb_line :: "bb_t \<Rightarrow> buffer" where
  "bb_line bb = ascii ''BB: '' @ hex18 (bb_pc bb) @ ascii '' ['' @ decimal (unat (bb_sz bb)) @ ascii '']'' @ newline"

definition dump_bb :: "parsed_log \<Rightarrow> buffer res" where
  "dump_bb trace =
     fold_res (\<lambda>(tid, l) out.
       and_then (extract_pcs_from_trace l) (\<lambda>pcs.
       and_then (extract_bbs_from_pc_trace pcs) (\<lambda>bbs.
       Inr (out @ bb_header tid l @ concat (map bb_line bbs))))) (pl_logs trace) []"

text \<open>What the tool puts out: a file, a text, or the rows of the histogram with the largest count.\<close>

datatype tool_output = Written buffer buffer | Printed buffer | Printed_Rows "(u16 \<times> u64) list" u64

record util_opts =
  drcov_file :: "buffer option"
  lighthouse_file :: "buffer option"
  symbolicated :: bool
  want_stats :: bool
  want_dump :: bool
  want_dump_bb :: bool
  want_histogram :: bool
  max_histogram_insts :: int
  calls_image :: "buffer option"

text \<open>The steps of the main function, in its order; each adds what it puts out.\<close>

definition util_steps ::
    "formats \<Rightarrow> (u32 \<Rightarrow> u32 option) \<Rightarrow> hash_lib \<Rightarrow> (nat \<Rightarrow> (nat \<times> nat) list) \<Rightarrow> util_opts \<Rightarrow> (parsed_log \<Rightarrow> tool_output list res) list" where
  "util_steps fmt decode e blocks opt =
     [\<lambda>trace. case drcov_file opt of None \<Rightarrow> Inr []
        | Some path \<Rightarrow> and_then (write_drcov_coverage trace) (\<lambda>b. Inr [Written path b]),
      \<lambda>trace. case lighthouse_file opt of None \<Rightarrow> Inr []
        | Some path \<Rightarrow> and_then (write_lighthouse_coverage trace (symbolicated opt)) (\<lambda>b. Inr [Written path b]),
      \<lambda>trace. Inr (if want_stats opt then [Printed (dump_stats fmt trace)] else []),
      \<lambda>trace. Inr (if want_dump opt then [Printed (dump_log trace (symbolicated opt))] else []),
      \<lambda>trace. if want_dump_bb opt then and_then (dump_bb trace) (\<lambda>b. Inr [Printed b]) else Inr [],
      \<lambda>trace. if want_histogram opt then
          and_then (dump_histogram decode e blocks trace) (\<lambda>hist.
          and_then (print_rows (max_histogram_insts opt) hist) (\<lambda>(rows, max_count). Inr [Printed_Rows rows max_count]))
        else Inr [],
      \<lambda>trace. case calls_image opt of None \<Rightarrow> Inr []
        | Some img \<Rightarrow> and_then (calls_from trace img) (\<lambda>called. Inr [Printed (concat (map (calls_line img) called))])]"

definition log_util_main ::
    "('c, 'd) zstd_lib \<Rightarrow> formats \<Rightarrow> (u32 \<Rightarrow> u32 option) \<Rightarrow> hash_lib \<Rightarrow> (nat \<Rightarrow> (nat \<times> nat) list) \<Rightarrow> nat \<Rightarrow> nat \<Rightarrow> buffer \<Rightarrow>
       util_opts \<Rightarrow> directory \<Rightarrow> tool_output list res" where
  "log_util_main z fmt decode e blocks timer fuel after opt dir =
     and_then (trace_log_read z e timer fuel after dir) (\<lambda>trace.
     fold_res (\<lambda>step out. and_then (step trace) (\<lambda>o'. Inr (out @ o'))) (util_steps fmt decode e blocks opt) [])"

end
