(* ===== verification/EndToEnd.thy ===== *)
theory EndToEnd
  imports StalkerProps AnalysisProps Tools
begin

text \<open>
  From a traced program to the report about it: a session of the in-process tracer, the directory
  its destructor leaves, and the histogram \<^verbatim>\<open>xnu-trace-log-util\<close> makes of that directory.
\<close>

section \<open>The operations of a session\<close>

text \<open>The word of code a memory holds.\<close>

definition instr_at :: "(u64 \<Rightarrow> byte) \<Rightarrow> u64 \<Rightarrow> u32" where
  "instr_at mem a = le_word (map (\<lambda>k. mem (a + of_nat k)) [0..<4])"

lemma instr_at_zero [simp]: "instr_at (\<lambda>_. 0) a = 0"
proof -
  have "map (\<lambda>k. 0) [0..<4] = replicate 4 (0 :: byte)" by (simp add: map_replicate_const)
  then show ?thesis unfolding instr_at_def by (simp only: le_word_zeros)
qed

text \<open>An address of a region made of whole pages.\<close>

definition in_code :: "image_info list \<Rightarrow> u64 \<Rightarrow> bool" where
  "in_code regions a \<longleftrightarrow> unat a mod 4096 \<le> 4092 \<and>
     (\<exists>r \<in> set regions. unat (img_base r) \<le> unat a \<and> unat a < unat (img_base r) + unat (img_size r))"

definition whole_pages :: "image_info list \<Rightarrow> bool" where
  "whole_pages regions \<longleftrightarrow> length (pa2buf_vec regions) < 2 ^ 31 \<and>
     (\<forall>r \<in> set regions. unat (img_base r) mod 4096 = 0 \<and> unat (img_size r) mod 4096 = 0 \<and>
        unat (img_base r) + unat (img_size r) \<le> 2 ^ 64)"

lemma session_lookup:
  assumes env: "fastmod_ok e" "sort_ok e" and mem: "reads_from self mem"
    and new: "stalker_new e timer abi sha tfuel self csyms gm symbolicate level stream k dir0 = Inr (st0, dir)"
    and pages: "whole_pages (mr_regions (st_macho_regions st0))" and a: "in_code (mr_regions (st_macho_regions st0)) a"
  shows "lookup_inst e (st_macho_regions st0) a = Inr (instr_at mem a)"
proof -
  have reset: "regions_reset e timer abi sha tfuel self \<lparr>ms_mph = mph_empty, m_values = []\<rparr> = Inr (st_macho_regions st0)"
    using new by (auto simp: stalker_new_def res_simps Let_def split: prod.splits)
  obtain r where r: "r \<in> set (mr_regions (st_macho_regions st0))" "unat (img_base r) \<le> unat a"
    "unat a < unat (img_base r) + unat (img_size r)" "unat a mod 4096 \<le> 4092" using a by (auto simp: in_code_def)
  show ?thesis
    unfolding instr_at_def using pages
    by (intro reset_lookup [OF env mem _ reset _ _ r]) (simp_all add: mph_empty_def whole_pages_def)
qed

definition histogram_only :: "int \<Rightarrow> util_opts" where
  "histogram_only n = \<lparr>drcov_file = None, lighthouse_file = None, symbolicated = False, want_stats = False, want_dump = False,
     want_dump_bb = False, want_histogram = True, max_histogram_insts = n, calls_image = None\<rparr>"

lemma util_histogram:
  assumes "trace_log_read z e timer fuel after dir = Inr trace"
  shows "log_util_main z fmt decode e blocks timer fuel after (histogram_only n) dir =
    and_then (dump_histogram decode e blocks trace) (\<lambda>hist.
    and_then (print_rows n hist) (\<lambda>(rows, max_count). Inr [Printed_Rows rows max_count]))"
  using assms
  by (cases "dump_histogram decode e blocks trace")
    (auto simp: log_util_main_def util_steps_def histogram_only_def and_then_assoc split: sum.split prod.split,
     auto simp: and_then_def split: sum.split prod.split)

section \<open>Properties\<close>



end
