(* ===== verification/Hexdump.thy ===== *)
theory Hexdump
  imports Utils Regions
begin

text \<open>
  \<^verbatim>\<open>hexdump\<close> of \<^verbatim>\<open>lib/xnu-trace/utils.cpp\<close>: the loop with its line buffer as it is written, and
  the lines it amounts to, sixteen bytes each with the bar in the same column.
\<close>

section \<open>The loop\<close>

definition hex2_upper :: "byte \<Rightarrow> buffer" where
  "hex2_upper b =
     (let digit = \<lambda>d :: byte. if d < 10 then 0x30 + d else 0x37 + d in [digit (drop_bit 4 b), digit (b AND 0xF)])"

definition printable :: "byte \<Rightarrow> byte" where
  "printable b = (if 0x20 \<le> b \<and> b \<le> 0x7E then b else 0x2E)"

text \<open>\<^verbatim>\<open>%s\<close>: up to the first zero.\<close>

definition c_str :: "buffer \<Rightarrow> buffer" where
  "c_str s = takeWhile (\<lambda>b. b \<noteq> 0) s"

definition bar :: "buffer \<Rightarrow> buffer" where
  "bar text_buf = ascii ''|  '' @ c_str text_buf @ ascii '' '' @ [0x0A]"

definition hexdump_byte :: "buffer \<Rightarrow> nat \<Rightarrow> buffer \<times> buffer \<Rightarrow> buffer \<times> buffer" where
  "hexdump_byte data i st =
     (case st of (out, text_buf) \<Rightarrow>
      let size = length data;
          out = out @ hex2_upper (data ! i) @ [0x20];
          text_buf = text_buf[i mod 16 := printable (data ! i)]
      in if (i + 1) mod 8 = 0 \<or> i + 1 = size then
           let out = out @ [0x20] in
           if (i + 1) mod 16 = 0 then (out @ bar text_buf, text_buf)
           else if i + 1 = size then
             let text_buf = text_buf[(i + 1) mod 16 := 0];
                 out = (if (i + 1) mod 16 \<le> 8 then out @ [0x20] else out);
                 out = out @ concat (replicate (16 - (i + 1) mod 16) [0x20, 0x20, 0x20])
             in (out @ bar text_buf, text_buf)
           else (out, text_buf)
         else (out, text_buf))"

text \<open>The line buffer has 17 bytes, of which only the last is initialised.\<close>

definition hexdump :: "buffer \<Rightarrow> buffer \<Rightarrow> buffer" where
  "hexdump uninitialised data =
     fst (fold (hexdump_byte data) [0..<length data] ([], take 16 uninitialised @ [0]))"

section \<open>The lines\<close>

text \<open>A line: up to eight bytes, a space, up to eight more, and spaces up to the bar.\<close>

definition hex_part :: "buffer \<Rightarrow> buffer" where
  "hex_part bs = concat (map (\<lambda>b. hex2_upper b @ [0x20]) bs)"

definition dump_line :: "buffer \<Rightarrow> buffer" where
  "dump_line bs =
     (let hex = hex_part (take 8 bs) @ (if 8 \<le> length bs then [0x20] @ hex_part (drop 8 bs) else [])
      in hex @ replicate (50 - length hex) 0x20 @ ascii ''|  '' @ map printable bs @ ascii '' '' @ [0x0A])"

function dump_lines :: "buffer \<Rightarrow> buffer" where
  "dump_lines bs = (if bs = [] then [] else dump_line (take 16 bs) @ dump_lines (drop 16 bs))"
  by pat_completeness auto
termination by (relation "measure length") auto

declare dump_lines.simps [simp del]

lemma length_hex2_upper [simp]: "length (hex2_upper b) = 2"
  by (simp add: hex2_upper_def)

lemma length_hex_part [simp]: "length (hex_part bs) = 3 * length bs"
  by (induction bs) (simp_all add: hex_part_def)

lemma hex_part_append: "hex_part (xs @ ys) = hex_part xs @ hex_part ys"
  by (simp add: hex_part_def)

lemma printable_nonzero: "printable b \<noteq> 0"
  by (auto simp: printable_def)

text \<open>Within a line: after \<open>n\<close> bytes, \<open>n\<close> below sixteen.\<close>

definition line_so_far :: "buffer \<Rightarrow> buffer" where
  "line_so_far bs = hex_part (take 8 bs) @ (if 8 \<le> length bs then [0x20] @ hex_part (drop 8 bs) else [])"

lemma line_so_far_snoc:
  assumes "length bs < 16"
  shows "line_so_far (bs @ [b]) = line_so_far bs @ hex2_upper b @ [0x20] @ (if length bs = 7 then [0x20] else [])"
proof -
  consider "length bs < 7" | "length bs = 7" | "8 \<le> length bs" by linarith
  then show ?thesis by cases (simp_all add: line_so_far_def hex_part_def)
qed

lemma line_so_far_length: "length (line_so_far bs) = 3 * length bs + (if 8 \<le> length bs then 1 else 0)"
  by (cases "8 \<le> length bs") (simp_all add: line_so_far_def algebra_simps)

lemma dump_line_eq:
  "dump_line bs = line_so_far bs @ replicate (50 - length (line_so_far bs)) 0x20 @ ascii ''|  '' @ map printable bs @ ascii '' '' @ [0x0A]"
  by (simp add: dump_line_def line_so_far_def Let_def)

lemma dump_lines_append: "length xs mod 16 = 0 \<Longrightarrow> dump_lines (xs @ ys) = dump_lines xs @ dump_lines ys"
proof (induction xs rule: dump_lines.induct)
  case (1 xs)
  show ?case
  proof (cases "xs = []")
    case False
    have "16 \<le> length xs"
    proof (rule ccontr)
      assume "\<not> 16 \<le> length xs"
      then have "length xs mod 16 = length xs" by simp
      with 1 False show False by simp
    qed
    then have "length (drop 16 xs) mod 16 = 0" using 1 by (simp add: le_mod_geq [symmetric])
    with 1(1) [OF False] \<open>16 \<le> length xs\<close> False show ?thesis
      by (subst (1 2) dump_lines.simps) simp
  qed (simp add: dump_lines.simps)
qed

lemma dump_lines_one: "bs \<noteq> [] \<Longrightarrow> length bs \<le> 16 \<Longrightarrow> dump_lines bs = dump_line bs"
  by (subst dump_lines.simps) (simp add: dump_lines.simps)

text \<open>The state of the loop after \<open>m\<close> lines and \<open>n\<close> bytes of the next one.\<close>

definition dump_inv :: "buffer \<Rightarrow> nat \<Rightarrow> nat \<Rightarrow> buffer \<times> buffer \<Rightarrow> bool" where
  "dump_inv data m n st \<longleftrightarrow>
     fst st = dump_lines (take (16 * m) data) @ line_so_far (take n (drop (16 * m) data)) \<and>
     length (snd st) = 17 \<and> snd st ! 16 = 0 \<and> (\<forall>j < n. snd st ! j = printable (data ! (16 * m + j)))"

lemma text_so_far:
  assumes "length t = 17" and "n \<le> 16" and "t ! n = 0" and "\<And>j. j < n \<Longrightarrow> t ! j = printable (bs ! j)" and "length bs = n"
  shows "c_str t = map printable bs"
proof -
  have "c_str t = take n t"
    unfolding c_str_def by (rule takeWhile_eq_take_P_nth) (use assms printable_nonzero in auto)
  also have "take n t = map printable bs" by (rule nth_equalityI) (use assms in auto)
  finally show ?thesis .
qed

lemma byte_of_line:
  assumes "16 * m + n < length data"
  shows "take (Suc n) (drop (16 * m) data) = take n (drop (16 * m) data) @ [data ! (16 * m + n)]"
    and "length (take n (drop (16 * m) data)) = n"
proof -
  have "n < length (drop (16 * m) data)" using assms by simp
  then have "take (Suc n) (drop (16 * m) data) = take n (drop (16 * m) data) @ [drop (16 * m) data ! n]"
    by (rule take_Suc_conv_app_nth)
  then show "take (Suc n) (drop (16 * m) data) = take n (drop (16 * m) data) @ [data ! (16 * m + n)]"
    using assms by simp
qed (use assms in simp)

lemma line_mod_8: "(16 * m + n) mod 8 = n mod (8 :: nat)"
proof -
  have "(16 * m + n) mod 8 = (8 * (2 * m) + n) mod 8" by simp
  then show ?thesis by (simp only: mod_mult_self4)
qed

lemma line_mod_16: "(16 * m + n) mod 16 = n mod (16 :: nat)"
  by simp

text \<open>What the step prints, by its place in the line.\<close>

lemma hexdump_byte_inside:
  assumes "Suc (16 * m + n) < length data" and "n < 15"
  shows "hexdump_byte data (16 * m + n) (out, t) =
    (out @ hex2_upper (data ! (16 * m + n)) @ [0x20] @ (if n = 7 then [0x20] else []), t[n := printable (data ! (16 * m + n))])"
proof -
  have "Suc n mod 8 = 0 \<longleftrightarrow> n = 7" using assms(2) by presburger
  then show ?thesis
    using assms line_mod_8 [of m "Suc n"] line_mod_16 [of m "Suc n"] line_mod_16 [of m n]
    by (simp add: hexdump_byte_def Let_def)
qed

lemma hexdump_byte_full:
  assumes "16 * m + 15 < length data"
  shows "hexdump_byte data (16 * m + 15) (out, t) =
    (let t' = t[15 := printable (data ! (16 * m + 15))] in
     (out @ hex2_upper (data ! (16 * m + 15)) @ [0x20, 0x20] @ bar t', t'))"
  using assms line_mod_8 [of m 16] line_mod_16 [of m 16] line_mod_16 [of m 15]
  by (simp add: hexdump_byte_def Let_def)

lemma hexdump_byte_last:
  assumes "length data = 16 * m + Suc n" and "n < 15"
  shows "fst (hexdump_byte data (16 * m + n) (out, t)) =
    out @ hex2_upper (data ! (16 * m + n)) @ [0x20] @ [0x20] @ (if n \<le> 7 then [0x20] else []) @
    concat (replicate (15 - n) [0x20, 0x20, 0x20]) @ bar (t[n := printable (data ! (16 * m + n)), Suc n := 0])"
  using assms line_mod_16 [of m "Suc n"] line_mod_16 [of m n]
  by (simp add: hexdump_byte_def Let_def)

text \<open>A byte inside a line that is not the last of the data.\<close>

lemma dump_inside:
  assumes inv: "dump_inv data m n (out, t)" and more: "Suc (16 * m + n) < length data" and inside: "n < 15"
  shows "dump_inv data m (Suc n) (hexdump_byte data (16 * m + n) (out, t))"
proof -
  from more have here: "16 * m + n < length data" by simp
  have "line_so_far (take (Suc n) (drop (16 * m) data)) = line_so_far (take n (drop (16 * m) data)) @
      hex2_upper (data ! (16 * m + n)) @ [0x20] @ (if n = 7 then [0x20] else [])"
    using byte_of_line [OF here] inside by (simp add: line_so_far_snoc)
  then show ?thesis
    using inv inside unfolding hexdump_byte_inside [OF more inside]
    by (auto simp: dump_inv_def less_Suc_eq)
qed

lemma ascii_of_line:
  assumes inv: "dump_inv data m n (out, t)" and here: "16 * m + n < length data" and "n < 16"
    and t': "t' = t[n := printable (data ! (16 * m + n))]" and rest: "n = 15 \<and> t'' = t' \<or> n < 15 \<and> t'' = t'[Suc n := 0]"
  shows "c_str t'' = map printable (take (Suc n) (drop (16 * m) data))"
proof (rule text_so_far [of _ "Suc n"])
  show "t'' ! j = printable (take (Suc n) (drop (16 * m) data) ! j)" if "j < Suc n" for j
    using that inv t' rest here \<open>n < 16\<close> by (cases "j = n") (auto simp: dump_inv_def)
qed (use inv t' rest here \<open>n < 16\<close> in \<open>auto simp: dump_inv_def\<close>)

text \<open>The sixteenth byte of a line, last of the data or not.\<close>

lemma dump_full_line:
  assumes inv: "dump_inv data m 15 (out, t)" and here: "16 * m + 15 < length data"
  shows "dump_inv data (Suc m) 0 (hexdump_byte data (16 * m + 15) (out, t))"
proof -
  let ?t = "t[15 := printable (data ! (16 * m + 15))]"
  let ?row = "take 16 (drop (16 * m) data)"
  note row = byte_of_line [OF here, simplified]
  have chars: "c_str ?t = map printable ?row"
    using ascii_of_line [OF inv here _ refl, of ?t] by simp
  have "dump_line ?row = line_so_far (take 15 (drop (16 * m) data)) @ hex2_upper (data ! (16 * m + 15)) @ [0x20, 0x20] @
      ascii ''|  '' @ map printable ?row @ ascii '' '' @ [0x0A]"
    unfolding dump_line_eq using row by (simp add: line_so_far_snoc line_so_far_length)
  moreover have "dump_lines (take (16 * Suc m) data) = dump_lines (take (16 * m) data) @ dump_line ?row"
  proof -
    have "take (16 * Suc m) data = take (16 * m) data @ ?row"
      using take_add [of "16 * m" 16 data] by (simp only: mult_Suc_right add.commute)
    moreover have "?row \<noteq> []" using here by simp
    ultimately show ?thesis using here by (simp add: dump_lines_append dump_lines_one)
  qed
  ultimately show ?thesis
    using inv unfolding hexdump_byte_full [OF here]
    by (simp add: dump_inv_def Let_def bar_def chars line_so_far_def hex_part_def)
qed

text \<open>The last byte of the data, inside a line.\<close>

lemma spaces: "concat (replicate k [0x20, 0x20, 0x20]) = replicate (3 * k) (0x20 :: byte)"
  by (induction k) (simp_all add: numeral_eq_Suc)

lemma dump_last:
  assumes inv: "dump_inv data m n (out, t)" and end_: "length data = 16 * m + Suc n" and inside: "n < 15"
  shows "fst (hexdump_byte data (16 * m + n) (out, t)) = dump_lines data"
proof -
  let ?row = "take (Suc n) (drop (16 * m) data)"
  from end_ have here: "16 * m + n < length data" by simp
  note row = byte_of_line [OF here]
  have chars: "c_str (t[n := printable (data ! (16 * m + n)), Suc n := 0]) = map printable ?row"
    using ascii_of_line [OF inv here _ refl] inside by simp
  have "dump_line ?row = line_so_far (take n (drop (16 * m) data)) @ hex2_upper (data ! (16 * m + n)) @ [0x20] @ [0x20] @
      (if n \<le> 7 then [0x20] else []) @ replicate (3 * (15 - n)) 0x20 @ ascii ''|  '' @ map printable ?row @ ascii '' '' @ [0x0A]"
  proof -
    have "50 - length (line_so_far ?row) = (if n \<le> 6 then Suc (Suc (3 * (15 - n))) else Suc (3 * (15 - n)))"
      using inside here by (simp add: line_so_far_length) linarith
    moreover have "replicate 25 (0x20 :: byte) = 0x20 # replicate 24 0x20" by (simp add: numeral_eq_Suc)
    ultimately show ?thesis
      unfolding dump_line_eq using row inside by (simp add: line_so_far_snoc)
  qed
  moreover have "dump_lines data = dump_lines (take (16 * m) data) @ dump_line ?row"
  proof -
    have "data = take (16 * m) data @ ?row" using end_ by simp
    moreover have "?row \<noteq> []" using here by simp
    ultimately show ?thesis using here inside dump_lines_append [of "take (16 * m) data" ?row] by (simp add: dump_lines_one)
  qed
  ultimately show ?thesis
    using inv unfolding hexdump_byte_last [OF end_ inside]
    by (simp add: dump_inv_def bar_def chars spaces)
qed

text \<open>The whole loop.\<close>

lemma dump_line_loop:
  assumes "length u = 16" and "16 * m + n < length data" and "n < 16"
  shows "dump_inv data m n (fold (hexdump_byte data) [0..<16 * m + n] ([], u @ [0]))"
  using assms
proof (induction "16 * m + n" arbitrary: m n)
  case 0
  then show ?case by (simp add: dump_inv_def line_so_far_def hex_part_def dump_lines.simps nth_append)
next
  case (Suc k)
  show ?case
  proof (cases n)
    case 0
    with Suc.hyps(2) obtain m' where m: "m = Suc m'" by (cases m) auto
    with 0 Suc.hyps(2) have k: "k = 16 * m' + 15" by simp
    obtain out t where st: "fold (hexdump_byte data) [0..<16 * m' + 15] ([], u @ [0]) = (out, t)" by fastforce
    have "dump_inv data m' 15 (out, t)" using Suc.hyps(1) [OF k] Suc.prems m 0 by (simp add: st)
    from dump_full_line [OF this] show ?thesis
      using Suc.prems m 0 st upt_Suc_append [of 0 "16 * m' + 15"] by (simp add: add.commute [of 16])
  next
    case (Suc n')
    with \<open>Suc k = 16 * m + n\<close> have k: "k = 16 * m + n'" by simp
    obtain out t where st: "fold (hexdump_byte data) [0..<16 * m + n'] ([], u @ [0]) = (out, t)" by fastforce
    have "dump_inv data m n' (out, t)" using Suc.hyps(1) [OF k] Suc.prems Suc by (simp add: st)
    from dump_inside [OF this] show ?thesis using Suc.prems Suc st by (simp add: Suc)
  qed
qed

text \<open>C40: The loop of \<open>hexdump\<close> with its line buffer prints the lines of the data: sixteen bytes each, in
  two groups of eight, and in every line, the shorter last one included, a bar in column 50
  followed by the printable form of the bytes, whatever the line buffer held before.\<close>

theorem hexdump_lines:
  assumes "length u = 16"
  shows "hexdump u data = dump_lines data"
proof (cases "data = []")
  case True
  then show ?thesis by (simp add: hexdump_def dump_lines.simps)
next
  case False
  define m n where "m = (length data - 1) div 16" and "n = (length data - 1) mod 16"
  with False have len: "length data = Suc (16 * m + n)" and n: "n < 16" by simp_all
  obtain out t where st: "fold (hexdump_byte data) [0..<16 * m + n] ([], u @ [0]) = (out, t)" by fastforce
  have inv: "dump_inv data m n (out, t)" using dump_line_loop [OF assms, of m n data] len n st by simp
  have run: "hexdump u data = fst (hexdump_byte data (16 * m + n) (out, t))"
    using assms st by (simp add: hexdump_def len)
  show ?thesis
  proof (cases "n = 15")
    case True
    then show ?thesis
      using dump_full_line [of data m out t] inv len unfolding run
      by (simp add: dump_inv_def line_so_far_def hex_part_def)
  next
    case False
    then show ?thesis using dump_last [OF inv] len n unfolding run by simp
  qed
qed

theorem hexdump_lines_witness:
  "hexdump (replicate 16 0xAA) [0x48, 0x69, 0] = ascii ''48 69 00 '' @ replicate 41 0x20 @ ascii ''|  Hi. '' @ [0x0A]"
proof -
  have "hexdump (replicate 16 0xAA) [0x48, 0x69, 0] = dump_lines [0x48, 0x69, 0]"
    by (rule hexdump_lines) simp
  also have "\<dots> = dump_line [0x48, 0x69, 0]" by (simp add: dump_lines_one)
  also have "\<dots> = ascii ''48 69 00 '' @ replicate 41 0x20 @ ascii ''|  Hi. '' @ [0x0A]"
    by code_simp
  finally show ?thesis .
qed

text \<open>The bar's column.\<close>

lemma bar_column:
  assumes "length bs \<le> 16"
  shows "take 3 (drop 50 (dump_line bs)) = ascii ''|  ''"
proof -
  have "length (line_so_far bs) \<le> 50" using assms by (simp add: line_so_far_length)
  then show ?thesis unfolding dump_line_eq by (simp add: ascii_def numeral_eq_Suc)
qed

end
