(* ===== verification/Platform.thy ===== *)
theory Platform
  imports Complex_Main Utils
begin

text \<open>
  What the library asks of the machine it runs on: the checks that end the process
  (\<^verbatim>\<open>posix_check\<close> and \<^verbatim>\<open>mach_check\<close> of \<^verbatim>\<open>utils.cpp\<close> with \<^verbatim>\<open>get_task_for_pid_count\<close> of
  \<^verbatim>\<open>mach.cpp\<close>), the number of cores, random numbers, the clock in the shared page and the
  time-outs that read it (\<^verbatim>\<open>XNUCommpageTime\<close>).

  Elsewhere a failed check is the fault \<open>Process_Exit\<close>; here it is seen in detail, with a
  debugger attached and with a check that fails inside a check.
\<close>

section \<open>Checks\<close>

text \<open>
  \<open>task_info\<close> is the call for the process's own task: its return value and the number of times
  the task was attached to.  The calls below give the number of breakpoints that were hit, after
  which a debugger let the process go on.  The two functions call each other.
\<close>

partial_function (option) mach_check :: "('k \<Rightarrow> (u32 \<times> int) \<times> 'k) \<Rightarrow> u32 \<Rightarrow> 'k \<Rightarrow> ((nat \<times> 'k) res) option" where
  "mach_check task_info kr k =
     (if kr = 0 then Some (Inr (0, k))
      else case task_info k of ((kr', count), k) \<Rightarrow>
        Option.bind (mach_check task_info kr' k) (\<lambda>r. Some (and_then r (\<lambda>(breaks, k).
          if count \<noteq> 0 then Inr (Suc breaks, k) else Inl Process_Exit))))"

definition get_task_for_pid_count :: "('k \<Rightarrow> (u32 \<times> int) \<times> 'k) \<Rightarrow> 'k \<Rightarrow> ((int \<times> nat \<times> 'k) res) option" where
  "get_task_for_pid_count task_info k =
     (case task_info k of ((kr, count), k) \<Rightarrow>
      Option.bind (mach_check task_info kr k) (\<lambda>r. Some (and_then r (\<lambda>(breaks, k). Inr (count, breaks, k)))))"

definition posix_check :: "('k \<Rightarrow> (u32 \<times> int) \<times> 'k) \<Rightarrow> int \<Rightarrow> 'k \<Rightarrow> ((nat \<times> 'k) res) option" where
  "posix_check task_info retval k =
     (if retval = 0 then Some (Inr (0, k))
      else Option.bind (get_task_for_pid_count task_info k) (\<lambda>r. Some (and_then r (\<lambda>(count, breaks, k).
        if count \<noteq> 0 then Inr (Suc breaks, k) else Inl Process_Exit))))"

text \<open>\<open>sysctlbyname\<close>: its return value and what it leaves in \<^verbatim>\<open>num\<close>.\<close>

definition get_num_cores :: "('k \<Rightarrow> (u32 \<times> int) \<times> 'k) \<Rightarrow> ('k \<Rightarrow> (int \<times> u32) \<times> 'k) \<Rightarrow> 'k \<Rightarrow> ((u32 \<times> 'k) res) option" where
  "get_num_cores task_info sysctlbyname k =
     (case sysctlbyname k of ((retval, num), k) \<Rightarrow>
      Option.bind (posix_check task_info retval k) (\<lambda>r. Some (and_then r (\<lambda>(breaks, k). Inr (num, k)))))"

section \<open>Random numbers\<close>

text \<open>\<open>arc4random\<close> fills one number.\<close>

primrec get_random_scalars :: "('k \<Rightarrow> 'a::len word \<times> 'k) \<Rightarrow> nat \<Rightarrow> 'k \<Rightarrow> 'a word list \<times> 'k" where
  "get_random_scalars arc4random 0 k = ([], k)"
| "get_random_scalars arc4random (Suc n) k =
     (case arc4random k of (r, k) \<Rightarrow> case get_random_scalars arc4random n k of (rs, k) \<Rightarrow> (r # rs, k))"

partial_function (option) get_random_sorted_unique_scalars ::
    "('k \<Rightarrow> 'a::len word \<times> 'k) \<Rightarrow> nat \<Rightarrow> nat \<Rightarrow> 'k \<Rightarrow> ('a word list \<times> 'k) option" where
  "get_random_sorted_unique_scalars arc4random min_sz max_sz k =
     (case get_random_scalars arc4random max_sz k of (res, k) \<Rightarrow>
      let res = remdups_adj (sort res) in
      if length res < min_sz then get_random_sorted_unique_scalars arc4random min_sz max_sz k else Some (res, k))"

section \<open>The shared page\<close>

definition COMM_PAGE_START_ADDRESS :: u64 where "COMM_PAGE_START_ADDRESS = 0x0000000FFFFFC000"
definition COMM_PAGE_APPROX_TIME :: u64 where "COMM_PAGE_APPROX_TIME = COMM_PAGE_START_ADDRESS + 0x0C0"
definition COMM_PAGE_NEWTIMEOFDAY_DATA :: u64 where "COMM_PAGE_NEWTIMEOFDAY_DATA = COMM_PAGE_START_ADDRESS + 0x120"
definition COMM_PAGE_NEWTIMEOFDAY_SECONDS :: u64 where "COMM_PAGE_NEWTIMEOFDAY_SECONDS = COMM_PAGE_NEWTIMEOFDAY_DATA + 8"

text \<open>A page is what the process reads at its addresses at one moment.\<close>

definition xnu_commpage_time_seconds :: "(u64 \<Rightarrow> u64) \<Rightarrow> u64" where
  "xnu_commpage_time_seconds page = page COMM_PAGE_NEWTIMEOFDAY_SECONDS"

definition xnu_commpage_time_atus :: "(u64 \<Rightarrow> u64) \<Rightarrow> u64" where
  "xnu_commpage_time_atus page = page COMM_PAGE_APPROX_TIME"

text \<open>
  A double is a real; \<open>rnd\<close> rounds the result of an operation to the nearest one.  Converting a
  value outside the integer type is undefined, as is converting the quotient by zero.
\<close>

record timebase =
  numer :: u32
  denom :: u32

definition to_u64 :: "real \<Rightarrow> u64 res" where
  "to_u64 x = (if - 1 < x \<and> x < 2 ^ 64 then Inr (of_nat (nat \<lfloor>x\<rfloor>)) else Inl Signed_Overflow)"

text \<open>\<open>tb_info\<close> is the static variable, None until the first call.\<close>

definition xnu_commpage_time_atus_to_ns ::
    "(real \<Rightarrow> real) \<Rightarrow> timebase option \<Rightarrow> timebase option \<Rightarrow> u64 \<Rightarrow> (u64 \<times> timebase option) res" where
  "xnu_commpage_time_atus_to_ns rnd mach_timebase_info tb_info atus =
     and_then (case tb_info of Some tb \<Rightarrow> Inr tb | None \<Rightarrow> check mach_timebase_info) (\<lambda>tb.
     if denom tb = 0 then Inl Signed_Overflow
     else and_then (to_u64 (rnd (rnd (rnd (of_nat (unat atus)) * of_nat (unat (numer tb))) / of_nat (unat (denom tb)))))
       (\<lambda>ns. Inr (ns, Some tb)))"

text \<open>\<open>XNUFastTimeout\<close>; the callback is an argument of its operation.\<close>

record fast_timeout =
  m_end_deadline :: u64

definition XNUFastTimeout :: "(real \<Rightarrow> real) \<Rightarrow> timebase option \<Rightarrow> u64 \<Rightarrow> (u64 \<Rightarrow> u64) \<Rightarrow> fast_timeout res" where
  "XNUFastTimeout rnd mach_timebase_info nanoseconds page =
     and_then (check mach_timebase_info) (\<lambda>tb.
     if numer tb = 0 then Inl Signed_Overflow
     else let num_atus = rnd (rnd (rnd (of_nat (unat nanoseconds)) * of_nat (unat (denom tb))) / of_nat (unat (numer tb)))
       in and_then (to_u64 (rnd (rnd (of_nat (unat (xnu_commpage_time_atus page))) + num_atus)))
         (\<lambda>d. Inr \<lparr>m_end_deadline = d\<rparr>))"

definition timeout_done :: "(u64 \<Rightarrow> u64) \<Rightarrow> fast_timeout \<Rightarrow> bool" where
  "timeout_done page t \<longleftrightarrow> m_end_deadline t \<le> xnu_commpage_time_atus page"

definition timeout_check :: "(u64 \<Rightarrow> u64) \<Rightarrow> unit res \<Rightarrow> fast_timeout \<Rightarrow> unit res" where
  "timeout_check page cb t = (if m_end_deadline t \<le> xnu_commpage_time_atus page then cb else Inr ())"

section \<open>What the checks do\<close>

lemma passed_check: "mach_check ti 0 k = Some (Inr (0, k))" "posix_check ti 0 k = Some (Inr (0, k))"
  by (simp_all add: mach_check.simps posix_check_def)

text \<open>When the call for the own task works, a failed check ends the process unless the task was
  attached to; then it stops in the debugger once and goes on.\<close>

lemma failed_check:
  assumes "ti k = ((0, count), k')"
  shows "kr \<noteq> 0 \<Longrightarrow> mach_check ti kr k = Some (if count = 0 then Inl Process_Exit else Inr (1, k'))"
    and "retval \<noteq> 0 \<Longrightarrow> posix_check ti retval k = Some (if count = 0 then Inl Process_Exit else Inr (1, k'))"
proof -
  show "kr \<noteq> 0 \<Longrightarrow> mach_check ti kr k = Some (if count = 0 then Inl Process_Exit else Inr (1, k'))"
    using assms by (subst mach_check.simps) (simp add: passed_check)
qed (use assms in \<open>simp add: posix_check_def get_task_for_pid_count_def passed_check\<close>)

text \<open>When it keeps failing, the two functions call each other for ever.\<close>

lemma failing_checks_recurse:
  assumes "\<And>k. fst (fst (ti k)) \<noteq> 0" and "kr \<noteq> 0"
  shows "mach_check ti kr k = None"
proof (rule ccontr)
  assume "mach_check ti kr k \<noteq> None"
  then obtain r where "mach_check ti kr k = Some r" by blast
  then have "kr \<noteq> 0 \<longrightarrow> (\<forall>k. fst (fst (ti k)) \<noteq> 0) \<longrightarrow> False"
  proof (induction rule: mach_check.raw_induct [rotated, consumes 1])
    case (1 rec ti kr k r)
    then show ?case
      by (fastforce split: prod.splits if_splits Option.bind_splits dest: arg_cong [where f = "\<lambda>x. fst (fst x)"])
  qed
  with assms show False by simp
qed

section \<open>What the random lists hold\<close>

lemma length_random_scalars: "length (fst (get_random_scalars rng n k)) = n"
  by (induction n arbitrary: k) (auto split: prod.split simp: prod_eq_iff)

lemma sorted_remdups_adj_distinct: "sorted xs \<Longrightarrow> distinct (remdups_adj xs)"
  by (induction xs rule: remdups_adj.induct) auto

lemma random_sorted_unique:
  assumes "get_random_sorted_unique_scalars rng min_sz max_sz k = Some (res, k')"
  shows "sorted res \<and> distinct res \<and> min_sz \<le> length res \<and> length res \<le> max_sz"
proof -
  have "sorted (fst r) \<and> distinct (fst r) \<and> min_sz \<le> length (fst r) \<and> length (fst r) \<le> max_sz"
    if "get_random_sorted_unique_scalars rng min_sz max_sz k = Some r" for r
    using that
  proof (induction rule: get_random_sorted_unique_scalars.raw_induct [rotated, consumes 1])
    case (1 rec rng min_sz max_sz k r)
    obtain xs k' where xs: "get_random_scalars rng max_sz k = (xs, k')" by fastforce
    then have len: "length xs = max_sz" using length_random_scalars [of rng max_sz k] by simp
    show ?case
    proof (cases "length (remdups_adj (sort xs)) < min_sz")
      case True
      then show ?thesis using 1 xs by (auto simp: Let_def)
    next
      case False
      then have "r = (remdups_adj (sort xs), k')" using 1 xs by (simp add: Let_def)
      then show ?thesis
        using False remdups_adj_length [of "sort xs"] by (simp add: len sorted_remdups_adj_distinct)
    qed
  qed
  from this [OF assms] show ?thesis by simp
qed

text \<open>Asking for more numbers than are drawn never ends.\<close>

lemma too_many_unique:
  assumes "max_sz < min_sz"
  shows "get_random_sorted_unique_scalars rng min_sz max_sz k = None"
proof (cases "get_random_sorted_unique_scalars rng min_sz max_sz k")
  case (Some r)
  with random_sorted_unique [of rng min_sz max_sz k "fst r" "snd r"] assms show ?thesis by simp
qed

section \<open>Time-outs\<close>

text \<open>What a rounding does: it keeps the order and the integers up to the size of a fraction.\<close>

definition rounds :: "(real \<Rightarrow> real) \<Rightarrow> bool" where
  "rounds rnd \<longleftrightarrow> mono rnd \<and> (\<forall>i. \<bar>i\<bar> \<le> 2 ^ 53 \<longrightarrow> rnd (of_int i) = of_int i)"

definition ticks :: "(real \<Rightarrow> real) \<Rightarrow> timebase \<Rightarrow> u64 \<Rightarrow> real" where
  "ticks rnd tb ns = rnd (rnd (rnd (of_nat (unat ns)) * of_nat (unat (denom tb))) / of_nat (unat (numer tb)))"

lemma rounds_between:
  assumes "rounds rnd" and "of_int a \<le> x" and "x \<le> of_int b" and "- (2 ^ 53) \<le> a" and "b \<le> 2 ^ 53"
  shows "of_int a \<le> rnd x" and "rnd x \<le> of_int b"
proof -
  have ab: "a \<le> b" using assms(2,3) by linarith
  have "rnd (of_int a) \<le> rnd x" "rnd x \<le> rnd (of_int b)" using assms(1-3) by (auto simp only: rounds_def dest: monoD)
  moreover have "rnd (of_int a) = of_int a" "rnd (of_int b) = of_int b" using assms(1,4,5) ab by (auto simp: rounds_def)
  ultimately show "of_int a \<le> rnd x" "rnd x \<le> of_int b" by simp_all
qed

text \<open>
  The deadline is the clock plus the ticks, up to one tick.
\<close>

lemma deadline_set:
  assumes "rounds rnd" and "numer tb \<noteq> 0" and now: "now = int (unat (xnu_commpage_time_atus page))"
    and "0 \<le> ticks rnd tb ns" and "now + \<lceil>ticks rnd tb ns\<rceil> \<le> 2 ^ 53"
  obtains t where "XNUFastTimeout rnd (Some tb) ns page = Inr t"
    and "now + \<lfloor>ticks rnd tb ns\<rfloor> \<le> int (unat (m_end_deadline t))" and "int (unat (m_end_deadline t)) \<le> now + \<lceil>ticks rnd tb ns\<rceil>"
proof -
  let ?n = "ticks rnd tb ns"
  have pos: "0 \<le> now" "0 \<le> \<lfloor>?n\<rfloor>" "0 \<le> \<lceil>?n\<rceil>" using now assms(4) by simp_all
  then have "now \<le> 2 ^ 53" using assms(5) by linarith
  then have r: "rnd (of_nat (unat (xnu_commpage_time_atus page))) = of_int now"
    using assms(1) now pos(1) unfolding rounds_def by (metis abs_of_nonneg of_int_of_nat_eq)
  let ?d = "rnd (of_int now + ?n)"
  have lo: "of_int (now + \<lfloor>?n\<rfloor>) \<le> of_int now + ?n" and hi: "of_int now + ?n \<le> of_int (now + \<lceil>?n\<rceil>)"
    by simp_all
  have "0 \<le> now + \<lfloor>?n\<rfloor>" using pos(1,2) by (rule add_nonneg_nonneg)
  then have "- (2 ^ 53) \<le> now + \<lfloor>?n\<rfloor>" by simp
  note d = rounds_between [OF assms(1) lo hi this assms(5)]
  from d have range: "now + \<lfloor>?n\<rfloor> \<le> \<lfloor>?d\<rfloor>" "\<lfloor>?d\<rfloor> \<le> now + \<lceil>?n\<rceil>" by linarith+
  have "- 1 < ?d" using d(1) pos by linarith
  moreover have "?d < 2 ^ 64" 
  proof (rule le_less_trans [OF d(2)])
    have "real_of_int (now + \<lceil>?n\<rceil>) \<le> real_of_int (2 ^ 53)" using assms(5) by (simp only: of_int_le_iff)
    also have "\<dots> < 2 ^ 64" by simp
    finally show "real_of_int (now + \<lceil>?n\<rceil>) < 2 ^ 64" .
  qed
  ultimately have "XNUFastTimeout rnd (Some tb) ns page = Inr \<lparr>m_end_deadline = of_nat (nat \<lfloor>?d\<rfloor>)\<rparr>"
    using assms(2) r by (simp add: XNUFastTimeout_def ticks_def to_u64_def Let_def check_def)
  moreover have "int (unat (of_nat (nat \<lfloor>?d\<rfloor>) :: u64)) = \<lfloor>?d\<rfloor>"
  proof -
    have nonneg: "0 \<le> \<lfloor>?d\<rfloor>" using range(1) \<open>0 \<le> now + \<lfloor>?n\<rfloor>\<close> by linarith
    have "\<lfloor>?d\<rfloor> \<le> 2 ^ 53" using range(2) assms(5) by (rule order_trans)
    then have "nat \<lfloor>?d\<rfloor> \<le> nat (2 ^ 53)" by (rule nat_mono)
    also have "\<dots> < 2 ^ 64" by simp
    finally have "unat (of_nat (nat \<lfloor>?d\<rfloor>) :: u64) = nat \<lfloor>?d\<rfloor>" by (simp add: unat_of_nat)
    then show ?thesis using nonneg by (simp only: nat_0_le)
  qed
  ultimately show thesis using that range by simp
qed

text \<open>The callback of \<open>check\<close> runs exactly when \<open>done\<close> holds.\<close>

lemma timeout_check_done: "timeout_check page cb t = (if timeout_done page t then cb else Inr ())"
  by (simp add: timeout_check_def timeout_done_def)

text \<open>C39: A time-out lasts as long as it was asked to, to one tick of the clock: it is created without a
  fault, it is not done and its check passes while fewer than the whole ticks of the interval have
  gone by, and from the next whole tick on it is done and the check calls back.  Hypotheses: the
  rounding keeps the order and the integers up to \<open>2^53\<close>, and the deadline stays below that.\<close>

theorem timeout_lasts:
  assumes "rounds rnd" and "numer tb \<noteq> 0" and "0 \<le> ticks rnd tb ns"
    and now: "now = int (unat (xnu_commpage_time_atus page))" and "now + \<lceil>ticks rnd tb ns\<rceil> \<le> 2 ^ 53"
  shows "\<exists>t. XNUFastTimeout rnd (Some tb) ns page = Inr t \<and>
    (\<forall>later cb. let clock = int (unat (xnu_commpage_time_atus later)) in
       (clock < now + \<lfloor>ticks rnd tb ns\<rfloor> \<longrightarrow> \<not> timeout_done later t \<and> timeout_check later cb t = Inr ()) \<and>
       (now + \<lceil>ticks rnd tb ns\<rceil> \<le> clock \<longrightarrow> timeout_done later t \<and> timeout_check later cb t = cb))"
proof -
  obtain t where t: "XNUFastTimeout rnd (Some tb) ns page = Inr t"
    and d: "now + \<lfloor>ticks rnd tb ns\<rfloor> \<le> int (unat (m_end_deadline t))" "int (unat (m_end_deadline t)) \<le> now + \<lceil>ticks rnd tb ns\<rceil>"
    using deadline_set [OF assms(1,2) now assms(3,5)] by blast
  have "timeout_done later t \<longleftrightarrow> int (unat (m_end_deadline t)) \<le> int (unat (xnu_commpage_time_atus later))" for later
    by (simp add: timeout_done_def word_le_def)
  with t d show ?thesis
    by (intro exI [of _ t]) (auto simp: timeout_check_done Let_def simp del: uint_nat)
qed

text \<open>The 24 MHz clock of the machines the program runs on: five seconds, the limit of the hash construction.\<close>

lemma timeout_lasts_witness:
  "\<exists>t. XNUFastTimeout (\<lambda>x. x) (Some \<lparr>numer = 125, denom = 3\<rparr>) 5000000000 (\<lambda>_. 1000) = Inr t \<and>
    \<not> timeout_done (\<lambda>_. 120000999) t \<and> timeout_done (\<lambda>_. 120001000) t"
proof -
  have "ticks (\<lambda>x. x) \<lparr>numer = 125, denom = 3\<rparr> 5000000000 = 120000000"
    by (simp add: ticks_def)
  then show ?thesis
    using timeout_lasts [of "\<lambda>x. x" "\<lparr>numer = 125, denom = 3\<rparr>" 5000000000 1000 "\<lambda>_. 1000"]
    by (fastforce simp: rounds_def mono_def xnu_commpage_time_atus_def Let_def)
qed

end
