(* ===== verification/Signposts.thy ===== *)
theory Signposts
  imports Platform Regions
begin

text \<open>
  \<^verbatim>\<open>Signpost\<close> (\<^verbatim>\<open>lib/xnu-trace/Signpost.cpp\<close>, \<^verbatim>\<open>include/xnu-trace/Signpost.h\<close>): the marks around
  the phases of reading a trace.  The logging library is a parameter; what is posted is kept in
  a list, next to the map of the categories' logs, which is static.
\<close>

section \<open>The class\<close>

datatype signpost_type = Interval_Begin | Interval_End | Event_Posted

record 'l os_lib =
  os_log_create :: "buffer \<Rightarrow> buffer \<Rightarrow> 'l"
  os_signpost_enabled :: "'l \<Rightarrow> bool"
  os_signpost_id_make_with_pointer :: "'l \<Rightarrow> u64 \<Rightarrow> u64"
  ID_EXCLUSIVE :: u64
  ID_NULL :: u64
  ID_INVALID :: u64

record 'l posted =
  s_log_categories :: "buffer \<rightharpoonup> 'l"
  posts :: "('l \<times> signpost_type \<times> u64 \<times> buffer \<times> buffer) list"

record 'l signpost =
  sp_log :: 'l
  sp_id :: u64
  sp_name :: buffer
  sp_start_atus :: u64
  sp_event :: bool
  sp_disabled :: bool

definition SUBSYSTEM :: buffer where "SUBSYSTEM = ascii ''vin.je.xnutracer''"

definition post :: "'l \<Rightarrow> signpost_type \<Rightarrow> u64 \<Rightarrow> buffer \<Rightarrow> buffer \<Rightarrow> 'l posted \<Rightarrow> 'l posted" where
  "post lg ty i name msg w = w\<lparr>posts := posts w @ [(lg, ty, i, name, msg)]\<rparr>"

text \<open>\<open>this\<close> is the address of the object, \<open>indeterminate\<close> what its start time holds before it is set.\<close>

definition Signpost :: "'l os_lib \<Rightarrow> u64 \<Rightarrow> u64 \<Rightarrow> buffer \<Rightarrow> buffer \<Rightarrow> bool \<Rightarrow> buffer \<Rightarrow> 'l posted \<Rightarrow> 'l signpost \<times> 'l posted" where
  "Signpost m this indeterminate category name event msg w =
     (let w = (if s_log_categories w category = None
               then w\<lparr>s_log_categories := (s_log_categories w)(category \<mapsto> os_log_create m SUBSYSTEM category)\<rparr> else w);
          lg = the (s_log_categories w category);
          sp = \<lparr>sp_log = lg, sp_id = ID_NULL m, sp_name = name, sp_start_atus = indeterminate, sp_event = event, sp_disabled = False\<rparr>
      in if \<not> os_signpost_enabled m lg then (sp\<lparr>sp_disabled := True\<rparr>, w)
         else if event then (sp, post lg Event_Posted (ID_EXCLUSIVE m) name msg w)
         else let i = os_signpost_id_make_with_pointer m lg this; sp = sp\<lparr>sp_id := i\<rparr> in
           if i = ID_NULL m \<or> i = ID_INVALID m then (sp\<lparr>sp_disabled := True\<rparr>, w) else (sp, w))"

definition signpost_start :: "(u64 \<Rightarrow> u64) \<Rightarrow> buffer \<Rightarrow> 'l signpost \<Rightarrow> 'l posted \<Rightarrow> ('l signpost \<times> 'l posted) res" where
  "signpost_start page msg sp w =
     and_then (assert_that (\<not> sp_event sp)) (\<lambda>_.
     if sp_disabled sp then Inr (sp, w)
     else Inr (sp\<lparr>sp_start_atus := xnu_commpage_time_atus page\<rparr>, post (sp_log sp) Interval_Begin (sp_id sp) (sp_name sp) msg w))"

definition signpost_end :: "buffer \<Rightarrow> 'l signpost \<Rightarrow> 'l posted \<Rightarrow> 'l posted res" where
  "signpost_end msg sp w =
     and_then (assert_that (\<not> sp_event sp)) (\<lambda>_.
     if sp_disabled sp then Inr w
     else Inr (post (sp_log sp) Interval_End (sp_id sp) (sp_name sp) msg w))"

text \<open>The overload whose message depends on the nanoseconds since the start; the result has the time base too.\<close>

definition signpost_end_cb ::
    "(real \<Rightarrow> real) \<Rightarrow> timebase option \<Rightarrow> timebase option \<Rightarrow> (u64 \<Rightarrow> u64) \<Rightarrow> (u64 \<Rightarrow> buffer res) \<Rightarrow> 'l signpost \<Rightarrow> 'l posted \<Rightarrow>
       ('l posted \<times> timebase option) res" where
  "signpost_end_cb rnd mach_timebase_info tb_info page cb sp w =
     and_then (xnu_commpage_time_atus_to_ns rnd mach_timebase_info tb_info (xnu_commpage_time_atus page - sp_start_atus sp)) (\<lambda>(ns, tb).
     and_then (cb ns) (\<lambda>msg.
     and_then (signpost_end msg sp w) (\<lambda>w. Inr (w, tb))))"

section \<open>Intervals\<close>

text \<open>The use the library makes of it posts one interval or, when it is disabled, nothing; it never fails.\<close>

lemma interval_posts:
  assumes "Signpost m this ind category name False [] w = (sp, w1)"
  shows "\<exists>sp' w2. signpost_start page msg sp w1 = Inr (sp', w2) \<and>
    signpost_end msg' sp' w2 = Inr (if sp_disabled sp then w1
      else w1\<lparr>posts := posts w @ [(sp_log sp, Interval_Begin, sp_id sp, name, msg), (sp_log sp, Interval_End, sp_id sp, name, msg')]\<rparr>)"
proof -
  have "\<not> sp_event sp" "sp_name sp = name" "posts w1 = posts w"
    using assms by (auto simp: Signpost_def Let_def split: if_splits)
  then show ?thesis by (cases "sp_disabled sp") (simp_all add: signpost_start_def signpost_end_def post_def)
qed

text \<open>Each category has one log, the first that was created for it.\<close>

lemma category_kept:
  assumes "Signpost m this ind category name event msg w = (sp, w1)"
  shows "s_log_categories w1 category = Some (sp_log sp)" and "s_log_categories w \<subseteq>\<^sub>m s_log_categories w1"
  using assms by (auto simp: Signpost_def post_def Let_def map_le_def split: if_splits)

text \<open>
  A disabled signpost never sets its start time, but the overload of \<open>end\<close> with a callback uses
  it: the callback runs on a value computed from what the object held before.
\<close>

lemma disabled_callback_indeterminate:
  assumes "\<not> os_signpost_enabled m (os_log_create m SUBSYSTEM category)" and "s_log_categories w category = None"
    and "Signpost m this ind category name False [] w = (sp, w1)" and "signpost_start page msg sp w1 = Inr (sp', w2)"
  shows "signpost_end_cb rnd info tb page' cb sp' w2 =
    and_then (xnu_commpage_time_atus_to_ns rnd info tb (xnu_commpage_time_atus page' - ind)) (\<lambda>(ns, tb).
    and_then (cb ns) (\<lambda>_. Inr (w1, tb)))"
  using assms
  by (auto simp: Signpost_def signpost_start_def signpost_end_cb_def signpost_end_def Let_def)

end
