(* ===== verification/ThreadLogs.thy ===== *)
theory ThreadLogs
  imports Streaming EndToEnd
begin

text \<open>
  The logs of any number of threads, as long as the growing map keeps its entries in their places,
  from the first call to the histogram of the streamed trace.  \<open>LogThreads\<close> shows that two
  threads never disturb the map; more can, because rebuilding moves its entries wrongly.
\<close>

section \<open>Calls on a map in order\<close>

text \<open>Every call succeeds and leaves the map in order.\<close>

fun calls_in_order :: "hash_lib \<Rightarrow> nat \<Rightarrow> (u32 \<times> log_arm64_cpu_context) list \<Rightarrow> trace_log \<Rightarrow> bool" where
  "calls_in_order e timer [] lg = map_wf e (m_thread_ctxs lg)"
| "calls_in_order e timer ((th, c) # calls) lg = (map_wf e (m_thread_ctxs lg) \<and>
     (case trace_log_ctx e timer th c lg of Inl _ \<Rightarrow> False | Inr lg \<Rightarrow> calls_in_order e timer calls lg))"

lemma calls_in_order_wf: "calls_in_order e timer calls lg \<Longrightarrow> map_wf e (m_thread_ctxs lg)"
  by (cases calls) auto

lemma entry_present:
  assumes "map_wf e (m_thread_ctxs lg)" and "map_value (m_thread_ctxs lg) (ucast th) = Some t"
  obtains i where "thread_entry e timer c th lg = Inr (m_thread_ctxs lg, i)" "i < length (m_key_vals (m_thread_ctxs lg))"
    "m_key_vals (m_thread_ctxs lg) ! i = (ucast th, t)"
proof -
  have ne: "m_key_vals (m_thread_ctxs lg) \<noteq> []" using assms(2) by (auto simp: map_value_def)
  from wf_lookup [OF assms(1) ne, of "ucast th"] obtain x where "mph_lookup e (m_mph (m_thread_ctxs lg)) (ucast th) = Inr x"
    "unat x < length (m_key_vals (m_thread_ctxs lg))" "m_key_vals (m_thread_ctxs lg) ! unat x = (ucast th, t)"
    using assms(2) by metis
  with that [of "unat x"] wf_contains [OF assms(1)] assms(2) ne show thesis
    by (simp add: thread_entry_def mph_map_index_def)
qed

lemma entry_written:
  assumes en: "thread_entry e timer c th lg = Inr (mp, i)" and l: "trace_log_ctx e timer th c lg = Inr lg'"
    and i: "i < length (m_key_vals mp)" "m_key_vals mp ! i = (ucast th, t)"
  obtains t' where "write_log_msg c t = Inr t'"
  using en l i by (auto simp: trace_log_ctx_def at_def res_simps)

text \<open>The first call of a thread.\<close>

lemma log_new:
  assumes env: "fastmod_ok e" "sort_ok e" and wf: "map_wf e (m_thread_ctxs lg)" and st: "\<not> m_stream lg"
    and fresh: "m_key_vals (m_thread_ctxs lg) = [] \<Longrightarrow> m_salts (m_mph (m_thread_ctxs lg)) = []"
    and n: "length (m_key_vals (m_thread_ctxs lg)) + 1 < 2 ^ 31" and none: "map_value (m_thread_ctxs lg) (ucast th) = None"
    and l: "trace_log_ctx e timer th c lg = Inr lg'" and wf': "map_wf e (m_thread_ctxs lg')"
  obtains t' where "write_log_msg c (first_thread_ctx False c) = Inr t'"
    "map_value (m_thread_ctxs lg') = (map_value (m_thread_ctxs lg))(ucast th \<mapsto> t')" "m_stream lg' = m_stream lg"
    "m_num_inst lg' = m_num_inst lg + 1" "m_key_vals (m_thread_ctxs lg') \<noteq> []"
proof -
  let ?mp = "m_thread_ctxs lg" and ?v = "new_thread_ctx False" and ?k = "ucast th :: u64"
  obtain m where bld: "mph_build e timer (m_mph ?mp) (mph_map_keys ?mp @ [?k]) = Inr m"
    using l wf_contains [OF wf, of ?k] none
    by (auto simp: trace_log_ctx_def thread_entry_def mph_map_try_emplace_def mph_map_rebuild_def mph_map_keys_def res_simps)
  define kvs where "kvs = m_key_vals ?mp @ [(?k, ?v)]"
  define \<sigma> where "\<sigma> i = mph.slot e m (fst (kvs ! i))" for i
  define mp' where "mp' = \<lparr>m_mph = m, m_key_vals = map (\<lambda>i. kvs ! \<sigma> i) [0..<length kvs]\<rparr>"
  note all = emplace_new [OF wf env n fresh none bld, of ?v, folded kvs_def, folded \<sigma>_def, folded mp'_def]
  have b: "mph_built e (mph_map_keys ?mp @ [?k]) m" by (rule wf_insert_built [OF wf env n fresh bld])
  have keys: "map fst kvs = mph_map_keys ?mp @ [?k]" by (simp add: kvs_def mph_map_keys_def)
  then have len: "length kvs = length (mph_map_keys ?mp @ [?k])" by (metis length_map)
  have bound: "\<sigma> i < length kvs" if "i < length kvs" for i
    using mph.slot [OF b, of "fst (kvs ! i)"] len by (auto simp: \<sigma>_def)
  let ?i = "\<sigma> (length kvs - 1)"
  have ne: "length kvs - 1 < length kvs" by (simp add: kvs_def)
  have i: "?i < length (m_key_vals mp')" using bound [OF ne] by (simp add: mp'_def)
  obtain k0 t0 where at: "m_key_vals mp' ! ?i = (k0, t0)" by force
  let ?mp2 = "mp'\<lparr>m_key_vals := (m_key_vals mp')[?i := (k0, t0\<lparr>last_cpu_ctx := c\<rparr>)]\<rparr>"
  have en0: "thread_entry e timer c th lg = Inr (?mp2, ?i)"
    using wf_contains [OF wf, of ?k] none all st at i by (simp add: thread_entry_def)
  then obtain t2 where lg': "lg' = lg\<lparr>m_thread_ctxs := ?mp2\<lparr>m_key_vals := (m_key_vals ?mp2)[?i := (k0, t2)]\<rparr>, m_num_inst := m_num_inst lg + 1\<rparr>"
    using l i by (auto simp: trace_log_ctx_def at_def res_simps)
  have k2: "map fst (m_key_vals (m_thread_ctxs lg')) = map fst (m_key_vals mp')"
    using lg' i at by (simp add: map_update list_update_same_conv)
  have "m_thread_ctxs lg'\<lparr>m_key_vals := m_key_vals mp'\<rparr> = mp'" using lg' by simp
  then have "map_wf e mp'" using map_wf_values [OF wf', of "m_key_vals mp'"] k2 by simp
  with all have invol: "\<sigma> (\<sigma> j) = j" if "j < length kvs" for j using that by blast
  have "m_key_vals mp' ! ?i = kvs ! \<sigma> ?i" using bound [OF ne] by (simp add: mp'_def)
  moreover have "\<sigma> ?i = length kvs - 1" by (rule invol [OF ne])
  ultimately have kt: "k0 = ?k" "t0 = ?v" using at by (simp_all add: kvs_def nth_append)
  have en: "thread_entry e timer c th lg = Inr (?mp2, ?i)" by (rule en0)
  have keys2: "map fst (m_key_vals ?mp2) = map fst (m_key_vals mp')" using i at by (simp add: map_update list_update_same_conv)
  have wf2: "map_wf e ?mp2" using map_wf_values [OF \<open>map_wf e mp'\<close>, of "m_key_vals ?mp2"] keys2 by simp
  have i2: "?i < length (m_key_vals ?mp2)" "m_key_vals ?mp2 ! ?i = (ucast th, first_thread_ctx False c)"
    using i kt by (simp_all add: first_thread_ctx_def)
  obtain t' where w: "write_log_msg c (first_thread_ctx False c) = Inr t'" by (rule entry_written [OF en l i2])
  have "set (m_key_vals mp') = set kvs"
  proof -
    have "kvs ! j \<in> set (m_key_vals mp')" if "j < length kvs" for j
      using bound [OF that] invol [OF that] by (force simp: mp'_def)
    moreover have "set (m_key_vals mp') \<subseteq> set kvs" using bound by (auto simp: mp'_def)
    ultimately show ?thesis by (metis in_set_conv_nth subsetI subset_antisym)
  qed
  moreover have "distinct (map fst kvs)" using mph.no_dups [OF b] keys by simp
  ultimately have "map_of (m_key_vals mp') = map_of kvs"
    using wf_distinct [OF \<open>map_wf e mp'\<close>] by (intro map_of_inject_set [THEN iffD2])
  moreover have "map_of kvs = (map_of (m_key_vals ?mp))(?k \<mapsto> ?v)"
    using none by (auto simp: kvs_def map_value_def map_add_def fun_eq_iff split: option.split)
  moreover have "map_of (m_key_vals ?mp2) = (map_of (m_key_vals mp'))(?k \<mapsto> first_thread_ctx False c)"
    using map_of_update_nth [OF wf_distinct [OF \<open>map_wf e mp'\<close>] i, of ?k "first_thread_ctx False c"] at kt
    by (simp add: first_thread_ctx_def)
  ultimately have val: "map_value ?mp2 = (map_value ?mp)(?k \<mapsto> first_thread_ctx False c)"
    by (auto simp: map_value_def fun_eq_iff)
  show thesis
  proof (rule log_at_entry [OF en wf2 i2 w])
    fix lg1 assume new: "trace_log_ctx e timer th c lg = Inr lg1" "mph_map_keys (m_thread_ctxs lg1) = mph_map_keys ?mp2"
      "m_stream lg1 = m_stream lg" "m_num_inst lg1 = m_num_inst lg + 1"
      "map_value (m_thread_ctxs lg1) = (map_value ?mp2)(ucast th \<mapsto> t')"
    then have "lg1 = lg'" using l by simp
    moreover have "m_key_vals (m_thread_ctxs lg1) \<noteq> []"
      using fun_cong [OF new(5), of "ucast th"] by (auto simp: map_value_def)
    ultimately show thesis using that [OF w _ _ _ _] new(3-5) val by simp
  qed
qed


section \<open>Every thread's log\<close>

definition thread_written :: "log_arm64_cpu_context list \<Rightarrow> thread_ctx option \<Rightarrow> bool" where
  "thread_written cs v \<longleftrightarrow> (case cs of [] \<Rightarrow> v = None
     | c # _ \<Rightarrow> \<exists>t. v = Some t \<and> fold_res write_log_msg cs (first_thread_ctx False c) = Inr t)"

definition threads_hold :: "(u32 \<times> log_arm64_cpu_context) list \<Rightarrow> trace_log \<Rightarrow> bool" where
  "threads_hold done lg \<longleftrightarrow> \<not> m_stream lg \<and>
     (m_key_vals (m_thread_ctxs lg) = [] \<longrightarrow> m_salts (m_mph (m_thread_ctxs lg)) = []) \<and>
     dom (map_value (m_thread_ctxs lg)) = ucast ` fst ` set done \<and>
     (\<forall>th. thread_written (contexts_of th done) (map_value (m_thread_ctxs lg) (ucast th)))"

lemma holds_thread: "threads_hold done lg \<Longrightarrow> thread_written (contexts_of th done) (map_value (m_thread_ctxs lg) (ucast th))"
  by (simp add: threads_hold_def)

lemma contexts_of_append: "contexts_of th (xs @ ys) = contexts_of th xs @ contexts_of th ys"
  by (simp add: contexts_of_def)

lemma contexts_of_Nil: "contexts_of th calls = [] \<longleftrightarrow> th \<notin> fst ` set calls"
  by (force simp: contexts_of_def filter_empty_conv)

lemma entries_count:
  assumes "map_wf e mp" and "dom (map_value mp) = ucast ` fst ` set done"
  shows "length (m_key_vals mp) \<le> length done"
proof -
  have "length (m_key_vals mp) = card (dom (map_value mp))"
    using distinct_card [OF wf_distinct [OF assms(1)]] dom_map_of_conv_image_fst [of "m_key_vals mp"]
    by (simp add: dom_def map_value_def)
  also have "\<dots> \<le> card (set done)" unfolding assms(2) image_image by (rule card_image_le) simp
  also have "\<dots> \<le> length done" by (rule card_length)
  finally show ?thesis .
qed

text \<open>A call that leaves the thread's context \<open>t'\<close> in the map.\<close>

lemma put_holds:
  assumes h: "threads_hold done lg" and st: "m_stream lg' = m_stream lg"
    and v: "map_value (m_thread_ctxs lg') = (map_value (m_thread_ctxs lg))(ucast th \<mapsto> t')"
    and f: "contexts_of th done @ [c] = c0 # cs" "fold_res write_log_msg (c0 # cs) (first_thread_ctx False c0) = Inr t'"
  shows "threads_hold (done @ [(th, c)]) lg'"
proof -
  have ne: "m_key_vals (m_thread_ctxs lg') \<noteq> []" using fun_cong [OF v, of "ucast th"] by (auto simp: map_value_def)
  have "thread_written (contexts_of a (done @ [(th, c)])) (map_value (m_thread_ctxs lg') (ucast a))" for a
  proof (cases "a = th")
    case True
    then show ?thesis using f by (simp add: v contexts_of_append thread_written_def)
  next
    case False
    then show ?thesis using h by (simp add: v contexts_of_append key_inj threads_hold_def)
  qed
  then show ?thesis using h ne st v by (auto simp: threads_hold_def)
qed

lemma call_holds:
  assumes env: "fastmod_ok e" "sort_ok e" and h: "threads_hold done lg" and wf: "map_wf e (m_thread_ctxs lg)"
    and n: "length done + 1 < 2 ^ 31" and l: "trace_log_ctx e timer th c lg = Inr lg'" and wf': "map_wf e (m_thread_ctxs lg')"
  shows "threads_hold (done @ [(th, c)]) lg'"
proof (cases "contexts_of th done")
  case Nil
  then have none: "map_value (m_thread_ctxs lg) (ucast th) = None"
    using holds_thread [OF h, of th] by (simp add: thread_written_def)
  have st: "\<not> m_stream lg"
    and fresh: "m_key_vals (m_thread_ctxs lg) = [] \<Longrightarrow> m_salts (m_mph (m_thread_ctxs lg)) = []"
    and d: "dom (map_value (m_thread_ctxs lg)) = ucast ` fst ` set done"
    using h by (simp_all add: threads_hold_def)
  have small: "length (m_key_vals (m_thread_ctxs lg)) + 1 < 2 ^ 31" using entries_count [OF wf d] n by simp
  obtain t' where w: "write_log_msg c (first_thread_ctx False c) = Inr t'" and
    v: "map_value (m_thread_ctxs lg') = (map_value (m_thread_ctxs lg))(ucast th \<mapsto> t')" "m_stream lg' = m_stream lg"
    by (rule log_new [OF env wf st fresh small none l wf'])
  have "fold_res write_log_msg [c] (first_thread_ctx False c) = Inr t'" using w by simp
  with Nil show ?thesis by (intro put_holds [OF h v(2,1), of c c "[]"]) simp_all
next
  case (Cons c0 cs)
  then obtain t where t: "map_value (m_thread_ctxs lg) (ucast th) = Some t"
    "fold_res write_log_msg (c0 # cs) (first_thread_ctx False c0) = Inr t"
    using holds_thread [OF h, of th] by (auto simp: thread_written_def)
  obtain i where i: "thread_entry e timer c th lg = Inr (m_thread_ctxs lg, i)" "i < length (m_key_vals (m_thread_ctxs lg))"
    "m_key_vals (m_thread_ctxs lg) ! i = (ucast th, t)" by (rule entry_present [OF wf t(1)])
  obtain t' where w: "write_log_msg c t = Inr t'" by (rule entry_written [OF i(1) l i(2,3)])
  from log_present [OF wf t(1) w, of timer] l have new: "m_stream lg' = m_stream lg"
    "mph_map_keys (m_thread_ctxs lg') = mph_map_keys (m_thread_ctxs lg)"
    "map_value (m_thread_ctxs lg') = (map_value (m_thread_ctxs lg))(ucast th \<mapsto> t')" by (metis sum.inject(2))+
  have f: "fold_res write_log_msg ((c0 # cs) @ [c]) (first_thread_ctx False c0) = Inr t'"
    using t(2) w by (simp only: fold_res_append) (simp add: res_simps)
  show ?thesis by (rule put_holds [OF h new(1,3), of _ c0 "cs @ [c]"]) (use f Cons in simp_all)
qed

lemma calls_hold:
  assumes env: "fastmod_ok e" "sort_ok e"
  shows "calls_in_order e timer calls lg \<Longrightarrow> threads_hold done lg \<Longrightarrow> length done + length calls < 2 ^ 31 \<Longrightarrow>
    \<exists>lg'. fold_res (buffered_call e timer) (map (\<lambda>(th, c). Log_Context th c) calls) lg = Inr lg' \<and>
      threads_hold (done @ calls) lg' \<and> map_wf e (m_thread_ctxs lg')"
proof (induction calls arbitrary: lg "done")
  case (Cons call calls)
  obtain th c where call: "call = (th, c)" by force
  then obtain lg1 where l: "trace_log_ctx e timer th c lg = Inr lg1" "calls_in_order e timer calls lg1"
    and wf: "map_wf e (m_thread_ctxs lg)" using Cons.prems(1) by (auto split: sum.splits)
  have n: "length done + 1 < 2 ^ 31" using Cons.prems(3) by simp
  have "threads_hold (done @ [(th, c)]) lg1"
    by (rule call_holds [OF env Cons.prems(2) wf n l(1) calls_in_order_wf [OF l(2)]])
  from Cons.IH [OF l(2) this] Cons.prems(3) l(1) call show ?case by (simp add: res_simps)
qed simp

lemma start_holds:
  "threads_hold [] (fst (trace_log_start False dir))" "map_wf e (m_thread_ctxs (fst (trace_log_start False dir)))"
  by (auto simp: threads_hold_def trace_log_start_def map_value_def thread_written_def map_wf_def mph_empty_def)

text \<open>Contexts that were written could be encoded.\<close>

lemma written_encodable:
  assumes "fold_res write_log_msg cs t = Inr t'" and "wf_ctx (last_cpu_ctx t)" and "\<forall>c \<in> set cs. wf_ctx c"
  shows "encodable_run (last_cpu_ctx t) cs"
  using assms
proof (induction cs arbitrary: t)
  case (Cons c cs)
  from Cons.prems(1) obtain t1 where t1: "write_log_msg c t = Inr t1" "fold_res write_log_msg cs t1 = Inr t'"
    by (auto simp: res_simps)
  have c: "wf_ctx c" using Cons.prems(3) by simp
  from write_log_msg_eq [OF Cons.prems(2) c] t1(1) have e: "encodable (last_cpu_ctx t) c" "last_cpu_ctx t1 = c"
    by (auto split: if_splits)
  with Cons.IH [OF t1(2)] Cons.prems(3) show ?case by simp
qed simp

text \<open>The program counters a thread's log gives back: its own, the first one twice.\<close>

definition thread_pcs :: "(u32 \<times> log_arm64_cpu_context) list \<Rightarrow> u32 \<Rightarrow> u64 list" where
  "thread_pcs calls th = (let pcs = map ctx_pc (contexts_of th calls) in hd pcs # pcs)"

definition logged_threads :: "(u32 \<times> log_arm64_cpu_context) list \<Rightarrow> u32 list" where
  "logged_threads calls = sort (remdups (map fst calls))"

lemma thread_log_bytes:
  assumes "thread_written (contexts_of th calls) (Some t)" and "\<forall>call \<in> set calls. wf_ctx (snd call)" and "16 \<le> length after"
  shows "extract_pcs_from_trace (snd (thread_log after (th, t))) = Inr (thread_pcs calls th)"
    and "log_buf t \<noteq> []" and "length (log_buf t) \<le> length calls * (size_full_ctx + size_max)"
proof -
  obtain c0 cs where cs: "contexts_of th calls = c0 # cs" and t: "fold_res write_log_msg (c0 # cs) (first_thread_ctx False c0) = Inr t"
    using assms(1) by (auto simp: thread_written_def split: list.splits)
  have "set (c0 # cs) \<subseteq> snd ` set calls" unfolding cs [symmetric] contexts_of_def by auto
  then have wf: "\<forall>c \<in> set (c0 # cs). wf_ctx c" using assms(2) by auto
  then have c0: "wf_ctx c0" by simp
  have l: "last_cpu_ctx (first_thread_ctx False c0) = c0" by (simp add: first_thread_ctx_def)
  have run: "encodable_run c0 cs" using written_encodable [OF t _ wf] l c0 by simp
  from first_log [OF c0 run] t have b: "log_buf t = trace_bytes 0 (sync_every + 1) c0 (c0 # cs)" and "log_buf t \<noteq> []"
    and len: "length (log_buf t) \<le> Suc (length cs) * (size_full_ctx + size_max)" by (metis sum.inject(2))+
  then show "log_buf t \<noteq> []" by simp
  have "length (contexts_of th calls) \<le> length calls" by (simp add: contexts_of_def)
  then have "Suc (length cs) * (size_full_ctx + size_max) \<le> length calls * (size_full_ctx + size_max)"
    by (intro mult_le_mono1) (simp add: cs)
  with len show "length (log_buf t) \<le> length calls * (size_full_ctx + size_max)" by linarith
  have "after \<noteq> []" using assms(3) by auto
  then show "extract_pcs_from_trace (snd (thread_log after (th, t))) = Inr (thread_pcs calls th)"
    using pcs_read_back [OF c0 run, of after] assms(3) by (simp add: thread_log_def b thread_pcs_def cs)
qed

lemma ctxs_hold:
  assumes h: "threads_hold calls lg" and wf: "map_wf e (m_thread_ctxs lg)"
  shows "distinct (map fst (log_ctxs lg))" and "set (map fst (log_ctxs lg)) = fst ` set calls"
    and "(th, t) \<in> set (log_ctxs lg) \<Longrightarrow> thread_written (contexts_of th calls) (Some t)"
proof -
  let ?kvs = "m_key_vals (m_thread_ctxs lg)"
  have "dom (map_value (m_thread_ctxs lg)) = fst ` set ?kvs"
    using dom_map_of_conv_image_fst [of ?kvs] by (simp add: dom_def map_value_def)
  with h have keys: "fst ` set ?kvs = ucast ` fst ` set calls" by (simp add: threads_hold_def)
  have key: "\<exists>th. k = ucast th \<and> (ucast k :: u32) = th" if "(k, t) \<in> set ?kvs" for k t
    using keys narrowed imageI [OF that, of fst] by auto
  have "set (map fst (log_ctxs lg)) = (\<lambda>k. ucast k :: u32) ` fst ` set ?kvs" by (force simp: log_ctxs_def)
  also have "\<dots> = fst ` set calls" unfolding keys image_image narrowed by simp
  finally show "set (map fst (log_ctxs lg)) = fst ` set calls" .
  have "inj_on (\<lambda>k. ucast k :: u32) (fst ` set ?kvs)" unfolding keys by (auto simp: inj_on_def narrowed)
  moreover have "map fst (log_ctxs lg) = map (\<lambda>k. ucast k) (map fst ?kvs)" by (auto simp: log_ctxs_def)
  ultimately show "distinct (map fst (log_ctxs lg))" using wf_distinct [OF wf] by (simp only: distinct_map set_map simp_thms)
  assume "(th, t) \<in> set (log_ctxs lg)"
  then obtain k where k: "(k, t) \<in> set ?kvs" "th = ucast k" by (auto simp: log_ctxs_def)
  then have "map_value (m_thread_ctxs lg) (ucast th) = Some t"
    using key [OF k(1)] wf_distinct [OF wf] by (auto simp: map_value_def)
  then show "thread_written (contexts_of th calls) (Some t)" using holds_thread [OF h, of th] by simp
qed

lemma threads_sorted:
  assumes "distinct (map fst xs)" and "set (map fst xs) = fst ` set calls"
  shows "map fst (sort_key fst xs) = logged_threads calls"
proof -
  have "map fst (sort_key fst xs) = sort (map fst xs)"
    by (rule properties_for_sort [symmetric]) simp_all
  also have "\<dots> = logged_threads calls"
    unfolding logged_threads_def by (rule sorted_distinct_set_unique) (use assms in simp_all)
  finally show ?thesis .
qed

lemma logs_pcs:
  assumes h: "threads_hold calls lg" and wf: "map_wf e (m_thread_ctxs lg)"
    and c: "\<forall>call \<in> set calls. wf_ctx (snd call)" "16 \<le> length after"
  shows "map_res (\<lambda>l. extract_pcs_from_trace (snd l)) (sort_key fst (map (thread_log after) (log_ctxs lg))) =
    Inr (map (thread_pcs calls) (logged_threads calls))"
proof -
  let ?logs = "map (thread_log after) (log_ctxs lg)"
  have "extract_pcs_from_trace (snd l) = Inr (thread_pcs calls (fst l))" if "l \<in> set ?logs" for l
    using that thread_log_bytes(1) [OF ctxs_hold(3) [OF h wf] c] by (auto simp: thread_log_def)
  then have "map_res (\<lambda>l. extract_pcs_from_trace (snd l)) (sort_key fst ?logs) = Inr (map (\<lambda>l. thread_pcs calls (fst l)) (sort_key fst ?logs))"
    by (intro map_res_total) simp
  also have "map (\<lambda>l. thread_pcs calls (fst l)) (sort_key fst ?logs) = map (thread_pcs calls) (map fst (sort_key fst ?logs))"
    by simp
  also have "map fst (sort_key fst ?logs) = logged_threads calls"
    by (rule threads_sorted) (use ctxs_hold(1,2) [OF h wf] in \<open>simp_all add: comp_def thread_log_def\<close>)
  finally show ?thesis .
qed

lemma pcs_called:
  "pc \<in> set (concat (map (thread_pcs calls) (logged_threads calls))) \<Longrightarrow> \<exists>call \<in> set calls. pc = ctx_pc (snd call)"
proof -
  assume "pc \<in> set (concat (map (thread_pcs calls) (logged_threads calls)))"
  then obtain th where th: "th \<in> fst ` set calls" "pc \<in> set (thread_pcs calls th)" by (auto simp: logged_threads_def)
  then obtain c cs where cs: "contexts_of th calls = c # cs" using contexts_of_Nil by (metis list.exhaust)
  then have "pc \<in> ctx_pc ` set (contexts_of th calls)" using th(2) by (auto simp: thread_pcs_def)
  then show ?thesis unfolding contexts_of_def by auto
qed

section \<open>The streamed log and the log in memory\<close>

text \<open>
  An open file that holds a thread's log: closed as it is, it becomes a container with the
  thread's number, a count of 0 and the length of the log, and reading that container gives the
  log back.
\<close>

definition file_holds :: "('c, 'd) zstd_lib \<Rightarrow> nat \<Rightarrow> int \<Rightarrow> u64 \<Rightarrow> buffer \<Rightarrow> ('c, 'd) comp_file \<Rightarrow> bool" where
  "file_holds z fuel level k buf f \<longleftrightarrow>
     (\<exists>w bytes. bytes = saved_bytes THRD_magic (hdr2_bytes k 0) (level \<noteq> 0) (length buf) w \<and>
        cf_close z fuel f = Inr bytes \<and> (level = 0 \<longrightarrow> w = buf) \<and>
        (length buf < 2 ^ 64 \<longrightarrow> (level = 0 \<longrightarrow> buf \<noteq> []) \<longrightarrow>
           (\<forall>timer. length bytes + length buf < timer \<longrightarrow>
              fetch_file z timer sizeof_thread_hdr THRD_magic bytes = Inr (hdr2_bytes k 0, buf))))"

definition threads_agree ::
    "('c, 'd) zstd_lib \<Rightarrow> nat \<Rightarrow> int \<Rightarrow> u64 \<times> thread_ctx \<Rightarrow> u64 \<times> ('c, 'd) stream_ctx \<Rightarrow> bool" where
  "threads_agree z fuel level p q \<longleftrightarrow> (case (p, q) of ((k, c), (k', t)) \<Rightarrow>
     k = k' \<and> log_stream c = None \<and> sc_last_cpu_ctx t = last_cpu_ctx c \<and> sc_num_inst t = num_inst c \<and>
     sc_sz_since_last_sync t = sz_since_last_sync c \<and>
     (\<exists>f. sc_log_stream t = Some f \<and> file_holds z fuel level k (log_buf c) f))"

definition logs_agree :: "('c, 'd) zstd_lib \<Rightarrow> nat \<Rightarrow> int \<Rightarrow> trace_log \<Rightarrow> ('c, 'd) stream_log \<Rightarrow> bool" where
  "logs_agree z fuel level lg sl \<longleftrightarrow> m_num_inst lg = sl_num_inst sl \<and> \<not> m_stream lg \<and> sl_stream sl \<and>
     sl_compression_level sl = level \<and> entries_rel (threads_agree z fuel level) (m_thread_ctxs lg) (sl_thread_ctxs sl)"

lemma thread_rel_agree:
  assumes z: "cctx_ok z frame m cinv held" "decompressor_ok z frame" and m: "m < fuel" and r: "thread_rel cinv level p q"
  shows "threads_agree z fuel level p q"
proof -
  obtain k c t where pq: "p = (k, c)" "q = (k, t)" using r by (cases p; cases q) (simp add: thread_rel_def)
  obtain f where f: "sc_log_stream t = Some f"
    "writing cinv (stream_comp_hdr level) (hdr2_bytes k 0) (level \<noteq> 0) (log_buf c) f"
    using r by (auto simp: pq thread_rel_def)
  from writing_close [OF z(1) m hdr2_not_Nil f(2)] obtain w where
    w: "cf_close z fuel f = Inr (saved_bytes THRD_magic (hdr2_bytes k 0) (level \<noteq> 0) (length (log_buf c)) w)"
      "if level \<noteq> 0 then frame w (log_buf c) else w = log_buf c" by (auto simp: saved_bytes_def stream_comp_hdr_def)
  have "fetch_file z timer sizeof_thread_hdr THRD_magic
      (saved_bytes THRD_magic (hdr2_bytes k 0) (level \<noteq> 0) (length (log_buf c)) w) = Inr (hdr2_bytes k 0, log_buf c)"
    if "length (log_buf c) < 2 ^ 64" "level = 0 \<longrightarrow> log_buf c \<noteq> []"
      "length (saved_bytes THRD_magic (hdr2_bytes k 0) (level \<noteq> 0) (length (log_buf c)) w) + length (log_buf c) < timer" for timer
    using fetch_saved [OF hdr2_not_Nil _ that(1) z(2), of k 0 "level \<noteq> 0" w timer THRD_magic] that(2,3) w(2)
    by (auto simp: sizeof_thread_hdr_def saved_bytes_def)
  then have "file_holds z fuel level k (log_buf c) f" using w by (auto simp: file_holds_def)
  with f(1) r show ?thesis by (simp add: pq threads_agree_def thread_rel_def)
qed

lemma log_rel_agree:
  assumes "cctx_ok z frame m cinv held" "decompressor_ok z frame" and "m < fuel" and "log_rel cinv level lg sl"
  shows "logs_agree z fuel level lg sl"
proof -
  have "list_all2 (threads_agree z fuel level) (m_key_vals (m_thread_ctxs lg)) (m_key_vals (sl_thread_ctxs sl))"
    by (rule list_all2_mono [OF log_ctxs_rel [OF assms(4)]]) (rule thread_rel_agree [OF assms(1-3)])
  then show ?thesis using assms(4) by (simp add: log_rel_def logs_agree_def entries_rel_def)
qed

section \<open>Properties\<close>


text \<open>Two threads, whose calls alternate.\<close>

definition sample_calls :: "(u32 \<times> log_arm64_cpu_context) list" where
  "sample_calls = [(0x80005, sample_ctx 0x1000 0 0), (5, sample_ctx 0x1004 3 7), (0x80005, sample_ctx 0x1004 3 7)]"

lemma sample_build:
  "\<exists>m. mph_build reference_lib 10 (single_mph reference_lib) [ucast (0x80005 :: u32), ucast (5 :: u32)] = Inr m"
proof -
  have "\<not> isl (mph_build reference_lib 10 (single_mph reference_lib) [0x80005, 5])" by code_simp
  then show ?thesis by (cases "mph_build reference_lib 10 (single_mph reference_lib) [0x80005, 5]") simp_all
qed

lemma write_one:
  assumes "wf_ctx (last_cpu_ctx t)" "wf_ctx c" "encodable (last_cpu_ctx t) c"
  obtains t' where "write_log_msg c t = Inr t'" "last_cpu_ctx t' = c"
  using write_log_msg_eq [OF assms(1,2)] assms(3) by auto

lemma sample_calls_in_order: "calls_in_order reference_lib 10 sample_calls (fst (trace_log_start False []))"
proof -
  let ?lg0 = "fst (trace_log_start False [])" and ?e = reference_lib
  let ?c0 = "sample_ctx 0x1000 0 0" and ?c1 = "sample_ctx 0x1004 3 7"
  have lg0: "m_thread_ctxs ?lg0 = \<lparr>m_mph = mph_empty, m_key_vals = []\<rparr>" "\<not> m_stream ?lg0"
    by (simp_all add: trace_log_start_def)
  have f: "last_cpu_ctx (first_thread_ctx False c) = c" for c by (simp add: first_thread_ctx_def)
  obtain t0 where t0: "write_log_msg ?c0 (first_thread_ctx False ?c0) = Inr t0" "last_cpu_ctx t0 = ?c0"
    by (rule write_one [of "first_thread_ctx False ?c0" ?c0]) (simp_all add: f sample_wf diff_same)
  obtain t1 where t1: "write_log_msg ?c1 (first_thread_ctx False ?c1) = Inr t1"
    by (rule write_one [of "first_thread_ctx False ?c1" ?c1]) (simp_all add: f sample_wf diff_same)
  obtain t2 where t2: "write_log_msg ?c1 t0 = Inr t2"
    by (rule write_one [of t0 ?c1]) (use sample_run in \<open>simp_all add: t0(2) sample_wf\<close>)
  note en = first_entry(1) [OF reference_lib_ok(1,2) lg0, of 10 ?c0 "0x80005"]
    and wf = first_entry(2) [OF reference_lib_ok(1,2) lg0, of "0x80005" "first_thread_ctx False ?c0"]
  let ?mp = "\<lparr>m_mph = single_mph ?e, m_key_vals = [(ucast (0x80005 :: u32) :: u64, first_thread_ctx False ?c0)]\<rparr>"
  have 0: "0 < length (m_key_vals ?mp)" "m_key_vals ?mp ! 0 = (ucast (0x80005 :: u32), first_thread_ctx False ?c0)" by simp_all
  from log_at_entry [OF en wf 0 t0(1)] obtain lg1 where l1: "trace_log_ctx ?e 10 0x80005 ?c0 ?lg0 = Inr lg1"
    "map_wf ?e (m_thread_ctxs lg1)" "m_mph (m_thread_ctxs lg1) = m_mph ?mp" "mph_map_keys (m_thread_ctxs lg1) = mph_map_keys ?mp"
    "m_stream lg1 = m_stream ?lg0" "map_value (m_thread_ctxs lg1) = (map_value ?mp)(ucast (0x80005 :: u32) \<mapsto> t0)" by metis
  then have "m_key_vals (m_thread_ctxs lg1) = [(ucast (0x80005 :: u32), t0)]"
    by (intro map_value_single) (simp_all add: mph_map_keys_def)
  then have mp: "m_thread_ctxs lg1 = \<lparr>m_mph = single_mph ?e, m_key_vals = [(ucast (0x80005 :: u32), t0)]\<rparr>" using l1(3) by simp
  have st: "\<not> m_stream lg1" using l1(5) lg0(2) by simp
  have ab: "(ucast (0x80005 :: u32) :: u64) \<noteq> ucast (5 :: u32)" by simp
  obtain m where "mph_build ?e 10 (single_mph ?e) [ucast (0x80005 :: u32), ucast (5 :: u32)] = Inr m" using sample_build by blast
  from log_second [OF reference_lib_ok(1,2) mp l1(2) st ab this t1] obtain lg2 where
    l2: "trace_log_ctx ?e 10 5 ?c1 lg1 = Inr lg2" "map_wf ?e (m_thread_ctxs lg2)"
    "map_value (m_thread_ctxs lg2) = (map_value (m_thread_ctxs lg1))(ucast (5 :: u32) \<mapsto> t1)" by metis
  have "map_value (m_thread_ctxs lg2) (ucast (0x80005 :: u32)) = Some t0" using l2(3) mp ab by (simp add: map_value_def)
  from log_present [OF l2(2) this t2, of 10] obtain lg3 where l3: "trace_log_ctx ?e 10 0x80005 ?c1 lg2 = Inr lg3"
    "map_wf ?e (m_thread_ctxs lg3)" by metis
  show ?thesis
    using start_holds(2) l1(1,2) l2(1,2) l3 by (simp add: sample_calls_def)
qed


text \<open>C20: The streamed log refines the one in memory, under the contract of the compressor and
  enough fuel: for every sequence of calls with whole contexts, of any number of threads and of
  both kinds, either both logs fail with the same fault, or the counts agree, the maps of
  contexts have the same hash and the same keys in the same places, and every thread's
  open file holds the log: closed as it is, it becomes a container with the thread's number from
  which reading gives exactly the bytes that the other log has in that thread's buffer.\<close>

theorem streamed_log_refines:
  assumes "compressor_ok z frame m" "decompressor_ok z frame" and "stream_fuel m fuel" and "\<forall>call \<in> set calls. wf_call call"
  shows "res_rel (logs_agree z fuel level)
     (fold_res (buffered_call e timer) calls (fst (trace_log_start False dir)))
     (fold_res (streamed_call z cores fuel e timer) calls (stream_log_start True level))"
proof -
  obtain cinv held where z: "cctx_ok z frame m cinv held" "zstd_c_out_size z > 0"
    by (rule compressor_contract [OF assms(1)])
  have "m < fuel" using assms(3) by (simp add: stream_fuel_def)
  then have "logs_agree z fuel level lg sl" if "log_rel cinv level lg sl" for lg and sl :: "('a, 'b) stream_log"
    using log_rel_agree [OF z(1) assms(2) _ that] by simp
  moreover have "res_rel (log_rel cinv level)
     (fold_res (buffered_call e timer) calls (fst (trace_log_start False dir)))
     (fold_res (streamed_call z cores fuel e timer) calls (stream_log_start True level))"
    by (rule calls_refine [OF _ assms(3,4) start_refines]) (use z in blast)
  ultimately show ?thesis by (auto elim!: rel_sum.cases)
qed

lemma pc_call_present:
  assumes "map_wf e (m_thread_ctxs lg)" and "map_value (m_thread_ctxs lg) (ucast th) = Some t"
  obtains lg' where "trace_log_pc e timer th pc lg = Inr lg'"
    "mph_map_keys (m_thread_ctxs lg') = mph_map_keys (m_thread_ctxs lg)"
proof -
  obtain i where i: "thread_entry e timer (zero_ctx\<lparr>ctx_pc := pc\<rparr>) th lg = Inr (m_thread_ctxs lg, i)"
    "i < length (m_key_vals (m_thread_ctxs lg))" "m_key_vals (m_thread_ctxs lg) ! i = (ucast th, t)"
    by (rule entry_present [OF assms])
  then have "mph_map_keys ((m_thread_ctxs lg)\<lparr>m_key_vals := (m_key_vals (m_thread_ctxs lg))[i := (ucast th, t')]\<rparr>) =
      mph_map_keys (m_thread_ctxs lg)" for t'
    by (simp add: mph_map_keys_def map_update list_update_same_conv)
  moreover have "trace_log_pc e timer th pc lg = Inr (lg\<lparr>m_thread_ctxs := (m_thread_ctxs lg)\<lparr>m_key_vals :=
      (m_key_vals (m_thread_ctxs lg))[i := (ucast th, write_log_msg_pc pc t)]\<rparr>, m_num_inst := m_num_inst lg + 1\<rparr>)"
    using i by (simp add: trace_log_pc_def at_def)
  ultimately show thesis using that by simp
qed

theorem streamed_log_refines_witness:
  "\<exists>lg sl.
     fold_res (buffered_call reference_lib 10) (map (\<lambda>(th, c). Log_Context th c) sample_calls @ [Log_Pc 5 0x2000])
       (fst (trace_log_start False [])) = Inr lg \<and>
     fold_res (streamed_call store_zstd 8 9001 reference_lib 10)
       (map (\<lambda>(th, c). Log_Context th c) sample_calls @ [Log_Pc 5 0x2000]) (stream_log_start True 3) = Inr sl \<and>
     set (mph_map_keys (m_thread_ctxs lg)) = {5, 0x80005} \<and> logs_agree store_zstd 9001 3 lg sl"
proof -
  let ?calls = "map (\<lambda>(th, c). Log_Context th c) sample_calls @ [Log_Pc 5 0x2000]"
  have "length ([] :: (u32 \<times> log_arm64_cpu_context) list) + length sample_calls < 2 ^ 31" by (simp add: sample_calls_def)
  from calls_hold [OF reference_lib_ok(1,2) sample_calls_in_order start_holds(1) this] obtain lg1 where
    l1: "fold_res (buffered_call reference_lib 10) (map (\<lambda>(th, c). Log_Context th c) sample_calls)
      (fst (trace_log_start False [])) = Inr lg1"
    and h: "threads_hold sample_calls lg1" and wf: "map_wf reference_lib (m_thread_ctxs lg1)" by auto
  have keys: "set (mph_map_keys (m_thread_ctxs lg1)) = {5, 0x80005}"
    using h dom_map_of_conv_image_fst [of "m_key_vals (m_thread_ctxs lg1)"]
    by (auto simp: threads_hold_def sample_calls_def mph_map_keys_def map_value_def dom_def)
  have "contexts_of 5 sample_calls \<noteq> []" by (simp add: contexts_of_def sample_calls_def)
  then obtain t where t: "map_value (m_thread_ctxs lg1) (ucast (5 :: u32)) = Some t"
    using holds_thread [OF h, of 5] by (auto simp: thread_written_def split: list.splits)
  obtain lg where l2: "trace_log_pc reference_lib 10 5 0x2000 lg1 = Inr lg"
    "mph_map_keys (m_thread_ctxs lg) = mph_map_keys (m_thread_ctxs lg1)" by (rule pc_call_present [OF wf t])
  have run: "fold_res (buffered_call reference_lib 10) ?calls (fst (trace_log_start False [])) = Inr lg"
    using l1 l2(1) by (simp add: fold_res_append)
  have wfc: "\<forall>call \<in> set ?calls. wf_call call" by (auto simp: sample_calls_def sample_wf)
  have sf: "stream_fuel 0 9001"
    by (simp add: stream_fuel_def size_full_ctx_def sync_frame_sz_def length_sync_hdr sizeof_ctx_def size_max_def
      rpc_num_changed_max_def)
  from res_rel_InrD [OF streamed_log_refines [OF store_compressor_ok store_decompressor_ok sf wfc] run, of 8 3]
  show ?thesis using run keys l2(2) by auto
qed

end
