(* ===== verification/PipedTarget.thy ===== *)
theory PipedTarget
  imports TracerProps
begin

text \<open>
  \<^verbatim>\<open>test/yield-loop-step-test.cpp\<close>, the program that is traced under the control pipe: it asks its
  tracer to start stepping, yields five times, asks it to stop and ends.  Its \<^verbatim>\<open>main\<close> after the
  parsing of its options runs here together with the tracer of \<open>Tracer\<close>; the two pipes between
  them are queues of bytes.  The in-process tracer that \<^verbatim>\<open>--frida-stalker\<close> adds is left out, it is
  in \<open>Stalker\<close>.
\<close>

section \<open>The traced program\<close>

text \<open>
  Where \<^verbatim>\<open>main\<close> is: before the first request, waiting for the answer to a request, in the loop,
  at its end, after the null dereference, or in an assertion that failed.
\<close>

datatype place = At_Start | Asking bool | Yielding | Ended | Crashed | Failed

text \<open>
  \<open>restarts\<close> says whether the \<^verbatim>\<open>sa_flags\<close> that \<^verbatim>\<open>setup_sig_handler\<close> leaves indeterminate make the kernel
  restart a call that a signal interrupts.
\<close>

record yield_opts =
  do_pipe :: bool
  crash_on_attach :: bool
  forever :: bool
  restarts :: bool

record yielder =
  y_place :: place
  num_yields :: u64
  should_stop :: bool

definition yielder_start :: yielder where
  "yielder_start = \<lparr>y_place = At_Start, num_yields = 0, should_stop = False\<rparr>"

definition sig_handler :: "yielder \<Rightarrow> yielder" where
  "sig_handler y = y\<lparr>should_stop := True\<rparr>"

definition null_deref :: "yielder \<Rightarrow> yielder" where
  "null_deref y = y\<lparr>y_place := Crashed\<rparr>"

text \<open>One turn of the loop; \<open>attached\<close> is whether \<^verbatim>\<open>get_task_for_pid_count\<close> does not answer 0.\<close>

definition yield_turn :: "yield_opts \<Rightarrow> bool \<Rightarrow> yielder \<Rightarrow> yielder" where
  "yield_turn opt attached y =
     (let y = y\<lparr>num_yields := num_yields y + 1\<rparr>
      in if crash_on_attach opt \<and> attached then null_deref y
         else if num_yields y > 4 \<and> \<not> forever opt then y\<lparr>should_stop := True\<rparr> else y)"

section \<open>Its ends of the pipes\<close>

record pipes =
  to_tracer :: buffer
  to_target :: buffer

definition target_write :: "u32 \<Rightarrow> byte \<Rightarrow> pipes \<Rightarrow> pipes option" where
  "target_write fd b p = (if fd = PIPE_TARGET2TRACER_FD then Some (p\<lparr>to_tracer := to_tracer p @ [b]\<rparr>) else None)"

definition target_read :: "u32 \<Rightarrow> pipes \<Rightarrow> (byte \<times> pipes) option" where
  "target_read fd p =
     (if fd = PIPE_TRACER2TARGET_FD then (case to_target p of [] \<Rightarrow> None | b # bs \<Rightarrow> Some (b, p\<lparr>to_target := bs\<rparr>)) else None)"

text \<open>An assertion that fails ends the program.\<close>

definition proceed :: "pipes res \<Rightarrow> place \<Rightarrow> pipes \<times> yielder \<Rightarrow> pipes \<times> yielder" where
  "proceed r next_place py = (case (r, py) of
       (Inr p, _, y) \<Rightarrow> (p, y\<lparr>y_place := next_place\<rparr>)
     | (Inl _, p, y) \<Rightarrow> (p, y\<lparr>y_place := Failed\<rparr>))"

text \<open>What \<^verbatim>\<open>main\<close> does next; nothing at its end and while a read has to wait.\<close>

definition yielder_step :: "yield_opts \<Rightarrow> bool \<Rightarrow> pipes \<times> yielder \<Rightarrow> (pipes \<times> yielder) option" where
  "yielder_step opt attached py = (case py of (p, y) \<Rightarrow>
     (case y_place y of
        At_Start \<Rightarrow>
          Some (if do_pipe opt then proceed (pipe_request target_write True p) (Asking True) py
                else (p, y\<lparr>y_place := Yielding\<rparr>))
      | Asking do_ss \<Rightarrow>
          if to_target p = [] then None
          else Some (proceed (pipe_answer target_read p) (if do_ss then Yielding else Ended) py)
      | Yielding \<Rightarrow>
          Some (if \<not> should_stop y then (p, yield_turn opt attached y)
                else if do_pipe opt then proceed (pipe_request target_write False p) (Asking False) py
                else (p, y\<lparr>y_place := Ended\<rparr>))
      | _ \<Rightarrow> None))"

section \<open>The program and its tracer\<close>

datatype 'k joint_event = Target_Runs bool | Signal_Handled | Read_Interrupted | Tracer_Event "'k event"

record 'k joint =
  j_tracer :: "'k tracer"
  j_pipes :: pipes
  j_target :: yielder

definition joint_start :: "'k tracer \<Rightarrow> 'k joint" where
  "joint_start tr = \<lparr>j_tracer = tr, j_pipes = \<lparr>to_tracer = [], to_target = []\<rparr>, j_target = yielder_start\<rparr>"

fun meanwhile :: "'k event \<Rightarrow> bool" where
  "meanwhile (Breakpoint th st) = True"
| "meanwhile (Outside k) = True"
| "meanwhile _ = False"

text \<open>
  A byte that the tracer reads is the first of its pipe; a block that has run has written its
  answer last.
\<close>

inductive joint_step :: "'k sys \<Rightarrow> yield_opts \<Rightarrow> 'k joint_event \<Rightarrow> 'k joint \<Rightarrow> 'k joint \<Rightarrow> bool" for m opt where
  target_runs: "yielder_step opt attached (j_pipes s, j_target s) = Some (p, y) \<Longrightarrow>
    joint_step m opt (Target_Runs attached) s (s\<lparr>j_pipes := p, j_target := y\<rparr>)"
| signal_handled: "y_place (j_target s) \<notin> {Ended, Crashed, Failed} \<Longrightarrow>
    joint_step m opt Signal_Handled s (s\<lparr>j_target := sig_handler (j_target s)\<rparr>)"
| read_interrupted: "y_place (j_target s) = Asking b \<Longrightarrow> to_target (j_pipes s) = [] \<Longrightarrow> \<not> restarts opt \<Longrightarrow>
    joint_step m opt Read_Interrupted s (s\<lparr>j_target := (sig_handler (j_target s))\<lparr>y_place := Failed\<rparr>\<rparr>)"
| byte_read: "to_tracer (j_pipes s) = b # bs \<Longrightarrow> m_target2tracer_fd (j_tracer s) = Some fd \<Longrightarrow>
    k_read m fd (os (j_tracer s)) = Some (b, k) \<Longrightarrow> tracer_step m Pipe_Readable (j_tracer s) tr \<Longrightarrow>
    joint_step m opt (Tracer_Event Pipe_Readable) s (s\<lparr>j_tracer := tr, j_pipes := (j_pipes s)\<lparr>to_tracer := bs\<rparr>\<rparr>)"
| block_run: "m_blocks (j_tracer s) \<noteq> [] \<Longrightarrow> tracer_step m Pipe_Block (j_tracer s) tr \<Longrightarrow>
    joint_step m opt (Tracer_Event Pipe_Block) s
      (s\<lparr>j_tracer := tr, j_pipes := (j_pipes s)\<lparr>to_target := to_target (j_pipes s) @ [of_char (CHR ''c'')]\<rparr>\<rparr>)"
| in_between: "meanwhile e \<Longrightarrow> tracer_step m e (j_tracer s) tr \<Longrightarrow>
    joint_step m opt (Tracer_Event e) s (s\<lparr>j_tracer := tr\<rparr>)"

section \<open>What the tracer's events do to its queue\<close>

text \<open>The blocks and the flag, the part of the tracer the program depends on.\<close>

definition control :: "'k tracer \<Rightarrow> bool list \<times> bool" where
  "control tr = (m_blocks tr, m_single_stepping tr)"

lemma measuring_blocks:
  "start_measuring_stats m tr = Inr tr' \<Longrightarrow> m_blocks tr' = m_blocks tr"
  "stop_measuring_stats m tr = Inr tr' \<Longrightarrow> m_blocks tr' = m_blocks tr"
  by (auto simp: start_measuring_stats_def stop_measuring_stats_def res_simps split: if_splits)

lemma suspension_blocks:
  "suspend m tr = Inr tr' \<Longrightarrow> m_blocks tr' = m_blocks tr"
  "resume m tr = Inr tr' \<Longrightarrow> m_blocks tr' = m_blocks tr"
  by (auto simp: suspend_def resume_def Let_def res_simps split: if_splits dest!: measuring_blocks)

lemma set_single_step_blocks: "set_single_step m b tr = Inr tr' \<Longrightarrow> m_blocks tr' = m_blocks tr"
  by (auto simp: set_single_step_def tracer_reset_def install_breakpoint_exception_handler_def
      uninstall_breakpoint_exception_handler_def res_simps split: if_splits dest!: suspension_blocks)

lemma pipe_ack_writes:
  assumes "pipe_ack m tr = Inr tr'"
  shows "control tr' = control tr" and "\<exists>fd. m_tracer2target_fd tr = Some fd \<and> k_write m fd (of_char (CHR ''c'')) (os tr) = Some (os tr')"
  using assms by (auto simp: pipe_ack_def control_def res_simps split: option.splits)

lemma block_control:
  assumes "tracer_kernel_ok m tr" and "m_blocks tr = b # bs" and "pipe_block m tr = Inr tr'"
  shows "control tr' = (bs, b)" and "\<exists>fd k. k_write m fd (of_char (CHR ''c'')) k = Some (os tr')"
proof -
  let ?tr = "tr\<lparr>m_blocks := bs\<rparr>"
  have ok: "tracer_kernel_ok m ?tr" using assms(1) by (simp add: blocks_irrelevant)
  from assms(2,3) obtain tr1 tr2 where tr1: "set_single_step m b ?tr = Inr tr1"
    and tr2: "start_measuring_stats m tr1 = Inr tr2 \<or> stop_measuring_stats m tr1 = Inr tr2 \<or> tr2 = tr1"
    and tr': "pipe_ack m tr2 = Inr tr'"
    by (cases b) (auto simp: pipe_block_def pipe_start_def pipe_stop_def res_simps split: if_splits)
  have "control tr2 = control tr1"
    using tr2 measuring_blocks [of m tr1 tr2] measuring_keeps(3) [OF tr2] by (auto simp: control_def)
  with set_single_step_blocks [OF tr1] set_single_step_acts(2) [OF ok tr1] pipe_ack_writes [OF tr']
  show "control tr' = (bs, b)" and "\<exists>fd k. k_write m fd (of_char (CHR ''c'')) k = Some (os tr')"
    by (auto simp: control_def)
qed

definition request_byte :: "bool \<Rightarrow> byte" where
  "request_byte b = of_char (if b then CHR ''y'' else CHR ''n'')"

lemma read_control:
  assumes "k_read m fd (os tr) = Some (request_byte b, k)" and "m_target2tracer_fd tr = Some fd"
  shows "pipe_readable m tr = Inr (tr\<lparr>os := k, m_blocks := m_blocks tr @ [b]\<rparr>)"
  using assms by (cases b) (simp_all add: pipe_readable_def request_byte_def assert_some_def)

lemma meanwhile_control: "tracer_step m e tr tr' \<Longrightarrow> meanwhile e \<Longrightarrow> control tr' = control tr"
  by (cases e) (auto simp: control_def exception_raise_state_identity_def res_simps)

section \<open>The handshake\<close>

definition idle :: "'k joint \<Rightarrow> bool" where
  "idle s \<longleftrightarrow> to_tracer (j_pipes s) = [] \<and> to_target (j_pipes s) = [] \<and> m_blocks (j_tracer s) = []"

text \<open>
  A request is a byte on its way, a block that waits for its turn, or an answer on its way back.
\<close>

definition asked :: "bool \<Rightarrow> 'k joint \<Rightarrow> bool" where
  "asked b s \<longleftrightarrow>
     (to_tracer (j_pipes s), to_target (j_pipes s), control (j_tracer s)) \<in>
       {([request_byte b], [], [], \<not> b), ([], [], [b], \<not> b), ([], [of_char (CHR ''c'')], [], b)}"

definition handshake :: "yield_opts \<Rightarrow> 'k joint \<Rightarrow> bool" where
  "handshake opt s \<longleftrightarrow> (case y_place (j_target s) of
       At_Start \<Rightarrow> idle s \<and> \<not> m_single_stepping (j_tracer s)
     | Asking b \<Rightarrow> asked b s
     | Yielding \<Rightarrow> idle s \<and> m_single_stepping (j_tracer s)
     | Ended \<Rightarrow> idle s \<and> \<not> m_single_stepping (j_tracer s)
     | Crashed \<Rightarrow> idle s \<and> m_single_stepping (j_tracer s)
     | Failed \<Rightarrow> \<not> restarts opt \<and> (\<exists>b. asked b s))"

definition counted :: "yielder \<Rightarrow> bool" where
  "counted y \<longleftrightarrow> (case y_place y of
       At_Start \<Rightarrow> num_yields y = 0
     | Asking b \<Rightarrow> if b then num_yields y = 0 else num_yields y \<le> 5
     | Yielding \<Rightarrow> num_yields y \<le> 5 \<and> (should_stop y \<or> num_yields y \<le> 4)
     | _ \<Rightarrow> num_yields y \<le> 5)"

definition joint_inv :: "'k sys \<Rightarrow> yield_opts \<Rightarrow> 'k joint \<Rightarrow> bool" where
  "joint_inv m opt s \<longleftrightarrow> do_pipe opt \<and> exceptions_inv m (j_tracer s) \<and> handshake opt s \<and>
     (forever opt \<or> counted (j_target s))"

lemma asked_target [simp]: "asked b (s\<lparr>j_target := y\<rparr>) = asked b s"
  by (simp add: asked_def)

lemmas handshake_defs = handshake_def idle_def asked_def control_def

lemma requests [simp]:
  "pipe_request target_write b p = Inr (p\<lparr>to_tracer := to_tracer p @ [request_byte b]\<rparr>)"
  by (simp add: pipe_request_def target_write_def request_byte_def assert_some_def)

lemma answers [simp]:
  "to_target p = [of_char (CHR ''c'')] \<Longrightarrow> pipe_answer target_read p = Inr (p\<lparr>to_target := []\<rparr>)"
  by (simp add: pipe_answer_def target_read_def assert_some_def)

lemma turn_counts:
  assumes "num_yields y \<le> 4" and "\<not> forever opt"
  shows "num_yields (yield_turn opt attached y) \<le> 5"
    and "y_place (yield_turn opt attached y) \<in> {y_place y, Crashed}"
    and "should_stop (yield_turn opt attached y) \<or> num_yields (yield_turn opt attached y) \<le> 4 \<or>
      y_place (yield_turn opt attached y) = Crashed"
  using assms by (auto simp: yield_turn_def null_deref_def Let_def) unat_arith+

lemma target_inv:
  assumes "yielder_step opt attached (j_pipes s, j_target s) = Some (p, y)" and inv: "joint_inv m opt s"
  shows "joint_inv m opt (s\<lparr>j_pipes := p, j_target := y\<rparr>)"
proof -
  have "handshake opt (s\<lparr>j_pipes := p, j_target := y\<rparr>)"
    using assms
    by (auto simp: joint_inv_def handshake_defs yielder_step_def proceed_def yield_turn_def null_deref_def Let_def
        split: place.splits if_splits)
  moreover have "counted y" if "\<not> forever opt"
    using assms turn_counts [OF _ that, of "j_target s" attached] that
    by (auto simp: joint_inv_def handshake_defs counted_def yielder_step_def proceed_def
        split: place.splits if_splits)
  ultimately show ?thesis using inv by (auto simp: joint_inv_def)
qed

lemma tracer_inv:
  assumes "tracer_step m e (j_tracer s) tr" and "joint_inv m opt s" and "handshake opt (s\<lparr>j_tracer := tr, j_pipes := p\<rparr>)"
  shows "joint_inv m opt (s\<lparr>j_tracer := tr, j_pipes := p\<rparr>)"
  using assms tracer.inv_step by (auto simp: joint_inv_def)

text \<open>While a request is pending its stages follow one another, also for a program that has gone.\<close>

lemma pending:
  assumes "handshake opt s" and "\<not> idle s"
  obtains do_ss where "asked do_ss s" and "\<And>tr p. asked do_ss (s\<lparr>j_tracer := tr, j_pipes := p\<rparr>) \<Longrightarrow> handshake opt (s\<lparr>j_tracer := tr, j_pipes := p\<rparr>)"
proof -
  have "\<exists>do_ss. asked do_ss s \<and> (\<forall>tr p. asked do_ss (s\<lparr>j_tracer := tr, j_pipes := p\<rparr>) \<longrightarrow> handshake opt (s\<lparr>j_tracer := tr, j_pipes := p\<rparr>))"
    using assms by (auto simp: handshake_def split: place.splits)
  then show thesis using that by blast
qed

lemma read_stage:
  assumes "asked do_ss s" and "to_tracer (j_pipes s) = b # bs" and "m_target2tracer_fd (j_tracer s) = Some fd"
    and "k_read m fd (os (j_tracer s)) = Some (b, k)" and "tracer_step m Pipe_Readable (j_tracer s) tr"
  shows "b = request_byte do_ss" "bs = []" "to_target (j_pipes s) = []" "control (j_tracer s) = ([], \<not> do_ss)" "control tr = ([do_ss], \<not> do_ss)"
proof -
  show b: "b = request_byte do_ss" and e: "bs = []" "to_target (j_pipes s) = []" "control (j_tracer s) = ([], \<not> do_ss)"
    using assms(1,2) by (auto simp: asked_def)
  have "tr = (j_tracer s)\<lparr>os := k, m_blocks := m_blocks (j_tracer s) @ [do_ss]\<rparr>"
    using assms(3-5) b read_control by fastforce
  then show "control tr = ([do_ss], \<not> do_ss)" using e(3) by (simp add: control_def)
qed

lemma block_stage:
  assumes "asked do_ss s" and "m_blocks (j_tracer s) \<noteq> []" and "tracer_step m Pipe_Block (j_tracer s) tr" and "joint_inv m opt s"
  shows "to_tracer (j_pipes s) = []" "to_target (j_pipes s) = []" "m_blocks (j_tracer s) = [do_ss]" "control tr = ([], do_ss)"
proof -
  show "to_tracer (j_pipes s) = []" "to_target (j_pipes s) = []" and c: "m_blocks (j_tracer s) = [do_ss]"
    using assms(1,2) by (auto simp: asked_def control_def)
  have "tracer_kernel_ok m (j_tracer s)" using assms(4) by (simp add: joint_inv_def exceptions_inv_def)
  from block_control(1) [OF this c] assms(3) show "control tr = ([], do_ss)" by auto
qed

lemma joint_inv_step:
  assumes "joint_step m opt e s t" and inv: "joint_inv m opt s"
  shows "joint_inv m opt t"
  using assms(1)
proof (cases rule: joint_step.cases)
  case (target_runs attached p y)
  then show ?thesis using target_inv [OF _ inv] by simp
next
  case signal_handled
  then show ?thesis
    using inv by (auto simp: joint_inv_def handshake_defs counted_def sig_handler_def split: place.splits)
next
  case (read_interrupted b)
  then show ?thesis
    using inv by (cases b) (auto simp: joint_inv_def handshake_def counted_def sig_handler_def)
next
  case (byte_read b bs fd k tr)
  have "\<not> idle s" using byte_read(3) by (simp add: idle_def)
  then obtain do_ss where a: "asked do_ss s"
    and h: "\<And>tr p. asked do_ss (s\<lparr>j_tracer := tr, j_pipes := p\<rparr>) \<Longrightarrow> handshake opt (s\<lparr>j_tracer := tr, j_pipes := p\<rparr>)"
    using pending inv unfolding joint_inv_def by blast
  from read_stage [OF a byte_read(3-6)] h [of "(j_pipes s)\<lparr>to_tracer := bs\<rparr>" tr]
  have "handshake opt (s\<lparr>j_tracer := tr, j_pipes := (j_pipes s)\<lparr>to_tracer := bs\<rparr>\<rparr>)" by (simp add: asked_def)
  then show ?thesis using byte_read tracer_inv [OF _ inv] by simp
next
  case (block_run tr)
  have "\<not> idle s" using block_run(3) by (simp add: idle_def)
  then obtain do_ss where a: "asked do_ss s"
    and h: "\<And>tr p. asked do_ss (s\<lparr>j_tracer := tr, j_pipes := p\<rparr>) \<Longrightarrow> handshake opt (s\<lparr>j_tracer := tr, j_pipes := p\<rparr>)"
    using pending inv unfolding joint_inv_def by blast
  from block_stage [OF a block_run(3,4) inv] h [of "(j_pipes s)\<lparr>to_target := to_target (j_pipes s) @ [of_char (CHR ''c'')]\<rparr>" tr]
  have "handshake opt (s\<lparr>j_tracer := tr, j_pipes := (j_pipes s)\<lparr>to_target := to_target (j_pipes s) @ [of_char (CHR ''c'')]\<rparr>\<rparr>)"
    by (simp add: asked_def)
  then show ?thesis using block_run tracer_inv [OF _ inv] by simp
next
  case (in_between e tr)
  then have "control tr = control (j_tracer s)" by (blast intro: meanwhile_control)
  then have "handshake opt (s\<lparr>j_tracer := tr, j_pipes := j_pipes s\<rparr>)"
    using inv by (auto simp: joint_inv_def handshake_defs split: place.splits)
  then show ?thesis using in_between tracer_inv [OF _ inv, of _ tr "j_pipes s"] by simp
qed

interpretation joint: step_system "joint_step m opt" "joint_inv m opt" for m opt
  by unfold_locales (rule joint_inv_step)

section \<open>It ends\<close>

text \<open>The steps left of a request, and of the program when it does not run forever.\<close>

definition request_left :: "'k joint \<Rightarrow> nat" where
  "request_left s = 3 * length (to_tracer (j_pipes s)) + 2 * length (m_blocks (j_tracer s)) + length (to_target (j_pipes s))"

lemma request_left_target [simp]: "request_left (s\<lparr>j_target := y\<rparr>) = request_left s"
  by (simp add: request_left_def)

definition steps_left :: "'k joint \<Rightarrow> nat" where
  "steps_left s = (case y_place (j_target s) of
       At_Start \<Rightarrow> 13
     | Asking b \<Rightarrow> request_left s + (if b then 9 else 0)
     | Yielding \<Rightarrow> if should_stop (j_target s) then 4 else 9 - unat (num_yields (j_target s))
     | _ \<Rightarrow> request_left s)"

text \<open>The events of the program and of the two requests; the others are free to happen at any time.\<close>

fun of_session :: "'k joint_event \<Rightarrow> bool" where
  "of_session (Target_Runs attached) = True"
| "of_session (Tracer_Event e) = (\<not> meanwhile e)"
| "of_session _ = False"

definition joint_cost :: "'k joint_event \<Rightarrow> nat" where
  "joint_cost e = of_bool (\<not> of_session e)"

lemma turn_left:
  assumes "y_place (j_target s) = Yielding" and "\<not> should_stop (j_target s)" and "\<not> forever opt" and "num_yields (j_target s) \<le> 4" and "idle s"
  shows "steps_left (s\<lparr>j_target := yield_turn opt attached (j_target s)\<rparr>) + 1 \<le> steps_left s"
proof -
  have "unat (num_yields (j_target s)) \<le> 4" using assms(4) by (simp add: word_le_nat_alt)
  moreover from this have "unat (num_yields (j_target s) + 1) = unat (num_yields (j_target s)) + 1" by (simp add: unat_plus_simple [THEN iffD1] unat_word_ariths)
  ultimately show ?thesis
    using assms by (auto simp: steps_left_def request_left_def idle_def yield_turn_def null_deref_def Let_def word_less_nat_alt)
qed

lemma steps_left_step:
  assumes "joint_step m opt e s t" and inv: "joint_inv m opt s" and stops: "\<not> forever opt"
  shows "steps_left t + 1 \<le> steps_left s + joint_cost e"
  using assms(1)
proof (cases rule: joint_step.cases)
  case (target_runs attached p y)
  show ?thesis
  proof (cases "y_place (j_target s) = Yielding \<and> \<not> should_stop (j_target s)")
    case True
    with target_runs have "t = s\<lparr>j_target := yield_turn opt attached (j_target s)\<rparr>" by (simp add: yielder_step_def)
    then show ?thesis using True turn_left [of s opt attached] inv stops by (simp add: joint_inv_def handshake_def counted_def)
  next
    case False
    then show ?thesis
      using target_runs inv stops
      by (auto simp: joint_inv_def counted_def handshake_defs yielder_step_def proceed_def steps_left_def request_left_def joint_cost_def
          split: place.splits if_splits)
  qed
next
  case signal_handled
  have "num_yields (j_target s) \<le> 4 \<Longrightarrow> unat (num_yields (j_target s)) \<le> 4" by (simp add: word_le_nat_alt)
  then show ?thesis
    using signal_handled inv stops
    by (auto simp: joint_inv_def counted_def sig_handler_def steps_left_def request_left_def joint_cost_def split: place.splits)
next
  case (read_interrupted b)
  then show ?thesis by (simp add: steps_left_def joint_cost_def)
next
  case (byte_read b bs fd k tr)
  have "\<not> idle s" using byte_read(3) by (simp add: idle_def)
  then obtain do_ss where "asked do_ss s" using pending inv unfolding joint_inv_def by blast
  from read_stage [OF this byte_read(3-6)] byte_read inv show ?thesis
    by (auto simp: steps_left_def request_left_def joint_cost_def control_def joint_inv_def handshake_def idle_def split: place.splits)
next
  case (block_run tr)
  have "\<not> idle s" using block_run(3) by (simp add: idle_def)
  then obtain do_ss where "asked do_ss s" using pending inv unfolding joint_inv_def by blast
  from block_stage [OF this block_run(3,4) inv] block_run inv show ?thesis
    by (auto simp: steps_left_def request_left_def joint_cost_def control_def joint_inv_def handshake_def idle_def split: place.splits)
next
  case (in_between e tr)
  then have "control tr = control (j_tracer s)" by (blast intro: meanwhile_control)
  then show ?thesis using in_between by (simp add: steps_left_def request_left_def control_def joint_cost_def split: place.splits)
qed

interpretation joint_end: measured_system "joint_step m opt" "\<lambda>s. joint_inv m opt s \<and> \<not> forever opt" steps_left joint_cost for m opt
  by unfold_locales (use joint_inv_step steps_left_step in blast)+

text \<open>Without a signal the loop is left after its fifth turn.\<close>

definition fifth :: "'k joint \<Rightarrow> bool" where
  "fifth s \<longleftrightarrow> (let y = j_target s in
     (y_place y = Yielding \<longrightarrow> (if should_stop y then num_yields y = 5 else num_yields y \<le> 4)) \<and>
     (y_place y \<in> {Asking False, Ended} \<longrightarrow> num_yields y = 5) \<and>
     (y_place y \<in> {At_Start, Asking True} \<longrightarrow> num_yields y = 0 \<and> \<not> should_stop y))"

lemma fifth_step:
  assumes "joint_step m opt e s t" and "\<not> forever opt" and "e \<noteq> Signal_Handled" and "fifth s"
  shows "fifth t"
  using assms(1)
proof (cases rule: joint_step.cases)
  case (target_runs attached p y)
  have "num_yields (j_target s) \<le> 4 \<Longrightarrow> \<not> num_yields (j_target s) + 1 > 4 \<Longrightarrow> num_yields (j_target s) + 1 \<le> 4"
    and "num_yields (j_target s) \<le> 4 \<Longrightarrow> num_yields (j_target s) + 1 > 4 \<Longrightarrow> num_yields (j_target s) + 1 = 5"
    by unat_arith+
  then show ?thesis
    using target_runs assms(2,4)
    by (auto simp: fifth_def Let_def yielder_step_def proceed_def yield_turn_def null_deref_def split: place.splits if_splits sum.splits)
qed (use assms in \<open>auto simp: fifth_def\<close>)

lemma fifth_runs:
  assumes "runs (joint_step m opt) es s t" and "\<not> forever opt" and "Signal_Handled \<notin> set es" and "fifth s"
  shows "fifth t"
  using assms by (induction rule: runs.induct) (auto intro: fifth_step)

section \<open>A session of the traced program\<close>

lemma joint_start_inv:
  assumes "exceptions_inv m tr" and "\<not> m_single_stepping tr" and "m_blocks tr = []" and "do_pipe opt"
  shows "joint_inv m opt (joint_start tr)"
  using assms by (simp add: joint_inv_def joint_start_def yielder_start_def handshake_defs counted_def)

text \<open>C16: The program under the control pipe and its tracer, whatever exceptions, signals and outside
  changes come between their steps: while the program is in its loop the tracer is
  single-stepping and has the target's breakpoint exceptions, when the program has ended it is
  not and has given them back; no assertion of the program fails unless a signal interrupts a
  read that is not restarted.  A program that does not run forever turns at most five times,
  exactly five if no signal came, and it and its two requests take at most 13 steps.\<close>

theorem piped_target_traced:
  assumes "kernel_ok m (m_target_task tr)" and "MACH_PORT_VALID (m_target_task tr)"
    and "target_info m tr = Some i" and "breakpoint_exc i = m_orig_breakpoint_exc tr"
    and "\<not> m_single_stepping tr" and "m_blocks tr = []" and "do_pipe opt"
    and "runs (joint_step m opt) es (joint_start tr) s"
  shows "(y_place (j_target s) = Yielding \<longrightarrow> m_single_stepping (j_tracer s) \<and>
        (\<forall>j. target_info m (j_tracer s) = Some j \<longrightarrow> breakpoint_exc j = tracer_action (m_breakpoint_exc_port (j_tracer s)))) \<and>
      (y_place (j_target s) = Ended \<longrightarrow> \<not> m_single_stepping (j_tracer s) \<and>
        (\<forall>j. target_info m (j_tracer s) = Some j \<longrightarrow> breakpoint_exc j = m_orig_breakpoint_exc (j_tracer s))) \<and>
      (y_place (j_target s) = Failed \<longrightarrow> \<not> restarts opt) \<and>
      (\<not> forever opt \<longrightarrow> num_yields (j_target s) \<le> 5 \<and> length (filter of_session es) \<le> 13 \<and>
        (y_place (j_target s) = Ended \<and> Signal_Handled \<notin> set es \<longrightarrow> num_yields (j_target s) = 5))"
proof -
  have start: "joint_inv m opt (joint_start tr)"
    using assms(1-7) by (intro joint_start_inv) (simp_all add: exceptions_inv_def tracer_kernel_ok_def)
  from joint.runs_inv [OF assms(8) this] have inv: "joint_inv m opt s" .
  have bound: "length (filter of_session es) \<le> 13" if "\<not> forever opt"
  proof -
    have "sum_list (map joint_cost es) + length (filter of_session es) = length es"
      by (induction es) (simp_all add: joint_cost_def)
    moreover have "steps_left (joint_start tr) = 13"
      by (simp add: steps_left_def joint_start_def yielder_start_def)
    ultimately show ?thesis
      using joint_end.runs_bound [OF assms(8)] start that by fastforce
  qed
  have "fifth (joint_start tr)" by (simp add: fifth_def joint_start_def yielder_start_def)
  then have five: "num_yields (j_target s) = 5"
    if "\<not> forever opt" "y_place (j_target s) = Ended" "Signal_Handled \<notin> set es"
    using fifth_runs [OF assms(8)] that by (auto simp: fifth_def Let_def)
  have "num_yields (j_target s) \<le> 5" if "\<not> forever opt"
    using inv that by (auto simp: joint_inv_def counted_def split: place.splits if_splits)
  with bound five inv show ?thesis
    by (auto simp: joint_inv_def handshake_def exceptions_inv_def)
qed

text \<open>The tracer of the small kernel answers the first request.\<close>

definition plain_opts :: yield_opts where
  "plain_opts = \<lparr>do_pipe = True, crash_on_attach = False, forever = False, restarts = True\<rparr>"

theorem piped_target_traced_witness:
  "\<exists>s. runs (joint_step mini_sys plain_opts)
       [Target_Runs False, Tracer_Event Pipe_Readable, Tracer_Event Pipe_Block, Target_Runs False] (joint_start (mini_tracer 0)) s \<and>
     y_place (j_target s) = Yielding \<and> m_single_stepping (j_tracer s) \<and> num_yields (j_target s) \<le> 5"
proof -
  let ?y = "\<lambda>pl. \<lparr>y_place = pl, num_yields = 0, should_stop = False\<rparr>"
  let ?s1 = "\<lparr>j_tracer = mini_tracer 0, j_pipes = \<lparr>to_tracer = [request_byte True], to_target = []\<rparr>, j_target = ?y (Asking True)\<rparr>"
  let ?tr = "(mini_tracer 0)\<lparr>m_blocks := [True]\<rparr>"
  let ?s2 = "\<lparr>j_tracer = ?tr, j_pipes = \<lparr>to_tracer = [], to_target = []\<rparr>, j_target = ?y (Asking True)\<rparr>"
  obtain tr' where "pipe_start mini_sys (mini_tracer 0) = Inr tr'" using mini_pipe_start by blast
  moreover have "?tr\<lparr>m_blocks := []\<rparr> = mini_tracer 0" by (simp add: mini_tracer_def new_tracer_def)
  ultimately have block: "pipe_block mini_sys ?tr = Inr tr'" by (simp add: pipe_block_def)
  let ?s3 = "\<lparr>j_tracer = tr', j_pipes = \<lparr>to_tracer = [], to_target = [of_char (CHR ''c'')]\<rparr>, j_target = ?y (Asking True)\<rparr>"
  let ?s4 = "\<lparr>j_tracer = tr', j_pipes = \<lparr>to_tracer = [], to_target = []\<rparr>, j_target = ?y Yielding\<rparr>"
  have 1: "joint_step mini_sys plain_opts (Target_Runs False) (joint_start (mini_tracer 0)) ?s1"
    using joint_step.target_runs [of plain_opts False "joint_start (mini_tracer 0)" _ _ mini_sys]
    by (simp add: joint_start_def yielder_start_def yielder_step_def plain_opts_def proceed_def)
  have fd: "m_target2tracer_fd (mini_tracer 0) = Some 10" "m_blocks (mini_tracer 0) = []" by (simp_all add: mini_tracer_def new_tracer_def)
  have k: "k_read mini_sys 10 (os (mini_tracer 0)) = Some (request_byte True, os (mini_tracer 0))"
    by (simp add: mini_sys_def request_byte_def)
  have "pipe_readable mini_sys (mini_tracer 0) = Inr ?tr" using read_control [OF k fd(1)] fd(2) by simp
  then have 2: "joint_step mini_sys plain_opts (Tracer_Event Pipe_Readable) ?s1 ?s2"
    using joint_step.byte_read [of ?s1 "request_byte True" "[]" 10 mini_sys "os (mini_tracer 0)" ?tr plain_opts] fd k
    by (simp add: tracer_step.pipe_readable)
  have 3: "joint_step mini_sys plain_opts (Tracer_Event Pipe_Block) ?s2 ?s3"
    using joint_step.block_run [of ?s2 mini_sys tr' plain_opts] block by (simp add: tracer_step.pipe_block)
  have 4: "joint_step mini_sys plain_opts (Target_Runs False) ?s3 ?s4"
    using joint_step.target_runs [of plain_opts False ?s3 _ _ mini_sys] by (simp add: yielder_step_def proceed_def)
  have r: "runs (joint_step mini_sys plain_opts)
      [Target_Runs False, Tracer_Event Pipe_Readable, Tracer_Event Pipe_Block, Target_Runs False] (joint_start (mini_tracer 0)) ?s4"
    by (rule runs_front, rule runs_front, rule runs_front, rule runs_front, rule runs.none, rule 4, rule 3, rule 2, rule 1)
  have t: "target_info mini_sys (mini_tracer 0) = Some (mini_task 0)" "kernel_ok mini_sys (m_target_task (mini_tracer 0))"
    "MACH_PORT_VALID (m_target_task (mini_tracer 0))" "\<not> m_single_stepping (mini_tracer 0)"
    "breakpoint_exc (mini_task 0) = m_orig_breakpoint_exc (mini_tracer 0)"
    using mini_start mini_kernel_ok by (simp_all add: mini_tracer_def mini_task_def new_tracer_def target_info_def mini_sys_def MACH_PORT_VALID_def)
  have "do_pipe plain_opts" "\<not> forever plain_opts" by (simp_all add: plain_opts_def)
  from piped_target_traced [OF t(2,3,1,5,4) fd(2) this(1) r] this(2) r show ?thesis by (intro exI [of _ ?s4]) simp
qed

text \<open>
  They never wait for each other: in every state reached the program can go on, or a block is on
  the queue, or the byte on its way is a request the tracer's handler accepts.
\<close>

lemma handshake_progress:
  assumes "joint_inv m opt s" and "y_place (j_target s) \<notin> {Ended, Crashed, Failed}"
  shows "yielder_step opt attached (j_pipes s, j_target s) \<noteq> None \<or> m_blocks (j_tracer s) \<noteq> [] \<or>
    (\<exists>b. to_tracer (j_pipes s) = [request_byte b] \<and>
       (\<forall>fd k. m_target2tracer_fd (j_tracer s) = Some fd \<and> k_read m fd (os (j_tracer s)) = Some (request_byte b, k) \<longrightarrow>
          pipe_readable m (j_tracer s) = Inr ((j_tracer s)\<lparr>os := k, m_blocks := m_blocks (j_tracer s) @ [b]\<rparr>)))"
  using assms read_control [of m _ "j_tracer s"]
  by (auto simp: joint_inv_def handshake_def asked_def control_def yielder_step_def split: place.splits)

end
