(* ===== verification/Benchmarks.thy ===== *)
theory Benchmarks
  imports Platform UnitTests TraceFilesProps Histogram
begin

text \<open>
  The benchmarks, \<^verbatim>\<open>test/xnu-trace-bench.cpp\<close> and \<^verbatim>\<open>test/xnu-trace-nanobench.cpp\<close>, and the
  programs \<^verbatim>\<open>test/iterator-proxy.cpp\<close> and \<^verbatim>\<open>test/vtable-opt.cpp\<close> that were written to look at
  the code generated for a packed vector.  How often the measured body runs is decided by the
  benchmark library, \<open>iters\<close>; a benchmark is the list of the values its body computes.
\<close>

section \<open>Measured loops\<close>

definition measured :: "nat \<Rightarrow> (nat \<Rightarrow> 'a res) \<Rightarrow> 'a list res" where
  "measured iters f = map_res f [0..<iters]"

text \<open>\<^verbatim>\<open>buf[i % n]\<close>; the processor's remainder by 0 is its dividend.\<close>

definition at_mod :: "'a list \<Rightarrow> nat \<Rightarrow> 'a res" where
  "at_mod xs i = PerfectHash.at xs (i mod length xs)"

section \<open>Vectors\<close>

definition bench_sz32 :: nat where "bench_sz32 = 128 * 1024 * 1024 div 4"
definition bench_sz64 :: nat where "bench_sz64 = 128 * 1024 * 1024 div 8"

text \<open>The filling loop and the measured loop, which every benchmark of a vector repeats.\<close>

definition filled_reads :: "(u64 \<Rightarrow> u64) \<Rightarrow> nat \<Rightarrow> nat \<Rightarrow> nat \<Rightarrow> bitvec \<Rightarrow> u64 list res" where
  "filled_reads xxh nbits sz iters bv =
     and_then (fill (\<lambda>i. hash_n xxh nbits (of_nat i)) sz bv) (\<lambda>bv.
     measured iters (\<lambda>i. bv_get bv (i mod sz)))"

definition BM_NonAtomicBitVectorImpl :: "(u64 \<Rightarrow> u64) \<Rightarrow> nat \<Rightarrow> u64 list res" where
  "BM_NonAtomicBitVectorImpl xxh iters = filled_reads xxh 31 bench_sz32 iters
     (BitVectorBase NonAtomicBitVectorImpl False 31 bench_sz32 (nab_byte_sz 32 64 31 bench_sz32))"

definition BM_NonAtomicBitVector_no_hoist :: "(u64 \<Rightarrow> u64) \<Rightarrow> nat \<Rightarrow> u64 list res" where
  "BM_NonAtomicBitVector_no_hoist xxh iters =
     and_then (and_then (BitVectorFactory False False 64 31 bench_sz32) deref) (filled_reads xxh 31 bench_sz32 iters)"

definition BM_NonAtomicBitVector :: "(u64 \<Rightarrow> u64) \<Rightarrow> nat \<Rightarrow> u64 list res" where
  "BM_NonAtomicBitVector xxh iters =
     and_then (and_then (BitVectorFactory False False 64 31 bench_sz32) deref) (\<lambda>bv.
     and_then (fill (\<lambda>i. hash_n xxh 31 (of_nat i)) bench_sz32 bv) (\<lambda>bv.
     and_then (bv_get bv 0) (\<lambda>_ :: u64.
     measured iters (\<lambda>i. bv_get bv (i mod bench_sz32)))))"

definition BM_NonAtomicBitVectorImpl_33 :: "(u64 \<Rightarrow> u64) \<Rightarrow> nat \<Rightarrow> u64 list res" where
  "BM_NonAtomicBitVectorImpl_33 xxh iters = filled_reads xxh 33 bench_sz64 iters
     (BitVectorBase NonAtomicBitVectorImpl False 33 bench_sz64 (nab_byte_sz 64 128 33 bench_sz64))"

definition BM_NonAtomicSplitBitVectorImpl_33 :: "(u64 \<Rightarrow> u64) \<Rightarrow> nat \<Rightarrow> u64 list res" where
  "BM_NonAtomicSplitBitVectorImpl_33 xxh iters = filled_reads xxh 33 bench_sz64 iters
     (BitVectorBase NonAtomicSplitBitVectorImpl False 33 bench_sz64 (split_byte_sz 64 33 bench_sz64))"

definition BM_NonAtomicBitVectorImpl_47 :: "(u64 \<Rightarrow> u64) \<Rightarrow> nat \<Rightarrow> u64 list res" where
  "BM_NonAtomicBitVectorImpl_47 xxh iters = filled_reads xxh 47 bench_sz64 iters
     (BitVectorBase NonAtomicBitVectorImpl False 47 bench_sz64 (nab_byte_sz 64 128 47 bench_sz64))"

definition BM_NonAtomicSplitBitVectorImpl_47 :: "(u64 \<Rightarrow> u64) \<Rightarrow> nat \<Rightarrow> u64 list res" where
  "BM_NonAtomicSplitBitVectorImpl_47 xxh iters = filled_reads xxh 47 bench_sz64 iters
     (BitVectorBase NonAtomicSplitBitVectorImpl False 47 bench_sz64 (split_byte_sz 64 47 bench_sz64))"

definition BM_NonAtomicBitVectorImpl_63 :: "(u64 \<Rightarrow> u64) \<Rightarrow> nat \<Rightarrow> u64 list res" where
  "BM_NonAtomicBitVectorImpl_63 xxh iters = filled_reads xxh 63 bench_sz64 iters
     (BitVectorBase NonAtomicBitVectorImpl False 63 bench_sz64 (nab_byte_sz 64 128 63 bench_sz64))"

definition BM_NonAtomicSplitBitVectorImpl_63 :: "(u64 \<Rightarrow> u64) \<Rightarrow> nat \<Rightarrow> u64 list res" where
  "BM_NonAtomicSplitBitVectorImpl_63 xxh iters = filled_reads xxh 63 bench_sz64 iters
     (BitVectorBase NonAtomicSplitBitVectorImpl False 63 bench_sz64 (split_byte_sz 64 63 bench_sz64))"

section \<open>Lookups and histograms\<close>

text \<open>A range-based loop over the messages of a log whose body only counts them.\<close>

function count_messages :: "buffer \<Rightarrow> iterator \<Rightarrow> iterator \<Rightarrow> nat \<Rightarrow> nat res" where
  "count_messages mem it e i =
     (if iter_equal it e then Inr i
      else and_then (load_bytes sizeof_log_msg mem (it_ptr it)) (\<lambda>_.
           and_then (iter_next mem it) (\<lambda>it. count_messages mem it e (i + 1))))"
  by pat_completeness auto
termination
proof (relation "measure (\<lambda>(mem, it, e, i). length mem - it_ptr it)")
  fix mem it e i x it'
  assume "load_bytes sizeof_log_msg mem (it_ptr it) = Inr x" "iter_next mem it = Inr it'"
  then have "it_ptr it < length mem" "it_ptr it < it_ptr it'"
    using iter_next_progress by (auto simp: load_bytes_def sizeof_log_msg_def split: if_splits)
  then show "((mem, it', e, i + 1), (mem, it, e, i)) \<in> measure (\<lambda>(mem, it, e, i). length mem - it_ptr it)" by simp
qed simp

declare count_messages.simps [simp del]

definition count_all :: "parsed_log \<Rightarrow> nat res" where
  "count_all trace = fold_res (\<lambda>(tid, b) i. count_messages (lb_mem b) (iter_begin b) (iter_end b) i) (pl_logs trace) 0"

definition BM_lookup_inst :: "hash_lib \<Rightarrow> parsed_log \<Rightarrow> nat \<Rightarrow> u32 list res" where
  "BM_lookup_inst e trace iters =
     (let addrs = map (\<lambda>r. img_base r + 4) (mr_regions (pl_regions trace))
      in measured iters (\<lambda>i. and_then (at_mod addrs i) (lookup_inst e (pl_regions trace))))"

text \<open>The addresses and the instructions are never filled in: the line that would is commented out.\<close>

definition BM_lookup_inst_from_trace :: "hash_lib \<Rightarrow> parsed_log \<Rightarrow> nat \<Rightarrow> u32 list res" where
  "BM_lookup_inst_from_trace e trace iters =
     (let addrs = replicate (unat (pl_num_inst trace)) 0 in
      and_then (count_all trace) (\<lambda>_.
      measured iters (\<lambda>i. and_then (at_mod addrs i) (lookup_inst e (pl_regions trace)))))"

definition BM_histogram_add :: "(u32 \<Rightarrow> u32 option) \<Rightarrow> parsed_log \<Rightarrow> nat \<Rightarrow> histogram res" where
  "BM_histogram_add decode trace iters =
     (let instrs = replicate (unat (pl_num_inst trace)) 0 in
      and_then (count_all trace) (\<lambda>_.
      fold_res (\<lambda>i hist. and_then (at_mod instrs i) (\<lambda>instr. hist_add decode instr hist)) [0..<iters] (new_histogram False)))"

section \<open>Hashes and clocks\<close>

text \<open>The counter of the first is not advanced.\<close>

definition BM_xxhash64 :: "hash_lib \<Rightarrow> nat \<Rightarrow> u64 list" where
  "BM_xxhash64 e iters = map (\<lambda>_. xxhash_64 e 0 (0 * 7)) [0..<iters]"

definition BM_xxhash3_64 :: "hash_lib \<Rightarrow> nat \<Rightarrow> u64 list" where
  "BM_xxhash3_64 e iters = map (\<lambda>i. xxhash3_64 e (of_nat i) (of_nat i * 7)) [0..<iters]"

definition BM_jevhash_64 :: "hash_lib \<Rightarrow> nat \<Rightarrow> u64 list" where
  "BM_jevhash_64 e iters = map (\<lambda>i. jevhash_64 e (of_nat i) (of_nat i * 7)) [0..<iters]"

definition BM_jevhash_32 :: "hash_lib \<Rightarrow> nat \<Rightarrow> u32 list" where
  "BM_jevhash_32 e iters = map (\<lambda>i. jevhash_32 e (of_nat i) (of_nat i * 7)) [0..<iters]"

definition BM_xnu_commpage_time_seconds :: "(nat \<Rightarrow> u64 \<Rightarrow> u64) \<Rightarrow> nat \<Rightarrow> u64 list" where
  "BM_xnu_commpage_time_seconds page iters = map (\<lambda>i. xnu_commpage_time_seconds (page i)) [0..<iters]"

section \<open>The code that shows the compiler's output\<close>

definition psum_get :: "bitvec \<Rightarrow> nat \<Rightarrow> u64 res" where
  "psum_get bv num = fold_res (\<lambda>i s. and_then (bv_get bv i) (\<lambda>x. Inr (s + x))) [0..<num] 0"

definition psum_op :: "nat \<Rightarrow> bitvec \<Rightarrow> nat \<Rightarrow> u64 res" where
  "psum_op tbl bv num =
     fold_res (\<lambda>i s. and_then (proxy_value bv (bv_index tbl i)) (\<lambda>(x, p). Inr (s + x))) [0..<num] 0"

definition iterator_proxy_main :: "nat \<Rightarrow> u32 res" where
  "iterator_proxy_main tbl =
     (let bv = BitVectorBase NonAtomicBitVectorImpl False 17 8 (nab_byte_sz 32 64 17 8) in
      and_then (psum_get bv 5) (\<lambda>a. and_then (psum_op tbl bv 5) (\<lambda>b.
      and_then (psum_get bv 5) (\<lambda>c. and_then (psum_op tbl bv 5) (\<lambda>d. Inr (ucast (a + b + c + d)))))))"

definition test_non_atomic_bitvector :: "nat \<Rightarrow> bitvec \<Rightarrow> nat \<Rightarrow> u64 res" where
  "test_non_atomic_bitvector turns bv sz =
     fold_res (\<lambda>i r. and_then (bv_get bv (i mod sz)) (\<lambda>x. Inr (r XOR x))) [0..<turns] 0"

definition vtable_opt_main :: "(u64 \<Rightarrow> u64) \<Rightarrow> u32 res" where
  "vtable_opt_main xxh =
     and_then (and_then (BitVectorFactory False False 64 31 bench_sz32) deref) (\<lambda>bv.
     and_then (fill (\<lambda>i. hash_n xxh 31 (of_nat i)) bench_sz32 bv) (\<lambda>bv.
     and_then (test_non_atomic_bitvector (512 * 1024 * 1024) bv bench_sz32) (\<lambda>r. Inr (ucast r))))"

section \<open>What is measured\<close>

lemma measured_ok: "(\<And>i. i < iters \<Longrightarrow> f i = Inr (g i)) \<Longrightarrow> measured iters f = Inr (map g [0..<iters])"
  unfolding measured_def by (rule map_res_total) simp

lemma impl_holds:
  assumes "0 < n" "n < 64" "sz < 2 ^ 56"
  defines "t \<equiv> storage_bits n"
  shows "holds n (BitVectorBase NonAtomicBitVectorImpl False n sz (nab_byte_sz t (t * 2) n sz)) (replicate sz 0)"
proof -
  have t: "t \<le> 64" "8 \<le> t" using assms(1,2) by (auto simp: t_def storage_bits_def int_n_def uint_n_def)
  have "n * sz \<le> 64 * 2 ^ 56" using assms(2,3) by (intro mult_le_mono) auto
  from alloc_covers [OF nab_byte_sz_bound [OF t this]] show ?thesis
    using assms(1,2) t by (simp add: holds_def bv_inv_def bv_list_zero t_def [symmetric])
qed

lemma filled_reads_hold:
  assumes "holds n v (replicate sz 0)" and "0 < n" "n \<le> 64" and "0 < sz"
  shows "filled_reads xxh n sz iters v = Inr (map (\<lambda>i. take_bit n (xxh (of_nat (i mod sz)))) [0..<iters])"
proof -
  let ?g = "\<lambda>i. take_bit n (xxh (of_nat i))"
  obtain v' where v': "fill (\<lambda>i. hash_n xxh n (of_nat i)) sz v = Inr v'" "holds n v' (map ?g [0..<sz])"
    using fill_holds [OF assms(1), of "\<lambda>i. hash_n xxh n (of_nat i)" ?g] hash_fits [OF assms(2,3)] by auto
  have "bv_get v' (i mod sz) = Inr (?g (i mod sz))" for i
    using holds_get [OF v'(2), of "i mod sz"] assms(4) by simp
  from measured_ok [OF this, of iters] v'(1) show ?thesis by (simp only: filled_reads_def and_then_simps)
qed

text \<open>A split vector cannot be filled beyond an element that ends a storage word.\<close>

lemma split_fill_fails:
  assumes n: "32 < n" "n < 64" and i: "i < sz" "\<not> off_boundary 64 n i" and v: "bv_class v = NonAtomicSplitBitVectorImpl" "m_nbits v = n"
    and f: "\<And>i. \<exists>x. f i = Inr x"
  shows "\<exists>e. fill f sz v = Inl e"
proof -
  have keep: "bv_class w = NonAtomicSplitBitVectorImpl \<and> m_nbits w = n"
    if "fold_res (\<lambda>i v. and_then (f i) (bv_set v i)) [0..<i] v = Inr w" for w
    by (rule fold_res_invariant [OF that])
      (use n v in \<open>auto simp: bv_set_def split_set_def Let_def res_simps split: if_splits\<close>)
  have stop: "\<exists>e. and_then (f i) (bv_set w i) = Inl e"
    if "bv_class w = NonAtomicSplitBitVectorImpl \<and> m_nbits w = n" for w
  proof -
    obtain x where x: "f i = Inr x" using f by blast
    have "0 < n" using n by simp
    from split_set_boundary [OF this n(2) i(2), of w x] show ?thesis using that n x by (simp add: bv_set_def)
  qed
  have "[0..<sz] = [0..<i] @ i # [Suc i..<sz]" using i(1) by (metis less_imp_le upt_conv_Cons upt_add_eq_append le_add_diff_inverse zero_le)
  moreover have "fold_res F (i # is) = (\<lambda>w. and_then (F i w) (fold_res F is))"
    for F :: "nat \<Rightarrow> bitvec \<Rightarrow> bitvec res" and "is" by (rule ext) simp
  ultimately have split: "fill f sz v = and_then (fold_res (\<lambda>i v. and_then (f i) (bv_set v i)) [0..<i] v) (\<lambda>w.
      and_then (and_then (f i) (bv_set w i)) (fold_res (\<lambda>i v. and_then (f i) (bv_set v i)) [Suc i..<sz]))"
    by (simp add: fill_def fold_res_append)
  show ?thesis
  proof (cases "fold_res (\<lambda>i v. and_then (f i) (bv_set v i)) [0..<i] v")
    case (Inr w)
    from stop [OF keep [OF this]] obtain e where "and_then (f i) (bv_set w i) = Inl e" by blast
    then show ?thesis by (simp only: split Inr and_then_simps) blast
  qed (simp only: split and_then_simps, blast)
qed

lemma split_bench_fails:
  assumes "n \<in> {33, 47, 63}"
  shows "\<exists>e. filled_reads xxh n bench_sz64 iters
     (BitVectorBase NonAtomicSplitBitVectorImpl False n bench_sz64 (split_byte_sz 64 n bench_sz64)) = Inl e"
proof -
  let ?v = "BitVectorBase NonAtomicSplitBitVectorImpl False n bench_sz64 (split_byte_sz 64 n bench_sz64)"
  have n: "32 < n" "n < 64" using assms by auto
  have "\<not> off_boundary 64 n 63" using assms by (auto simp: off_boundary_def)
  moreover have "\<exists>x. hash_n xxh n (of_nat i) = Inr x" for i using hash_fits(1) [of n xxh "of_nat i"] n by auto
  ultimately obtain e where "fill (\<lambda>i. hash_n xxh n (of_nat i)) bench_sz64 ?v = Inl e"
    using split_fill_fails [OF n, of 63 bench_sz64 ?v "\<lambda>i. hash_n xxh n (of_nat i)"]
    by (auto simp: bench_sz64_def BitVectorBase_def)
  then show ?thesis by (simp add: filled_reads_def)
qed

text \<open>The benchmarks of the packed vectors, whatever hash function fills them and however
  often the measured body runs: those of \<^verbatim>\<open>NonAtomicBitVectorImpl\<close>, up to 63 bits wide, and of
  the factory's 31-bit vector read at every turn the value stored at the index; the three of
  \<^verbatim>\<open>NonAtomicSplitBitVectorImpl\<close> never reach the measured loop, because element 63 of each ends
  a storage word and cannot be written.\<close>

lemma vector_benchmarks:
  "(\<forall>(n, sz, r) \<in> {(31, bench_sz32, BM_NonAtomicBitVectorImpl xxh iters), (31, bench_sz32, BM_NonAtomicBitVector_no_hoist xxh iters),
       (31, bench_sz32, BM_NonAtomicBitVector xxh iters), (33, bench_sz64, BM_NonAtomicBitVectorImpl_33 xxh iters),
       (47, bench_sz64, BM_NonAtomicBitVectorImpl_47 xxh iters), (63, bench_sz64, BM_NonAtomicBitVectorImpl_63 xxh iters)}.
     r = Inr (map (\<lambda>i. take_bit n (xxh (of_nat (i mod sz)))) [0..<iters])) \<and>
   (\<forall>r \<in> {BM_NonAtomicSplitBitVectorImpl_33 xxh iters, BM_NonAtomicSplitBitVectorImpl_47 xxh iters,
       BM_NonAtomicSplitBitVectorImpl_63 xxh iters}. \<exists>e. r = Inl e)"
proof -
  have sz: "0 < bench_sz32" "bench_sz32 < 2 ^ 56" "0 < bench_sz64" "bench_sz64 < 2 ^ 56"
    by (simp_all add: bench_sz32_def bench_sz64_def)
  obtain v where v: "and_then (BitVectorFactory False False 64 31 bench_sz32) deref = Inr v" "holds 31 v (replicate bench_sz32 0)"
    using new_holds [of 31 bench_sz32] sz by auto
  note f31 = filled_reads_hold [OF v(2) _ _ sz(1), where xxh = xxh and iters = iters]
  let ?g = "\<lambda>i. take_bit 31 (xxh (of_nat i))"
  have direct: "filled_reads xxh 31 bench_sz32 iters (BitVectorBase NonAtomicBitVectorImpl False 31 bench_sz32 (nab_byte_sz 32 64 31 bench_sz32)) =
      Inr (map (\<lambda>i. ?g (i mod bench_sz32)) [0..<iters])"
    using filled_reads_hold [OF impl_holds [of 31 bench_sz32] _ _ sz(1), of xxh iters] sz by (simp add: storage_bits_cases)
  have wide: "filled_reads xxh n bench_sz64 iters (BitVectorBase NonAtomicBitVectorImpl False n bench_sz64 (nab_byte_sz 64 128 n bench_sz64)) =
      Inr (map (\<lambda>i. take_bit n (xxh (of_nat (i mod bench_sz64)))) [0..<iters])" if "32 < n" "n < 64" for n
    using filled_reads_hold [OF impl_holds [of n bench_sz64] _ _ sz(3), of xxh iters] sz that by (simp add: storage_bits_cases)
  have hoisted: "BM_NonAtomicBitVector xxh iters = BM_NonAtomicBitVector_no_hoist xxh iters"
  proof -
    obtain v' where v': "fill (\<lambda>i. hash_n xxh 31 (of_nat i)) bench_sz32 v = Inr v'" "holds 31 v' (map ?g [0..<bench_sz32])"
      using fill_holds [OF v(2), of "\<lambda>i. hash_n xxh 31 (of_nat i)" ?g] hash_fits [of 31] by auto
    have "bv_get v' 0 = Inr (?g 0)" using holds_get [OF v'(2), of 0] sz by simp
    with v(1) v'(1) show ?thesis
      by (simp add: BM_NonAtomicBitVector_def BM_NonAtomicBitVector_no_hoist_def filled_reads_def)
  qed
  show ?thesis
    using f31 direct wide [of 33] wide [of 47] wide [of 63] hoisted v(1) split_bench_fails [of _ xxh iters]
    by (simp add: BM_NonAtomicBitVectorImpl_def BM_NonAtomicBitVector_no_hoist_def BM_NonAtomicBitVectorImpl_33_def
        BM_NonAtomicBitVectorImpl_47_def BM_NonAtomicBitVectorImpl_63_def BM_NonAtomicSplitBitVectorImpl_33_def
        BM_NonAtomicSplitBitVectorImpl_47_def BM_NonAtomicSplitBitVectorImpl_63_def)
qed

lemma vector_benchmarks_witness:
  "BM_NonAtomicBitVectorImpl_63 (\<lambda>x. x) 3 = Inr [0, 1, 2] \<and> (\<exists>e. BM_NonAtomicSplitBitVectorImpl_33 (\<lambda>x. x) 3 = Inl e)"
  using vector_benchmarks [of "\<lambda>x. x" 3] by (simp add: bench_sz64_def upt_rec)

section \<open>Indexing and getting\<close>

text \<open>Summing up the elements by \<^verbatim>\<open>get\<close> and through the proxies of \<^verbatim>\<open>operator[]\<close> is the same,
  errors included, as far as an index fits its type.\<close>

lemma psums_agree:
  assumes "num < 2 ^ 64"
  shows "psum_op tbl bv num = psum_get bv num"
proof -
  have "psum_op tbl bv k = psum_get bv k" if "k \<le> num" for k
    using that
  proof (induction k)
    case (Suc k)
    then have "unat (of_nat k :: u64) = k" using assms by (simp add: unat_of_nat)
    then have "proxy_value bv (bv_index tbl k) = and_then (bv_get bv k) (\<lambda>x :: u64. Inr (x, \<lparr>p_cursor = \<lparr>m_tbl = tbl, m_idx = of_nat k\<rparr>, p_val = Some x\<rparr>))"
      by (simp add: proxy_value_def bv_index_def cursor_read_def)
    moreover have "fold_res F [k] = F k" for F :: "nat \<Rightarrow> u64 \<Rightarrow> u64 res"
      by (rule ext) (simp add: and_then_def split: sum.split)
    ultimately show ?case using Suc by (simp add: psum_op_def psum_get_def fold_res_append and_then_assoc)
  qed (simp add: psum_op_def psum_get_def)
  then show ?thesis by simp
qed

lemma psum_zero:
  assumes "holds n v (replicate sz 0)" and "num \<le> sz"
  shows "psum_get v num = Inr 0"
  using assms(2) holds_get [OF assms(1)] by (induction num) (simp_all add: psum_get_def fold_res_append)

lemma iterator_proxy_exits_0: "iterator_proxy_main tbl = Inr 0"
proof -
  let ?v = "BitVectorBase NonAtomicBitVectorImpl False 17 8 (nab_byte_sz 32 64 17 8)"
  have "holds 17 ?v (replicate 8 0)" using impl_holds [of 17 8] by (simp add: storage_bits_cases)
  from psum_zero [OF this, of 5] have "psum_get ?v 5 = Inr 0" by simp
  then show ?thesis by (simp add: iterator_proxy_main_def psums_agree [of 5 tbl ?v])
qed

text \<open>\<^verbatim>\<open>vtable-opt\<close> reads every element sixteen times, so what it xors together is 0 for every
  hash function.\<close>

lemma xor_rounds:
  fixes g :: "nat \<Rightarrow> u64"
  shows "fold (\<lambda>i r. r XOR g (i mod sz)) [0..<2 * k * sz] 0 = 0"
proof -
  have shift: "fold (\<lambda>i r. r XOR g (i mod sz)) [m * sz..<m * sz + l] r = fold (\<lambda>i r. r XOR g (i mod sz)) [0..<l] r" for m l r
    by (induction l) simp_all
  have start: "fold (\<lambda>i r. r XOR g (i mod sz)) [0..<l] r = r XOR fold (\<lambda>i r. r XOR g (i mod sz)) [0..<l] 0" for l r
    by (induction l) (simp_all add: ac_simps)
  have "fold (\<lambda>i r. r XOR g (i mod sz)) [0..<m * sz] 0 =
      (if even m then 0 else fold (\<lambda>i r. r XOR g (i mod sz)) [0..<sz] 0)" for m
  proof (induction m)
    case (Suc m)
    have "[0..<Suc m * sz] = [0..<m * sz] @ [m * sz..<m * sz + sz]"
      using upt_add_eq_append [of 0 "m * sz" sz] by (simp add: add.commute)
    then show ?case
      using Suc shift [of m sz] start [of sz "fold (\<lambda>i r. r XOR g (i mod sz)) [0..<sz] 0"] by simp
  qed simp
  from this [of "2 * k"] show ?thesis by simp
qed

lemma vtable_opt_exits_0: "vtable_opt_main xxh = Inr 0"
proof -
  let ?g = "\<lambda>i. take_bit 31 (xxh (of_nat i)) :: u64"
  have sz: "0 < bench_sz32" "bench_sz32 < 2 ^ 56" "512 * 1024 * 1024 = 2 * 8 * bench_sz32" by (simp_all add: bench_sz32_def)
  obtain v where v: "and_then (BitVectorFactory False False 64 31 bench_sz32) deref = Inr v" "holds 31 v (replicate bench_sz32 0)"
    using new_holds [of 31 bench_sz32] sz by auto
  obtain v' where v': "fill (\<lambda>i. hash_n xxh 31 (of_nat i)) bench_sz32 v = Inr v'" "holds 31 v' (map ?g [0..<bench_sz32])"
    using fill_holds [OF v(2), of "\<lambda>i. hash_n xxh 31 (of_nat i)" ?g] hash_fits [of 31] by auto
  have get: "bv_get v' (i mod bench_sz32) = Inr (?g (i mod bench_sz32))" for i
    using holds_get [OF v'(2), of "i mod bench_sz32"] sz by simp
  have "test_non_atomic_bitvector turns v' bench_sz32 = Inr (fold (\<lambda>i r. r XOR ?g (i mod bench_sz32)) [0..<turns] 0)" for turns
    by (induction turns) (simp_all add: test_non_atomic_bitvector_def fold_res_append get)
  then have "test_non_atomic_bitvector (512 * 1024 * 1024) v' bench_sz32 = Inr 0"
    unfolding sz(3) using xor_rounds [where g = ?g and sz = bench_sz32 and k = 8] by simp
  then show ?thesis using v(1) v'(1) by (simp only: vtable_opt_main_def and_then_simps unsigned_0)
qed

section \<open>Lookups, messages and histograms\<close>

text \<open>The lookups that are evenly distributed read the second instruction of every region in turn.\<close>

lemma bench_lookups:
  assumes "fastmod_ok e" "sort_ok e" and "length (pa2buf_vec rs) < 2 ^ 31" and "m_salts (ms_mph old) = []"
    and "create_hash e timer old rs = Inr (pl_regions trace)" and "\<forall>r \<in> set rs. page_region r \<and> 0 < unat (img_size r)"
    and "coherent m rs" and "rs \<noteq> []"
  shows "BM_lookup_inst e trace iters =
    Inr (map (\<lambda>i. le_word (map (\<lambda>k. m (img_base (rs ! (i mod length rs)) + 4 + of_nat k)) [0..<4])) [0..<iters])"
proof -
  have rs: "mr_regions (pl_regions trace) = rs" using assms(5) by (auto simp: create_hash_def res_simps dest!: arg_cong [where f = mr_regions])
  have "and_then (at_mod (map (\<lambda>r. img_base r + 4) rs) i) (lookup_inst e (pl_regions trace)) =
      Inr (le_word (map (\<lambda>k. m (img_base (rs ! (i mod length rs)) + 4 + of_nat k)) [0..<4]))" for i
  proof -
    let ?r = "rs ! (i mod length rs)"
    have i: "i mod length rs < length rs" using assms(8) by simp
    then have r: "?r \<in> set rs" by simp
    then have p: "page_region ?r" "0 < unat (img_size ?r)" using assms(6) by auto
    then have pg: "unat (img_base ?r) mod 4096 = 0" "unat (img_size ?r) mod 4096 = 0"
      "unat (img_base ?r) + unat (img_size ?r) \<le> 2 ^ 64" by (auto simp: page_region_def)
    then have big: "4096 \<le> unat (img_size ?r)" using p(2) by (metis dvd_imp_le mod_0_imp_dvd)
    then have "unat (img_base ?r) + 4 < 2 ^ 64" using pg(3) by linarith
    then have u: "unat (img_base ?r + 4) = unat (img_base ?r) + 4" by (simp add: unat_word_ariths)
    obtain q where "unat (img_base ?r) = 4096 * q" using pg(1) by auto
    then have "(unat (img_base ?r) + 4) mod 4096 = 4" by simp
    then have "lookup_inst e (pl_regions trace) (img_base ?r + 4) =
        Inr (le_word (map (\<lambda>k. m (img_base ?r + 4 + of_nat k)) [0..<4]))"
      using lookup_inst_memory [OF assms(1-5) _ assms(7) r, of "img_base ?r + 4"] assms(6) u big by simp
    moreover have "at_mod (map (\<lambda>r. img_base r + 4) rs) i = Inr (img_base ?r + 4)" using i by (simp add: at_mod_def at_def)
    ultimately show ?thesis by simp
  qed
  from measured_ok [OF this, of iters] show ?thesis by (simp add: BM_lookup_inst_def Let_def rs)
qed

text \<open>Those of a trace all ask for address 0, and the histogram adds the word 0.\<close>

lemma at_mod_zeros: "0 < n \<Longrightarrow> at_mod (replicate n x) i = Inr x"
  by (simp add: at_mod_def at_def)

lemma bench_trace_lookups:
  assumes "pl_num_inst trace \<noteq> 0" and "count_all trace = Inr n"
  shows "BM_lookup_inst_from_trace e trace iters = measured iters (\<lambda>_. lookup_inst e (pl_regions trace) 0)"
proof -
  have "0 < unat (pl_num_inst trace)" using assms(1) by (simp add: unat_gt_0)
  then show ?thesis using assms(2) by (simp add: BM_lookup_inst_from_trace_def at_mod_zeros)
qed

lemma bench_histogram:
  assumes "pl_num_inst trace \<noteq> 0" and "count_all trace = Inr n" and "decodable decode 0"
  shows "\<exists>h. BM_histogram_add decode trace iters = Inr h \<and> hist_after decode (replicate iters 0) h"
proof -
  have pos: "0 < unat (pl_num_inst trace)" using assms(1) by (simp add: unat_gt_0)
  have "\<exists>h. fold_res (\<lambda>i hist. hist_add decode 0 hist) [0..<k] (new_histogram False) = Inr h \<and>
      hist_after decode (replicate k 0) h" for k
  proof (induction k)
    case 0
    then show ?case using hist_after_new by simp
  next
    case (Suc k)
    then obtain h where h: "fold_res (\<lambda>i hist. hist_add decode 0 hist) [0..<k] (new_histogram False) = Inr h"
      "hist_after decode (replicate k 0) h" by blast
    from hist_add_step [OF h(2) _ assms(3)] assms(3) h(1) show ?case
      by (auto simp: fold_res_append replicate_append_same)
  qed
  then show ?thesis using assms(2) pos by (simp add: BM_histogram_add_def at_mod_zeros)
qed

text \<open>
  A loop over the messages of a thread's log visits one more than the header counts: it begins
  at the sync frame, which is stepped over like a message.
\<close>

lemma count_run:
  fixes cur :: buffer
  assumes "msg_size mem p = Inr (length cur)" and "8 \<le> length cur" "has_bytes mem p cur" and "wf_ctx prev" and "encodable_run prev cs"
    and "has_bytes mem (p + length cur) (trace_bytes n z prev cs)" and "e = p + length cur + length (trace_bytes n z prev cs)"
  shows "count_messages mem \<lparr>it_ptr = p, it_end = e\<rparr> \<lparr>it_ptr = e, it_end = e\<rparr> i = Inr (i + 1 + length cs)"
  using assms
proof (induction cs arbitrary: p cur prev n z i)
  case Nil
  then have "iter_next mem \<lparr>it_ptr = p, it_end = e\<rparr> = Inr \<lparr>it_ptr = e, it_end = e\<rparr>" by (simp add: iter_next_def)
  moreover have "p + 8 \<le> length mem" using Nil.prems(2,3) by (auto simp: has_bytes_def)
  moreover have "p \<noteq> e" using Nil.prems(2,7) by auto
  ultimately show ?case
    by (subst count_messages.simps) (simp add: iter_equal_def load_bytes_def sizeof_log_msg_def count_messages.simps)
next
  case (Cons c cs)
  let ?m = "diff_message prev c" and ?due = "z \<ge> sync_every"
  let ?s = "if ?due then sync_bytes n prev else []"
  let ?z = "(if ?due then 0 else z) + of_nat (length (message_bytes ?m))"
  from Cons.prems(5) have enc: "encodable prev c" "wf_ctx c" "encodable_run c cs" by simp_all
  note wf = diff_message_wf [OF enc(1)]
  have tb: "trace_bytes n z prev (c # cs) = ?s @ message_bytes ?m @ trace_bytes (n + 1) ?z c cs" by (simp add: Let_def)
  have h: "has_bytes mem (p + length cur) (?s @ message_bytes ?m)"
    "has_bytes mem (p + length cur + length ?s) (message_bytes ?m)"
    "has_bytes mem (p + length cur + length ?s + length (message_bytes ?m)) (trace_bytes (n + 1) ?z c cs)"
    using Cons.prems(6) unfolding tb by (auto simp: has_bytes_append add.assoc simp del: length_append)
  have el: "p + length cur + length ?s + length (message_bytes ?m) + length (trace_bytes (n + 1) ?z c cs) = e"
    using Cons.prems(7) unfolding tb by simp
  have nx: "iter_next mem \<lparr>it_ptr = p, it_end = e\<rparr> = Inr \<lparr>it_ptr = p + length cur + length ?s, it_end = e\<rparr>"
    by (rule iter_next_message [OF Cons.prems(1) wf Cons.prems(4) h(1)])
      (use el message_bytes_nonempty [of ?m] in linarith)+
  have "8 \<le> length (message_bytes ?m)" by (simp add: length_message_bytes)
  from Cons.IH [OF message_accessors(2) [OF h(2) wf] this h(2) enc(2,3) h(3) el [symmetric], of "i + 1"]
  have "count_messages mem \<lparr>it_ptr = p + length cur + length ?s, it_end = e\<rparr> \<lparr>it_ptr = e, it_end = e\<rparr> (i + 1) =
      Inr (i + 1 + 1 + length cs)" .
  moreover have "p + 8 \<le> length mem" using Cons.prems(2,3) by (auto simp: has_bytes_def)
  moreover have "p \<noteq> e" using Cons.prems(2,7) by auto
  ultimately show ?case
    using nx by (subst count_messages.simps) (simp add: iter_equal_def load_bytes_def sizeof_log_msg_def)
qed

lemma messages_counted:
  assumes c0: "wf_ctx c0" and run: "encodable_run c0 cs"
  defines "bs \<equiv> trace_bytes 0 (sync_every + 1) c0 (c0 # cs)"
  shows "count_messages (bs @ after) \<lparr>it_ptr = 0, it_end = length bs\<rparr> \<lparr>it_ptr = length bs, it_end = length bs\<rparr> i =
    Inr (i + Suc (length (c0 # cs)))"
proof -
  let ?mem = "bs @ after" and ?m = "message_bytes (diff_message c0 c0)"
  have t0: "trace_bytes 0 0 c0 (c0 # cs) = ?m @ trace_bytes 1 (of_nat (length ?m)) c0 cs"
    by (simp add: Let_def sync_every_def)
  have bs: "bs = sync_bytes 0 c0 @ trace_bytes 0 0 c0 (c0 # cs)"
    using trace_first [of 0 c0 cs] unfolding t0 by (simp add: bs_def)
  have all: "has_bytes ?mem 0 (sync_bytes 0 c0 @ trace_bytes 0 0 c0 (c0 # cs))" by (simp add: has_bytes_def bs)
  then have s: "has_bytes ?mem 0 (sync_bytes 0 c0)"
    "has_bytes ?mem (0 + length (sync_bytes 0 c0)) (trace_bytes 0 0 c0 (c0 # cs))" by (simp_all add: has_bytes_append)
  have "8 \<le> length (sync_bytes 0 c0)"
    by (simp add: length_sync_bytes [OF c0] size_full_ctx_def sync_frame_sz_def)
  moreover have "encodable_run c0 (c0 # cs)" using c0 run by (simp add: diff_same)
  moreover have "length bs = 0 + length (sync_bytes 0 c0) + length (trace_bytes 0 0 c0 (c0 # cs))" by (simp only: bs length_append add_0)
  ultimately have "count_messages ?mem \<lparr>it_ptr = 0, it_end = length bs\<rparr> \<lparr>it_ptr = length bs, it_end = length bs\<rparr> i =
      Inr (i + 1 + length (c0 # cs))"
    by (intro count_run [OF sync_accessors(2) [OF s(1) c0] _ s(1) c0 _ s(2)])
  then show ?thesis by simp
qed

end
