(* ===== verification/Programs.thy ===== *)
theory Programs
  imports Benchmarks Signposts Utils
begin

text \<open>
  Small programs: \<^verbatim>\<open>xnu-trace-nanobench\<close>, which runs most of the benchmarks on one trace,
  \<^verbatim>\<open>xnu-trace-mph\<close>, which builds the hash of the numbers in a file, and \<^verbatim>\<open>xnu-fast-timeout\<close>, which
  waits for two time-outs (\<^verbatim>\<open>test/\<close>), and \<^verbatim>\<open>capstone-arm64-enumerate-mem-insn\<close> (\<^verbatim>\<open>tools/\<close>), which lists
  the operations that access memory.
\<close>

section \<open>\<^verbatim>\<open>xnu-trace-nanobench\<close>\<close>

text \<open>\<open>iters\<close> is how often the library runs the body of the benchmark with that number.\<close>

definition nano_lookup_inst :: "hash_lib \<Rightarrow> nat \<Rightarrow> parsed_log \<Rightarrow> u32 list res" where
  "nano_lookup_inst e iters trace =
     (let addrs = map (\<lambda>r. img_base r + 4) (mr_regions (pl_regions trace))
      in measured iters (\<lambda>i. and_then (at_mod addrs i) (lookup_inst e (pl_regions trace))))"

definition nano_lookup_inst_from_trace :: "hash_lib \<Rightarrow> nat \<Rightarrow> parsed_log \<Rightarrow> u32 list res" where
  "nano_lookup_inst_from_trace e iters trace =
     (let addrs = replicate (unat (pl_num_inst trace)) 0 in
      and_then (count_all trace) (\<lambda>_.
      measured iters (\<lambda>i. and_then (at_mod addrs i) (lookup_inst e (pl_regions trace)))))"

definition nano_histogram_add :: "(u32 \<Rightarrow> u32 option) \<Rightarrow> nat \<Rightarrow> parsed_log \<Rightarrow> histogram res" where
  "nano_histogram_add decode iters trace =
     (let instrs = replicate (unat (pl_num_inst trace)) 0 in
      and_then (count_all trace) (\<lambda>_.
      fold_res (\<lambda>i hist. and_then (at_mod instrs i) (\<lambda>instr. hist_add decode instr hist)) [0..<iters] (new_histogram False)))"

definition nano_xxhash64 :: "hash_lib \<Rightarrow> nat \<Rightarrow> u64 list" where
  "nano_xxhash64 e iters = map (\<lambda>i. xxhash_64 e (of_nat i) (of_nat i * 7)) [0..<iters]"

definition nano_xxhash3_64 :: "hash_lib \<Rightarrow> nat \<Rightarrow> u64 list" where
  "nano_xxhash3_64 e iters = map (\<lambda>i. xxhash3_64 e (of_nat i) (of_nat i * 7)) [0..<iters]"

definition nano_jevhash_64 :: "hash_lib \<Rightarrow> nat \<Rightarrow> u64 list" where
  "nano_jevhash_64 e iters = map (\<lambda>i. jevhash_64 e (of_nat i) (of_nat i * 7)) [0..<iters]"

definition nano_jevhash_32 :: "hash_lib \<Rightarrow> nat \<Rightarrow> u32 list" where
  "nano_jevhash_32 e iters = map (\<lambda>i. jevhash_32 e (of_nat i) (of_nat i * 7)) [0..<iters]"

definition nano_commpage_time_seconds :: "(nat \<Rightarrow> u64 \<Rightarrow> u64) \<Rightarrow> nat \<Rightarrow> u64 list" where
  "nano_commpage_time_seconds page iters = map (\<lambda>i. xnu_commpage_time_seconds (page i)) [0..<iters]"

definition nano_clock :: "(nat \<Rightarrow> u64) \<Rightarrow> nat \<Rightarrow> u64 list" where
  "nano_clock clock iters = map clock [0..<iters]"

text \<open>What each benchmark computed, in the order they run.\<close>

record nano_results =
  even_words :: "u32 list"
  trace_words :: "u32 list"
  added :: histogram
  hashed_64 :: "u64 list list"
  hashed_32 :: "u32 list"
  clocks :: "u64 list list"

definition nanobench_main ::
    "hash_lib \<Rightarrow> (u32 \<Rightarrow> u32 option) \<Rightarrow> (nat \<Rightarrow> u64 \<Rightarrow> u64) \<Rightarrow> (nat \<Rightarrow> u64) \<Rightarrow> (nat \<Rightarrow> u64) \<Rightarrow> (nat \<Rightarrow> nat) \<Rightarrow>
       parsed_log res \<Rightarrow> (int \<times> nano_results) res" where
  "nanobench_main e decode page absolute approximate iters read_trace =
     and_then read_trace (\<lambda>trace.
     and_then (nano_lookup_inst e (iters 0) trace) (\<lambda>even.
     and_then (nano_lookup_inst_from_trace e (iters 1) trace) (\<lambda>dist.
     and_then (nano_histogram_add decode (iters 2) trace) (\<lambda>hist.
     Inr (0, \<lparr>even_words = even, trace_words = dist, added = hist,
              hashed_64 = [nano_xxhash64 e (iters 3), nano_xxhash3_64 e (iters 4), nano_jevhash_64 e (iters 5)],
              hashed_32 = nano_jevhash_32 e (iters 6),
              clocks = [nano_commpage_time_seconds page (iters 7), nano_clock absolute (iters 8), nano_clock approximate (iters 9)]\<rparr>)))))"

section \<open>\<^verbatim>\<open>xnu-trace-mph\<close>\<close>

text \<open>
  \<^verbatim>\<open>main\<close> with one argument.  The moments at which it reads the clock are numbered; \<open>this\<close> are the
  addresses of the two intervals, \<open>ind\<close> what their start times hold before, \<open>now\<close> and \<open>ratio\<close> the
  texts that are formatted.
\<close>

definition MPH_category :: buffer where "MPH_category = ascii ''mph''"

definition mph_main ::
    "'l os_lib \<Rightarrow> (real \<Rightarrow> real) \<Rightarrow> timebase option \<Rightarrow> hash_lib \<Rightarrow> nat \<Rightarrow> (nat \<Rightarrow> u64 \<Rightarrow> u64) \<Rightarrow> (nat \<Rightarrow> u64) \<Rightarrow> (nat \<Rightarrow> u64) \<Rightarrow>
       buffer \<Rightarrow> (nat \<Rightarrow> u64 \<Rightarrow> buffer) \<Rightarrow> buffer option \<Rightarrow> 'l posted \<Rightarrow> (int \<times> mph \<times> 'l posted) res" where
  "mph_main m rnd info e timer page this ind now ratio file w =
     (let (_, w) = Signpost m (this 0) (ind 0) MPH_category (ascii ''read file start'') True (ascii ''time: '' @ now) w;
          (load_sp, w) = Signpost m (this 1) (ind 1) MPH_category (ascii ''loading'') False [] w in
      and_then (signpost_start (page 0) [] load_sp w) (\<lambda>(load_sp, w).
      and_then (read_file file) (\<lambda>buf.
      let nkeys = length buf div 8 in
      and_then (map_res (\<lambda>i. load buf (i * 8)) [0..<nkeys]) (\<lambda>keys.
      and_then (signpost_end_cb rnd info None (page 1) (\<lambda>ns. Inr (ratio (length buf) ns)) load_sp w) (\<lambda>(w, _).
      let (build_sp, w) = Signpost m (this 2) (ind 2) MPH_category (ascii ''building'') False [] w in
      and_then (signpost_start (page 2) [] build_sp w) (\<lambda>(build_sp, w).
      and_then (mph_build e timer mph_empty keys) (\<lambda>mph.
      and_then (signpost_end [] build_sp w) (\<lambda>w. Inr (0, mph, w)))))))))"

section \<open>\<^verbatim>\<open>xnu-fast-timeout\<close>\<close>

text \<open>
  The first loop turns at most 25 times, a quarter of a second each, until its time-out is done;
  in the second the callback of the time-out is an assertion that fails.  The clock is read at
  numbered moments; the result is the number of turns of the first loop.
\<close>

primrec done_loop :: "(nat \<Rightarrow> u64 \<Rightarrow> u64) \<Rightarrow> fast_timeout \<Rightarrow> nat \<Rightarrow> nat \<Rightarrow> nat" where
  "done_loop page t 0 i = i"
| "done_loop page t (Suc left) i = (if timeout_done (page i) t then i else done_loop page t left (i + 1))"

definition check_loop :: "(nat \<Rightarrow> u64 \<Rightarrow> u64) \<Rightarrow> fast_timeout \<Rightarrow> unit res" where
  "check_loop page t = fold_res (\<lambda>i _. timeout_check (page i) (assert_that False) t) [0..<25] ()"

definition fast_timeout_main ::
    "(real \<Rightarrow> real) \<Rightarrow> timebase option \<Rightarrow> (u64 \<Rightarrow> u64) \<Rightarrow> (nat \<Rightarrow> u64 \<Rightarrow> u64) \<Rightarrow> (u64 \<Rightarrow> u64) \<Rightarrow> (nat \<Rightarrow> u64 \<Rightarrow> u64) \<Rightarrow> (int \<times> nat) res" where
  "fast_timeout_main rnd info start1 page1 start2 page2 =
     and_then (XNUFastTimeout rnd info 1000000000 start1) (\<lambda>t1.
     let turns = done_loop page1 t1 25 0 in
     and_then (XNUFastTimeout rnd info 1000000000 start2) (\<lambda>t2.
     and_then (check_loop page2 t2) (\<lambda>_. Inr (0, turns))))"

section \<open>\<^verbatim>\<open>capstone-arm64-enumerate-mem-insn\<close>\<close>

text \<open>
  The two disassemblers are parameters: \<open>decompose\<close> is None where the first does not decode the
  word, \<open>disasm\<close> the instructions the second makes of it, each with its operands, true for one
  of memory.  The loop runs over the words below \<open>limit\<close>, which is \<open>2^32\<close>.
\<close>

definition mem_opcode ::
    "(u32 \<Rightarrow> 'i option) \<Rightarrow> (u32 \<Rightarrow> bool list list) \<Rightarrow> ('i \<Rightarrow> 'o::linorder) \<Rightarrow> u32 \<Rightarrow> 'o set \<Rightarrow> 'o set res" where
  "mem_opcode decompose disasm get_operation instr mem_opc =
     (case decompose instr of
        None \<Rightarrow> Inr mem_opc
      | Some inst_repr \<Rightarrow>
          let insns = disasm instr in
          and_then (assert_that (length insns = 0 \<or> length insns = 1)) (\<lambda>_.
          if length insns = 0 then Inr mem_opc
          else if True \<in> set (hd insns) then Inr (insert (get_operation inst_repr) mem_opc)
          else Inr mem_opc))"

definition enumerate_mem_insn ::
    "(u32 \<Rightarrow> 'i option) \<Rightarrow> (u32 \<Rightarrow> bool list list) \<Rightarrow> ('i \<Rightarrow> 'o::linorder) \<Rightarrow> nat \<Rightarrow> 'o list res" where
  "enumerate_mem_insn decompose disasm get_operation limit =
     and_then (fold_res (\<lambda>instr64. mem_opcode decompose disasm get_operation (of_nat instr64)) [0..<limit] {}) (\<lambda>mem_opc.
     Inr (sorted_list_of_set mem_opc))"

section \<open>What the programs do\<close>

text \<open>\<^verbatim>\<open>nanobench\<close> measures what \<^verbatim>\<open>bench\<close> does, but for the hash whose counter stands still there.\<close>

lemma nano_measures:
  "nano_lookup_inst e iters trace = BM_lookup_inst e trace iters"
  "nano_lookup_inst_from_trace e iters trace = BM_lookup_inst_from_trace e trace iters"
  "nano_histogram_add decode iters trace = BM_histogram_add decode trace iters"
  "nano_xxhash64 e iters = BM_xxhash64 e iters \<longleftrightarrow> (\<forall>i < iters. xxhash_64 e (of_nat i) (of_nat i * 7) = xxhash_64 e 0 0)"
  by (auto simp: nano_lookup_inst_def BM_lookup_inst_def nano_lookup_inst_from_trace_def BM_lookup_inst_from_trace_def
      nano_histogram_add_def BM_histogram_add_def nano_xxhash64_def BM_xxhash64_def)

text \<open>It needs a trace with instructions and regions: on others the first measured body reads out of bounds.\<close>

lemma nanobench_needs_instructions:
  assumes "read_trace = Inr trace" and "pl_num_inst trace = 0 \<or> mr_regions (pl_regions trace) = []" and "0 < iters 0" and "0 < iters 1"
  shows "\<exists>er. nanobench_main e decode page absolute approximate iters read_trace = Inl er"
proof -
  have first: "\<exists>er. measured n (\<lambda>i. and_then (at_mod [] i) f) = Inl er" if "0 < n" for n and f :: "u64 \<Rightarrow> u32 res"
  proof -
    have "[0..<n] = 0 # [1..<n]" using that by (simp add: upt_conv_Cons)
    then show ?thesis by (simp add: measured_def at_mod_def at_def)
  qed
  show ?thesis
  proof (cases "mr_regions (pl_regions trace) = []")
    case True
    obtain er where "measured (iters 0) (\<lambda>i. and_then (at_mod [] i) (lookup_inst e (pl_regions trace))) = Inl er"
      using first [OF assms(3)] by blast
    with True assms(1) show ?thesis by (simp add: nanobench_main_def nano_lookup_inst_def)
  next
    case False
    then have n: "pl_num_inst trace = 0" using assms(2) by simp
    obtain er where "measured (iters 1) (\<lambda>i. and_then (at_mod [] i) (lookup_inst e (pl_regions trace))) = Inl er"
      using first [OF assms(4)] by blast
    then have "\<exists>er. nano_lookup_inst_from_trace e (iters 1) trace = Inl er"
      using n by (cases "count_all trace") (simp_all add: nano_lookup_inst_from_trace_def)
    then show ?thesis using assms(1) by (cases "nano_lookup_inst e (iters 0) trace") (auto simp: nanobench_main_def)
  qed
qed

text \<open>The program builds the hash of the numbers the file holds, whether the signposts are enabled or not.\<close>

lemma mph_main_builds:
  assumes "keys \<noteq> []" and conv: "\<And>n. \<exists>ns tb. xnu_commpage_time_atus_to_ns rnd info None n = Inr (ns, tb)"
  shows "\<exists>w'. mph_main m rnd info e timer page this ind now ratio (Some (concat (map (le_bytes 8) keys))) w =
    and_then (mph_build e timer mph_empty keys) (\<lambda>mph. Inr (0, mph, w'))"
proof -
  let ?buf = "concat (map (le_bytes 8) keys)"
  obtain sp0 w0 where 0: "Signpost m (this 0) (ind 0) MPH_category (ascii ''read file start'') True (ascii ''time: '' @ now) w = (sp0, w0)"
    by fastforce
  obtain sp1 w1 where 1: "Signpost m (this 1) (ind 1) MPH_category (ascii ''loading'') False [] w0 = (sp1, w1)" by fastforce
  from interval_posts [OF 1, of "page 0" "[]"] obtain sp1' w2 where 2: "signpost_start (page 0) [] sp1 w1 = Inr (sp1', w2)" by blast
  have n: "read_file (Some ?buf) = Inr ?buf" "map_res (\<lambda>i. load ?buf (i * 8)) [0..<length ?buf div 8] = Inr keys"
    using numbers_round_trip [OF assms(1)]
    by (auto simp: read_numbers_from_file_def res_simps read_file_def assert_some_def simp del: length_concat)
  obtain ns tb where ns: "xnu_commpage_time_atus_to_ns rnd info None (xnu_commpage_time_atus (page 1) - sp_start_atus sp1') = Inr (ns, tb)"
    using conv by blast
  obtain w3 where w3: "signpost_end (ratio (length ?buf) ns) sp1' w2 = Inr w3"
    using interval_posts [OF 1, of "page 0" "[]" "ratio (length ?buf) ns"] 2 by auto
  obtain sp2 w4 where 4: "Signpost m (this 2) (ind 2) MPH_category (ascii ''building'') False [] w3 = (sp2, w4)" by fastforce
  from interval_posts [OF 4, of "page 2" "[]" "[]"] obtain sp2' w5 w6 where 5: "signpost_start (page 2) [] sp2 w4 = Inr (sp2', w5)"
    "signpost_end [] sp2' w5 = Inr w6" by blast
  show ?thesis
    using 0 1 2 n ns w3 4 5 by (intro exI [of _ w6]) (simp add: mph_main_def Let_def signpost_end_cb_def del: length_concat)
qed

text \<open>
  The loops of \<^verbatim>\<open>xnu-fast-timeout\<close>: the first stops at the first moment its time-out is done; the
  second passes only when none of the 25 checks comes too late.
\<close>

lemma done_loop_stops:
  "done_loop page t left i = (case List.find (\<lambda>j. timeout_done (page j) t) [i..<i + left] of None \<Rightarrow> i + left | Some j \<Rightarrow> j)"
proof (induction left arbitrary: i)
  case (Suc left)
  have "[i..<i + Suc left] = i # [i + 1..<(i + 1) + left]" by (simp add: upt_rec [of i])
  then show ?case using Suc.IH [of "i + 1"] by (simp del: upt_Suc split: option.split)
qed simp

lemma check_loop_passes:
  "check_loop page t = (if \<exists>i < 25. timeout_done (page i) t then Inl Assertion_Failed else Inr ())"
proof -
  have "fold_res (\<lambda>i _. timeout_check (page i) (assert_that False) t) is () =
      (if \<exists>i \<in> set is. timeout_done (page i) t then Inl Assertion_Failed else Inr ())" for "is"
    by (induction "is") (auto simp: timeout_check_done assert_that_def)
  from this [of "[0..<25]"] show ?thesis unfolding check_loop_def by auto
qed

text \<open>A second that goes by before the last check ends the program by the assertion in its callback.\<close>

lemma fast_timeout_fires:
  assumes "rounds rnd" and "numer tb \<noteq> 0" and "0 \<le> ticks rnd tb 1000000000"
    and one: "one = int (unat (xnu_commpage_time_atus start1))" "one + \<lceil>ticks rnd tb 1000000000\<rceil> \<le> 2 ^ 53"
    and two: "two = int (unat (xnu_commpage_time_atus start2))" "two + \<lceil>ticks rnd tb 1000000000\<rceil> \<le> 2 ^ 53"
    and late: "two + \<lceil>ticks rnd tb 1000000000\<rceil> \<le> int (unat (xnu_commpage_time_atus (page2 24)))"
  shows "fast_timeout_main rnd (Some tb) start1 page1 start2 page2 = Inl Assertion_Failed"
proof -
  obtain t1 where t1: "XNUFastTimeout rnd (Some tb) 1000000000 start1 = Inr t1"
    using deadline_set [OF assms(1,2) one(1) assms(3) one(2)] by blast
  obtain t2 where t2: "XNUFastTimeout rnd (Some tb) 1000000000 start2 = Inr t2"
    and d: "int (unat (m_end_deadline t2)) \<le> two + \<lceil>ticks rnd tb 1000000000\<rceil>"
    using deadline_set [OF assms(1,2) two(1) assms(3) two(2)] by blast
  have "m_end_deadline t2 \<le> xnu_commpage_time_atus (page2 24)"
    using d late by (simp add: word_le_def)
  then have "\<exists>i < 25. timeout_done (page2 i) t2" by (intro exI [of _ 24]) (simp add: timeout_done_def)
  then show ?thesis using t1 t2 check_loop_passes [of page2 t2] by (simp add: fast_timeout_main_def)
qed

text \<open>The enumeration prints each operation once, in order: those of the words that both
  disassemblers decode and that have an operand in memory.\<close>

lemma enumerated:
  assumes "\<And>i. length (disasm i) \<le> 1"
  shows "enumerate_mem_insn decompose disasm get_operation limit =
    Inr (sorted_list_of_set {get_operation r | r i ops. i < limit \<and> decompose (of_nat i) = Some r \<and> disasm (of_nat i) = [ops] \<and> True \<in> set ops})"
proof -
  let ?S = "\<lambda>n. {get_operation r | r i ops. i < n \<and> decompose (of_nat i) = Some r \<and> disasm (of_nat i) = [ops] \<and> True \<in> set ops}"
  have one: "mem_opcode decompose disasm get_operation w S =
      Inr (S \<union> {get_operation r | r ops. decompose w = Some r \<and> disasm w = [ops] \<and> True \<in> set ops})" for w S
    using assms [of w] by (cases "disasm w") (auto simp: mem_opcode_def assert_that_def split: option.split)
  have "fold_res (\<lambda>instr64. mem_opcode decompose disasm get_operation (of_nat instr64)) [0..<n] {} = Inr (?S n)" for n
  proof (induction n)
    case (Suc n)
    have "?S (Suc n) = ?S n \<union> {get_operation r | r ops. decompose (of_nat n) = Some r \<and> disasm (of_nat n) = [ops] \<and> True \<in> set ops}"
      by (auto simp: less_Suc_eq)
    then show ?case using Suc by (simp add: fold_res_append one)
  qed simp
  then show ?thesis by (simp add: enumerate_mem_insn_def)
qed

end
