(* ===== verification/Statistics.thy ===== *)
theory Statistics
  imports Streaming TracerProps
begin

text \<open>
  The numbers that are printed at the end of a trace: by the tracer's destructor
  (\<^verbatim>\<open>XNUTracer.cpp\<close>), by the destructor of a verbose file (\<^verbatim>\<open>CompressedFile.cpp\<close>) and by \<^verbatim>\<open>stats\<close> of
  the hash (\<^verbatim>\<open>MinimalPerfectHash.cpp\<close>).  A double is a real with a rounding; a quotient by zero,
  which is infinite or not a number, is None.  How a number is printed is left out.
\<close>

definition over :: "(real \<Rightarrow> real) \<Rightarrow> real \<Rightarrow> real \<Rightarrow> real option" where
  "over rnd a b = (if b = 0 then None else Some (rnd (a / b)))"

definition double_of :: "(real \<Rightarrow> real) \<Rightarrow> u64 \<Rightarrow> real" where
  "double_of rnd n = rnd (of_nat (unat n))"

section \<open>The bytes of a log\<close>

text \<open>\<^verbatim>\<open>num_bytes\<close> of a log that may be streamed; a context without a stream has none to ask.\<close>

definition stream_num_bytes :: "('c, 'd) stream_log \<Rightarrow> u64 res" where
  "stream_num_bytes lg =
     fold_res (\<lambda>(tid, c) sz.
        if \<not> sl_stream lg then Inr (sz + of_nat (length (sc_log_buf c)))
        else case sc_log_stream c of None \<Rightarrow> Inl Out_Of_Bounds | Some f \<Rightarrow> Inr (sz + cf_decomp_size f))
       (m_key_vals (sl_thread_ctxs lg)) 0"

text \<open>It is the same for a streamed log as for the one in memory.\<close>

lemma stream_num_bytes_refines:
  assumes "log_rel cinv level lg sl"
  shows "stream_num_bytes sl = Inr (of_nat (trace_log_num_bytes lg))"
proof -
  have "fold_res (\<lambda>(tid, c) sz. case sc_log_stream c of None \<Rightarrow> Inl Out_Of_Bounds | Some f \<Rightarrow> Inr (sz + cf_decomp_size f)) qs sz =
      Inr (sz + of_nat (sum_list (map (\<lambda>(tid, c). case log_stream c of None \<Rightarrow> length (log_buf c) | Some s \<Rightarrow> length s) ps)))"
    if "list_all2 (thread_rel cinv level) ps qs" for ps qs and sz :: u64
    using that
    by (induction arbitrary: sz rule: list_all2_induct) (auto simp: thread_rel_def writing_def)
  note sum = this [of "m_key_vals (m_thread_ctxs lg)" "m_key_vals (sl_thread_ctxs sl)" 0, simplified add_0]
  from assms sum show ?thesis by (simp add: log_rel_def entries_rel_def stream_num_bytes_def trace_log_num_bytes_def case_prod_unfold)
qed

section \<open>The tracer\<close>

record tracer_statistics =
  ninst :: u64
  elapsed :: real
  ninst_per_sec :: "real option"
  ncsw_target :: u64
  ncsw_self :: u64
  ncsw_total :: u64
  ncsw_per_sec_target :: "real option"
  ncsw_per_sec_self :: "real option"
  ncsw_per_sec_total :: "real option"
  nbytes :: u64
  bytes_per_inst :: "real option"
  bytes_per_sec :: "real option"

definition tracer_statistics_of :: "(real \<Rightarrow> real) \<Rightarrow> u64 \<Rightarrow> 'k tracer \<Rightarrow> tracer_statistics" where
  "tracer_statistics_of rnd bytes tr =
     (let n = m_num_inst (m_log tr); secs = m_elapsed_time tr;
          self = m_self_total_csw tr; target = m_target_total_csw tr; total = self + target
      in \<lparr>ninst = n, elapsed = secs, ninst_per_sec = over rnd (double_of rnd n) secs,
          ncsw_target = target, ncsw_self = self, ncsw_total = total,
          ncsw_per_sec_target = over rnd (double_of rnd target) secs,
          ncsw_per_sec_self = over rnd (double_of rnd self) secs,
          ncsw_per_sec_total = over rnd (double_of rnd total) secs,
          nbytes = bytes, bytes_per_inst = over rnd (double_of rnd bytes) (double_of rnd n),
          bytes_per_sec = over rnd (double_of rnd bytes) secs\<rparr>)"

text \<open>
  The destructor stops measuring before it asks for the numbers.  A tracer that has never
  measured, as one under the control pipe whose program never asked, has no rate to print.
\<close>

lemma unmeasured_rates:
  assumes "\<not> m_measuring_stats tr" and "m_elapsed_time tr = 0" and "stop_measuring_stats m tr = Inr tr'"
    and "st = tracer_statistics_of rnd bytes tr'"
  shows "ninst_per_sec st = None \<and> ncsw_per_sec_target st = None \<and> ncsw_per_sec_self st = None \<and>
    ncsw_per_sec_total st = None \<and> bytes_per_sec st = None"
  using assms by (simp add: stop_measuring_stats_def tracer_statistics_of_def over_def Let_def)

text \<open>After one session of the pipe the rates are those over the interval that was measured.\<close>

lemma session_rates:
  assumes "m_elapsed_time tr' = k_round m (m_elapsed_time tr + d)" and "0 < m_elapsed_time tr'"
  shows "ninst_per_sec (tracer_statistics_of rnd bytes tr') =
    Some (rnd (double_of rnd (m_num_inst (m_log tr')) / k_round m (m_elapsed_time tr + d)))"
  using assms by (simp add: tracer_statistics_of_def over_def Let_def)

section \<open>Files\<close>

text \<open>What a file that was written prints when it is closed; \<open>f\<close> is the file after its last write, \<open>bytes\<close> all of it.\<close>

record file_statistics =
  decomp_sz :: u64
  comp_sz :: u64
  ratio_percent :: "real option"
  decomp_per_disk_op :: real
  decomp_per_zstd_op :: real
  comp_per_disk_op :: real
  comp_per_zstd_op :: real

definition per_op :: "(real \<Rightarrow> real) \<Rightarrow> u64 \<Rightarrow> u64 \<Rightarrow> real" where
  "per_op rnd sz ops = (if ops \<noteq> 0 then rnd (double_of rnd sz / double_of rnd ops) else 0)"

definition file_statistics_of :: "(real \<Rightarrow> real) \<Rightarrow> buffer \<Rightarrow> ('c, 'd) comp_file \<Rightarrow> file_statistics" where
  "file_statistics_of rnd bytes f =
     (let d = cf_decomp_size f; c = of_nat (length bytes) - of_nat (sizeof_comp_hdr + length (cf_hdr_buf f))
      in \<lparr>decomp_sz = d, comp_sz = c,
          ratio_percent = map_option (\<lambda>x. rnd (x * 100)) (over rnd (double_of rnd c) (double_of rnd d)),
          decomp_per_disk_op = per_op rnd d (cf_num_disk_ops f), decomp_per_zstd_op = per_op rnd d (cf_num_zstd_ops f),
          comp_per_disk_op = per_op rnd c (cf_num_disk_ops f), comp_per_zstd_op = per_op rnd c (cf_num_zstd_ops f)\<rparr>)"

text \<open>The compressed size is that of the body; of a file that is not compressed it is what was written.\<close>

lemma body_counted:
  assumes "cf_close z fuel f = Inr bytes" and "writing cinv h hdr False i f" and "hdr \<noteq> []" and "f' = f"
  shows "comp_sz (file_statistics_of rnd bytes f') = decomp_sz (file_statistics_of rnd bytes f')"
proof -
  have w: "cf_comp_ctx f = None" "body (comp_hdr_bytes h @ hdr) i f" "cf_hdr_buf f = hdr" "\<not> cf_is_read f"
    "cf_hdr_sz f = of_nat (length hdr)" "cf_decomp_size f = of_nat (length i)"
    using assms(2) by (auto simp: writing_def split: option.splits)
  from close_bytes [OF w(2) _ assms(3) w(4,5,1), of z fuel] w(3) assms(1)
  have "bytes = comp_hdr_bytes (h\<lparr>comp_decompressed_size := cf_decomp_size f\<rparr>) @ hdr @ i" by simp
  then show ?thesis using w assms(4) by (simp add: file_statistics_of_def Let_def comp_hdr_bytes_def sizeof_comp_hdr_def)
qed

section \<open>The hash\<close>

text \<open>The largest salt, which an empty hash does not have, and how many salts are 0.\<close>

record hash_statistics =
  max_d :: int
  num_empty :: nat
  empty_percent :: "real option"

definition mph_stats :: "(real \<Rightarrow> real) \<Rightarrow> mph \<Rightarrow> hash_statistics res" where
  "mph_stats rnd m =
     (if m_salts m = [] then Inl Out_Of_Bounds
      else let n = length (filter (\<lambda>s. s = 0) (m_salts m))
        in Inr \<lparr>max_d = Max (set (map sint (m_salts m))), num_empty = n,
                empty_percent = over rnd (rnd (of_nat n * 100)) (of_nat (unat (m_nkeys m)))\<rparr>)"

lemma mph_stats_bounds:
  assumes "m_salts m \<noteq> []" and "length (m_salts m) = unat (m_nkeys m)"
  shows "\<exists>st. mph_stats rnd m = Inr st \<and> num_empty st \<le> unat (m_nkeys m) \<and> max_d st < 2 ^ 31 \<and>
    (\<forall>s \<in> set (m_salts m). sint s \<le> max_d st) \<and> empty_percent st \<noteq> None"
proof -
  have "sint (s :: 32 word) < 2 ^ 31" for s using sint_lt [of s] by simp
  then have "Max (set (map sint (m_salts m))) < 2 ^ 31" using assms(1) by (subst Max_less_iff) auto
  moreover have "length (filter (\<lambda>s. s = 0) (m_salts m)) \<le> unat (m_nkeys m)"
    unfolding assms(2) [symmetric] by (rule length_filter_le)
  moreover have "unat (m_nkeys m) \<noteq> 0" using assms by (metis length_0_conv)
  then have "(of_nat (unat (m_nkeys m)) :: real) \<noteq> 0" by (simp only: of_nat_eq_0_iff not_False_eq_True)
  ultimately show ?thesis using assms(1) by (simp add: mph_stats_def over_def Let_def)
qed

text \<open>For the hash of no keys, which can be built, the largest salt does not exist.\<close>

lemma empty_stats: "mph_stats rnd mph_empty = Inl Out_Of_Bounds"
  by (simp add: mph_stats_def mph_empty_def)

end
